(* ===== verification/Prelude.thy ===== *)
theory Prelude
  imports Main "HOL-Library.Word" "HOL-Library.Char_ord" "HOL-Library.List_Lexorder"
begin

text \<open>
  Shared vocabulary of the development. The commands modelled here are C programs over
  NUL-terminated byte strings: a C string is a list of characters without its terminator,
  and a pointer into it is the suffix that starts there, so reading through the pointer is
  \<open>deref\<close> (the terminator on the empty suffix) and stepping it is \<open>tl\<close>. The
  theory also holds the character classes of the sources' macros, the string order of
  \<open>strcmp\<close>, decimal printing as \<open>sprintf\<close> does it, and the collections that
  gather the facts the component proofs share.
\<close>

named_theorems cstr_simps \<open>facts on reading C strings\<close>
named_theorems digit_simps \<open>facts on decimal digits\<close>

unbundle bit_operations_syntax

subsection \<open>C strings\<close>

type_synonym cstr = "char list"

abbreviation NUL :: char where "NUL \<equiv> CHR 0x00"
abbreviation NL :: char where "NL \<equiv> CHR 0x0A"
abbreviation TAB :: char where "TAB \<equiv> CHR 0x09"
abbreviation SPC :: char where "SPC \<equiv> CHR 0x20"
abbreviation BSLASH :: char where "BSLASH \<equiv> CHR 0x5C"

definition cstr :: "cstr \<Rightarrow> bool" where
  "cstr s \<longleftrightarrow> NUL \<notin> set s"

definition deref :: "cstr \<Rightarrow> char" where
  "deref s = (case s of [] \<Rightarrow> NUL | c # _ \<Rightarrow> c)"

lemma deref_simps [simp, cstr_simps]:
  "deref [] = NUL" "deref (c # s) = c"
  by (simp_all add: deref_def)

lemma cstr_cases_simps [simp, cstr_simps]:
  "cstr []" "cstr (c # s) \<longleftrightarrow> c \<noteq> NUL \<and> cstr s" "cstr (s @ t) \<longleftrightarrow> cstr s \<and> cstr t"
  by (auto simp: cstr_def)

lemma deref_NUL: "cstr s \<Longrightarrow> deref s = NUL \<longleftrightarrow> s = []"
  by (cases s) auto

lemma cstr_tl: "cstr s \<Longrightarrow> cstr (tl s)"
  by (cases s) auto

lemma cstr_dropWhile: "cstr s \<Longrightarrow> cstr (dropWhile P s)"
  by (auto simp: cstr_def dest: set_dropWhileD)

lemma length_dropWhile_le [intro]: "length (dropWhile P s) \<le> length s"
  by (rule length_dropWhile_le)

text \<open>The macro \<open>NONBLANK\<close> of \<open>cmd/sccs/hdr/macros.h\<close>.\<close>

definition NONBLANK :: "cstr \<Rightarrow> cstr" where
  "NONBLANK s = dropWhile (\<lambda>c. c = SPC \<or> c = TAB) s"

lemma NONBLANK_simps [simp, cstr_simps]:
  "NONBLANK [] = []"
  "NONBLANK (c # s) = (if c = SPC \<or> c = TAB then NONBLANK s else c # s)"
  by (simp_all add: NONBLANK_def)

lemma length_NONBLANK: "length (NONBLANK s) \<le> length s"
  by (simp add: NONBLANK_def length_dropWhile_le)

subsection \<open>Characters\<close>

definition chr :: "nat \<Rightarrow> char" where
  "chr n = char_of n"

definition ord :: "char \<Rightarrow> nat" where
  "ord c = of_char c"

lemma ord_chr [simp]: "n < 256 \<Longrightarrow> ord (chr n) = n"
  by (simp add: ord_def chr_def)

lemma chr_ord [simp]: "chr (ord c) = c"
  by (simp add: ord_def chr_def)

lemma ord_less [simp]: "ord c < 256"
  by (simp add: ord_def)

lemma ord_inject [simp]: "ord c = ord d \<longleftrightarrow> c = d"
  by (simp add: ord_def)

text \<open>The macro \<open>numeric\<close> of \<open>cmd/sccs/hdr/macros.h\<close>.\<close>

definition numeric :: "char \<Rightarrow> bool" where
  "numeric c \<longleftrightarrow> ord (CHR ''0'') \<le> ord c \<and> ord c \<le> ord (CHR ''9'')"

definition digit_val :: "char \<Rightarrow> nat" where
  "digit_val c = ord c - ord (CHR ''0'')"

definition digit_char :: "nat \<Rightarrow> char" where
  "digit_char d = chr (48 + d)"

lemma ord_0 [simp]: "ord (CHR ''0'') = 48" and ord_9 [simp]: "ord (CHR ''9'') = 57"
  by (simp_all add: ord_def)

lemma numeric_digit_char [simp, digit_simps]: "d < 10 \<Longrightarrow> numeric (digit_char d)"
  by (simp add: numeric_def digit_char_def)

lemma digit_val_char [simp, digit_simps]: "d < 10 \<Longrightarrow> digit_val (digit_char d) = d"
  by (simp add: digit_val_def digit_char_def)

lemma digit_char_val [simp, digit_simps]: "numeric c \<Longrightarrow> digit_char (digit_val c) = c"
  by (simp add: digit_val_def digit_char_def numeric_def)

lemma digit_val_less: "numeric c \<Longrightarrow> digit_val c < 10"
  by (auto simp: digit_val_def numeric_def)

lemma numeric_ne [simp, digit_simps]:
  "\<not> numeric NUL" "\<not> numeric SPC" "\<not> numeric TAB" "\<not> numeric NL"
  "\<not> numeric (CHR ''.'')" "\<not> numeric (CHR ''/'')" "\<not> numeric (CHR '':'')"
  "\<not> numeric (CHR '','')" "\<not> numeric (CHR ''-'')"
  by (simp_all add: numeric_def ord_def)

lemma digit_char_ne [simp, digit_simps]:
  assumes "d < 10"
  shows "digit_char d \<noteq> NUL" "digit_char d \<noteq> SPC" "digit_char d \<noteq> TAB" "digit_char d \<noteq> NL"
    "digit_char d \<noteq> CHR ''/''" "digit_char d \<noteq> CHR '':''" "digit_char d \<noteq> CHR ''.''"
  using numeric_digit_char [OF assms] by (auto simp del: numeric_digit_char)

subsection \<open>Decimal printing\<close>

text \<open>\<open>sprintf("%d")\<close> of a non-negative number: no leading zeros.\<close>

fun print_dec :: "nat \<Rightarrow> cstr" where
  "print_dec n = (if n < 10 then [digit_char n] else print_dec (n div 10) @ [digit_char (n mod 10)])"

declare print_dec.simps [simp del]

lemma print_dec_nonempty [simp]: "print_dec n \<noteq> []"
  by (subst print_dec.simps) simp

lemma print_dec_numeric: "c \<in> set (print_dec n) \<Longrightarrow> numeric c"
proof (induction n rule: print_dec.induct)
  case (1 n)
  then show ?case
    by (cases "n < 10") (auto simp: print_dec.simps [of n])
qed

lemma cstr_print_dec [simp, cstr_simps]: "cstr (print_dec n)"
  using print_dec_numeric [of NUL n] by (auto simp: cstr_def)

lemma print_dec_hd: obtains d where "d < 10" "hd (print_dec n) = digit_char d"
proof -
  have "numeric (hd (print_dec n))"
    by (rule print_dec_numeric [of _ n]) simp
  with that [of "digit_val (hd (print_dec n))"] show ?thesis
    by (simp add: digit_val_less)
qed

text \<open>The value of a digit string, most significant digit first.\<close>

definition dec_val :: "cstr \<Rightarrow> nat" where
  "dec_val s = foldl (\<lambda>a c. a * 10 + digit_val c) 0 s"

lemma dec_val_snoc [simp]: "dec_val (s @ [c]) = dec_val s * 10 + digit_val c"
  by (simp add: dec_val_def)

lemma dec_val_print [simp]: "dec_val (print_dec n) = n"
proof (induction n rule: print_dec.induct)
  case (1 n)
  show ?case
  proof (cases "n < 10")
    case True
    then show ?thesis by (simp add: print_dec.simps [of n] dec_val_def)
  next
    case False
    with 1 show ?thesis by (simp add: print_dec.simps [of n])
  qed
qed

lemma foldl_dec: "foldl (\<lambda>a c. a * 10 + digit_val c) a s = a * 10 ^ length s + dec_val s"
proof (induction s rule: rev_induct)
  case Nil
  then show ?case by (simp add: dec_val_def)
next
  case (snoc c s)
  then show ?case by (simp add: algebra_simps)
qed

lemma dec_val_bound: "\<forall>c \<in> set s. numeric c \<Longrightarrow> dec_val s < 10 ^ length s"
proof (induction s rule: rev_induct)
  case Nil
  then show ?case by (simp add: dec_val_def)
next
  case (snoc c s)
  then have "dec_val s < 10 ^ length s" and "digit_val c < 10"
    by (simp_all add: digit_val_less)
  then show ?case by simp
qed

subsection \<open>Splitting at the end of a run of digits\<close>

lemma takeWhile_prefix:
  "(\<forall>c \<in> set s. P c) \<Longrightarrow> \<not> P (deref t) \<Longrightarrow> takeWhile P (s @ t) = s"
  by (induction s) (auto simp: deref_def split: list.splits)

lemma dropWhile_prefix:
  "(\<forall>c \<in> set s. P c) \<Longrightarrow> \<not> P (deref t) \<Longrightarrow> dropWhile P (s @ t) = t"
  by (induction s) (auto simp: deref_def split: list.splits)

lemma find_append:
  "List.find P (xs @ ys) = (case List.find P xs of None \<Rightarrow> List.find P ys | Some x \<Rightarrow> Some x)"
  by (induction xs) auto

lemma find_map: "List.find P (map f xs) = map_option f (List.find (P \<circ> f) xs)"
  by (induction xs) auto

lemma find_None: "\<forall>x \<in> set xs. \<not> P x \<Longrightarrow> List.find P xs = None"
  by (simp add: find_None_iff)

lemma upt_split:
  assumes "a \<le> m" and "m < c"
  shows "[a ..< c] = [a ..< m] @ m # [Suc m ..< c]"
  using upt_add_eq_append [of a m "c - m"] upt_conv_Cons [of m c] assms by simp

text \<open>The branches a chain of five guards can take.\<close>

lemma if5_cases:
  "(if a then x1 else if b then x2 else if c then x3 else if d then x4 else x5) = r \<Longrightarrow>
     x1 = r \<or> x2 = r \<or> x3 = r \<or> x4 = r \<or> x5 = r"
  by (simp split: if_splits)

subsection \<open>Truncating division of C\<close>

definition cdiv :: "int \<Rightarrow> int \<Rightarrow> int" where
  "cdiv a b = sgn a * sgn b * (\<bar>a\<bar> div \<bar>b\<bar>)"

definition cmod :: "int \<Rightarrow> int \<Rightarrow> int" where
  "cmod a b = a - b * cdiv a b"

lemma cdiv_nonneg [simp]: "0 \<le> a \<Longrightarrow> 0 < b \<Longrightarrow> cdiv a b = a div b"
  by (cases "a = 0") (simp_all add: cdiv_def)

lemma cdiv_2_between:
  assumes "low \<le> high"
  shows "low \<le> cdiv (low + high) 2" "cdiv (low + high) 2 \<le> high"
proof -
  have "cdiv x 2 = (if 0 \<le> x then x div 2 else - ((- x) div 2))" for x
    by (simp add: cdiv_def sgn_if)
  with assms show "low \<le> cdiv (low + high) 2" "cdiv (low + high) 2 \<le> high"
    by auto
qed

lemma cmod_nonneg [simp]: "0 \<le> a \<Longrightarrow> 0 < b \<Longrightarrow> cmod a b = a mod b"
  by (simp add: cmod_def minus_mult_div_eq_mod)

text \<open>A \<open>char\<close> that is not negative keeps its value when it is promoted.\<close>

lemma sint_eq: "n < 128 \<Longrightarrow> sint (of_nat n :: 8 word) = int n"
  by (simp add: signed_of_nat signed_take_bit_int_eq_self)

lemma scast_char: "n < 128 \<Longrightarrow> scast (of_nat n :: 8 word) = (of_nat n :: 32 word)"
  by (simp add: scast_eq sint_eq)

end
