(* ===== verification/Gmatch.thy ===== *)
theory Gmatch
  imports Prelude
begin

text \<open>
  The shell's file name matcher, \<open>gmatch\<close> of \<open>cmd/sh/gmatch.c\<close>, in a single-byte
  locale (\<open>MB_CUR_MAX\<close> is 1, so \<open>fetch\<close> reads one byte). A pointer into the subject is a
  suffix; the pointer one past the terminator, which \<open>fetch\<close> produces when it reads the
  terminator, is \<^term>\<open>None\<close>, and reading through it is outside the object: the result
  is \<^term>\<open>None\<close> there. The abstract side is a list of glob tokens with the usual meaning.
\<close>

section \<open>The code\<close>

text \<open>
  One turn of the \<open>while\<close> loop of the \<open>[\<close> case, with the character \<open>c\<close> in hand and \<open>p\<close>
  behind it: the closing bracket and the pattern after it, the end of the pattern, the high
  end of a range, or a single character. \<open>first\<close> is \<open>p == bp\<close>.
\<close>

datatype bstep = BClose cstr | BEnd | BRange char cstr | BOne char cstr

definition bracket_step :: "bool \<Rightarrow> char \<Rightarrow> cstr \<Rightarrow> bstep" where
  "bracket_step first c p =
     (if c = CHR '']'' \<and> \<not> first then BClose p
      else if c = CHR ''-'' \<and> \<not> first \<and> deref p \<noteq> CHR '']'' then
        (case (if deref p = BSLASH then tl p else p) of [] \<Rightarrow> BEnd | c' # p' \<Rightarrow> BRange c' p')
      else
        (case (if c = BSLASH then p else c # p) of [] \<Rightarrow> BEnd | c' # p' \<Rightarrow> BOne c' p'))"

lemma bracket_step_length:
  "bracket_step first c p = BClose r \<Longrightarrow> length r \<le> length p"
  "bracket_step first c p = BRange c' r \<Longrightarrow> length r \<le> length p"
  "bracket_step first c p = BOne c' r \<Longrightarrow> length r \<le> length p"
  by (auto simp: bracket_step_def split: if_splits list.splits
      dest!: arg_cong [where f = length])

text \<open>
  The loop. \<open>lc\<close> is the last single character, the low end of a range, \<^term>\<open>None\<close> for
  \<open>ULONG_MAX\<close>; the result is \<open>ok\<close> and the pattern after the closing bracket, or
  \<^term>\<open>None\<close> where the pattern ends first.
\<close>

function bracket :: "char \<Rightarrow> bool \<Rightarrow> nat option \<Rightarrow> bool \<Rightarrow> cstr \<Rightarrow> (bool \<times> cstr) option" where
  "bracket scc ok lc first [] = None"
| "bracket scc ok lc first (c # p) =
     (case bracket_step first c p of
        BClose r \<Rightarrow> Some (ok, r)
      | BEnd \<Rightarrow> None
      | BRange c' r \<Rightarrow>
          bracket scc
            (ok \<or> (case lc of None \<Rightarrow> False | Some l \<Rightarrow> l \<le> ord scc \<and> ord scc \<le> ord c')) lc False r
      | BOne c' r \<Rightarrow> bracket scc (ok \<or> scc = c') (Some (ord c')) False r)"
  by pat_completeness auto
termination
  by (relation "measure (\<lambda>(_, _, _, _, q). length q)")
    (auto dest: bracket_step_length simp: less_Suc_eq_le)

declare bracket.simps(2) [simp del]

lemma bracket_length: "bracket scc ok lc first q = Some (ok', r) \<Longrightarrow> length r < length q"
proof (induction scc ok lc first q rule: bracket.induct)
  case (2 scc ok lc first c p)
  then show ?case
    by (cases "bracket_step first c p")
      (force simp: bracket.simps(2) dest: bracket_step_length)+
qed simp

function (sequential) gmatch :: "cstr option \<Rightarrow> cstr \<Rightarrow> bool option"
  and gstar :: "cstr \<Rightarrow> cstr \<Rightarrow> bool option" where
  "gmatch None p = None"
| "gmatch (Some bs) p =
     (let scc = deref bs; s = (case bs of [] \<Rightarrow> None | _ # r \<Rightarrow> Some r) in
      case p of
        [] \<Rightarrow> Some (scc = NUL)
      | c # q \<Rightarrow>
          if c = CHR ''['' then
            (let excl = (deref q = CHR ''!''); q' = (if excl then tl q else q) in
             case bracket scc False None True q' of
               None \<Rightarrow> Some False
             | Some (ok, r) \<Rightarrow> if ok \<noteq> excl then gmatch s r else Some False)
          else if c = BSLASH then
            (case q of
               [] \<Rightarrow> Some False
             | c' # r \<Rightarrow> if c' \<noteq> scc then Some False
                         else if scc \<noteq> NUL then gmatch s r else Some False)
          else if c = CHR ''?'' then (if scc \<noteq> NUL then gmatch s q else Some False)
          else if c = CHR ''*'' then (if q = [] then Some True else gstar bs q)
          else if c \<noteq> scc then Some False
          else if scc \<noteq> NUL then gmatch s q else Some False)"
| "gstar [] p = Some False"
| "gstar (x # s) p =
     (case gmatch (Some (x # s)) p of
        None \<Rightarrow> None
      | Some True \<Rightarrow> Some True
      | Some False \<Rightarrow> gstar s p)"
  by pat_completeness auto
termination
proof (relation "measures [\<lambda>x. case x of Inl (_, p) \<Rightarrow> length p | Inr (_, p) \<Rightarrow> length p,
    \<lambda>x. case x of Inl _ \<Rightarrow> 0 | Inr (s, _) \<Rightarrow> Suc (length s)]", goal_cases)
  case (2 bs p scc s c q excl q' y ok r)
  then have "length r < length q'" by (auto dest: bracket_length)
  moreover have "length q' \<le> length q" by (simp add: 2)
  ultimately show ?case using 2 by simp
qed auto

section \<open>Abstract globs\<close>

datatype citem = Single char | Range nat char

datatype tok = Lit char | AnyChar | Star | Class bool "citem list" | Fail

fun item_has :: "char \<Rightarrow> citem \<Rightarrow> bool" where
  "item_has x (Single c) \<longleftrightarrow> x = c"
| "item_has x (Range l c) \<longleftrightarrow> l \<le> ord x \<and> ord x \<le> ord c"

fun tok_char :: "tok \<Rightarrow> char \<Rightarrow> bool" where
  "tok_char (Lit c) x \<longleftrightarrow> x = c"
| "tok_char AnyChar x \<longleftrightarrow> True"
| "tok_char (Class neg its) x \<longleftrightarrow> (\<exists>it \<in> set its. item_has x it) \<noteq> neg"
| "tok_char Star x \<longleftrightarrow> False"
| "tok_char Fail x \<longleftrightarrow> False"

text \<open>The language of a token list.\<close>

fun glob :: "tok list \<Rightarrow> cstr \<Rightarrow> bool" where
  "glob [] s \<longleftrightarrow> s = []"
| "glob (Star # ts) [] \<longleftrightarrow> glob ts []"
| "glob (Star # ts) (x # s) \<longleftrightarrow> glob ts (x # s) \<or> glob (Star # ts) s"
| "glob (t # ts) [] \<longleftrightarrow> False"
| "glob (t # ts) (x # s) \<longleftrightarrow> tok_char t x \<and> glob ts s"

text \<open>Reading a bracket expression: its items and the pattern after it.\<close>

function parse_class :: "nat option \<Rightarrow> bool \<Rightarrow> cstr \<Rightarrow> (citem list \<times> cstr) option" where
  "parse_class lc first [] = None"
| "parse_class lc first (c # p) =
     (case bracket_step first c p of
        BClose r \<Rightarrow> Some ([], r)
      | BEnd \<Rightarrow> None
      | BRange c' r \<Rightarrow>
          map_option (apfst ((@) (case lc of None \<Rightarrow> [] | Some l \<Rightarrow> [Range l c'])))
            (parse_class lc False r)
      | BOne c' r \<Rightarrow> map_option (apfst (Cons (Single c'))) (parse_class (Some (ord c')) False r))"
  by pat_completeness auto
termination
  by (relation "measure (\<lambda>(_, _, q). length q)")
    (auto dest: bracket_step_length simp: less_Suc_eq_le)

declare parse_class.simps(2) [simp del]

lemma parse_class_length: "parse_class lc first q = Some (its, r) \<Longrightarrow> length r < length q"
proof (induction lc first q arbitrary: its rule: parse_class.induct)
  case (2 lc first c p)
  then show ?case
    by (cases "bracket_step first c p")
      (force simp: parse_class.simps(2) dest: bracket_step_length)+
qed simp

function tokens :: "cstr \<Rightarrow> tok list" where
  "tokens [] = []"
| "tokens (c # q) =
     (if c = CHR ''['' then
        (let excl = (deref q = CHR ''!''); q' = (if excl then tl q else q) in
         case parse_class None True q' of
           None \<Rightarrow> [Fail]
         | Some (its, r) \<Rightarrow> Class excl its # tokens r)
      else if c = BSLASH then (case q of [] \<Rightarrow> [Fail] | c' # r \<Rightarrow> Lit c' # tokens r)
      else if c = CHR ''?'' then AnyChar # tokens q
      else if c = CHR ''*'' then Star # tokens q
      else Lit c # tokens q)"
  by pat_completeness auto
termination
proof (relation "measure length", goal_cases)
  case (2 c q excl q' y its r)
  then have "length r < length q'" by (auto dest: parse_class_length)
  moreover have "length q' \<le> length q" by (simp add: 2)
  ultimately show ?case by simp
qed auto

text \<open>Patterns in which a star is never directly followed by another one.\<close>

fun single_stars :: "tok list \<Rightarrow> bool" where
  "single_stars (Star # Star # ts) \<longleftrightarrow> False"
| "single_stars (t # ts) \<longleftrightarrow> single_stars ts"
| "single_stars [] \<longleftrightarrow> True"

fun negated :: "tok \<Rightarrow> bool" where
  "negated (Class neg its) \<longleftrightarrow> neg"
| "negated t \<longleftrightarrow> False"

section \<open>Correctness\<close>

lemma ord_NUL [simp]: "ord NUL = 0"
  by (simp add: ord_def)

lemma bracket_parse:
  "bracket scc ok lc first q =
     map_option (\<lambda>(its, r). (ok \<or> (\<exists>it \<in> set its. item_has scc it), r)) (parse_class lc first q)"
proof (induction scc ok lc first q rule: bracket.induct)
  case (2 scc ok lc first c p)
  show ?case
  proof (cases "bracket_step first c p")
    case (BRange c' r)
    with 2 show ?thesis
      by (cases "parse_class lc False r")
        (auto simp: bracket.simps(2) parse_class.simps(2) split: option.splits)
  next
    case (BOne c' r)
    with 2 show ?thesis
      by (cases "parse_class (Some (ord c')) False r")
        (auto simp: bracket.simps(2) parse_class.simps(2))
  qed (simp_all add: bracket.simps(2) parse_class.simps(2))
qed simp

lemma bracket_step_cstr:
  assumes "cstr (c # p)"
  shows "bracket_step first c p = BClose r \<Longrightarrow> cstr r"
    "bracket_step first c p = BRange c' r \<Longrightarrow> c' \<noteq> NUL \<and> cstr r"
    "bracket_step first c p = BOne c' r \<Longrightarrow> c' \<noteq> NUL \<and> cstr r"
  using assms cstr_tl [of p]
  by (auto simp: bracket_step_def split: if_splits list.splits)

lemma parse_class_cstr:
  "parse_class lc first q = Some (its, r) \<Longrightarrow> cstr q \<Longrightarrow> cstr r"
proof (induction lc first q arbitrary: its rule: parse_class.induct)
  case (2 lc first c p)
  then show ?case
    by (cases "bracket_step first c p")
      (auto simp: parse_class.simps(2) dest: bracket_step_cstr [OF "2.prems"(2)])
qed simp

lemma parse_class_NUL:
  "parse_class lc first q = Some (its, r) \<Longrightarrow> cstr q \<Longrightarrow> lc \<noteq> Some 0 \<Longrightarrow>
     it \<in> set its \<Longrightarrow> \<not> item_has NUL it"
proof (induction lc first q arbitrary: its rule: parse_class.induct)
  case (2 lc first c p)
  note step = bracket_step_cstr [OF "2.prems"(2)]
  have ord_pos: "c' \<noteq> NUL \<Longrightarrow> ord c' \<noteq> 0" for c'
    using ord_inject [of c' NUL] by simp
  show ?case
  proof (cases "bracket_step first c p")
    case (BRange c' r')
    with "2.prems"(1) obtain a where a: "parse_class lc False r' = Some (a, r)"
      and its: "its = (case lc of None \<Rightarrow> [] | Some l \<Rightarrow> [Range l c']) @ a"
      by (auto simp: parse_class.simps(2))
    from step(2) BRange have "cstr r'" by blast
    with "2.IH"(1) [OF BRange a] "2.prems"(3) have "it \<in> set a \<Longrightarrow> \<not> item_has NUL it"
      by blast
    with its "2.prems"(3,4) show ?thesis by (auto split: option.splits)
  next
    case (BOne c' r')
    with step(3) have "c' \<noteq> NUL" "cstr r'" by auto
    from BOne "2.prems"(1) obtain a where a: "parse_class (Some (ord c')) False r' = Some (a, r)"
      and its: "its = Single c' # a"
      by (auto simp: parse_class.simps(2))
    from "2.IH"(2) [OF BOne a \<open>cstr r'\<close>] ord_pos \<open>c' \<noteq> NUL\<close>
    have "it \<in> set a \<Longrightarrow> \<not> item_has NUL it" by blast
    with its \<open>c' \<noteq> NUL\<close> "2.prems"(4) show ?thesis by auto
  qed (use 2 in \<open>simp_all add: parse_class.simps(2)\<close>)
qed simp

lemma tokens_Nil_iff [simp]: "tokens p = [] \<longleftrightarrow> p = []"
  by (cases p) (simp_all add: Let_def split: option.splits list.splits)

lemma glob_Nil: "ts \<noteq> [] \<Longrightarrow> hd ts \<noteq> Star \<Longrightarrow> \<not> glob ts []"
  by (cases ts; cases "hd ts") auto

lemma single_stars_Star:
  "single_stars (Star # ts) \<Longrightarrow> ts \<noteq> [] \<Longrightarrow> hd ts \<noteq> Star"
  by (cases ts) auto

lemma single_stars_tl: "single_stars (t # ts) \<Longrightarrow> single_stars ts"
  by (cases "t # ts" rule: single_stars.cases) auto

lemma glob_Star_Nil: "glob [Star] s"
  by (induction s) auto

text \<open>What both functions establish on a subject and a pattern.\<close>

definition gm_ok :: "bool option \<Rightarrow> bool \<Rightarrow> tok list \<Rightarrow> bool" where
  "gm_ok res spec ts \<longleftrightarrow> res = Some spec \<or> res = None \<and> (\<exists>t \<in> set ts. negated t)"

lemma gm_ok_Cons: "gm_ok res spec ts \<Longrightarrow> gm_ok res spec (t # ts)"
  by (auto simp: gm_ok_def)

lemma gm_ok_Some [simp]: "gm_ok (Some b) spec ts \<longleftrightarrow> b = spec"
  by (auto simp: gm_ok_def)

lemma gstar_ok:
  assumes "\<And>s. cstr s \<Longrightarrow> gm_ok (gmatch (Some s) q) (glob (tokens q) s) (tokens q)"
    and "q \<noteq> []" and "hd (tokens q) \<noteq> Star" and "cstr s"
  shows "gm_ok (gstar s q) (glob (Star # tokens q) s) (tokens q)"
  using assms(4)
proof (induction s)
  case Nil
  with assms(2,3) show ?case by (simp add: glob_Nil)
next
  case (Cons x s)
  with assms(1) [of "x # s"] show ?case
    by (auto simp: gm_ok_def split: option.splits bool.splits)
qed

declare gmatch.simps(2) [simp del] tokens.simps(2) [simp del]

lemmas gmatch_Nil = gmatch.simps(2) [of _ "[]", simplified]
lemmas gmatch_Cons = gmatch.simps(2) [of _ "c # q" for c q, unfolded list.case]

lemma gmatch_ok:
  "cstr s \<Longrightarrow> cstr p \<Longrightarrow> single_stars (tokens p) \<Longrightarrow>
     gm_ok (gmatch (Some s) p) (glob (tokens p) s) (tokens p)"
proof (induction p arbitrary: s rule: length_induct)
  case (1 p)
  have IH: "gm_ok (gmatch (Some s') r) (glob (tokens r) s') (tokens r)"
    if "length r < length p" "cstr s'" "cstr r" "single_stars (tokens r)" for s' r
    using "1.IH" that by blast
  show ?case
  proof (cases p)
    case Nil
    with "1.prems" show ?thesis by (simp add: gmatch_Nil deref_NUL)
  next
    case (Cons c q)
    consider (cls) "c = CHR ''[''" | (esc) "c = BSLASH" | (star) "c = CHR ''*''"
      | (other) "c \<noteq> CHR ''[''" "c \<noteq> BSLASH" "c \<noteq> CHR ''*''" by blast
    then show ?thesis
    proof cases
      case cls
      define excl where "excl = (deref q = CHR ''!'')"
      define q' where "q' = (if excl then tl q else q)"
      have q': "cstr q'" "length q' \<le> length q"
        using "1.prems"(2) Cons by (simp_all add: q'_def cstr_tl)
      show ?thesis
      proof (cases "parse_class None True q'")
        case None
        then have "bracket (deref s) False None True q' = None"
          by (simp add: bracket_parse)
        with None Cons cls show ?thesis
          by (cases s) (simp_all add: gmatch_Cons tokens.simps(2) Let_def
              flip: excl_def q'_def)
      next
        case (Some x)
        then obtain its r where pc: "parse_class None True q' = Some (its, r)"
          by (cases x) auto
        have t: "tokens p = Class excl its # tokens r"
          using Cons cls pc by (simp add: tokens.simps(2) Let_def flip: excl_def q'_def)
        have r: "length r < length p" "cstr r" "single_stars (tokens r)"
          using parse_class_length [OF pc] parse_class_cstr [OF pc q'(1)] q'(2) Cons
            "1.prems"(3) t single_stars_tl by auto
        have b: "bracket (deref s) False None True q' = Some (\<exists>it \<in> set its. item_has (deref s) it, r)"
          using pc by (simp add: bracket_parse)
        show ?thesis
        proof (cases s)
          case Nil
          have "\<not> (\<exists>it \<in> set its. item_has NUL it)"
            using parse_class_NUL [OF pc q'(1)] by auto
          with Nil b Cons cls t show ?thesis
            by (auto simp: gmatch_Cons Let_def gm_ok_def simp flip: excl_def q'_def)
        next
          case (Cons x s')
          define ok where "ok = (\<exists>it \<in> set its. item_has x it)"
          have "gmatch (Some (x # s')) p =
              (if ok \<noteq> excl then gmatch (Some s') r else Some False)"
            using b Cons \<open>p = c # q\<close> cls
            by (simp add: gmatch_Cons Let_def flip: excl_def q'_def ok_def)
          moreover have "glob (tokens p) (x # s') = (ok \<noteq> excl \<and> glob (tokens r) s')"
            by (simp add: t ok_def)
          moreover have "gm_ok (gmatch (Some s') r) (glob (tokens r) s') (tokens p)"
            unfolding t using r IH [of r s'] "1.prems"(1) Cons by (intro gm_ok_Cons) simp
          ultimately show ?thesis using Cons by simp
        qed
      qed
    next
      case esc
      show ?thesis
      proof (cases q)
        case Nil
        with Cons esc show ?thesis
          by (cases s) (simp_all add: gmatch_Cons tokens.simps(2))
      next
        case (Cons d r)
        with \<open>p = c # q\<close> esc "1.prems" IH [of r "tl s"] show ?thesis
          by (cases s)
            (auto simp: gmatch_Cons tokens.simps(2) dest: single_stars_tl intro: gm_ok_Cons)
      qed
    next
      case star
      with Cons have t: "tokens p = Star # tokens q" by (simp add: tokens.simps(2))
      show ?thesis
      proof (cases "q = []")
        case True
        with Cons star t show ?thesis by (simp add: gmatch_Cons glob_Star_Nil)
      next
        case False
        with t "1.prems"(3) have hd: "hd (tokens q) \<noteq> Star" and "single_stars (tokens q)"
          using single_stars_Star single_stars_tl by force+
        with IH Cons "1.prems" have "gm_ok (gmatch (Some s') q) (glob (tokens q) s') (tokens q)"
          if "cstr s'" for s' using that by simp
        from gstar_ok [OF this False hd "1.prems"(1)] have "gm_ok (gstar s q) (glob (tokens p) s) (tokens p)"
          unfolding t by (rule gm_ok_Cons)
        with Cons star False show ?thesis by (simp add: gmatch_Cons)
      qed
    next
      case other
      define t where "t = (if c = CHR ''?'' then AnyChar else Lit c)"
      have tp: "tokens p = t # tokens q"
        using Cons other by (simp add: tokens.simps(2) t_def)
      have q: "cstr q" "single_stars (tokens q)"
        using "1.prems"(2,3) Cons tp by (auto dest: single_stars_tl)
      show ?thesis
      proof (cases s)
        case Nil
        with Cons other tp "1.prems"(2) show ?thesis by (auto simp: gmatch_Cons t_def)
      next
        case (Cons x s')
        have "gmatch (Some (x # s')) p = (if tok_char t x then gmatch (Some s') q else Some False)"
          using \<open>p = c # q\<close> other Cons "1.prems"(1) by (auto simp: gmatch_Cons t_def)
        moreover have "glob (tokens p) (x # s') = (tok_char t x \<and> glob (tokens q) s')"
          by (simp add: tp t_def)
        moreover have "gm_ok (gmatch (Some s') q) (glob (tokens q) s') (tokens p)"
          unfolding tp using q IH [of q s'] "1.prems"(1) \<open>p = c # q\<close> Cons
          by (intro gm_ok_Cons) simp
        ultimately show ?thesis using Cons by simp
      qed
    qed
  qed
qed

section \<open>Properties\<close>

text \<open>C18: On every subject, for a pattern without negated classes and without two adjacent
  stars, the matcher returns, never reads outside the subject, and answers exactly whether
  the subject is in the language of the pattern.\<close>

theorem gmatch_correct:
  assumes "cstr s" and "cstr p" and "single_stars (tokens p)"
    and "\<forall>t \<in> set (tokens p). \<not> negated t"
  shows "gmatch (Some s) p = Some (glob (tokens p) s)"
  using gmatch_ok [OF assms(1-3)] assms(4) by (auto simp: gm_ok_def)


theorem gmatch_correct_witness:
  "gmatch (Some ''acde'') ''a[b-d]*'' = Some True \<and> glob (tokens ''a[b-d]*'') ''acde''"
proof -
  have t: "tokens ''a[b-d]*'' = [Lit CHR ''a'', Class False [Single CHR ''b'', Range 98 CHR ''d''], Star]"
    by (simp add: tokens.simps(2) parse_class.simps(2) bracket_step_def ord_def Let_def)
  have g: "glob (tokens ''a[b-d]*'') ''acde''"
    by (simp add: t ord_def)
  have "gmatch (Some ''acde'') ''a[b-d]*'' = Some (glob (tokens ''a[b-d]*'') ''acde'')"
    by (rule gmatch_correct) (simp_all add: t)
  with g show ?thesis by simp
qed



text \<open>C35: A negated class at the end of the subject makes the matcher read past the
  terminator: the \<open>[\<close> case does not test \<open>scc\<close> before it calls itself on \<open>s\<close>.\<close>

theorem gmatch_negated_overread:
  assumes "parse_class None True q = Some (its, r)" and "cstr q"
  shows "gmatch (Some []) (''[!'' @ q) = None"
  using parse_class_NUL [OF assms] assms(1)
  by (auto simp: gmatch_Cons gmatch.simps(1) bracket_parse)

theorem gmatch_negated_overread_witness: "gmatch (Some []) ''[!a]'' = None"
proof -
  have "parse_class None True ''a]'' = Some ([Single CHR ''a''], [])"
    by (simp add: parse_class.simps(2) bracket_step_def)
  from gmatch_negated_overread [OF this] show ?thesis by simp
qed

text \<open>Two adjacent stars do not match the empty rest of a subject: a pattern that ends
  in them rejects a subject that the part before them matches completely.\<close>

theorem gmatch_double_star:
  "gmatch (Some []) (''**'' @ q) = Some False \<and>
   gmatch (Some ''a'') ''a**'' = Some False \<and> glob (tokens ''a**'') ''a''"
  by (simp add: gmatch_Cons tokens.simps(2))

end
