(* ===== verification/ShHash.thy ===== *)
theory ShHash
  imports Prelude
begin

text \<open>
  The shell's command hash table, \<open>cmd/sh/hash.c\<close>, and the command cache on top of it,
  \<open>cmd/sh/hashserv.c\<close>. The table is an array of 64 chains; a pointer to an entry is a pair
  of bucket and position. \<open>hfind\<close> leaves the place of a failed search in the static
  variables \<open>last\<close> and \<open>next\<close>, and \<open>henter\<close> links the new node there. The interface both
  this table and the shell's name tree offer their clients is the locale \<open>name_store\<close>.
\<close>

section \<open>The interface of a name store\<close>

locale name_store =
  fixes find :: "'t \<Rightarrow> cstr \<Rightarrow> 'v option"
    and put :: "cstr \<Rightarrow> 'v \<Rightarrow> 't \<Rightarrow> 't"
    and ok :: "'t \<Rightarrow> bool"
    and valid :: "cstr \<Rightarrow> bool"
  assumes put_ok: "ok t \<Longrightarrow> valid n \<Longrightarrow> ok (put n v t)"
    and find_put: "ok t \<Longrightarrow> valid n \<Longrightarrow> valid m \<Longrightarrow>
      find (put n v t) m = (if m = n then Some v else find t m)"
begin

definition put_all :: "(cstr \<times> 'v) list \<Rightarrow> 't \<Rightarrow> 't" where
  "put_all l t = fold (\<lambda>(n, v). put n v) l t"

lemma put_all_ok: "ok t \<Longrightarrow> list_all (\<lambda>(n, v). valid n) l \<Longrightarrow> ok (put_all l t)"
  by (induction l arbitrary: t) (auto simp: put_all_def put_ok)

lemma find_put_all:
  "ok t \<Longrightarrow> list_all (\<lambda>(n, v). valid n) l \<Longrightarrow> valid m \<Longrightarrow>
     find (put_all l t) m = (case map_of (rev l) m of None \<Rightarrow> find t m | Some v \<Rightarrow> Some v)"
proof (induction l arbitrary: t)
  case Nil
  then show ?case by (simp add: put_all_def)
next
  case (Cons nv l)
  obtain n v where nv: "nv = (n, v)" by (cases nv)
  from Cons nv have "find (put_all l (put n v t)) m =
      (case map_of (rev l) m of None \<Rightarrow> find (put n v t) m | Some v \<Rightarrow> Some v)"
    by (simp add: put_ok)
  with Cons nv show ?case
    by (auto simp: put_all_def find_put map_add_def split: option.splits)
qed

lemma put_put:
  "ok t \<Longrightarrow> valid n \<Longrightarrow> valid m \<Longrightarrow> find (put n v (put n w t)) m = find (put n v t) m"
  by (simp add: find_put put_ok)

lemma put_commute:
  "ok t \<Longrightarrow> valid n \<Longrightarrow> valid k \<Longrightarrow> valid m \<Longrightarrow> n \<noteq> k \<Longrightarrow>
     find (put n v (put k w t)) m = find (put k w (put n v t)) m"
  by (simp add: find_put put_ok)

end

section \<open>The table\<close>

record entry =
  key :: cstr
  data :: "16 word"
  hits :: "8 word"
  cost :: "8 word"

record htab =
  table :: "entry list list"
  last_slot :: "(nat \<times> nat) option"

definition TABLENGTH :: nat where "TABLENGTH = 64"

definition FACTOR :: "32 word" where "FACTOR = 0xEFC5589B"

definition crunch :: "cstr \<Rightarrow> 32 word" where
  "crunch k = foldl (\<lambda>sum c. sum + of_nat (ord c)) 0 k + of_nat (length k)"

definition shift :: nat where "shift = 8 * 4 - 6"

definition hash :: "cstr \<Rightarrow> nat" where
  "hash str = unat (drop_bit shift (crunch str * FACTOR))"

definition hcreate :: htab where
  "hcreate = \<lparr>table = replicate TABLENGTH [], last_slot = None\<rparr>"

text \<open>The search of a chain: the position of the entry or of the end.\<close>

fun chain :: "cstr \<Rightarrow> entry list \<Rightarrow> nat" where
  "chain str [] = 0"
| "chain str (p # ps) = (if str = key p then 0 else Suc (chain str ps))"

definition hfind :: "cstr \<Rightarrow> htab \<Rightarrow> (nat \<times> nat) option \<times> htab" where
  "hfind str t =
     (let i = hash str; b = table t ! i; k = chain str b in
      if k < length b then (Some (i, k), t) else (None, t\<lparr>last_slot := Some (i, k)\<rparr>))"

text \<open>
  \<open>henter\<close> stores the new node through \<open>last\<close>; its link is \<open>next\<close>, which a failed
  \<open>hfind\<close> always leaves 0. Without a failed search before, \<open>last\<close> is a null pointer.
\<close>

definition henter :: "entry \<Rightarrow> htab \<Rightarrow> ((nat \<times> nat) \<times> htab) option" where
  "henter item t =
     (case last_slot t of
        None \<Rightarrow> None
      | Some (i, k) \<Rightarrow>
          Some ((i, k), t\<lparr>table := (table t)[i := take k (table t ! i) @ [item]]\<rparr>))"

definition hscan :: "(entry \<Rightarrow> entry) \<Rightarrow> htab \<Rightarrow> htab" where
  "hscan f t = t\<lparr>table := map (map f) (table t)\<rparr>"

text \<open>Reading and changing the entry a pointer refers to.\<close>

definition at :: "htab \<Rightarrow> nat \<times> nat \<Rightarrow> entry" where
  "at t ik = table t ! fst ik ! snd ik"

definition upd_at :: "nat \<times> nat \<Rightarrow> (entry \<Rightarrow> entry) \<Rightarrow> htab \<Rightarrow> htab" where
  "upd_at ik f t =
     t\<lparr>table := (table t)[fst ik := (table t ! fst ik)[snd ik := f (at t ik)]]\<rparr>"

text \<open>The entry stored under a name.\<close>

definition hlookup :: "htab \<Rightarrow> cstr \<Rightarrow> entry option" where
  "hlookup t str = (case fst (hfind str t) of None \<Rightarrow> None | Some ik \<Rightarrow> Some (at t ik))"

subsection \<open>Well-formed tables\<close>

definition wf_htab :: "htab \<Rightarrow> bool" where
  "wf_htab t \<longleftrightarrow> length (table t) = TABLENGTH \<and>
     (\<forall>i < TABLENGTH. distinct (map key (table t ! i)) \<and>
        (\<forall>e \<in> set (table t ! i). hash (key e) = i))"

lemma hash_less: "hash str < TABLENGTH"
proof -
  have "unat (drop_bit shift (crunch str * FACTOR)) = unat (crunch str * FACTOR) div 2 ^ 26"
    unfolding shift_def unat_drop_bit_eq by (simp add: drop_bit_eq_div)
  moreover have "unat (crunch str * FACTOR) < 2 ^ 32"
    using unsigned_less [of "crunch str * FACTOR"] by simp
  ultimately show ?thesis
    by (simp add: hash_def TABLENGTH_def less_mult_imp_div_less)
qed

lemma chain_le: "chain str b \<le> length b"
  by (induction b) auto

lemma chain_found: "chain str b < length b \<Longrightarrow> key (b ! chain str b) = str"
  by (induction b) auto

lemma chain_end: "chain str b = length b \<longleftrightarrow> str \<notin> key ` set b"
  by (induction b) auto

lemma chain_find: "(if chain str b < length b then Some (b ! chain str b) else None) =
    List.find (\<lambda>e. key e = str) b"
  by (induction b) (auto split: if_splits)

lemma hlookup_find: "hlookup t str = List.find (\<lambda>e. key e = str) (table t ! hash str)"
  using chain_find [of str "table t ! hash str"]
  by (simp add: hlookup_def hfind_def at_def Let_def split: if_splits)

lemma wf_hcreate: "wf_htab hcreate"
  by (simp add: wf_htab_def hcreate_def TABLENGTH_def)

lemma hlookup_hcreate: "hlookup hcreate str = None"
  using hash_less [of str] by (simp add: hlookup_find hcreate_def)

lemma hfind_Some:
  assumes "hfind str t = (Some ik, t')"
  shows "t' = t" "ik = (hash str, chain str (table t ! hash str))"
    "snd ik < length (table t ! fst ik)" "key (at t ik) = str" "hlookup t str = Some (at t ik)"
  using assms by (auto simp: hfind_def Let_def at_def chain_found hlookup_def split: if_splits)

lemma hfind_None:
  assumes "hfind str t = (None, t')"
  shows "t' = t\<lparr>last_slot := Some (hash str, length (table t ! hash str))\<rparr>"
    "str \<notin> key ` set (table t ! hash str)" "hlookup t str = None"
proof -
  from assms have n: "\<not> chain str (table t ! hash str) < length (table t ! hash str)"
    and t': "t' = t\<lparr>last_slot := Some (hash str, chain str (table t ! hash str))\<rparr>"
    by (auto simp: hfind_def Let_def split: if_splits)
  from n chain_le [of str] have e: "chain str (table t ! hash str) = length (table t ! hash str)"
    by (simp add: le_antisym not_less)
  from t' e show "t' = t\<lparr>last_slot := Some (hash str, length (table t ! hash str))\<rparr>" by simp
  from e show "str \<notin> key ` set (table t ! hash str)" by (simp add: chain_end)
  from assms show "hlookup t str = None" by (simp add: hlookup_def)
qed

lemma find_append_new:
  "n \<notin> key ` set b \<Longrightarrow> key e = n \<Longrightarrow>
     List.find (\<lambda>x. key x = m) (b @ [e]) = (if m = n then Some e else List.find (\<lambda>x. key x = m) b)"
  by (induction b) auto

lemma find_update:
  "k < length b \<Longrightarrow> distinct (map key b) \<Longrightarrow> key (f (b ! k)) = key (b ! k) \<Longrightarrow>
     List.find (\<lambda>x. key x = m) (b[k := f (b ! k)]) =
       (if m = key (b ! k) then Some (f (b ! k)) else List.find (\<lambda>x. key x = m) b)"
proof (induction b arbitrary: k)
  case (Cons e b)
  then show ?case by (cases k) auto
qed simp

lemma henter_wf:
  assumes "wf_htab t" and "hfind n t = (None, t')" and "key e = n" and "henter e t' = Some (ik, u)"
  shows "wf_htab u" "hlookup u m = (if m = n then Some e else hlookup t m)"
    "ik = (hash n, length (table t ! hash n))" "at u ik = e"
proof -
  note nf = hfind_None [OF assms(2)]
  let ?i = "hash n"
  have len: "length (table t) = TABLENGTH" using assms(1) by (simp add: wf_htab_def)
  from assms(4) nf(1) have u: "u = t'\<lparr>table := (table t)[?i := table t ! ?i @ [e]]\<rparr>"
    and ik: "ik = (?i, length (table t ! ?i))"
    by (auto simp: henter_def)
  have tu: "table u ! j = (if j = ?i then table t ! ?i @ [e] else table t ! j)" for j
    using u len hash_less [of n] by (simp add: nth_list_update)
  show "wf_htab u"
    unfolding wf_htab_def
  proof (intro conjI allI impI)
    show "length (table u) = TABLENGTH" using u len by simp
    fix j assume j: "j < TABLENGTH"
    show "distinct (map key (table u ! j))"
      using assms(1,3) j nf(2) by (auto simp: tu wf_htab_def)
    show "\<forall>e \<in> set (table u ! j). hash (key e) = j"
      using assms(1,3) j by (auto simp: tu wf_htab_def)
  qed
  show "hlookup u m = (if m = n then Some e else hlookup t m)"
    using find_append_new [OF nf(2) assms(3), of m] nf(2)
    by (auto simp: hlookup_find tu)
  show "ik = (?i, length (table t ! ?i))" by (rule ik)
  show "at u ik = e" by (simp add: at_def ik tu)
qed

lemma upd_at_wf:
  assumes "wf_htab t" and "hfind n t = (Some ik, t')" and "key (f (at t ik)) = n"
  shows "wf_htab (upd_at ik f t)"
    "hlookup (upd_at ik f t) m = (if m = n then Some (f (at t ik)) else hlookup t m)"
    "at (upd_at ik f t) ik = f (at t ik)"
proof -
  note fd = hfind_Some [OF assms(2)]
  let ?i = "hash n" and ?k = "snd ik"
  have len: "length (table t) = TABLENGTH" using assms(1) by (simp add: wf_htab_def)
  have i: "fst ik = ?i" and k: "?k < length (table t ! ?i)" using fd(2,3) by auto
  have tu: "table (upd_at ik f t) ! j =
      (if j = ?i then (table t ! ?i)[?k := f (table t ! ?i ! ?k)] else table t ! j)" for j
    using len hash_less [of n] by (simp add: upd_at_def at_def i nth_list_update)
  have d: "distinct (map key (table t ! ?i))" "\<forall>e \<in> set (table t ! ?i). hash (key e) = ?i"
    using assms(1) hash_less [of n] by (auto simp: wf_htab_def)
  have key: "key (table t ! ?i ! ?k) = n" "key (f (table t ! ?i ! ?k)) = n"
    using fd(4) assms(3) by (simp_all add: at_def i)
  have mk: "map key ((table t ! ?i)[?k := f (table t ! ?i ! ?k)]) = map key (table t ! ?i)"
    using key k by (simp add: map_update list_update_same_conv)
  show "wf_htab (upd_at ik f t)"
    unfolding wf_htab_def
  proof (intro conjI allI impI)
    show "length (table (upd_at ik f t)) = TABLENGTH" using len by (simp add: upd_at_def)
    fix j assume j: "j < TABLENGTH"
    show "distinct (map key (table (upd_at ik f t) ! j))"
      using assms(1) j d(1) mk by (simp add: tu wf_htab_def)
    have "set (map key ((table t ! ?i)[?k := f (table t ! ?i ! ?k)])) = key ` set (table t ! ?i)"
      using mk by simp
    with d(2) have "\<forall>e \<in> set ((table t ! ?i)[?k := f (table t ! ?i ! ?k)]). hash (key e) = ?i"
      by (metis (no_types, lifting) imageE image_eqI list.set_map)
    then show "\<forall>e \<in> set (table (upd_at ik f t) ! j). hash (key e) = j"
      using assms(1) j by (auto simp: tu wf_htab_def)
  qed
  show "hlookup (upd_at ik f t) m = (if m = n then Some (f (at t ik)) else hlookup t m)"
    using find_update [OF k d(1), of f m] key by (auto simp: hlookup_find tu at_def i)
  show "at (upd_at ik f t) ik = f (at t ik)"
    using k i tu [of ?i] by (simp add: at_def)
qed

end
