(* ===== verification/ShCache.thy ===== *)
theory ShCache
  imports ShHash
begin

text \<open>
  String comparison and the reserved-word search of the shell (\<open>cf\<close> of \<open>cmd/sh/string.c\<close>,
  \<open>syslook\<close> of \<open>cmd/sh/name.c\<close>), the path walk of \<open>cmd/sh/service.c\<close> and the command cache
  of \<open>cmd/sh/hashserv.c\<close>. The file system enters as the argument \<open>chk\<close>, the result of
  \<open>chk_access(p, S_IEXEC, 1)\<close> for a path name. A result \<^term>\<open>None\<close> is a null pointer
  dereference.
\<close>

section \<open>Comparison and table search\<close>

fun cf :: "cstr \<Rightarrow> cstr \<Rightarrow> int" where
  "cf [] [] = 0"
| "cf [] (d # t) = - int (ord d)"
| "cf (c # s) [] = int (ord c)"
| "cf (c # s) (d # t) = (if c = d then cf s t else int (ord c) - int (ord d))"

lemma ord_pos: "c \<noteq> NUL \<Longrightarrow> 0 < ord c"
  using ord_inject [of c NUL] by (simp add: ord_def)

lemma char_less_ord: "c < d \<longleftrightarrow> ord c < ord d"
  by (simp add: less_char_def ord_def)

lemma cf_eq_0: "cstr s \<Longrightarrow> cstr t \<Longrightarrow> cf s t = 0 \<longleftrightarrow> s = t"
  by (induction s t rule: cf.induct) (auto simp: ord_pos dest: ord_pos)

lemma cf_less_0: "cstr s \<Longrightarrow> cstr t \<Longrightarrow> cf s t < 0 \<longleftrightarrow> s < t"
  by (induction s t rule: cf.induct) (auto simp: ord_pos char_less_ord dest: ord_pos)

text \<open>\<open>syslook\<close>: binary search in a sorted table of names; 0 for an unknown name.\<close>

function bsearch :: "cstr \<Rightarrow> (cstr \<times> int) list \<Rightarrow> int \<Rightarrow> int \<Rightarrow> int" where
  "bsearch w tbl low high =
     (if low \<le> high then
        let mid = cdiv (low + high) 2; c = cf w (fst (tbl ! nat mid)) in
        if c < 0 then bsearch w tbl low (mid - 1)
        else if c > 0 then bsearch w tbl (mid + 1) high
        else snd (tbl ! nat mid)
      else 0)"
  by pat_completeness auto
termination
proof (relation "measure (\<lambda>(_, _, low, high). nat (high + 1 - low))", goal_cases)
  case (2 w tbl low high mid c)
  with cdiv_2_between [of low high] show ?case by simp
next
  case (3 w tbl low high mid c)
  with cdiv_2_between [of low high] show ?case by simp
qed simp

declare bsearch.simps [simp del]

definition syslook :: "cstr \<Rightarrow> (cstr \<times> int) list \<Rightarrow> int" where
  "syslook w tbl = (if w = [] then 0 else bsearch w tbl 0 (int (length tbl) - 1))"

lemma nth_fst_less:
  "sorted_wrt (<) (map fst tbl) \<Longrightarrow> i < j \<Longrightarrow> j < length tbl \<Longrightarrow>
     (fst (tbl ! i) :: cstr) < fst (tbl ! j)"
  using sorted_wrt_nth_less [of "(<)" "map fst tbl" i j] by simp

lemma bsearch_correct:
  assumes srt: "sorted_wrt (<) (map fst tbl)" and names: "\<forall>e \<in> set tbl. cstr (fst e)"
    and w: "cstr w" and "0 \<le> low" and "high < int (length tbl)"
  shows "bsearch w tbl low high =
    (case List.find (\<lambda>i. fst (tbl ! i) = w) [nat low ..< nat (high + 1)] of
       None \<Rightarrow> 0 | Some i \<Rightarrow> snd (tbl ! i))"
  using assms
proof (induction w tbl low high rule: bsearch.induct)
  case (1 w tbl low high)
  note srt = "1.prems"(1) and names = "1.prems"(2) and w = "1.prems"(3)
  let ?f = "\<lambda>l h. List.find (\<lambda>i. fst (tbl ! i) = w) [nat l ..< nat (h + 1)]"
  show ?case
  proof (cases "low \<le> high")
    case False
    then show ?thesis by (simp add: bsearch.simps)
  next
    case True
    define mid where "mid = cdiv (low + high) 2"
    define m where "m = nat mid"
    have mid: "low \<le> mid" "mid \<le> high" using True cdiv_2_between mid_def by auto
    have mb: "m < length tbl" "mid = int m" using mid "1.prems" by (auto simp: m_def)
    have cm: "cstr (fst (tbl ! m))" using names mb(1) by simp
    have split: "[nat low ..< nat (high + 1)] =
        [nat low ..< m] @ m # [Suc m ..< nat (high + 1)]"
      using mid mb(2) by (intro upt_split) auto
    have lo: "fst (tbl ! i) < fst (tbl ! m)" if "i < m" for i
      using nth_fst_less [OF srt that] mb(1) by simp
    have hi: "fst (tbl ! m) < fst (tbl ! i)" if "m < i" "i < nat (high + 1)" for i
      using nth_fst_less [OF srt that(1)] that(2) "1.prems" by auto
    have unfold: "bsearch w tbl low high =
        (if cf w (fst (tbl ! m)) < 0 then bsearch w tbl low (mid - 1)
         else if cf w (fst (tbl ! m)) > 0 then bsearch w tbl (mid + 1) high
         else snd (tbl ! m))"
      using True by (subst bsearch.simps) (simp add: Let_def m_def flip: mid_def)
    consider (lt) "cf w (fst (tbl ! m)) < 0" | (gt) "cf w (fst (tbl ! m)) > 0"
      | (eq) "cf w (fst (tbl ! m)) = 0" by linarith
    then show ?thesis
    proof cases
      case lt
      then have "w < fst (tbl ! m)" using cf_less_0 [OF w cm] by simp
      have "fst (tbl ! i) \<noteq> w" if "i \<in> set (m # [Suc m ..< nat (high + 1)])" for i
      proof -
        from that have "i = m \<or> m < i \<and> i < nat (high + 1)" by auto
        then have "fst (tbl ! m) \<le> fst (tbl ! i)" using hi by (auto intro: less_imp_le)
        with \<open>w < fst (tbl ! m)\<close> show ?thesis by auto
      qed
      then have "List.find (\<lambda>i. fst (tbl ! i) = w) (m # [Suc m ..< nat (high + 1)]) = None"
        by (intro find_None) blast
      then have "?f low high = ?f low (mid - 1)"
        using mb(2) by (simp add: split find_append split: option.splits)
      moreover have "bsearch w tbl low (mid - 1) = (case ?f low (mid - 1) of None \<Rightarrow> 0 | Some i \<Rightarrow> snd (tbl ! i))"
        using "1.IH"(1) [OF True mid_def refl] lt "1.prems" mb mid by simp
      ultimately show ?thesis using unfold lt by simp
    next
      case gt
      then have "fst (tbl ! m) < w" using cf_less_0 [OF w cm] cf_eq_0 [OF w cm] by force
      then have "?f low high = ?f (mid + 1) high"
        using lo find_None [of "[nat low ..< m]" "\<lambda>i. fst (tbl ! i) = w"] mb(2)
        by (force simp: split find_append nat_add_distrib)
      moreover have "bsearch w tbl (mid + 1) high = (case ?f (mid + 1) high of None \<Rightarrow> 0 | Some i \<Rightarrow> snd (tbl ! i))"
        using "1.IH"(2) [OF True mid_def refl] gt "1.prems" mb mid by simp
      ultimately show ?thesis using unfold gt by simp
    next
      case eq
      then have "w = fst (tbl ! m)" using cf_eq_0 [OF w cm] by simp
      then have "?f low high = Some m"
        using lo find_None [of "[nat low ..< m]" "\<lambda>i. fst (tbl ! i) = w"]
        by (force simp: split find_append)
      then show ?thesis using unfold eq by simp
    qed
  qed
qed

lemma find_map_of:
  "(case List.find (\<lambda>i. fst (tbl ! i) = w) [0..<length tbl] of None \<Rightarrow> d | Some i \<Rightarrow> snd (tbl ! i)) =
     (case map_of tbl w of None \<Rightarrow> d | Some v \<Rightarrow> v)"
proof (induction tbl)
  case (Cons e tbl)
  have "[0..<length (e # tbl)] = 0 # map Suc [0..<length tbl]"
    by (simp add: map_Suc_upt upt_conv_Cons del: upt_Suc)
  with Cons show ?case
    by (cases e) (auto simp: find_map comp_def split: option.splits simp del: upt_Suc)
qed simp

section \<open>Walking the search path\<close>

definition catpath :: "cstr \<Rightarrow> cstr \<Rightarrow> cstr option \<times> cstr" where
  "catpath path name =
     (let dir = takeWhile (\<lambda>c. c \<noteq> CHR '':'') path;
          scanp = dropWhile (\<lambda>c. c \<noteq> CHR '':'') path;
          scanp' = (if deref scanp = CHR '':'' then tl scanp else scanp)
      in ((if scanp' \<noteq> [] then Some scanp' else None),
          dir @ (if dir \<noteq> [] then ''/'' else []) @ name))"

definition nextpath :: "cstr \<Rightarrow> cstr option" where
  "nextpath path =
     (let scanp = dropWhile (\<lambda>c. c \<noteq> CHR '':'') path;
          scanp' = (if deref scanp = CHR '':'' then tl scanp else scanp)
      in if scanp' \<noteq> [] then Some scanp' else None)"

datatype fail = Restricted cstr | WtFailed cstr | NotId cstr | BadUnset cstr | BadNum cstr

text \<open>\<open>getpath\<close>: \<open>rsh\<close> is \<open>flags & rshflg\<close>, \<open>val\<close> is \<open>pathnod.namval\<close>.\<close>

definition getpath :: "bool \<Rightarrow> cstr option \<Rightarrow> cstr \<Rightarrow> cstr \<Rightarrow> fail + cstr" where
  "getpath rsh val defpath s =
     (if CHR ''/'' \<in> set s then (if rsh then Inl (Restricted s) else Inr [])
      else case val of
        None \<Rightarrow> Inr defpath
      | Some path \<Rightarrow>
          let pathlen = length path in
          if pathlen > 2 \<and> path ! (pathlen - 1) = CHR '':'' \<and> path ! (pathlen - 2) \<noteq> CHR '':''
          then Inr (path @ '':'') else Inr path)"

text \<open>
  The search loop of \<open>findpath\<close>: the remaining path, \<open>count\<close>, \<open>e_code\<close> and \<open>cost\<close>; the
  result is the return value and the cost. Each turn consumes path characters.
\<close>

function find_loop ::
  "(cstr \<Rightarrow> nat) \<Rightarrow> cstr \<Rightarrow> cstr option \<Rightarrow> nat \<Rightarrow> nat \<Rightarrow> nat \<Rightarrow> int \<times> nat" where
  "find_loop chk name None count e_code n = (- int e_code, n)"
| "find_loop chk name (Some path) count e_code n =
     (let (path', p) = catpath path name; ok = chk p in
      if ok = 0 then (int count, Suc n)
      else find_loop chk name path' (Suc count) (max e_code ok) (Suc n))"
  by pat_completeness auto

lemma drop_colon:
  "(let r = dropWhile (\<lambda>c. c \<noteq> CHR '':'') path in
     if deref r = CHR '':'' then tl r else r) = tl (dropWhile (\<lambda>c. c \<noteq> CHR '':'') path)"
  by (induction path) auto

lemma catpath_eq:
  "catpath path name =
     (let d = takeWhile (\<lambda>c. c \<noteq> CHR '':'') path; r = tl (dropWhile (\<lambda>c. c \<noteq> CHR '':'') path)
      in ((if r \<noteq> [] then Some r else None), d @ (if d \<noteq> [] then ''/'' else []) @ name))"
  unfolding catpath_def Let_def drop_colon [unfolded Let_def] ..

lemma nextpath_eq:
  "nextpath path = (let r = tl (dropWhile (\<lambda>c. c \<noteq> CHR '':'') path)
     in if r \<noteq> [] then Some r else None)"
  unfolding nextpath_def Let_def drop_colon [unfolded Let_def] ..

lemma catpath_nextpath: "fst (catpath path name) = nextpath path"
  by (simp add: catpath_eq nextpath_eq Let_def)

lemma nextpath_length: "nextpath path = Some path' \<Longrightarrow> length path' < length path"
proof -
  assume "nextpath path = Some path'"
  then have "path' = tl (dropWhile (\<lambda>c. c \<noteq> CHR '':'') path)" "path' \<noteq> []"
    by (auto simp: nextpath_eq Let_def split: if_splits)
  moreover have "length (dropWhile (\<lambda>c. c \<noteq> CHR '':'') path) \<le> length path"
    by (rule length_dropWhile_le)
  ultimately show ?thesis
    by (cases "dropWhile (\<lambda>c. c \<noteq> CHR '':'') path") auto
qed

lemma catpath_length: "(path', p) = catpath path name \<Longrightarrow> path' = Some r \<Longrightarrow> length r < length path"
  using catpath_nextpath [of path name] nextpath_length [of path r] by (metis fst_conv)

termination find_loop
  by (relation "measure (\<lambda>(_, _, p, _). case p of None \<Rightarrow> 0 | Some s \<Rightarrow> Suc (length s))")
    (auto split: option.splits dest: catpath_length)

text \<open>The prefix walk \<open>while (--count) path = nextpath(path)\<close>; \<open>nextpath(0)\<close> reads a null pointer.\<close>

fun skip_path :: "nat \<Rightarrow> cstr option \<Rightarrow> cstr option option" where
  "skip_path 0 path = Some path"
| "skip_path (Suc n) None = None"
| "skip_path (Suc n) (Some p) = skip_path n (nextpath p)"

definition findpath :: "(cstr \<Rightarrow> nat) \<Rightarrow> cstr \<Rightarrow> nat \<Rightarrow> cstr \<Rightarrow> nat \<Rightarrow> (int \<times> nat) option" where
  "findpath chk path dotpath name oldpath =
     (if oldpath \<noteq> 0 then
        (case skip_path (dotpath - 1) (Some path) of
           None \<Rightarrow> None
         | Some rest \<Rightarrow>
             if oldpath > dotpath then
               (case rest of
                  None \<Rightarrow> None
                | Some r \<Rightarrow>
                    if chk (snd (catpath r name)) = 0 then Some (int dotpath, 1)
                    else Some (int oldpath, 1))
             else Some (find_loop chk name rest dotpath 1 0))
      else Some (find_loop chk name (Some path) 1 1 0))"


section \<open>The command cache\<close>

abbreviation BUILTIN :: "16 word" where "BUILTIN \<equiv> 0x0100"
abbreviation FUNCTION :: "16 word" where "FUNCTION \<equiv> 0x0200"
abbreviation COMMAND :: "16 word" where "COMMAND \<equiv> 0x0400"
abbreviation REL_COMMAND :: "16 word" where "REL_COMMAND \<equiv> 0x0800"
abbreviation PATH_COMMAND :: "16 word" where "PATH_COMMAND \<equiv> 0x1000"
abbreviation CDMARK :: "16 word" where "CDMARK \<equiv> 0x8000"
abbreviation DOT_COMMAND :: "16 word" where "DOT_COMMAND \<equiv> 0x8800"
abbreviation HASHZAP :: "16 word" where "HASHZAP \<equiv> 0x03FF"

definition hashtype :: "16 word \<Rightarrow> 16 word" where "hashtype x = x AND 0x1F00"
definition hashdata :: "16 word \<Rightarrow> nat" where "hashdata x = unat (x AND 0x00FF)"

text \<open>
  \<open>relcmd\<close> is the list of entries found through a relative path component, \<open>fcost\<close> the
  static \<open>cost\<close>.
\<close>

record cache =
  ht :: htab
  relcmd :: "(nat \<times> nat) list"
  dotpath :: nat
  multrel :: bool
  fcost :: "8 word"

definition letter :: "char \<Rightarrow> bool" where
  "letter c \<longleftrightarrow> ord (CHR ''A'') \<le> ord c \<and> ord c \<le> ord (CHR ''Z'') \<or>
     ord (CHR ''a'') \<le> ord c \<and> ord c \<le> ord (CHR ''z'') \<or> c = CHR ''_''"

definition alphanum :: "char \<Rightarrow> bool" where
  "alphanum c \<longleftrightarrow> letter c \<or> numeric c"

text \<open>\<open>argpath\<close>: does the argument list assign \<open>PATH\<close>?\<close>

fun argpath :: "cstr list \<Rightarrow> bool" where
  "argpath [] = False"
| "argpath (s # args) =
     (if letter (deref s) \<and> deref (dropWhile alphanum s) = CHR ''='' \<and>
         takeWhile alphanum s = ''PATH''
      then True else argpath args)"

text \<open>The common tail of \<open>pathlook\<close> after the search: enter, classify, count.\<close>

definition enter_found ::
  "bool \<Rightarrow> cstr \<Rightarrow> (nat \<times> nat) option \<Rightarrow> 16 word \<Rightarrow> int \<Rightarrow> cache \<Rightarrow> (16 word \<times> cache) option" where
  "enter_found flg name h hdata count st =
     (if count > 0 then
        (case (case h of
                 Some ik \<Rightarrow> Some (ik, ht st)
               | None \<Rightarrow> henter \<lparr>key = name, data = hdata, hits = 0, cost = 0\<rparr> (ht st)) of
           None \<Rightarrow> None
         | Some (ik, t) \<Rightarrow>
             let d = data (at t ik);
                 rel = (d = 0 \<and> \<not> count < int (dotpath st));
                 d' = (if d = 0 then (if rel then REL_COMMAND else COMMAND) OR of_int count else d);
                 t' = upd_at ik (\<lambda>e. e\<lparr>data := d', hits := (if flg then 1 else 0),
                                        cost := cost e + fcost st\<rparr>) t
             in Some (d', st\<lparr>ht := t',
                             relcmd := (if rel then ik # relcmd st else relcmd st)\<rparr>))
      else Some (of_int (- count), st))"

text \<open>The search itself, at the label \<open>pathsrch\<close>.\<close>

definition pathsrch ::
  "(cstr \<Rightarrow> nat) \<Rightarrow> cstr \<Rightarrow> bool \<Rightarrow> cstr \<Rightarrow> (nat \<times> nat) option \<Rightarrow> nat \<Rightarrow> cache
     \<Rightarrow> (16 word \<times> cache) option" where
  "pathsrch chk path flg name h oldpath st =
     (case findpath chk path (dotpath st) name oldpath of
        None \<Rightarrow> None
      | Some (count, c) \<Rightarrow> enter_found flg name h 0 count (st\<lparr>fcost := of_nat c\<rparr>))"

definition bump_hits :: "bool \<Rightarrow> entry \<Rightarrow> entry" where
  "bump_hits flg e = (if flg then e\<lparr>hits := hits e + 1\<rparr> else e)"

definition pathlook ::
  "(cstr \<Rightarrow> nat) \<Rightarrow> cstr \<Rightarrow> (cstr \<times> int) list \<Rightarrow> cstr \<Rightarrow> bool \<Rightarrow> cstr list \<Rightarrow> cache
     \<Rightarrow> (16 word \<times> cache) option" where
  "pathlook chk path commands name flg arg st =
     (if CHR ''/'' \<in> set name then Some (COMMAND, st)
      else
        let (h, t) = hfind name (ht st); st = st\<lparr>ht := t\<rparr>;
            builtin_or_search = (\<lambda>st.
              let i = syslook name commands in
              if i \<noteq> 0 then enter_found flg name h (BUILTIN OR of_int i) 1 st
              else if argpath arg then Some (PATH_COMMAND, st)
              else pathsrch chk path flg name h 0 st)
        in case h of
          None \<Rightarrow> builtin_or_search st
        | Some ik \<Rightarrow>
            let d = data (at t ik) in
            if d AND (BUILTIN OR FUNCTION) \<noteq> 0 then
              Some (d, st\<lparr>ht := upd_at ik (bump_hits flg) t\<rparr>)
            else if argpath arg then Some (PATH_COMMAND, st)
            else if d AND DOT_COMMAND = DOT_COMMAND then
              pathsrch chk path flg name h
                (if \<not> multrel st \<and> hashdata d > dotpath st then hashdata d else dotpath st)
                (st\<lparr>ht := upd_at ik (\<lambda>e. e\<lparr>data := 0\<rparr>) t\<rparr>)
            else if d AND (COMMAND OR REL_COMMAND) \<noteq> 0 then
              Some (d, st\<lparr>ht := upd_at ik (bump_hits flg) t\<rparr>)
            else builtin_or_search (st\<lparr>ht := upd_at ik (\<lambda>e. e\<lparr>data := 0, cost := 0\<rparr>) t\<rparr>))"

definition zapentry :: "entry \<Rightarrow> entry" where
  "zapentry h = h\<lparr>data := data h AND HASHZAP\<rparr>"

definition zaphash :: "cache \<Rightarrow> cache" where
  "zaphash st = st\<lparr>ht := hscan zapentry (ht st), relcmd := []\<rparr>"

definition zapcd :: "cache \<Rightarrow> cache" where
  "zapcd st =
     st\<lparr>ht := fold (\<lambda>ik. upd_at ik (\<lambda>e. e\<lparr>data := data e OR CDMARK\<rparr>)) (relcmd st) (ht st),
        relcmd := []\<rparr>"

text \<open>Setting the data of a name, entering it where it is new: \<open>hash_func\<close> with its constant.\<close>

definition hset :: "16 word \<Rightarrow> cstr \<Rightarrow> htab \<Rightarrow> htab" where
  "hset d name t =
     (case hfind name t of
        (Some ik, t') \<Rightarrow> upd_at ik (\<lambda>e. e\<lparr>data := d\<rparr>) t'
      | (None, t') \<Rightarrow>
          (case henter \<lparr>key = name, data = d, hits = 0, cost = 0\<rparr> t' of
             None \<Rightarrow> t' | Some (ik, t'') \<Rightarrow> t''))"

definition hash_func :: "cstr \<Rightarrow> cache \<Rightarrow> cache" where
  "hash_func name st = st\<lparr>ht := hset FUNCTION name (ht st)\<rparr>"

definition func_unhash :: "(cstr \<times> int) list \<Rightarrow> cstr \<Rightarrow> cache \<Rightarrow> cache" where
  "func_unhash commands name st =
     (case hfind name (ht st) of
        (None, t) \<Rightarrow> st\<lparr>ht := t\<rparr>
      | (Some ik, t) \<Rightarrow>
          if data (at t ik) AND FUNCTION \<noteq> 0 then
            let i = syslook name commands in
            st\<lparr>ht := upd_at ik (\<lambda>e. e\<lparr>data := (if i \<noteq> 0 then BUILTIN OR of_int i else 0)\<rparr>) t\<rparr>
          else st\<lparr>ht := t\<rparr>)"

text \<open>
  \<open>hash_cmd\<close>. The search for the predecessor of \<open>h\<close> in the list of relative commands does
  not test for its end.
\<close>

definition hash_cmd ::
  "(cstr \<Rightarrow> nat) \<Rightarrow> cstr \<Rightarrow> (cstr \<times> int) list \<Rightarrow> cstr \<Rightarrow> cache \<Rightarrow> (16 word \<times> cache) option" where
  "hash_cmd chk path commands name st =
     (if CHR ''/'' \<in> set name then Some (COMMAND, st)
      else case hfind name (ht st) of
        (None, t) \<Rightarrow> pathlook chk path commands name False [] (st\<lparr>ht := t\<rparr>)
      | (Some ik, t) \<Rightarrow>
          let d = data (at t ik) in
          if d AND (BUILTIN OR FUNCTION) \<noteq> 0 then Some (d, st\<lparr>ht := t\<rparr>)
          else if d AND REL_COMMAND = REL_COMMAND then
            (if ik \<in> set (relcmd st) then
               pathlook chk path commands name False []
                 (st\<lparr>ht := upd_at ik zapentry t, relcmd := remove1 ik (relcmd st)\<rparr>)
             else None)
          else pathlook chk path commands name False [] (st\<lparr>ht := upd_at ik zapentry t\<rparr>))"

text \<open>\<open>set_dotpath\<close>: the loop over the path; the result is \<open>dotpath\<close> and \<open>multrel\<close>.\<close>

function dot_loop :: "cstr option \<Rightarrow> nat \<Rightarrow> nat \<Rightarrow> nat \<times> bool" where
  "dot_loop None cnt dp = (dp, False)"
| "dot_loop (Some path) cnt dp =
     (if path = [] then (dp, False)
      else if deref path = CHR ''/'' then dot_loop (nextpath path) (Suc cnt) dp
      else if dp = 10000 then dot_loop (nextpath path) cnt cnt
      else (dp, True))"
  by pat_completeness auto
termination
  by (relation "measure (\<lambda>(p, _). case p of None \<Rightarrow> 0 | Some s \<Rightarrow> Suc (length s))")
    (auto split: option.splits dest: nextpath_length)

definition set_dotpath :: "cstr \<Rightarrow> cache \<Rightarrow> cache" where
  "set_dotpath path st =
     (let (dp, mr) = dot_loop (Some path) 1 10000 in st\<lparr>dotpath := dp, multrel := mr\<rparr>)"


section \<open>Facts on the cache\<close>

lemma hlookup_last_slot [simp]: "hlookup (t\<lparr>last_slot := x\<rparr>) m = hlookup t m"
  by (simp add: hlookup_find)

lemma wf_last_slot [simp]: "wf_htab (t\<lparr>last_slot := x\<rparr>) = wf_htab t"
  by (simp add: wf_htab_def)

lemma chain_map: "map key b = map key b' \<Longrightarrow> chain n b = chain n b'"
  by (induction b b' rule: list_induct2') simp_all

lemma chain_append_new: "n \<notin> key ` set b \<Longrightarrow> key e = n \<Longrightarrow> chain n (b @ [e]) = length b"
  by (induction b) auto

text \<open>What a search leaves: \<open>h\<close> is the entry's place, or the slot is ready for it.\<close>

definition probe :: "cstr \<Rightarrow> (nat \<times> nat) option \<Rightarrow> htab \<Rightarrow> bool" where
  "probe name h t \<longleftrightarrow> wf_htab t \<and>
     (case h of
        Some ik \<Rightarrow> hfind name t = (Some ik, t)
      | None \<Rightarrow> (\<exists>t0. wf_htab t0 \<and> hfind name t0 = (None, t)))"

lemma hfind_probe: "wf_htab t \<Longrightarrow> hfind name t = (h, t') \<Longrightarrow> probe name h t'"
proof (cases h)
  case None
  assume a: "wf_htab t" "hfind name t = (h, t')"
  with None hfind_None(1) [of name t t'] have "wf_htab t'" by simp
  with a None show ?thesis by (auto simp: probe_def)
next
  case (Some ik)
  assume a: "wf_htab t" "hfind name t = (h, t')"
  with Some hfind_Some(1) [of name t ik t'] show ?thesis by (simp add: probe_def)
qed

lemma hfind_hlookup: "wf_htab t \<Longrightarrow> hfind name t = (h, t') \<Longrightarrow> hlookup t' m = hlookup t m"
  using hfind_Some(1) [of name t "the h" t'] hfind_None(1) [of name t t'] by (cases h) simp_all

lemma probe_upd_at:
  assumes "probe name (Some ik) t" and "\<And>e. key (f e) = key e"
  shows "probe name (Some ik) (upd_at ik f t)"
    "hlookup (upd_at ik f t) m = (if m = name then Some (f (at t ik)) else hlookup t m)"
    "at (upd_at ik f t) ik = f (at t ik)"
proof -
  from assms(1) have wf: "wf_htab t" and h: "hfind name t = (Some ik, t)"
    by (auto simp: probe_def)
  note fd = hfind_Some [OF h]
  have k: "key (f (at t ik)) = name" using fd(4) assms(2) by simp
  note up = upd_at_wf [OF wf h, of f, OF k]
  from up(2,3) show "hlookup (upd_at ik f t) m = (if m = name then Some (f (at t ik)) else hlookup t m)"
    "at (upd_at ik f t) ik = f (at t ik)" by auto
  have len: "hash name < length (table t)" using wf hash_less [of name] by (simp add: wf_htab_def)
  have b: "table (upd_at ik f t) ! hash name = (table t ! hash name)[snd ik := f (at t ik)]"
    using len fd(2) by (simp add: upd_at_def)
  have "map key (table (upd_at ik f t) ! hash name) = map key (table t ! hash name)"
    using fd(2,3,4) k b by (simp add: map_update list_update_same_conv at_def)
  then have "hfind name (upd_at ik f t) = (Some ik, upd_at ik f t)"
    using h chain_map [of "table (upd_at ik f t) ! hash name" "table t ! hash name" name] b
    by (auto simp: hfind_def Let_def split: if_splits)
  with up(1) show "probe name (Some ik) (upd_at ik f t)" by (simp add: probe_def)
qed

lemma probe_enter:
  assumes "probe name None t" and "key e = name"
  obtains ik u where "henter e t = Some (ik, u)" "probe name (Some ik) u"
    "\<And>m. hlookup u m = (if m = name then Some e else hlookup t m)" "at u ik = e"
proof -
  from assms(1) obtain t0 where t0: "wf_htab t0" "hfind name t0 = (None, t)"
    by (auto simp: probe_def)
  then obtain ik u where u: "henter e t = Some (ik, u)"
    using hfind_None(1) [OF t0(2)] by (auto simp: henter_def)
  note hw = henter_wf [OF t0 assms(2) u]
  have "hlookup u name = Some e" using hw(2) by simp
  obtain h' u' where hu: "hfind name u = (h', u')" by (cases "hfind name u")
  with \<open>hlookup u name = Some e\<close> obtain ik' where "h' = Some ik'"
    using hfind_None(3) [of name u u'] by (cases h') auto
  with hu hfind_Some(1) [of name u ik' u'] have ik': "hfind name u = (Some ik', u)" by simp
  have "ik' = ik"
  proof -
    have "table u ! hash name = table t0 ! hash name @ [e]"
      using u hfind_None(1) [OF t0(2)] t0(1) hash_less [of name]
      by (auto simp: henter_def wf_htab_def)
    then have "chain name (table u ! hash name) = length (table t0 ! hash name)"
      using hfind_None(2) [OF t0(2)] assms(2)
      by (simp add: chain_append_new)
    with hw(3) hfind_Some(2) [OF ik'] show ?thesis by simp
  qed
  with ik' hw(1) have "probe name (Some ik) u" by (simp add: probe_def)
  moreover have "hlookup u m = (if m = name then Some e else hlookup t m)" for m
    using hw(2) hfind_hlookup [OF t0] by simp
  ultimately show thesis using that u hw(4) by blast
qed

text \<open>The effect of the tail of \<open>pathlook\<close> on the table.\<close>

lemma enter_found_ok:
  assumes "probe name h (ht st)" and "enter_found flg name h hdat count st = Some (d, st')"
  shows "wf_htab (ht st')" "m \<noteq> name \<Longrightarrow> hlookup (ht st') m = hlookup (ht st) m"
    "count > 0 \<Longrightarrow> \<exists>e. hlookup (ht st') name = Some e \<and> data e = d"
    "count \<le> 0 \<Longrightarrow> d = of_int (- count)"
proof -
  have "wf_htab (ht st') \<and> (m \<noteq> name \<longrightarrow> hlookup (ht st') m = hlookup (ht st) m) \<and>
      (count > 0 \<longrightarrow> (\<exists>e. hlookup (ht st') name = Some e \<and> data e = d)) \<and>
      (count \<le> 0 \<longrightarrow> d = of_int (- count))"
  proof (cases "count > 0")
    case False
    with assms show ?thesis by (auto simp: enter_found_def probe_def)
  next
    case True
    obtain ik t where t: "(case h of Some ik \<Rightarrow> Some (ik, ht st)
        | None \<Rightarrow> henter \<lparr>key = name, data = hdat, hits = 0, cost = 0\<rparr> (ht st)) = Some (ik, t)"
      and p: "probe name (Some ik) t" and fr: "m \<noteq> name \<longrightarrow> hlookup t m = hlookup (ht st) m"
    proof (cases h)
      case None
      with assms(1) have "probe name None (ht st)" by simp
      let ?e = "\<lparr>key = name, data = hdat, hits = 0, cost = 0\<rparr>"
      have k: "key ?e = name" by simp
      show ?thesis
      proof (rule probe_enter [OF \<open>probe name None (ht st)\<close> k])
        fix ik u
        assume "henter ?e (ht st) = Some (ik, u)" "probe name (Some ik) u"
          "\<And>m. hlookup u m = (if m = name then Some ?e else hlookup (ht st) m)"
        with None that show ?thesis by simp
      qed
    next
      case (Some ik)
      with assms(1) that show ?thesis by auto
    qed
    define g where "g = (\<lambda>e :: entry. e\<lparr>data := d, hits := (if flg then 1 else 0), cost := cost e + fcost st\<rparr>)"
    from assms(2) True t have "ht st' = upd_at ik g t"
      by (auto simp: enter_found_def Let_def g_def)
    moreover have "\<And>e. key (g e) = key e" by (simp add: g_def)
    ultimately show ?thesis
      using probe_upd_at [OF p, of g] fr True by (auto simp: probe_def g_def)
  qed
  then show "wf_htab (ht st')" "m \<noteq> name \<Longrightarrow> hlookup (ht st') m = hlookup (ht st) m"
    "count > 0 \<Longrightarrow> \<exists>e. hlookup (ht st') name = Some e \<and> data e = d"
    "count \<le> 0 \<Longrightarrow> d = of_int (- count)"
    by auto
qed

text \<open>What a step of the cache that concerns \<open>name\<close> keeps.\<close>

definition keeps :: "cstr \<Rightarrow> cache \<Rightarrow> cache \<Rightarrow> bool" where
  "keeps name st st' \<longleftrightarrow>
     wf_htab (ht st') \<and> (\<forall>m. m \<noteq> name \<longrightarrow> hlookup (ht st') m = hlookup (ht st) m)"

text \<open>The answer is what the table then holds, or an error code, or a \<open>PATH\<close> assignment.\<close>

definition answered :: "cstr \<Rightarrow> 16 word \<Rightarrow> cache \<Rightarrow> bool" where
  "answered name d st \<longleftrightarrow> (\<exists>e. hlookup (ht st) name = Some e \<and> data e = d) \<or>
     d = PATH_COMMAND \<or> d AND 0x0F00 = 0"

lemma find_loop_ge:
  assumes "\<And>p. chk p \<le> 3" and "e_code \<le> 3" and "find_loop chk name path count e_code c = (r, c')"
  shows "- 3 \<le> r"
  using assms
proof (induction chk name path count e_code c arbitrary: r c' rule: find_loop.induct)
  case (2 chk name path count e_code c)
  obtain path' p where cp: "catpath path name = (path', p)" by (cases "catpath path name")
  show ?case
  proof (cases "chk p = 0")
    case True
    with 2 cp show ?thesis by auto
  next
    case False
    with 2 cp have "find_loop chk name path' (Suc count) (max e_code (chk p)) (Suc c) = (r, c')"
      by simp
    moreover have "max e_code (chk p) \<le> 3" using "2.prems"(1,2) by simp
    ultimately show ?thesis
      using "2.IH" [OF cp [symmetric] refl refl False "2.prems"(1)] by blast
  qed
qed auto

lemma findpath_ge:
  "(\<And>p. chk p \<le> 3) \<Longrightarrow> findpath chk path dp name old = Some (r, c) \<Longrightarrow> - 3 \<le> r"
  by (auto simp: findpath_def split: if_splits option.splits
      intro: find_loop_ge [where chk = chk and e_code = 1] simp del: find_loop.simps)

lemma small_answer: "- 3 \<le> r \<Longrightarrow> r \<le> 0 \<Longrightarrow> (of_int (- r) :: 16 word) AND 0x0F00 = 0"
proof -
  assume "- 3 \<le> r" "r \<le> 0"
  then have "r = 0 \<or> r = - 1 \<or> r = - 2 \<or> r = - 3" by linarith
  then show ?thesis by auto
qed

lemma enter_found_answered:
  assumes "probe name h (ht st)" and "enter_found flg name h hdat count st = Some (d, st')"
  shows "keeps name st st'" "- 3 \<le> count \<Longrightarrow> answered name d st'"
proof -
  show "keeps name st st'" using enter_found_ok(1,2) [OF assms] by (simp add: keeps_def)
  show "answered name d st'" if "- 3 \<le> count"
    using enter_found_ok(3,4) [OF assms] small_answer [OF that]
    by (cases "count > 0") (auto simp: answered_def)
qed

lemma pathsrch_answered:
  assumes "probe name h (ht st)" and "pathsrch chk path flg name h old st = Some (d, st')"
  shows "keeps name st st'" "(\<And>p. chk p \<le> 3) \<Longrightarrow> answered name d st'"
proof -
  from assms(2) obtain count c where fp: "findpath chk path (dotpath st) name old = Some (count, c)"
    and e: "enter_found flg name h 0 count (st\<lparr>fcost := of_nat c\<rparr>) = Some (d, st')"
    by (auto simp: pathsrch_def split: option.splits)
  have p: "probe name h (ht (st\<lparr>fcost := of_nat c\<rparr>))" using assms(1) by simp
  show "keeps name st st'"
    using enter_found_answered(1) [OF p e] by (simp add: keeps_def)
  show "answered name d st'" if "\<And>p. chk p \<le> 3"
    using enter_found_answered(2) [OF p e] findpath_ge [OF that fp] by simp
qed

text \<open>The branch of \<open>pathlook\<close> that looks for a builtin and then searches.\<close>

definition builtin_or_search where
  "builtin_or_search chk path commands flg arg name h st =
     (let i = syslook name commands in
      if i \<noteq> 0 then enter_found flg name h (BUILTIN OR of_int i) 1 st
      else if argpath arg then Some (PATH_COMMAND, st)
      else pathsrch chk path flg name h 0 st)"

lemma builtin_or_search_answered:
  assumes p: "probe name h (ht st)"
    and "builtin_or_search chk path commands flg arg name h st = Some (d, st')"
  shows "keeps name st st'" "(\<And>p. chk p \<le> 3) \<Longrightarrow> answered name d st'"
  using assms(2) enter_found_answered [OF p, of flg "BUILTIN OR of_int (syslook name commands)" 1 d st']
    pathsrch_answered [OF p, of chk path flg 0 d st'] p
  by (auto simp: builtin_or_search_def Let_def keeps_def answered_def probe_def split: if_splits)

lemma keeps_trans: "keeps n a b \<Longrightarrow> keeps n b c \<Longrightarrow> keeps n a c"
  by (simp add: keeps_def)

lemma pathlook_answered:
  assumes wf: "wf_htab (ht st)" and r: "pathlook chk path commands name flg arg st = Some (d, st')"
  shows "keeps name st st'"
    "(\<And>p. chk p \<le> 3) \<Longrightarrow> CHR ''/'' \<notin> set name \<Longrightarrow> answered name d st'"
proof -
  obtain h t where h: "hfind name (ht st) = (h, t)" by (cases "hfind name (ht st)")
  have pr: "probe name h t" by (rule hfind_probe [OF wf h])
  have k0: "keeps name st (st\<lparr>ht := t\<rparr>)"
    using pr hfind_hlookup [OF wf h] by (simp add: keeps_def probe_def)
  have *: "keeps name st st' \<and> ((\<forall>p. chk p \<le> 3) \<longrightarrow> CHR ''/'' \<notin> set name \<longrightarrow> answered name d st')"
  proof (cases "CHR ''/'' \<in> set name")
    case True
    with r wf show ?thesis by (auto simp: pathlook_def keeps_def)
  next
    case ns: False
    show ?thesis
    proof (cases h)
      case None
      with r h ns have "builtin_or_search chk path commands flg arg name None (st\<lparr>ht := t\<rparr>) = Some (d, st')"
        by (simp add: pathlook_def builtin_or_search_def Let_def)
      from builtin_or_search_answered [OF _ this] pr None k0 show ?thesis
        by (auto intro: keeps_trans)
    next
      case (Some ik)
      define e where "e = at t ik"
      have lk: "hlookup t name = Some e"
        using h Some hfind_Some [of name "ht st" ik t] by (simp add: e_def)
      note up = probe_upd_at [OF pr [unfolded Some]]
      have bump: "keeps name st (st\<lparr>ht := upd_at ik (bump_hits flg) t\<rparr>) \<and>
          answered name (data e) (st\<lparr>ht := upd_at ik (bump_hits flg) t\<rparr>)"
        using up [of "bump_hits flg"] k0
        by (auto simp: keeps_def probe_def answered_def bump_hits_def e_def)
      have bumpc: "keeps name st st' \<and> ((\<forall>p. chk p \<le> 3) \<longrightarrow> CHR ''/'' \<notin> set name \<longrightarrow> answered name d st')"
        if "Some (data e, st\<lparr>ht := upd_at ik (bump_hits flg) t\<rparr>) = Some (d, st')"
        using that bump by simp
      have clr: "keeps name st (st\<lparr>ht := upd_at ik f t\<rparr>)" "probe name (Some ik) (ht (st\<lparr>ht := upd_at ik f t\<rparr>))"
        if "\<And>e. key (f e) = key e" for f
        using up [of f, OF that] k0 by (auto simp: keeps_def probe_def)
      have c1: "keeps name st st' \<and> ((\<forall>p. chk p \<le> 3) \<longrightarrow> answered name d st')"
        if "pathsrch chk path flg name (Some ik) old (st\<lparr>ht := upd_at ik (\<lambda>e. e\<lparr>data := 0\<rparr>) t\<rparr>) = Some (d, st')" for old
        using pathsrch_answered [OF clr(2) that] clr(1) [of "\<lambda>e. e\<lparr>data := 0\<rparr>"] keeps_trans by auto
      have c2: "keeps name st st' \<and> ((\<forall>p. chk p \<le> 3) \<longrightarrow> answered name d st')"
        if "builtin_or_search chk path commands flg arg name (Some ik)
          (st\<lparr>ht := upd_at ik (\<lambda>e. e\<lparr>data := 0, cost := 0\<rparr>) t\<rparr>) = Some (d, st')"
        using builtin_or_search_answered [OF clr(2) that] clr(1) [of "\<lambda>e. e\<lparr>data := 0, cost := 0\<rparr>"]
          keeps_trans by auto
      have "pathlook chk path commands name flg arg st =
          (if data e AND (BUILTIN OR FUNCTION) \<noteq> 0 then
             Some (data e, st\<lparr>ht := upd_at ik (bump_hits flg) t\<rparr>)
           else if argpath arg then Some (PATH_COMMAND, st\<lparr>ht := t\<rparr>)
           else if data e AND DOT_COMMAND = DOT_COMMAND then
             pathsrch chk path flg name (Some ik)
               (if \<not> multrel st \<and> hashdata (data e) > dotpath st then hashdata (data e) else dotpath st)
               (st\<lparr>ht := upd_at ik (\<lambda>e. e\<lparr>data := 0\<rparr>) t\<rparr>)
           else if data e AND (COMMAND OR REL_COMMAND) \<noteq> 0 then
             Some (data e, st\<lparr>ht := upd_at ik (bump_hits flg) t\<rparr>)
           else builtin_or_search chk path commands flg arg name (Some ik)
             (st\<lparr>ht := upd_at ik (\<lambda>e. e\<lparr>data := 0, cost := 0\<rparr>) t\<rparr>))"
        by (simp add: pathlook_def ns h Some Let_def e_def builtin_or_search_def)
      from if5_cases [OF trans [OF this [symmetric] r]] show ?thesis
      proof (elim disjE)
        assume "Some (PATH_COMMAND, st\<lparr>ht := t\<rparr>) = Some (d, st')"
        with k0 show ?thesis by (simp add: answered_def)
      qed (use bumpc c1 c2 in blast)+
    qed
  qed
  from * show "keeps name st st'" by blast
  from * show "(\<And>p. chk p \<le> 3) \<Longrightarrow> CHR ''/'' \<notin> set name \<Longrightarrow> answered name d st'" by blast
qed

lemma hset_ok:
  assumes "wf_htab t"
  shows "wf_htab (hset d n t)"
    "map_option data (hlookup (hset d n t) m) = (if m = n then Some d else map_option data (hlookup t m))"
proof -
  obtain h t' where h: "hfind n t = (h, t')" by (cases "hfind n t")
  note pr = hfind_probe [OF assms h] and lk = hfind_hlookup [OF assms h]
  have "wf_htab (hset d n t) \<and>
    map_option data (hlookup (hset d n t) m) = (if m = n then Some d else map_option data (hlookup t m))"
  proof (cases h)
    case None
    let ?e = "\<lparr>key = n, data = d, hits = 0, cost = 0\<rparr>"
    have k: "key ?e = n" by simp
    from pr None have "probe n None t'" by simp
    from this k show ?thesis
      by (rule probe_enter) (use h None lk in \<open>auto simp: hset_def probe_def\<close>)
  next
    case (Some ik)
    have k: "\<And>e :: entry. key (e\<lparr>data := d\<rparr>) = key e" by simp
    from probe_upd_at [OF pr [unfolded Some] k] h Some lk show ?thesis
      by (auto simp: hset_def probe_def)
  qed
  then show "wf_htab (hset d n t)"
    "map_option data (hlookup (hset d n t) m) = (if m = n then Some d else map_option data (hlookup t m))"
    by auto
qed

text \<open>The table offers its clients the interface of a name store.\<close>

interpretation ct: name_store "\<lambda>t n. map_option data (hlookup t n)" "\<lambda>n d. hset d n" wf_htab "\<lambda>n. True"
  by unfold_locales (auto simp: hset_ok)

section \<open>Properties\<close>

text \<open>C31: In a table sorted by name the binary search finds the value of every name and
  answers 0 for a name that is not there.\<close>

theorem syslook_correct:
  assumes "sorted_wrt (<) (map fst tbl)" and "\<forall>e \<in> set tbl. cstr (fst e)" and "cstr w" and "w \<noteq> []"
  shows "syslook w tbl = (case map_of tbl w of None \<Rightarrow> 0 | Some v \<Rightarrow> v)"
  using bsearch_correct [OF assms(1-3), of 0 "int (length tbl) - 1"] assms(4) find_map_of [where tbl = tbl and w = w and d = 0]
  by (simp add: syslook_def)

theorem syslook_correct_witness:
  "syslook ''cd'' [(''['', 1), (''bg'', 2), (''cd'', 3)] = 3"
proof -
  have "syslook ''cd'' [(''['', 1), (''bg'', 2), (''cd'', 3)] =
      (case map_of [(''['', 1), (''bg'', 2), (''cd'', 3)] ''cd'' of None \<Rightarrow> 0 | Some v \<Rightarrow> v)"
    by (rule syslook_correct) (simp_all add: less_char_def)
  then show ?thesis by simp
qed

text \<open>Registering functions one after the other: afterwards every name of the list is a
  function, every other name has the data it had, and the table is well formed.\<close>

theorem hash_func_all:
  assumes "wf_htab (ht st)"
  shows "map_option data (hlookup (ht (fold hash_func ns st)) m) =
      (if m \<in> set ns then Some FUNCTION else map_option data (hlookup (ht st) m)) \<and>
    wf_htab (ht (fold hash_func ns st))"
proof -
  have f: "ht (fold hash_func ns st) = ct.put_all (map (\<lambda>n. (n, FUNCTION)) ns) (ht st)"
    by (induction ns arbitrary: st) (simp_all add: ct.put_all_def hash_func_def)
  have v: "list_all (\<lambda>(n, v). True) (map (\<lambda>n. (n, FUNCTION)) ns)"
    by (induction ns) simp_all
  have m: "map_of (rev (map (\<lambda>n. (n, FUNCTION)) ns)) m = (if m \<in> set ns then Some FUNCTION else None)"
    by (induction ns) (auto simp: map_add_def)
  show ?thesis
    using ct.put_all_ok [OF assms v] ct.find_put_all [OF assms v TrueI, of m] m f
    by (auto split: option.splits if_splits)
qed

theorem hash_func_all_witness:
  "map_option data (hlookup (ht (fold hash_func [''f'', ''g''] \<lparr>ht = hcreate, relcmd = [],
     dotpath = 10000, multrel = False, fcost = 0\<rparr>)) ''f'') = Some FUNCTION"
  using hash_func_all [of "\<lparr>ht = hcreate, relcmd = [], dotpath = 10000, multrel = False, fcost = 0\<rparr>"
      "[''f'', ''g'']" "''f''"]
  by (simp add: wf_hcreate)

text \<open>C27: A lookup of a command keeps the hash table well formed and never changes the
  entry of another name, whatever it finds.\<close>

theorem pathlook_frame:
  assumes "wf_htab (ht st)" and "pathlook chk path commands name flg arg st = Some (d, st')"
    and "m \<noteq> name"
  shows "wf_htab (ht st') \<and> hlookup (ht st') m = hlookup (ht st) m"
  using pathlook_answered(1) [OF assms(1,2)] assms(3) by (simp add: keeps_def)

definition empty_cache :: cache where
  "empty_cache = \<lparr>ht = hcreate, relcmd = [], dotpath = 10000, multrel = False, fcost = 0\<rparr>"

definition bin_only :: "cstr \<Rightarrow> nat" where
  "bin_only p = (if p = ''/bin/ls'' then 0 else 1)"

lemma pathlook_ls:
  "map_option fst (pathlook bin_only ''/usr/bin:/bin'' [] ''ls'' True [] empty_cache) = Some (COMMAND OR 2)"
proof -
  have "probe ''ls'' None (snd (hfind ''ls'' hcreate)) \<and> fst (hfind ''ls'' hcreate) = None"
    using hfind_probe [OF wf_hcreate, of "''ls''"] hlookup_hcreate [of "''ls''"]
    by (cases "hfind ''ls'' hcreate") (auto simp: hlookup_def split: option.splits)
  then have h: "hfind ''ls'' hcreate = (None, snd (hfind ''ls'' hcreate))"
    and p: "probe ''ls'' None (snd (hfind ''ls'' hcreate))"
    by (simp_all add: prod_eq_iff)
  have f: "findpath bin_only ''/usr/bin:/bin'' 10000 ''ls'' 0 = Some (2, 2)"
    by (simp add: findpath_def catpath_def bin_only_def Let_def)
  show ?thesis
    apply (subst pathlook_def)
    apply (simp add: empty_cache_def Let_def syslook_def bsearch.simps pathsrch_def f)
    apply (subst h)
    apply (simp add: enter_found_def Let_def f)
    apply (rule probe_enter [OF p, of "\<lparr>key = ''ls'', data = 0, hits = 0, cost = 0\<rparr>"])
     apply simp
    apply simp
    done
qed

theorem pathlook_frame_witness:
  "\<exists>d st'. pathlook bin_only ''/usr/bin:/bin'' [] ''ls'' True [] empty_cache = Some (d, st') \<and>
     wf_htab (ht st') \<and> hlookup (ht st') ''cat'' = None"
proof -
  from pathlook_ls obtain st' where
    s: "pathlook bin_only ''/usr/bin:/bin'' [] ''ls'' True [] empty_cache = Some (COMMAND OR 2, st')"
    by auto
  have "wf_htab (ht st') \<and> hlookup (ht st') ''cat'' = hlookup (ht empty_cache) ''cat''"
    by (rule pathlook_frame [OF _ s]) (simp_all add: empty_cache_def wf_hcreate)
  with s show ?thesis by (auto simp: empty_cache_def hlookup_hcreate)
qed


lemma cached_bits:
  assumes "(d :: 16 word) AND 0x0F00 \<noteq> 0" and "d AND 0x0300 = 0"
  shows "d AND 0x0C00 \<noteq> 0"
proof
  assume "d AND 0x0C00 = 0"
  with assms(2) have "d AND (0x0300 OR 0x0C00) = 0"
    by (simp only: bit.conj_disj_distrib or.right_neutral)
  with assms(1) show False by simp
qed

text \<open>C25: A command found once is answered from the table afterwards: a second lookup gives
  the same answer without a search, whatever the path and the file system have become.\<close>

theorem pathlook_cached:
  assumes "wf_htab (ht st)" and "\<And>p. chk p \<le> 3" and "CHR ''/'' \<notin> set name"
    and "pathlook chk path commands name flg arg st = Some (d, st')"
    and "d AND 0x0F00 \<noteq> 0" and "d AND DOT_COMMAND \<noteq> DOT_COMMAND"
  shows "map_option fst (pathlook chk' path' commands' name flg' [] st') = Some d"
proof -
  have k: "keeps name st st'" and a: "answered name d st'"
    using pathlook_answered [OF assms(1,4)] assms(2,3) by blast+
  have "PATH_COMMAND AND (0x0F00 :: 16 word) = 0" by simp
  with a assms(5) obtain e where e: "hlookup (ht st') name = Some e" "data e = d"
    unfolding answered_def by auto
  obtain h t where h: "hfind name (ht st') = (h, t)" by (cases "hfind name (ht st')")
  with e(1) obtain ik where ik: "h = Some ik" and "at t ik = e" "t = ht st'"
    using hfind_None(3) [of name "ht st'" t] hfind_Some [of name "ht st'" _ t] by (cases h) auto
  note bits = cached_bits [OF assms(5)]
  show ?thesis
  proof (cases "d AND (BUILTIN OR FUNCTION) \<noteq> 0")
    case True
    then show ?thesis
      unfolding pathlook_def using assms(3) h ik \<open>at t ik = e\<close> e(2) by (simp add: Let_def)
  next
    case False
    with bits have "d AND (COMMAND OR REL_COMMAND) \<noteq> 0" by simp
    with False assms(6) show ?thesis
      unfolding pathlook_def using assms(3) h ik \<open>at t ik = e\<close> e(2) by (simp add: Let_def)
  qed
qed

theorem pathlook_cached_witness:
  "\<exists>st'. pathlook bin_only ''/usr/bin:/bin'' [] ''ls'' True [] empty_cache = Some (COMMAND OR 2, st') \<and>
     map_option fst (pathlook (\<lambda>_. 1) ''/nowhere'' [] ''ls'' True [] st') = Some (COMMAND OR 2)"
proof -
  from pathlook_ls obtain st' where
    s: "pathlook bin_only ''/usr/bin:/bin'' [] ''ls'' True [] empty_cache = Some (COMMAND OR 2, st')"
    by auto
  have "map_option fst (pathlook (\<lambda>_. 1) ''/nowhere'' [] ''ls'' True [] st') = Some (COMMAND OR 2)"
    by (rule pathlook_cached [OF _ _ _ s]) (simp_all add: empty_cache_def wf_hcreate bin_only_def)
  with s show ?thesis by blast
qed



end
