(* ===== verification/ShName.thy ===== *)
theory ShName
  imports ShCache
begin

text \<open>
  The shell's variables and functions, \<open>cmd/sh/name.c\<close>: the binary tree of name nodes with
  its eleven static nodes, lookup and assignment, import of the environment and the
  environment handed to a child, and the numbers of \<open>cmd/sh/print.c\<close>. A pointer to a node
  is the node's name, as names are unique in the tree and nodes never move or change their
  name; so \<open>n == &pathnod\<close> reads \<open>n = ''PATH''\<close>. \<open>failed\<close> is a value that
  comes with the state it leaves behind.
\<close>

section \<open>Numbers\<close>

definition digit32 :: "char \<Rightarrow> 32 word" where
  "digit32 c = of_nat (digit_val c)"

text \<open>The digit loop of \<open>stoi\<close> over a 32-bit \<open>int\<close>, which stops when \<open>r\<close> turns negative.\<close>

fun stoi_loop :: "cstr \<Rightarrow> 32 word \<Rightarrow> cstr \<times> 32 word" where
  "stoi_loop [] r = ([], r)"
| "stoi_loop (c # cp) r =
     (if numeric c \<and> 0 \<le> sint r then stoi_loop cp (r * 10 + digit32 c) else (c # cp, r))"

definition stoi :: "cstr \<Rightarrow> fail + 32 word" where
  "stoi icp =
     (let (cp, r) = stoi_loop icp 0 in
      if sint r < 0 \<or> length cp = length icp then Inl (BadNum icp) else Inr r)"

text \<open>\<open>ltos\<close> fills \<open>numbuf\<close> from index 19 down; the result is the string from index \<open>i\<close>.\<close>

fun ltos_loop :: "nat \<Rightarrow> nat \<Rightarrow> cstr \<Rightarrow> cstr" where
  "ltos_loop 0 n buf = buf"
| "ltos_loop (Suc i) n buf =
     (let buf = digit_char (n mod 10) # buf; n = n div 10
      in if n = 0 then buf else ltos_loop i n buf)"

definition ltos :: "nat \<Rightarrow> cstr" where
  "ltos n = ltos_loop 20 n []"

section \<open>The tree of names\<close>

record namnod =
  namid :: cstr
  namval :: "cstr option"
  namenv :: "cstr option"
  namflg :: "32 word"

abbreviation N_ENVCHG :: "32 word" where "N_ENVCHG \<equiv> 0x10"
abbreviation N_RDONLY :: "32 word" where "N_RDONLY \<equiv> 0x08"
abbreviation N_EXPORT :: "32 word" where "N_EXPORT \<equiv> 0x04"
abbreviation N_ENVNAM :: "32 word" where "N_ENVNAM \<equiv> 0x02"
abbreviation N_FUNCTN :: "32 word" where "N_FUNCTN \<equiv> 0x01"
abbreviation N_DEFAULT :: "32 word" where "N_DEFAULT \<equiv> 0"

datatype ntree = NNil | NNode ntree namnod ntree

definition newnod :: "cstr \<Rightarrow> namnod" where
  "newnod nam = \<lparr>namid = nam, namval = None, namenv = None, namflg = N_DEFAULT\<rparr>"

text \<open>The eleven static nodes and their links.\<close>

definition namep0 :: ntree where
  "namep0 =
     NNode
       (NNode
          (NNode (NNode NNil (newnod ''CDPATH'') NNil) (newnod ''HOME'') NNil)
          (newnod ''IFS'')
          (NNode NNil (newnod ''MAIL'') NNil))
       (newnod ''MAILCHECK'')
       (NNode
          (NNode (NNode NNil (newnod ''MAILPATH'') NNil) (newnod ''PATH'') NNil)
          (newnod ''PS1'')
          (NNode NNil (newnod ''PS2'')
             (NNode NNil (newnod ''SHACCT'') (NNode NNil (newnod ''TIMEOUT'') NNil))))"

definition chkid :: "cstr \<Rightarrow> bool" where
  "chkid nam \<longleftrightarrow> letter (deref nam) \<and> list_all alphanum (tl nam)"

text \<open>The descent of \<open>findnam\<close> and \<open>lookup\<close>, and the insertion of a new leaf.\<close>

fun tfind :: "cstr \<Rightarrow> ntree \<Rightarrow> namnod option" where
  "tfind nam NNil = None"
| "tfind nam (NNode l n r) =
     (let LR = cf nam (namid n) in
      if LR = 0 then Some n else if LR < 0 then tfind nam l else tfind nam r)"

fun tinsert :: "cstr \<Rightarrow> ntree \<Rightarrow> ntree" where
  "tinsert nam NNil = NNode NNil (newnod nam) NNil"
| "tinsert nam (NNode l n r) =
     (let LR = cf nam (namid n) in
      if LR = 0 then NNode l n r
      else if LR < 0 then NNode (tinsert nam l) n r else NNode l n (tinsert nam r))"

text \<open>A write through the pointer to the node of a name.\<close>

fun tupd :: "cstr \<Rightarrow> (namnod \<Rightarrow> namnod) \<Rightarrow> ntree \<Rightarrow> ntree" where
  "tupd nam f NNil = NNil"
| "tupd nam f (NNode l n r) =
     (let LR = cf nam (namid n) in
      if LR = 0 then NNode l (f n) r
      else if LR < 0 then NNode (tupd nam f l) n r else NNode l n (tupd nam f r))"

text \<open>\<open>namwalk\<close> visits the nodes in order; a function that changes them maps over the tree.\<close>

fun namwalk :: "ntree \<Rightarrow> namnod list" where
  "namwalk NNil = []"
| "namwalk (NNode l n r) = namwalk l @ n # namwalk r"

fun nammap :: "(namnod \<Rightarrow> namnod) \<Rightarrow> ntree \<Rightarrow> ntree" where
  "nammap f NNil = NNil"
| "nammap f (NNode l n r) = NNode (nammap f l) (f n) (nammap f r)"

section \<open>The state and its operations\<close>

text \<open>
  \<open>rsh\<close> and \<open>prompting\<close> are bits of \<open>flags\<close>; \<open>mailset\<close> collects the arguments of
  \<open>setmail\<close> and \<open>locales\<close> the environments built for \<open>setlocale\<close>, the latest first.
\<close>

record shell =
  names :: ntree
  cmds :: cache
  mailchk :: "32 word"
  ucb_builtins :: bool
  namec :: nat
  rsh :: bool
  prompting :: bool
  mailset :: "cstr option list"
  locales :: "cstr list list"

definition findnam :: "cstr \<Rightarrow> shell \<Rightarrow> namnod option" where
  "findnam nam s = (if \<not> chkid nam then None else tfind nam (names s))"

definition lookup :: "cstr \<Rightarrow> shell \<Rightarrow> fail option \<times> shell" where
  "lookup nam s =
     (if \<not> chkid nam then (Some (NotId nam), s)
      else (None, s\<lparr>names := tinsert nam (names s)\<rparr>))"

definition upd :: "cstr \<Rightarrow> (namnod \<Rightarrow> namnod) \<Rightarrow> shell \<Rightarrow> shell" where
  "upd n f s = s\<lparr>names := tupd n f (names s)\<rparr>"

definition nod :: "cstr \<Rightarrow> shell \<Rightarrow> namnod" where
  "nod n s = (case tfind n (names s) of None \<Rightarrow> newnod n | Some m \<Rightarrow> m)"

definition attrib :: "32 word \<Rightarrow> namnod \<Rightarrow> namnod" where
  "attrib f n = n\<lparr>namflg := namflg n OR f\<rparr>"

fun patheq :: "cstr \<Rightarrow> cstr \<Rightarrow> bool" where
  "patheq component [] \<longleftrightarrow> deref component = CHR '':'' \<or> component = []"
| "patheq component (d # dir) \<longleftrightarrow>
     (let c = (if deref component = CHR '':'' then NUL else deref component)
      in c = d \<and> (c = NUL \<or> patheq (tl component) dir))"

definition defpath :: cstr where
  "defpath = ''/usr/5bin:/bin:/usr/bin:''"

function ucb_loop :: "cstr option \<Rightarrow> bool" where
  "ucb_loop None = False"
| "ucb_loop (Some path) =
     (if path = [] then False
      else if patheq path ''/usr/ucb'' then True
      else if patheq path ''/usr/bin'' then False
      else if patheq path ''/bin'' then False
      else if patheq path ''/usr/5bin'' then False
      else ucb_loop (nextpath path))"
  by pat_completeness auto
termination
  by (relation "measure (\<lambda>p. case p of None \<Rightarrow> 0 | Some s \<Rightarrow> Suc (length s))")
    (auto split: option.splits dest: nextpath_length)

text \<open>\<open>getpath("")\<close> in the current state.\<close>

definition curpath :: "shell \<Rightarrow> cstr" where
  "curpath s =
     (case getpath (rsh s) (namval (nod ''PATH'' s)) defpath [] of Inl _ \<Rightarrow> [] | Inr p \<Rightarrow> p)"

definition set_builtins_path :: "shell \<Rightarrow> shell" where
  "set_builtins_path s = s\<lparr>ucb_builtins := ucb_loop (Some (curpath s))\<rparr>"

definition assign :: "(cstr \<times> int) list \<Rightarrow> cstr \<Rightarrow> cstr \<Rightarrow> shell \<Rightarrow> fail option \<times> shell" where
  "assign commands n v s =
     (if namflg (nod n s) AND N_RDONLY \<noteq> 0 then (Some (WtFailed n), s)
      else if rsh s \<and> (n = ''PATH'' \<or> n = ''SHELL'') then (Some (Restricted n), s)
      else
        let s = (if \<not> rsh s \<and> namflg (nod n s) AND N_FUNCTN \<noteq> 0
                 then upd n (\<lambda>m. m\<lparr>namenv := None, namflg := N_DEFAULT\<rparr>)
                        (s\<lparr>cmds := func_unhash commands n (cmds s)\<rparr>)
                 else s);
            (e, s) = (if n = ''MAILCHECK''
                      then (case stoi v of
                              Inl e \<Rightarrow> (Some e, s) | Inr i \<Rightarrow> (None, s\<lparr>mailchk := i\<rparr>))
                      else (None, s))
        in if e \<noteq> None then (e, s)
           else
             let s = upd n (attrib N_ENVCHG) (upd n (\<lambda>m. m\<lparr>namval := Some v\<rparr>) s) in
             if n = ''PATH'' then
               (None, set_builtins_path
                        (s\<lparr>cmds := set_dotpath (curpath s) (zaphash (cmds s))\<rparr>))
             else if prompting s \<and>
                 (n = ''MAILPATH'' \<or> n = ''MAIL'' \<and> namflg (nod ''MAILPATH'' s) = N_DEFAULT)
             then (None, s\<lparr>mailset := namval (nod n s) # mailset s\<rparr>)
             else (None, s))"

definition dfault :: "(cstr \<times> int) list \<Rightarrow> cstr \<Rightarrow> cstr \<Rightarrow> shell \<Rightarrow> fail option \<times> shell" where
  "dfault commands n v s = (if namval (nod n s) = None then assign commands n v s else (None, s))"

text \<open>The environment \<open>dolocale\<close> makes up for \<open>setlocale\<close>.\<close>

definition localevar :: "cstr list" where
  "localevar = [''LC_ALL'', ''LC_CTYPE'', ''LANG'']"

definition dolocale :: "cstr \<Rightarrow> shell \<Rightarrow> shell" where
  "dolocale nm s =
     (if deref nm \<noteq> CHR ''L'' \<or> nm \<notin> set localevar then s
      else s\<lparr>locales :=
        concat (map (\<lambda>v. case findnam v s of
                           None \<Rightarrow> []
                         | Some n \<Rightarrow> (case namval n of None \<Rightarrow> [] | Some x \<Rightarrow> [v @ ''='' @ x]))
                  localevar) # locales s\<rparr>)"

definition setname :: "(cstr \<times> int) list \<Rightarrow> cstr \<Rightarrow> 32 word \<Rightarrow> shell \<Rightarrow> fail option \<times> shell" where
  "setname commands argi xp s =
     (let n = takeWhile alphanum argi; argscan = dropWhile alphanum argi in
      if letter (deref argi) \<and> deref argscan = CHR ''='' then
        (case lookup n s of
           (Some e, s) \<Rightarrow> (Some e, s)
         | (None, s) \<Rightarrow>
             let argscan = tl argscan;
                 s = upd n (attrib xp) s;
                 (e, s) =
                   (if xp AND N_ENVNAM \<noteq> 0 then
                      let s = upd n (\<lambda>m. m\<lparr>namenv := Some argscan, namval := Some argscan\<rparr>) s
                      in (None, if n = ''PATH'' then set_builtins_path s else s)
                    else assign commands n argscan s)
             in if e \<noteq> None then (e, s) else (None, dolocale n s))
      else (None, s))"

definition setlist :: "(cstr \<times> int) list \<Rightarrow> bool \<Rightarrow> cstr list \<Rightarrow> 32 word \<Rightarrow> shell
    \<Rightarrow> fail option \<times> shell" where
  "setlist commands exportflg args xp s =
     (let xp = (if exportflg then xp OR N_EXPORT else xp) in
      foldl (\<lambda>(e, s) a. if e \<noteq> None then (e, s) else setname commands a xp s) (None, s) args)"

definition setup_env :: "(cstr \<times> int) list \<Rightarrow> cstr list \<Rightarrow> shell \<Rightarrow> shell" where
  "setup_env commands env s = foldl (\<lambda>s e. snd (setname commands e N_ENVNAM s)) s env"

definition exname :: "namnod \<Rightarrow> namnod" where
  "exname n =
     (let flg = namflg n;
          n = (if flg AND N_ENVCHG \<noteq> 0 then
                 (if flg AND N_EXPORT \<noteq> 0 then n\<lparr>namenv := namval n\<rparr>
                  else n\<lparr>namval := namenv n\<rparr>)
               else n)
      in if flg AND N_FUNCTN = 0 then n\<lparr>namflg := N_DEFAULT\<rparr> else n)"

definition setvars :: "shell \<Rightarrow> shell" where
  "setvars s =
     (let t = nammap exname (names s) in
      s\<lparr>names := t, namec := namec s + length (filter (\<lambda>n. namval n \<noteq> None) (namwalk t))\<rparr>)"

definition countnam :: "ntree \<Rightarrow> nat" where
  "countnam t = length (filter (\<lambda>n. namval n \<noteq> None) (namwalk t))"

text \<open>\<open>pushnam\<close>: the node it leaves and the value it writes to the stack.\<close>

definition pushnam :: "namnod \<Rightarrow> namnod \<times> cstr option" where
  "pushnam n =
     (let flg = namflg n in
      if flg AND N_ENVCHG \<noteq> 0 \<and> flg AND N_EXPORT \<noteq> 0 \<or> flg AND N_FUNCTN \<noteq> 0
      then (n, namval n)
      else
        let n = (if flg AND NOT N_ENVCHG = 0
                 then n\<lparr>namflg := 0, namenv := None, namval := None\<rparr> else n)
        in (n, namenv n))"

definition pushed :: "namnod \<Rightarrow> cstr list" where
  "pushed n = (case snd (pushnam n) of None \<Rightarrow> [] | Some v \<Rightarrow> [namid n @ ''='' @ v])"

text \<open>The environment is written to an array of \<open>namec + 1\<close> pointers.\<close>

definition local_setenv :: "shell \<Rightarrow> cstr list \<times> shell" where
  "local_setenv s =
     (concat (map pushed (namwalk (names s))),
      s\<lparr>namec := countnam (names s), names := nammap (fst \<circ> pushnam) (names s)\<rparr>)"

definition unset_name :: "(cstr \<times> int) list \<Rightarrow> cstr \<Rightarrow> shell \<Rightarrow> fail option \<times> shell" where
  "unset_name commands name s =
     (case findnam name s of
        None \<Rightarrow> (None, s)
      | Some n \<Rightarrow>
          if namflg n AND N_RDONLY \<noteq> 0 then (Some (WtFailed name), s)
          else if name \<in> {''PATH'', ''IFS'', ''PS1'', ''PS2'', ''MAILCHECK''}
          then (Some (BadUnset name), s)
          else if rsh s \<and> name = ''SHELL'' then (Some (Restricted name), s)
          else
            let fn = (namflg n AND N_FUNCTN \<noteq> 0);
                s = (if fn then s\<lparr>cmds := func_unhash commands name (cmds s)\<rparr> else s);
                s = upd name (\<lambda>m. m\<lparr>namval := None, namenv := None, namflg := N_DEFAULT\<rparr>) s;
                s = (if fn then s else dolocale name s)
            in if prompting s then
                 (if name = ''MAILPATH''
                  then (None, s\<lparr>mailset := namval (nod ''MAIL'' s) # mailset s\<rparr>)
                  else if name = ''MAIL'' \<and> namflg (nod ''MAILPATH'' s) = N_DEFAULT
                  then (None, s\<lparr>mailset := None # mailset s\<rparr>)
                  else (None, s))
               else (None, s))"

section \<open>The tree is a store of names\<close>

fun bst :: "ntree \<Rightarrow> bool" where
  "bst NNil = True"
| "bst (NNode l n r) \<longleftrightarrow> bst l \<and> bst r \<and> cstr (namid n) \<and>
     (\<forall>m \<in> set (namwalk l). namid m < namid n) \<and> (\<forall>m \<in> set (namwalk r). namid n < namid m)"

lemma bst_cstr: "bst t \<Longrightarrow> n \<in> set (namwalk t) \<Longrightarrow> cstr (namid n)"
  by (induction t) auto

lemma bst_sorted: "bst t \<Longrightarrow> sorted_wrt (<) (map namid (namwalk t))"
  by (induction t) (auto simp: sorted_wrt_append intro: order.strict_trans)

text \<open>With \<open>cf\<close> read as the order of the names, the three-way branch of the walks.\<close>

lemma cf_branch:
  "cstr a \<Longrightarrow> cstr b \<Longrightarrow>
     (if cf a b = 0 then x else if cf a b < 0 then y else z) = (if a = b then x else if a < b then y else z)"
  using cf_eq_0 [of a b] cf_less_0 [of a b] by simp

lemma tfind_Node [simp]:
  "cstr a \<Longrightarrow> cstr (namid n) \<Longrightarrow> tfind a (NNode l n r) =
     (if a = namid n then Some n else if a < namid n then tfind a l else tfind a r)"
  "cstr a \<Longrightarrow> cstr (namid n) \<Longrightarrow> tinsert a (NNode l n r) =
     (if a = namid n then NNode l n r else if a < namid n then NNode (tinsert a l) n r
      else NNode l n (tinsert a r))"
  "cstr a \<Longrightarrow> cstr (namid n) \<Longrightarrow> tupd a f (NNode l n r) =
     (if a = namid n then NNode l (f n) r else if a < namid n then NNode (tupd a f l) n r
      else NNode l n (tupd a f r))"
  by (simp_all add: cf_branch)

declare tfind.simps(2) [simp del] tinsert.simps(2) [simp del] tupd.simps(2) [simp del]

lemma tfind_SomeD: "bst t \<Longrightarrow> cstr a \<Longrightarrow> tfind a t = Some n \<Longrightarrow> n \<in> set (namwalk t) \<and> namid n = a"
  by (induction t) (auto split: if_splits)

lemma tfind_in: "bst t \<Longrightarrow> n \<in> set (namwalk t) \<Longrightarrow> tfind (namid n) t = Some n"
proof (induction t)
  case (NNode l m r)
  then have c: "cstr (namid n)" using bst_cstr by blast
  from NNode.prems(2) consider "n = m" | "n \<in> set (namwalk l)" | "n \<in> set (namwalk r)" by auto
  then show ?case
    using NNode c by cases (auto dest: less_asym)
qed simp

lemma tinsert_ids: "bst t \<Longrightarrow> cstr a \<Longrightarrow> namid ` set (namwalk (tinsert a t)) = insert a (namid ` set (namwalk t))"
  by (induction t) (auto simp: newnod_def image_Un)

lemma tinsert_bst: "bst t \<Longrightarrow> cstr a \<Longrightarrow> bst (tinsert a t)"
proof (induction t)
  case (NNode l n r)
  have "\<forall>m \<in> set (namwalk (tinsert a l)). namid m < namid n" if "a < namid n"
    using tinsert_ids [of l a] NNode.prems that by (auto 0 4)
  moreover have "\<forall>m \<in> set (namwalk (tinsert a r)). namid n < namid m" if "namid n < a"
    using tinsert_ids [of r a] NNode.prems that by (auto 0 4)
  ultimately show ?case using NNode by auto
qed (simp add: newnod_def)

lemma tfind_tinsert:
  "bst t \<Longrightarrow> cstr a \<Longrightarrow> cstr b \<Longrightarrow> tfind b (tinsert a t) =
     (if b = a then Some (case tfind a t of None \<Rightarrow> newnod a | Some n \<Rightarrow> n) else tfind b t)"
  by (induction t) (auto simp: newnod_def)

lemma tupd_walk:
  "bst t \<Longrightarrow> cstr a \<Longrightarrow> namwalk (tupd a f t) = map (\<lambda>n. if namid n = a then f n else n) (namwalk t)"
proof (induction t)
  case (NNode l n r)
  have "\<forall>m \<in> set (namwalk l). namid m \<noteq> a" if "namid n \<le> a" using NNode.prems that by auto
  moreover have "\<forall>m \<in> set (namwalk r). namid m \<noteq> a" if "a \<le> namid n" using NNode.prems that by auto
  ultimately show ?case using NNode by (auto simp: map_idI not_less)
qed simp

lemma tupd_ids:
  "bst t \<Longrightarrow> cstr a \<Longrightarrow> (\<And>n. namid (f n) = namid n) \<Longrightarrow>
     namid ` set (namwalk (tupd a f t)) = namid ` set (namwalk t)"
proof -
  assume "bst t" "cstr a" and f: "\<And>n. namid (f n) = namid n"
  then have "map namid (namwalk (tupd a f t)) = map namid (namwalk t)" by (simp add: tupd_walk)
  then show ?thesis by (metis list.set_map)
qed

lemma ids_ball:
  assumes "namid ` A = namid ` B"
  shows "(\<forall>m \<in> A. P (namid m)) \<longleftrightarrow> (\<forall>m \<in> B. P (namid m))"
proof -
  have "(\<forall>i \<in> namid ` A. P i) \<longleftrightarrow> (\<forall>i \<in> namid ` B. P i)" using assms by simp
  then show ?thesis by simp
qed

lemma tupd_bst:
  "bst t \<Longrightarrow> cstr a \<Longrightarrow> (\<And>n. namid (f n) = namid n) \<Longrightarrow> bst (tupd a f t)"
proof (induction t)
  case (NNode l n r)
  then show ?case
    using ids_ball [OF tupd_ids [of l a f], of "\<lambda>i. i < namid n"]
      ids_ball [OF tupd_ids [of r a f], of "\<lambda>i. namid n < i"] by auto
qed simp

lemma tfind_tupd:
  "bst t \<Longrightarrow> cstr a \<Longrightarrow> cstr b \<Longrightarrow> (\<And>n. namid (f n) = namid n) \<Longrightarrow>
     tfind b (tupd a f t) = (if b = a then map_option f (tfind a t) else tfind b t)"
  by (induction t) auto

lemma nammap_walk [simp]: "namwalk (nammap f t) = map f (namwalk t)"
  by (induction t) auto

lemma nammap_bst: "bst t \<Longrightarrow> (\<And>n. namid (f n) = namid n) \<Longrightarrow> bst (nammap f t)"
  by (induction t) auto

lemma bst_namep0: "bst namep0"
  by code_simp

lemma tupd_tupd:
  "bst t \<Longrightarrow> cstr a \<Longrightarrow> (\<And>n. namid (g n) = namid n) \<Longrightarrow>
     tupd a f (tupd a g t) = tupd a (f \<circ> g) t"
  by (induction t) auto

lemma tupd_cong:
  "bst t \<Longrightarrow> cstr a \<Longrightarrow> (\<And>m. m \<in> set (namwalk t) \<Longrightarrow> f m = g m) \<Longrightarrow> tupd a f t = tupd a g t"
  by (induction t) auto

lemma tupd_nodes:
  "bst t \<Longrightarrow> cstr a \<Longrightarrow> \<forall>m \<in> set (namwalk t). P m \<Longrightarrow> (\<And>m. P m \<Longrightarrow> P (f m)) \<Longrightarrow>
     \<forall>m \<in> set (namwalk (tupd a f t)). P m"
  by (auto simp: tupd_walk)

lemma tinsert_nodes:
  "bst t \<Longrightarrow> cstr a \<Longrightarrow> \<forall>m \<in> set (namwalk t). P m \<Longrightarrow> P (newnod a) \<Longrightarrow>
     \<forall>m \<in> set (namwalk (tinsert a t)). P m"
  by (induction t) auto

definition attrs :: "namnod \<Rightarrow> cstr option \<times> cstr option \<times> 32 word" where
  "attrs n = (namval n, namenv n, namflg n)"

definition nput :: "cstr \<Rightarrow> cstr option \<times> cstr option \<times> 32 word \<Rightarrow> ntree \<Rightarrow> ntree" where
  "nput n a t =
     tupd n (\<lambda>m. m\<lparr>namval := fst a, namenv := fst (snd a), namflg := snd (snd a)\<rparr>) (tinsert n t)"

text \<open>The tree offers the interface of a name store, as the command table does.\<close>

interpretation nt: name_store "\<lambda>t n. map_option attrs (tfind n t)" nput bst cstr
proof
  fix t :: ntree and n m :: cstr and v
  assume t: "bst t" and n: "cstr n"
  then show "bst (nput n v t)" by (simp add: nput_def tupd_bst tinsert_bst)
  assume "cstr m"
  then show "map_option attrs (tfind m (nput n v t)) =
      (if m = n then Some v else map_option attrs (tfind m t))"
    using t n by (simp add: nput_def tfind_tupd tinsert_bst tfind_tinsert attrs_def)
qed

section \<open>The command table under the operations\<close>

lemma hscan_wf:
  assumes "wf_htab t" and f: "\<And>e. key (f e) = key e"
  shows "wf_htab (hscan f t)" "hlookup (hscan f t) n = map_option f (hlookup t n)"
proof -
  have len: "length (table t) = TABLENGTH" using assms(1) by (simp add: wf_htab_def)
  have k: "map key (map f b) = map key b" for b by (simp add: f)
  show "wf_htab (hscan f t)"
    using assms(1) by (auto simp: wf_htab_def hscan_def f comp_def)
  have "(\<lambda>e. key e = n) \<circ> f = (\<lambda>e. key e = n)" by (simp add: comp_def f)
  then show "hlookup (hscan f t) n = map_option f (hlookup t n)"
    using hash_less [of n] len by (simp add: hlookup_find hscan_def find_map)
qed

lemma zaphash_wf: "wf_htab (ht c) \<Longrightarrow> wf_htab (ht (zaphash c))"
  by (simp add: zaphash_def hscan_wf zapentry_def)

lemma zapentry_bits: "data (zapentry e) AND 0x1C00 = 0"
proof -
  have "(0x03FF :: 16 word) AND 0x1C00 = 0" by simp
  then show ?thesis by (simp add: zapentry_def and.assoc)
qed

lemma hfind_last_slot: "hfind n t = (h, t') \<Longrightarrow> wf_htab t \<Longrightarrow> wf_htab t'"
  by (auto simp: hfind_def Let_def split: if_splits)

lemma func_unhash_wf:
  assumes "wf_htab (ht c)"
  shows "wf_htab (ht (func_unhash commands n c))"
proof (cases "hfind n (ht c)")
  case (Pair h t)
  show ?thesis
  proof (cases h)
    case None
    then show ?thesis using Pair hfind_last_slot [OF Pair assms] by (simp add: func_unhash_def)
  next
    case (Some ik)
    note fd = hfind_Some [OF Pair [unfolded Some]]
    then have "wf_htab (upd_at ik (\<lambda>e. e\<lparr>data := d\<rparr>) t)" for d
      using upd_at_wf(1) [OF assms Pair [unfolded Some], of "\<lambda>e. e\<lparr>data := d\<rparr>"] by simp
    then show ?thesis using Pair Some assms fd(1) by (simp add: func_unhash_def Let_def)
  qed
qed

section \<open>The invariant of the shell's names\<close>

definition node_ok :: "namnod \<Rightarrow> bool" where
  "node_ok n \<longleftrightarrow> namflg n AND N_FUNCTN \<noteq> 0 \<or> namenv n = None \<or> namval n \<noteq> None"

definition shell_ok :: "shell \<Rightarrow> bool" where
  "shell_ok s \<longleftrightarrow> bst (names s) \<and> (\<forall>n \<in> set (namwalk (names s)). node_ok n) \<and> wf_htab (ht (cmds s))"

lemma letter_alphanum: "letter c \<Longrightarrow> alphanum c"
  by (simp add: alphanum_def)

lemma alphanum_NUL [simp]: "\<not> alphanum NUL"
  by (simp add: alphanum_def letter_def ord_def)

lemma alphanum_eq [simp]: "\<not> alphanum (CHR ''='')"
  by (simp add: alphanum_def letter_def ord_def numeric_def)

lemma chkid_cstr: "chkid n \<Longrightarrow> cstr n"
  by (cases n) (auto simp: chkid_def list_all_iff cstr_def letter_alphanum dest: letter_alphanum)

lemma setname_id:
  "letter (deref a) \<Longrightarrow> chkid (takeWhile alphanum a)"
  by (cases a) (auto simp: chkid_def list_all_iff letter_alphanum dest: set_takeWhileD)

lemma upd_ok:
  assumes "shell_ok s" "cstr n" "\<And>m. namid (f m) = namid m" "\<And>m. node_ok m \<Longrightarrow> node_ok (f m)"
  shows "shell_ok (upd n f s)"
  using assms tupd_nodes [of "names s" n node_ok f] by (simp add: shell_ok_def upd_def tupd_bst)

lemma attrib_ok: "node_ok m \<Longrightarrow> node_ok (attrib f m)"
proof -
  have "(x OR f) AND (1 :: 32 word) = 0 \<Longrightarrow> x AND 1 = 0" for x
    by (metis bit.conj_disj_distrib2 or_eq_0_iff)
  then show "node_ok m \<Longrightarrow> node_ok (attrib f m)" by (auto simp: node_ok_def attrib_def)
qed

lemma attrib_id [simp]: "namid (attrib f m) = namid m"
  by (simp add: attrib_def)

lemma node_ok_set [simp]:
  "node_ok (m\<lparr>namval := Some v\<rparr>)" "node_ok (m\<lparr>namenv := e, namval := Some v\<rparr>)"
  "node_ok (m\<lparr>namval := w, namenv := None, namflg := f\<rparr>)"
  by (simp_all add: node_ok_def)

lemma lookup_ok:
  assumes "shell_ok s" shows "shell_ok (snd (lookup n s))"
proof (cases "chkid n")
  case True
  have "node_ok (newnod n)" by (simp add: node_ok_def newnod_def)
  then show ?thesis
    using assms True tinsert_nodes [of "names s" n node_ok] chkid_cstr [OF True]
    by (simp add: lookup_def shell_ok_def tinsert_bst)
qed (use assms in \<open>simp add: lookup_def\<close>)

lemma shell_ok_simps [simp]:
  "shell_ok (s\<lparr>ucb_builtins := b\<rparr>) = shell_ok s" "shell_ok (s\<lparr>mailset := ms\<rparr>) = shell_ok s"
  "shell_ok (s\<lparr>mailchk := i\<rparr>) = shell_ok s" "shell_ok (s\<lparr>locales := ls\<rparr>) = shell_ok s"
  "shell_ok (s\<lparr>namec := k\<rparr>) = shell_ok s" "shell_ok (set_builtins_path s) = shell_ok s"
  "shell_ok (dolocale nm s) = shell_ok s"
  by (simp_all add: shell_ok_def set_builtins_path_def dolocale_def)

lemma shell_ok_cmds: "shell_ok s \<Longrightarrow> wf_htab (ht c) \<Longrightarrow> shell_ok (s\<lparr>cmds := c\<rparr>)"
  by (simp add: shell_ok_def)

lemma set_dotpath_ht [simp]: "ht (set_dotpath p c) = ht c"
  by (simp add: set_dotpath_def split: prod.splits)

text \<open>The last steps of an assignment, after the checks.\<close>

lemma assign_cases:
  obtains (ro) "namflg (nod n s) AND N_RDONLY \<noteq> 0" "assign commands n v s = (Some (WtFailed n), s)"
  | (rs) "rsh s" "n = ''PATH'' \<or> n = ''SHELL''" "assign commands n v s = (Some (Restricted n), s)"
  | (num) e s' where "n = ''MAILCHECK''" "stoi v = Inl e" "assign commands n v s = (Some e, s')"
      "s' = s \<or> s' = upd n (\<lambda>m. m\<lparr>namenv := None, namflg := N_DEFAULT\<rparr>)
          (s\<lparr>cmds := func_unhash commands n (cmds s)\<rparr>)"
  | (ok) s1 s2 k where "namflg (nod n s) AND N_RDONLY = 0"
      "s1 = s \<or> s1 = upd n (\<lambda>m. m\<lparr>namenv := None, namflg := N_DEFAULT\<rparr>)
          (s\<lparr>cmds := func_unhash commands n (cmds s)\<rparr>)"
      "s2 = upd n (attrib N_ENVCHG) (upd n (\<lambda>m. m\<lparr>namval := Some v\<rparr>) (s1\<lparr>mailchk := k\<rparr>))"
      "assign commands n v s = (None,
         if n = ''PATH'' then set_builtins_path (s2\<lparr>cmds := set_dotpath (curpath s2) (zaphash (cmds s2))\<rparr>)
         else if prompting s2 \<and> (n = ''MAILPATH'' \<or> n = ''MAIL'' \<and> namflg (nod ''MAILPATH'' s2) = N_DEFAULT)
         then s2\<lparr>mailset := namval (nod n s2) # mailset s2\<rparr> else s2)"
proof -
  define s1 where "s1 = (if \<not> rsh s \<and> namflg (nod n s) AND N_FUNCTN \<noteq> 0
     then upd n (\<lambda>m. m\<lparr>namenv := None, namflg := N_DEFAULT\<rparr>)
            (s\<lparr>cmds := func_unhash commands n (cmds s)\<rparr>) else s)"
  have s1: "s1 = s \<or> s1 = upd n (\<lambda>m. m\<lparr>namenv := None, namflg := N_DEFAULT\<rparr>)
          (s\<lparr>cmds := func_unhash commands n (cmds s)\<rparr>)"
    by (simp add: s1_def)
  show thesis
  proof (cases "namflg (nod n s) AND N_RDONLY \<noteq> 0 \<or> rsh s \<and> (n = ''PATH'' \<or> n = ''SHELL'')")
    case True
    show thesis
    proof (cases "namflg (nod n s) AND N_RDONLY \<noteq> 0")
      case True
      show thesis by (rule ro [OF True]) (simp add: assign_def True)
    next
      case False
      with True have r: "rsh s" "n = ''PATH'' \<or> n = ''SHELL''" by auto
      show thesis by (rule rs [OF r]) (simp add: assign_def False r)
    qed
  next
    case no: False
    show thesis
    proof (cases "n = ''MAILCHECK''")
      case True
      show thesis
      proof (cases "stoi v")
        case (Inl e)
        show thesis
          by (rule num [OF True Inl _ s1]) (use no True Inl in \<open>simp add: assign_def s1_def\<close>)
      next
        case (Inr i)
        show thesis
          by (rule ok [OF _ s1 refl, where k = i])
            (use no True Inr in \<open>auto simp: assign_def s1_def Let_def\<close>)
      qed
    next
      case False
      have e: "s1 = s1\<lparr>mailchk := mailchk s1\<rparr>" by simp
      show thesis
        by (rule ok [OF _ s1 refl, where k = "mailchk s1"])
          (use no False in \<open>simp_all only: e [symmetric], auto simp: assign_def s1_def [symmetric] Let_def\<close>)
    qed
  qed
qed

lemma unfunc_ok:
  assumes "shell_ok s" "cstr n"
  shows "shell_ok (upd n (\<lambda>m. m\<lparr>namenv := None, namflg := N_DEFAULT\<rparr>)
    (s\<lparr>cmds := func_unhash commands n (cmds s)\<rparr>))"
  by (rule upd_ok)
    (use assms in \<open>auto simp: node_ok_def shell_ok_def func_unhash_wf\<close>)

lemma assign_ok:
  assumes "shell_ok s" "cstr n" shows "shell_ok (snd (assign commands n v s))"
proof (cases rule: assign_cases [of n s commands v])
  case (num e s')
  then show ?thesis using unfunc_ok [OF assms] assms by auto
next
  case (ok s1 s2 k)
  have "shell_ok s1" using ok(2) unfunc_ok [OF assms] assms(1) by auto
  then have s2: "shell_ok s2"
    unfolding ok(3) using assms(2)
    by (intro upd_ok) (auto simp: attrib_ok)
  then have "wf_htab (ht (cmds s2))" by (simp add: shell_ok_def)
  then show ?thesis
    using s2 by (simp add: ok(4) shell_ok_cmds zaphash_wf)
qed (use assms in auto)

lemma setname_ok:
  assumes "shell_ok s" shows "shell_ok (snd (setname commands a xp s))"
proof -
  define n where "n = takeWhile alphanum a"
  show ?thesis
  proof (cases "letter (deref a) \<and> deref (dropWhile alphanum a) = CHR ''=''")
    case True
    then have id: "chkid n" by (simp add: n_def setname_id)
    define s1 where "s1 = upd n (attrib xp) (snd (lookup n s))"
    have s1: "shell_ok s1"
      unfolding s1_def using lookup_ok [OF assms, of n] chkid_cstr [OF id]
      by (intro upd_ok) (auto simp: attrib_ok)
    have s2: "shell_ok (upd n (\<lambda>m. m\<lparr>namenv := Some v, namval := Some v\<rparr>) s1)" for v
      using s1 chkid_cstr [OF id] by (intro upd_ok) (auto simp: node_ok_def)
    have s3: "shell_ok (snd (assign commands n v s1))" for v
      using assign_ok [OF s1 chkid_cstr [OF id]] .
    have "fst (lookup n s) = None" using id by (simp add: lookup_def)
    then show ?thesis
      using True s2 s3
      by (cases "xp AND N_ENVNAM = 0")
        (auto simp: setname_def Let_def n_def [symmetric] s1_def case_prod_beta)
  qed (use assms in \<open>auto simp: setname_def Let_def\<close>)
qed

lemma exname_ok: "node_ok m \<Longrightarrow> node_ok (exname m)"
  by (auto simp: node_ok_def exname_def Let_def)

lemma pushnam_ok: "node_ok m \<Longrightarrow> node_ok (fst (pushnam m))"
  by (auto simp: node_ok_def pushnam_def Let_def)

lemma exname_id [simp]: "namid (exname m) = namid m"
  by (simp add: exname_def Let_def)

lemma pushnam_id [simp]: "namid (fst (pushnam m)) = namid m"
  by (simp add: pushnam_def Let_def)

lemma setvars_ok: "shell_ok s \<Longrightarrow> shell_ok (setvars s)"
  by (auto simp: setvars_def shell_ok_def Let_def nammap_bst exname_ok)

lemma local_setenv_ok: "shell_ok s \<Longrightarrow> shell_ok (snd (local_setenv s))"
  by (auto simp: local_setenv_def shell_ok_def nammap_bst pushnam_ok)

lemma unset_ok:
  assumes "shell_ok s" shows "shell_ok (snd (unset_name commands n s))"
proof (cases "findnam n s")
  case (Some m)
  then have c: "cstr n" by (auto simp: findnam_def chkid_cstr split: if_splits)
  have "shell_ok (upd n (\<lambda>m. m\<lparr>namval := None, namenv := None, namflg := N_DEFAULT\<rparr>)
      (if b then s\<lparr>cmds := func_unhash commands n (cmds s)\<rparr> else s))" for b
    using assms c by (intro upd_ok) (auto simp: node_ok_def shell_ok_def func_unhash_wf)
  from this [of True] this [of False] show ?thesis
    using assms Some
    by (cases "namflg m AND N_FUNCTN = 0") (auto simp: unset_name_def Let_def)
qed (use assms in \<open>simp add: unset_name_def\<close>)

lemma pushed_fits:
  "\<forall>n \<in> set ns. node_ok n \<Longrightarrow>
     length (concat (map pushed ns)) \<le> length (filter (\<lambda>n. namval n \<noteq> None) ns)"
proof (induction ns)
  case (Cons n ns)
  have "pushed n = [] \<or> namval n \<noteq> None \<and> length (pushed n) = 1"
    using Cons.prems by (auto simp: pushed_def pushnam_def Let_def node_ok_def split: option.splits if_splits)
  then show ?case using Cons by auto
qed simp

section \<open>Properties\<close>


definition shell0 :: shell where
  "shell0 = \<lparr>names = namep0, cmds = empty_cache, mailchk = 0, ucb_builtins = False, namec = 0,
     rsh = False, prompting = False, mailset = [], locales = []\<rparr>"

lemma shell0_ok: "shell_ok shell0"
proof -
  have "\<forall>n \<in> set (namwalk namep0). node_ok n" by (simp add: namep0_def newnod_def node_ok_def)
  then show ?thesis by (simp add: shell_ok_def shell0_def bst_namep0 empty_cache_def wf_hcreate)
qed


lemma tfind_upd:
  "shell_ok s \<Longrightarrow> cstr n \<Longrightarrow> cstr m \<Longrightarrow> (\<And>x. namid (f x) = namid x) \<Longrightarrow>
     tfind m (names (upd n f s)) = (if m = n then map_option f (tfind n (names s)) else tfind m (names s))"
  by (simp add: upd_def shell_ok_def tfind_tupd)

lemma names_set_builtins [simp]: "names (set_builtins_path s) = names s"
  by (simp add: set_builtins_path_def)

lemma names_simps [simp]:
  "names (s\<lparr>cmds := c\<rparr>) = names s" "names (s\<lparr>mailchk := k\<rparr>) = names s"
  by simp_all

lemma assign_others:
  assumes "shell_ok s" "cstr n" "cstr m" "m \<noteq> n"
  shows "tfind m (names (snd (assign commands n v s))) = tfind m (names s)"
proof -
  define un where "un = upd n (\<lambda>m. m\<lparr>namenv := None, namflg := N_DEFAULT\<rparr>)
    (s\<lparr>cmds := func_unhash commands n (cmds s)\<rparr>)"
  have u: "shell_ok un" "tfind m (names un) = tfind m (names s)"
    using unfunc_ok [OF assms(1,2)] tfind_upd [of "s\<lparr>cmds := func_unhash commands n (cmds s)\<rparr>" n m] assms
    by (auto simp: un_def shell_ok_def func_unhash_wf)
  show ?thesis
  proof (cases rule: assign_cases [of n s commands v])
    case (num e s')
    then show ?thesis using u by (auto simp: un_def)
  next
    case (ok s1 s2 k)
    have s1: "shell_ok s1" "tfind m (names s1) = tfind m (names s)"
      using ok(2) u assms(1) by (auto simp: un_def [symmetric])
    have "tfind m (names s2) = tfind m (names s1)"
      unfolding ok(3) using assms s1(1) by (simp add: tfind_upd upd_ok)
    then show ?thesis using s1(2) by (simp add: ok(4))
  qed simp_all
qed

lemma assign_stores:
  assumes "shell_ok s" "cstr n" "tfind n (names s) = Some x" "fst (assign commands n v s) = None"
  shows "\<exists>y. tfind n (names (snd (assign commands n v s))) = Some y \<and> namval y = Some v \<and>
    namflg y AND N_ENVCHG = N_ENVCHG"
proof (cases rule: assign_cases [of n s commands v])
  case (ok s1 s2 k)
  obtain x1 where s1: "shell_ok s1" "tfind n (names s1) = Some x1"
    using ok(2)
  proof
    assume "s1 = s"
    with that assms show thesis by blast
  next
    assume s1: "s1 = upd n (\<lambda>m. m\<lparr>namenv := None, namflg := N_DEFAULT\<rparr>)
      (s\<lparr>cmds := func_unhash commands n (cmds s)\<rparr>)"
    show thesis
      by (rule that) (use unfunc_ok [OF assms(1,2)] assms in
        \<open>auto simp: s1 tfind_upd shell_ok_cmds func_unhash_wf shell_ok_def\<close>)
  qed
  have "tfind n (names s2) = Some (attrib N_ENVCHG (x1\<lparr>namval := Some v\<rparr>))"
    unfolding ok(3) using assms s1 by (simp add: tfind_upd upd_ok)
  then show ?thesis by (auto simp: ok(4) attrib_def word_ao_absorbs)
qed (use assms(4) in simp_all)

text \<open>
  Only an assignment to a variable that is neither read-only nor protected by a restricted
  shell can succeed; it then stores the value and marks the variable as changed, and no
  assignment, successful or not, touches another variable. Read-only and restricted
  variables leave the whole state as it is.
\<close>

theorem assign_effect:
  assumes "shell_ok s" and "cstr n" and "tfind n (names s) = Some x"
    and "assign commands n v s = (e, s')"
  shows "(\<forall>m. cstr m \<and> m \<noteq> n \<longrightarrow> tfind m (names s') = tfind m (names s)) \<and>
    (e = None \<longrightarrow> namflg x AND N_RDONLY = 0 \<and> \<not> (rsh s \<and> n \<in> {''PATH'', ''SHELL''}) \<and>
       (\<exists>y. tfind n (names s') = Some y \<and> namval y = Some v \<and> namflg y AND N_ENVCHG = N_ENVCHG)) \<and>
    (namflg x AND N_RDONLY \<noteq> 0 \<or> rsh s \<and> n \<in> {''PATH'', ''SHELL''} \<longrightarrow> s' = s)"
proof (intro conjI allI impI)
  fix m assume "cstr m \<and> m \<noteq> n"
  then show "tfind m (names s') = tfind m (names s)"
    using assign_others [OF assms(1,2), of m commands v] assms(4) by simp
next
  assume "e = None"
  then show "\<exists>y. tfind n (names s') = Some y \<and> namval y = Some v \<and> namflg y AND N_ENVCHG = N_ENVCHG"
    using assign_stores [OF assms(1-3), of commands v] assms(4) by simp
qed (use assms(3,4) in \<open>auto simp: assign_def nod_def split: if_splits\<close>)

lemma assign_effect_witness:
  "\<exists>y. tfind ''HOME'' (names (snd (assign [] ''HOME'' ''/root'' shell0))) = Some y \<and>
     namval y = Some ''/root''"
proof -
  have f: "tfind ''HOME'' (names shell0) = Some (newnod ''HOME'')" by code_simp
  have nd: "nod ''HOME'' shell0 = newnod ''HOME''" by (simp add: nod_def f)
  have r: "\<not> rsh shell0" by (simp add: shell0_def)
  have e: "fst (assign [] ''HOME'' ''/root'' shell0) = None"
    by (simp add: assign_def nd r newnod_def Let_def)
  have a: "assign [] ''HOME'' ''/root'' shell0 = (None, snd (assign [] ''HOME'' ''/root'' shell0))"
    by (simp add: prod_eq_iff e)
  from assign_effect [OF shell0_ok _ f a] show ?thesis by auto
qed

text \<open>
  An assignment to \<open>PATH\<close> makes the shell forget where it found commands: no entry of the
  command table counts as found afterwards and the list of relative commands is empty, while
  the entries of functions and built-in commands keep their data.
\<close>

theorem assign_path_forgets:
  assumes "shell_ok s" and "assign commands ''PATH'' v s = (None, s')"
    and "hlookup (ht (cmds s')) name = Some h"
  shows "data h AND (COMMAND OR REL_COMMAND OR PATH_COMMAND) = 0 \<and> relcmd (cmds s') = []"
proof (cases rule: assign_cases [of "''PATH''" s commands v])
  case (ok s1 s2 k)
  have "shell_ok s1" using ok(2) unfunc_ok [OF assms(1), of "''PATH''"] assms(1) by auto
  then have "shell_ok s2" unfolding ok(3) by (intro upd_ok) (auto simp: attrib_ok)
  then have wf: "wf_htab (ht (cmds s2))" by (simp add: shell_ok_def)
  have c: "cmds s' = set_dotpath (curpath s2) (zaphash (cmds s2))"
    using assms(2) ok(4) by (auto simp: set_builtins_path_def)
  then obtain h0 where "h = zapentry h0"
    using assms(3) wf by (auto simp: zaphash_def hscan_wf zapentry_def)
  moreover have "relcmd (set_dotpath p c) = relcmd c" for p c
    by (simp add: set_dotpath_def split: prod.splits)
  ultimately show ?thesis using zapentry_bits [of h0] c by (simp add: zaphash_def)
qed (use assms(2) in auto)

lemma assign_path_forgets_witness:
  "\<exists>s' h. assign [] ''PATH'' ''/bin''
       (shell0\<lparr>cmds := empty_cache\<lparr>ht := hset (COMMAND OR 1) ''ls'' hcreate\<rparr>\<rparr>) = (None, s') \<and>
     hlookup (ht (cmds s')) ''ls'' = Some h \<and> data h AND (COMMAND OR REL_COMMAND OR PATH_COMMAND) = 0"
proof -
  define t where "t = hset (COMMAND OR 1) ''ls'' hcreate"
  define s where "s = shell0\<lparr>cmds := empty_cache\<lparr>ht := t\<rparr>\<rparr>"
  have t: "wf_htab t" "map_option data (hlookup t ''ls'') = Some (COMMAND OR 1)"
    by (simp_all add: t_def hset_ok [OF wf_hcreate])
  have ok: "shell_ok s" using shell0_ok t(1) by (simp add: s_def shell_ok_def)
  have f: "tfind ''PATH'' namep0 = Some (newnod ''PATH'')" by code_simp
  have nd: "nod ''PATH'' s = newnod ''PATH''" by (simp add: nod_def s_def shell0_def f)
  have r: "\<not> rsh s" and c: "ht (cmds s) = t" by (simp_all add: s_def shell0_def)
  define s' where "s' = snd (assign [] ''PATH'' ''/bin'' s)"
  have a: "assign [] ''PATH'' ''/bin'' s = (None, s')"
    by (simp add: s'_def assign_def nd r newnod_def Let_def)
  have "ht (cmds s') = hscan zapentry t"
    by (simp add: s'_def assign_def nd r c newnod_def Let_def set_builtins_path_def zaphash_def upd_def)
  then obtain h where h: "hlookup (ht (cmds s')) ''ls'' = Some h"
    using t by (auto simp: hscan_wf zapentry_def)
  from assign_path_forgets [OF ok a h] a h show ?thesis by (auto simp: s_def t_def)
qed

section \<open>The environment\<close>

definition setting :: "cstr \<times> cstr \<Rightarrow> cstr" where
  "setting nv = fst nv @ ''='' @ snd nv"

text \<open>What the nodes look like while only the environment has been read.\<close>

definition imported :: "namnod \<Rightarrow> bool" where
  "imported m \<longleftrightarrow> namflg m = N_DEFAULT \<and> namval m = None \<and> namenv m = None \<or>
     namflg m = N_ENVNAM \<and> namval m \<noteq> None \<and> namenv m = namval m"

lemma setname_import:
  assumes "chkid n" "bst (names s)" "\<forall>m \<in> set (namwalk (names s)). imported m"
  shows "names (snd (setname commands (setting (n, v)) N_ENVNAM s)) =
    nput n (Some v, Some v, N_ENVNAM) (names s)"
proof -
  have l: "letter (deref n)" and c: "cstr n" using assms(1) chkid_cstr by (auto simp: chkid_def)
  have al: "\<forall>c \<in> set n. alphanum c"
    using assms(1) by (cases n) (auto simp: chkid_def list_all_iff letter_alphanum)
  have n: "takeWhile alphanum (setting (n, v)) = n" "dropWhile alphanum (setting (n, v)) = CHR ''='' # v"
    using takeWhile_prefix [OF al, of "''='' @ v"] dropWhile_prefix [OF al, of "''='' @ v"]
    by (simp_all add: setting_def)
  have "letter (deref (setting (n, v)))" using l by (cases n) (auto simp: setting_def letter_def ord_def)
  then have "names (snd (setname commands (setting (n, v)) N_ENVNAM s)) =
      tupd n (\<lambda>m. m\<lparr>namenv := Some v, namval := Some v\<rparr>)
        (tupd n (attrib N_ENVNAM) (tinsert n (names s)))"
    using assms(1) by (simp add: setname_def n lookup_def upd_def dolocale_def Let_def)
  also have "\<dots> = tupd n ((\<lambda>m. m\<lparr>namenv := Some v, namval := Some v\<rparr>) \<circ> attrib N_ENVNAM)
      (tinsert n (names s))"
    using assms(2) c by (simp add: tupd_tupd tinsert_bst)
  also have "\<dots> = nput n (Some v, Some v, N_ENVNAM) (names s)"
  proof -
    have "\<forall>m \<in> set (namwalk (tinsert n (names s))). imported m"
      using assms(2,3) c by (intro tinsert_nodes) (auto simp: imported_def newnod_def)
    then show ?thesis
      unfolding nput_def using assms(2) c
      by (intro tupd_cong) (auto simp: tinsert_bst attrib_def imported_def)
  qed
  finally show ?thesis .
qed

lemma nput_import:
  assumes "chkid n" "bst t" "\<forall>m \<in> set (namwalk t). imported m"
  shows "\<forall>m \<in> set (namwalk (nput n (Some v, Some v, N_ENVNAM) t)). imported m"
proof -
  have c: "cstr n" by (rule chkid_cstr [OF assms(1)])
  have "\<forall>m \<in> set (namwalk (tinsert n t)). imported m"
    using assms c by (intro tinsert_nodes) (auto simp: imported_def newnod_def)
  then show ?thesis
    unfolding nput_def using assms c by (intro tupd_nodes) (auto simp: tinsert_bst imported_def)
qed

lemma setup_env_names:
  "\<forall>(n, v) \<in> set l. chkid n \<Longrightarrow> bst (names s) \<Longrightarrow> \<forall>m \<in> set (namwalk (names s)). imported m \<Longrightarrow>
     names (setup_env commands (map setting l) s) =
       nt.put_all (map (\<lambda>(n, v). (n, Some v, Some v, N_ENVNAM)) l) (names s) \<and>
     (\<forall>m \<in> set (namwalk (names (setup_env commands (map setting l) s))). imported m)"
proof (induction l arbitrary: s)
  case Nil
  then show ?case by (simp add: setup_env_def nt.put_all_def)
next
  case (Cons nv l)
  obtain n v where nv: "nv = (n, v)" by (cases nv)
  define s1 where "s1 = snd (setname commands (setting (n, v)) N_ENVNAM s)"
  have s1: "names s1 = nput n (Some v, Some v, N_ENVNAM) (names s)"
    unfolding s1_def using Cons.prems nv by (intro setname_import) auto
  have c: "chkid n" using Cons.prems(1) nv by simp
  have "bst (names s1)" "\<forall>m \<in> set (namwalk (names s1)). imported m"
    unfolding s1 using Cons.prems nt.put_ok [OF _ chkid_cstr [OF c]] nput_import [OF c] by blast+
  with Cons.IH [of s1] Cons.prems(1) show ?case
    by (simp add: setup_env_def nt.put_all_def nv s1_def [symmetric] s1)
qed

lemma concat_pushed:
  "\<forall>m \<in> set ns. imported m \<Longrightarrow> concat (map pushed ns) =
     map (\<lambda>m. setting (namid m, the (namval m))) (filter (\<lambda>m. namval m \<noteq> None) ns)"
  by (induction ns) (auto simp: pushed_def pushnam_def imported_def Let_def setting_def)

lemma tfind_put_settings:
  assumes "\<forall>(n, v) \<in> set l. chkid n" "cstr m"
  shows "map_option attrs (tfind m
      (nt.put_all (map (\<lambda>(n, v). (n, Some v, Some v, N_ENVNAM)) l) namep0)) =
    (case map_of (rev l) m of
       None \<Rightarrow> map_option attrs (tfind m namep0) | Some v \<Rightarrow> Some (Some v, Some v, N_ENVNAM))"
proof -
  have "map_of (rev (map (\<lambda>(n, v). (n, Some v, Some v, N_ENVNAM)) l)) m =
      map_option (\<lambda>v. (Some v, Some v, N_ENVNAM)) (map_of (rev l) m)"
    by (simp add: rev_map map_of_map)
  moreover have "list_all (\<lambda>(n, v). cstr n) (map (\<lambda>(n, v). (n, Some v, Some v, N_ENVNAM)) l)"
    using assms(1) chkid_cstr by (auto simp: list_all_iff)
  ultimately show ?thesis
    using nt.find_put_all [OF bst_namep0 _ assms(2)] by (simp split: option.splits)
qed

lemma namep0_unset: "tfind m namep0 = Some x \<Longrightarrow> cstr m \<Longrightarrow> namval x = None"
proof -
  assume "tfind m namep0 = Some x" "cstr m"
  then have "x \<in> set (namwalk namep0)" using tfind_SomeD bst_namep0 by blast
  then show ?thesis by (auto simp: namep0_def newnod_def)
qed

text \<open>
  C24: A shell that reads its environment and starts a child at once passes on exactly what it
  got: the child's environment has one setting for every name of the parent's, with the last
  value given for it, in the order of the names.
\<close>

theorem env_roundtrip:
  assumes "names s = namep0" and "\<forall>(n, v) \<in> set l. chkid n"
  shows "fst (local_setenv (setup_env commands (map setting l) s)) =
    map (\<lambda>n. setting (n, the (map_of (rev l) n))) (sorted_list_of_set (fst ` set l))"
proof -
  define t where "t = names (setup_env commands (map setting l) s)"
  define ns where "ns = filter (\<lambda>m. namval m \<noteq> None) (namwalk t)"
  have i0: "\<forall>m \<in> set (namwalk namep0). imported m"
    by (simp add: namep0_def newnod_def imported_def)
  have t: "t = nt.put_all (map (\<lambda>(n, v). (n, Some v, Some v, N_ENVNAM)) l) namep0"
    "\<forall>m \<in> set (namwalk t). imported m"
    using setup_env_names [of l s commands] assms bst_namep0 i0 by (simp_all add: t_def)
  have b: "bst t"
    unfolding t(1) using assms(2) chkid_cstr
    by (intro nt.put_all_ok bst_namep0) (auto simp: list_all_iff)
  have val: "map_of (rev l) (namid m) = namval m" if "m \<in> set (namwalk t)" for m
  proof -
    have c: "cstr (namid m)" and f: "tfind (namid m) t = Some m"
      using that b bst_cstr tfind_in by blast+
    show ?thesis
      using tfind_put_settings [OF assms(2) c] f namep0_unset [OF _ c]
      by (cases "tfind (namid m) namep0")
        (auto simp: t(1) [symmetric] attrs_def split: option.splits)
  qed
  have mem: "n \<in> fst ` set l \<longleftrightarrow> n \<in> namid ` set ns" for n
  proof
    assume "n \<in> fst ` set l"
    then obtain v where v: "map_of (rev l) n = Some v" by (metis map_of_eq_None_iff not_None_eq set_rev)
    have c: "cstr n" using \<open>n \<in> fst ` set l\<close> assms(2) chkid_cstr by auto
    obtain m where "tfind n t = Some m" "namval m = Some v"
      using tfind_put_settings [OF assms(2) c] v by (auto simp: t(1) [symmetric] attrs_def)
    then show "n \<in> namid ` set ns" using tfind_SomeD [OF b c] by (force simp: ns_def)
  next
    assume "n \<in> namid ` set ns"
    then obtain v where "map_of (rev l) n = Some v" using val by (auto simp: ns_def)
    then show "n \<in> fst ` set l" by (metis map_of_SomeD set_rev fst_conv image_eqI)
  qed
  have "sorted_wrt (<) (map namid ns)"
    using sorted_wrt_filter [of "\<lambda>m k. namid m < namid k" "namwalk t"] bst_sorted [OF b]
    by (simp add: ns_def sorted_wrt_map)
  then have "sorted_list_of_set (set (map namid ns)) = map namid ns"
    by (intro sorted_list_of_set.idem_if_sorted_distinct) (simp_all add: strict_sorted_iff)
  moreover have "set (map namid ns) = fst ` set l" using mem by auto
  ultimately have "sorted_list_of_set (fst ` set l) = map namid ns" by simp
  then show ?thesis
    using concat_pushed [OF t(2)] val
    by (simp add: local_setenv_def t_def [symmetric] ns_def)
qed

lemma env_roundtrip_witness:
  "fst (local_setenv (setup_env [] [''HOME=/a'', ''A=1'', ''HOME=/b''] shell0)) = [''A=1'', ''HOME=/b'']"
proof -
  have "sorted_list_of_set {''HOME'', ''A''} = [''A'', ''HOME'']" by code_simp
  moreover have "chkid ''HOME''" "chkid ''A''" by code_simp+
  ultimately show ?thesis
    using env_roundtrip [of shell0 "[(''HOME'', ''/a''), (''A'', ''1''), (''HOME'', ''/b'')]" "[]"]
    by (simp add: shell0_def setting_def insert_commute)
qed

section \<open>Numbers\<close>

lemma ltos_loop_print: "n < 10 ^ i \<Longrightarrow> 0 < i \<Longrightarrow> ltos_loop i n buf = print_dec n @ buf"
proof (induction i n buf rule: ltos_loop.induct)
  case (2 i n buf)
  show ?case
  proof (cases "n div 10 = 0")
    case True
    then have "n < 10" by simp
    then show ?thesis by (simp add: print_dec.simps [of n])
  next
    case False
    then have "0 < i" using 2(2) by (cases i) auto
    with False 2 show ?thesis by (simp add: print_dec.simps [of n])
  qed
qed simp

lemma sint_small: "k < 2 ^ 31 \<Longrightarrow> sint (of_nat k :: 32 word) = int k"
  by (simp add: signed_of_nat signed_take_bit_int_eq_self)

lemma dec_val_Cons: "dec_val (c # s) = digit_val c * 10 ^ length s + dec_val s"
  using foldl_dec [of "digit_val c" s] by (simp add: dec_val_def)

lemma stoi_loop_digits:
  "\<forall>c \<in> set s. numeric c \<Longrightarrow> k * 10 ^ length s + dec_val s < 2 ^ 31 \<Longrightarrow>
     stoi_loop s (of_nat k) = ([], of_nat (k * 10 ^ length s + dec_val s))"
proof (induction s arbitrary: k)
  case Nil
  then show ?case by (simp add: dec_val_def)
next
  case (Cons c s)
  have "k * 1 \<le> k * 10 ^ length (c # s)" by (intro mult_le_mono) simp_all
  then have k: "k < 2 ^ 31" using Cons.prems(2) by linarith
  have e: "(k * 10 + digit_val c) * 10 ^ length s + dec_val s = k * 10 ^ length (c # s) + dec_val (c # s)"
    by (simp add: dec_val_Cons algebra_simps)
  have "of_nat k * 10 + digit32 c = (of_nat (k * 10 + digit_val c) :: 32 word)"
    by (simp add: digit32_def)
  with Cons.IH [of "k * 10 + digit_val c"] Cons.prems e k show ?case
    by (simp add: sint_small)
qed

text \<open>
  Numbers the shell prints it reads back: for every non-negative \<open>int\<close>, \<open>stoi\<close> of what
  \<open>ltos\<close> writes is the number again.
\<close>

theorem stoi_ltos:
  assumes "n < 2 ^ 31"
  shows "stoi (ltos n) = Inr (of_nat n)"
proof -
  have l: "ltos n = print_dec n" using assms ltos_loop_print [of n 20 "[]"] by (simp add: ltos_def)
  have "stoi_loop (print_dec n) 0 = ([], of_nat n)"
    using stoi_loop_digits [of "print_dec n" 0] print_dec_numeric assms by simp
  then show ?thesis using assms by (simp add: l stoi_def sint_small)
qed

lemma stoi_ltos_witness: "stoi (ltos 2147483647) = Inr 2147483647"
  using stoi_ltos [of 2147483647] by simp

text \<open>
  The overflow test of \<open>stoi\<close>, that the number has not turned negative, misses numbers
  that wrap past zero: on a two's complement machine \<open>4294967301\<close> is accepted as 5.
\<close>

theorem stoi_wraps: "stoi ''4294967301'' = Inr 5"
  by code_simp

end
