(* ===== verification/DcArith.thy ===== *)
theory DcArith
  imports Complex_Main Prelude
begin

text \<open>
  The arithmetic of the desk calculator, \<open>cmd/dc/dc.c\<close>. A number is a block (\<open>struct blk\<close>)
  of base-100 digits, least significant first; the top digit of a negative number is -1. The
  model keeps the contents of a block between \<open>beg\<close> and \<open>wt\<close> as a list of integers and
  turns the walks of \<open>rd\<close> into recursion over the list: \<open>sgetc\<close> takes the head, \<open>sputc\<close>
  appends, \<open>sbackc\<close> from \<open>fsfile\<close> reads from the end, \<open>truncate\<close> cuts at \<open>rd\<close>. A digit
  fits a \<open>char\<close> throughout (\<open>ctoint\<close> sign-extends it), which the range lemmas show.
\<close>

section \<open>The code\<close>

type_synonym blk = "int list"

subsection \<open>Change of sign\<close>

fun chsign_loop :: "int \<Rightarrow> blk \<Rightarrow> blk \<times> int" where
  "chsign_loop carry [] = ([], carry)"
| "chsign_loop carry (d # ds) =
     (let ct = 100 - d - carry;
          (ct', carry') = (if ct \<ge> 100 then (ct - 100, 0) else (ct, 1));
          (r, c) = chsign_loop carry' ds
      in (ct' # r, c))"

definition chsign :: "blk \<Rightarrow> blk" where
  "chsign p =
     (let (r, carry) = chsign_loop 0 p in
      if carry \<noteq> 0 then
        (if r \<noteq> [] \<and> last r = 99 then butlast r @ [- 1] else r @ [- 1])
      else if r \<noteq> [] \<and> last r = 0 then butlast r else r)"

subsection \<open>Addition\<close>

text \<open>The digit loop, run \<open>size\<close> times; a block that is at its end gives 0.\<close>

fun add_loop :: "nat \<Rightarrow> blk \<Rightarrow> blk \<Rightarrow> int \<Rightarrow> blk" where
  "add_loop 0 a1 a2 carry = (if carry \<noteq> 0 then [carry] else [])"
| "add_loop (Suc sz) a1 a2 carry =
     (let n1 = (case a1 of [] \<Rightarrow> 0 | d # _ \<Rightarrow> d);
          n2 = (case a2 of [] \<Rightarrow> 0 | d # _ \<Rightarrow> d);
          n = n1 + n2 + carry;
          (carry', n') = (if n \<ge> 100 then (1, n - 100)
                          else if n < 0 then (- 1, n + 100) else (0, n))
      in n' # add_loop sz (tl a1) (tl a2) carry')"

text \<open>Backing over leading zeros and truncating behind the first other digit.\<close>

definition strip0 :: "blk \<Rightarrow> blk" where
  "strip0 p = rev (dropWhile (\<lambda>d. d = 0) (rev p))"

text \<open>
  A top digit -1 over 99s: the walk backs over the 99s, steps forward once and writes -1
  there; where every digit is 99 the walk stops at the beginning, so the first one stays.
\<close>

definition fix99 :: "blk \<Rightarrow> blk" where
  "fix99 p =
     (if p \<noteq> [] \<and> last p = - 1 then
        (case dropWhile (\<lambda>d. d = 99) (rev (butlast p)) of
           [] \<Rightarrow> take 1 p @ [- 1]
         | r \<Rightarrow> rev r @ [- 1])
      else p)"

definition add :: "blk \<Rightarrow> blk \<Rightarrow> blk" where
  "add a1 a2 = fix99 (strip0 (add_loop (max (length a1) (length a2)) a1 a2 0))"

subsection \<open>Multiplication\<close>

text \<open>One row: the digit \<open>cq\<close> times the digits of \<open>mp\<close>, added to \<open>mr\<close> from \<open>rd\<close> on.\<close>

fun mult_row :: "int \<Rightarrow> blk \<Rightarrow> blk \<Rightarrow> int \<Rightarrow> blk" where
  "mult_row cq [] mr carry =
     (if carry \<noteq> 0 then (case mr of [] \<Rightarrow> 0 + carry | mcr # _ \<Rightarrow> mcr + carry) # tl mr else mr)"
| "mult_row cq (cp # mp) mr carry =
     (let mcr = (case mr of [] \<Rightarrow> 0 | m # _ \<Rightarrow> m);
          mt = cp * cq + carry + mcr
      in cmod mt 100 # mult_row cq mp (tl mr) (cdiv mt 100))"

fun mult_loop :: "blk \<Rightarrow> blk \<Rightarrow> blk \<Rightarrow> nat \<Rightarrow> blk" where
  "mult_loop [] mp mr offset = mr"
| "mult_loop (cq # mq) mp mr offset =
     mult_loop mq mp (take offset mr @ mult_row cq mp (drop offset mr) 0) (Suc offset)"

definition negative :: "blk \<Rightarrow> bool" where
  "negative p \<longleftrightarrow> p \<noteq> [] \<and> last p < 0"

definition mult :: "blk \<Rightarrow> blk \<Rightarrow> blk" where
  "mult p q =
     (let mp = (if negative p then chsign p else p);
          mq = (if negative q then chsign q else q);
          mr = mult_loop mq mp [] 0
      in if negative p \<noteq> negative q then chsign mr else mr)"

subsection \<open>Scaling by powers of ten\<close>

definition tenptr :: blk where "tenptr = [10]"

definition add0 :: "blk \<Rightarrow> nat \<Rightarrow> blk" where
  "add0 p ct =
     (let q = replicate (ct div 2) 0 @ p in
      if odd ct then mult tenptr q else q)"

section \<open>The stack\<close>

text \<open>
  \<open>stack[1]\<close> to \<open>*stkptr\<close>, the top first, so that \<open>stkptr - stack\<close> is the length; slot 0 is
  never used. Every block on it ends in its scale, \<open>sputc(r, savk)\<close>.
\<close>

record dcstate =
  stk :: "blk list"
  stkerr :: bool

abbreviation STKSZ :: nat where "STKSZ \<equiv> 100"

definition pushp :: "blk \<Rightarrow> dcstate \<Rightarrow> dcstate" where
  "pushp p s =
     (if length (stk s) = STKSZ then s
      else s\<lparr>stkerr := False, stk := p # stk s\<rparr>)"

definition pop :: "dcstate \<Rightarrow> blk \<times> dcstate" where
  "pop s = (case stk s of [] \<Rightarrow> ([], s\<lparr>stkerr := True\<rparr>) | p # ps \<Rightarrow> (p, s\<lparr>stk := ps\<rparr>))"

text \<open>\<open>eqk\<close> returns 1 on a short stack, otherwise sets \<open>arg1\<close>, \<open>arg2\<close> and \<open>savk\<close>.\<close>

definition eqk :: "dcstate \<Rightarrow> (blk \<times> blk \<times> int) option \<times> dcstate" where
  "eqk s =
     (let (p, s) = pop s in
      if stkerr s then (None, s)
      else let (q, s) = pop s in
      if stkerr s then (None, pushp p s)
      else let skp = last p; p = butlast p; skq = last q; q = butlast q in
      if skp = skq then (Some (p, q, skp), s)
      else if skp < skq then (Some (add0 p (nat (skq - skp)), q, skq), s)
      else (Some (p, add0 q (nat (skp - skq)), skp), s))"

datatype dcop = Plus | Times

definition binop :: "dcop \<Rightarrow> blk \<Rightarrow> blk \<Rightarrow> int \<Rightarrow> dcstate \<Rightarrow> dcstate" where
  "binop c arg1 arg2 savk s =
     (let r = (case c of Plus \<Rightarrow> add arg1 arg2 | Times \<Rightarrow> mult arg1 arg2)
      in pushp (r @ [savk]) s)"

text \<open>The command \<open>+\<close>.\<close>

definition plus_cmd :: "dcstate \<Rightarrow> dcstate" where
  "plus_cmd s =
     (case eqk s of (None, s) \<Rightarrow> s | (Some (arg1, arg2, savk), s) \<Rightarrow> binop Plus arg1 arg2 savk s)"

definition subt :: "dcstate \<Rightarrow> bool \<times> dcstate" where
  "subt s =
     (let (arg1, s) = pop s in
      if stkerr s then (True, s)
      else let s = pushp (chsign (butlast arg1) @ [last arg1]) s in
      case eqk s of
        (None, s) \<Rightarrow> (True, s)
      | (Some (arg1, arg2, savk), s) \<Rightarrow> (False, binop Plus arg1 arg2 savk s))"

text \<open>
  The conditionals \<open><x\<close>, \<open>>x\<close>, \<open>=x\<close> and their negations: \<open>Failed\<close> is the return on a short
  stack, \<open>Skip\<close> reads the register's name and goes on, \<open>Load\<close> pushes the register to run it.
\<close>

datatype rel = Lt | Gt | Eq | NL | NG | NE

datatype outcome = Failed | Skip | Load

definition cond :: "rel \<Rightarrow> dcstate \<Rightarrow> outcome \<times> dcstate" where
  "cond c s =
     (let (e, s) = subt s in
      if e then (Failed, s)
      else let (p, s) = pop s; p = butlast p in
      if p = [] then (if c = Lt \<or> c = Gt \<or> c = NE then (Skip, s) else (Load, s))
      else if c = Eq then (Skip, s)
      else if c = NE then (Load, s)
      else if last p < 0 \<and> (c = Lt \<or> c = NG) \<or> last p > 0 \<and> (c = Gt \<or> c = NL) then (Skip, s)
      else (Load, s))"

section \<open>What the blocks stand for\<close>

fun val :: "blk \<Rightarrow> int" where
  "val [] = 0"
| "val (d # ds) = d + 100 * val ds"

text \<open>Digits in range, and -1 only at the top.\<close>

definition digits :: "blk \<Rightarrow> bool" where
  "digits p \<longleftrightarrow> (\<forall>d \<in> set p. 0 \<le> d \<and> d \<le> 99)"

definition number :: "blk \<Rightarrow> bool" where
  "number p \<longleftrightarrow> digits p \<or> (\<exists>r. p = r @ [- 1] \<and> digits r)"

text \<open>Numbers as the operations leave them: no leading zero, no 99 that the sign could absorb.\<close>

definition canon :: "blk \<Rightarrow> bool" where
  "canon p \<longleftrightarrow> number p \<and> (p \<noteq> [] \<longrightarrow> last p \<noteq> 0)"

lemma val_append: "val (p @ q) = val p + 100 ^ length p * val q"
  by (induction p) (simp_all add: algebra_simps)

lemma digits_simps [simp]:
  "digits []" "digits (d # p) \<longleftrightarrow> 0 \<le> d \<and> d \<le> 99 \<and> digits p"
  "digits (p @ q) \<longleftrightarrow> digits p \<and> digits q"
  by (auto simp: digits_def)

lemma digits_rev [simp]: "digits (rev p) = digits p"
  by (simp add: digits_def)

lemma digits_val: "digits p \<Longrightarrow> 0 \<le> val p \<and> val p < 100 ^ length p"
  by (induction p) auto

lemma digits_val_0: "digits p \<Longrightarrow> val p = 0 \<Longrightarrow> d \<in> set p \<Longrightarrow> d = 0"
proof (induction p)
  case (Cons a p)
  then have "0 \<le> val p" using digits_val [of p] by simp
  with Cons.prems have "a = 0" "val p = 0" by (simp_all, linarith+)
  with Cons show ?case by auto
qed simp

lemma number_cases [consumes 1, case_names pos neg]:
  assumes "number p"
  obtains "digits p" "\<not> negative p" | r where "p = r @ [- 1]" "digits r" "negative p"
proof (cases "digits p")
  case True
  then have "\<not> negative p"
    unfolding negative_def digits_def by (metis last_in_set not_less)
  with True that(1) show ?thesis by blast
next
  case False
  with assms obtain r where "p = r @ [- 1]" "digits r" by (auto simp: number_def)
  with that(2) show ?thesis by (simp add: negative_def)
qed

lemma negative_val:
  assumes "number p" shows "negative p \<longleftrightarrow> val p < 0"
  using assms
proof (cases p rule: number_cases)
  case pos
  then show ?thesis using digits_val [of p] by simp
next
  case (neg r)
  then show ?thesis using digits_val [of r] by (simp add: val_append)
qed

section \<open>Change of sign\<close>

lemma chsign_loop_digits:
  "digits p \<Longrightarrow> carry \<in> {0, 1} \<Longrightarrow> chsign_loop carry p = (r, c) \<Longrightarrow>
     digits r \<and> c \<in> {0, 1} \<and> length r = length p \<and>
     val r - 100 ^ length p * c = - val p - carry"
proof (induction p arbitrary: carry r c)
  case (Cons d p)
  define ct where "ct = 100 - d - carry"
  define ct' where "ct' = (if ct \<ge> 100 then ct - 100 else ct)"
  define c' where "c' = (if ct \<ge> 100 then 0 else 1 :: int)"
  obtain r' c'' where rc: "chsign_loop c' p = (r', c'')" by (cases "chsign_loop c' p")
  have eq: "r = ct' # r'" "c = c''"
    using Cons.prems(3) rc by (auto simp: ct_def ct'_def c'_def Let_def split: if_splits)
  have d: "0 \<le> d" "d \<le> 99" and c01: "c' \<in> {0, 1}" using Cons.prems by (auto simp: c'_def)
  from Cons.IH [OF _ c01 rc] Cons.prems(1)
  have IH: "digits r'" "c'' \<in> {0, 1}" "length r' = length p" "val r' - 100 ^ length p * c'' = - val p - c'"
    by auto
  have ct: "0 \<le> ct'" "ct' \<le> 99" "ct' = 100 * c' - d - carry"
    using d Cons.prems(2) by (auto simp: ct_def ct'_def c'_def)
  have "val r - 100 ^ length (d # p) * c = ct' + 100 * (val r' - 100 ^ length p * c'')"
    by (simp add: eq algebra_simps)
  also have "\<dots> = - val (d # p) - carry"
    using IH(4) ct(3) by (simp add: algebra_simps)
  finally show ?case using IH ct eq by simp
qed auto

lemma chsign_loop_append:
  "chsign_loop carry (p @ q) =
     (let (r, c) = chsign_loop carry p; (s, c') = chsign_loop c q in (r @ s, c'))"
  by (induction p arbitrary: carry) (auto simp: Let_def split: prod.splits)

lemma val_butlast: "p \<noteq> [] \<Longrightarrow> val p = val (butlast p) + 100 ^ length (butlast p) * last p"
  using val_append [of "butlast p" "[last p]"] by simp

lemma digits_butlast: "digits p \<Longrightarrow> digits (butlast p)"
  by (auto simp: digits_def dest: in_set_butlastD)

lemma chsign_pos:
  assumes "digits p"
  shows "val (chsign p) = - val p" "number (chsign p)"
proof -
  obtain r c where rc: "chsign_loop 0 p = (r, c)" by (cases "chsign_loop 0 p")
  from chsign_loop_digits [OF assms _ rc]
  have r: "digits r" "c \<in> {0, 1}" "length r = length p" "val r - 100 ^ length p * c = - val p"
    by auto
  have "val (chsign p) = - val p \<and> number (chsign p)"
  proof (cases "c = 0")
    case True
    then show ?thesis
      using r rc val_butlast [of r] digits_butlast [of r]
      by (auto simp: chsign_def number_def)
  next
    case False
    with r have c: "c = 1" by auto
    show ?thesis
    proof (cases "r \<noteq> [] \<and> last r = 99")
      case True
      then have len: "length p = Suc (length (butlast r))" using r(3) by (cases r) auto
      have "100 ^ length r = 100 * (100::int) ^ length (butlast r)"
        unfolding r(3) len by (rule power_Suc)
      with True r rc c val_butlast [of r] digits_butlast [of r] show ?thesis
        by (auto simp: chsign_def number_def val_append)
    next
      case False
      with r rc c show ?thesis by (auto simp: chsign_def number_def val_append)
    qed
  qed
  then show "val (chsign p) = - val p" "number (chsign p)" by auto
qed

lemma chsign_neg:
  assumes "digits q"
  shows "val (chsign (q @ [- 1])) = - val (q @ [- 1])" "digits (chsign (q @ [- 1]))"
proof -
  obtain r c where rc: "chsign_loop 0 q = (r, c)" by (cases "chsign_loop 0 q")
  from chsign_loop_digits [OF assms _ rc]
  have r: "digits r" "c \<in> {0, 1}" "length r = length q" "val r - 100 ^ length q * c = - val q"
    by auto
  have l: "chsign_loop 0 (q @ [- 1]) = (r @ [1 - c], 0)"
    using rc r(2) by (auto simp: chsign_loop_append)
  have "val (chsign (q @ [- 1])) = - val (q @ [- 1]) \<and> digits (chsign (q @ [- 1]))"
  proof (cases "c = 1")
    case True
    with l r show ?thesis by (simp add: chsign_def val_append)
  next
    case False
    with r(2) have "c = 0" by auto
    with l r show ?thesis by (simp add: chsign_def val_append)
  qed
  then show "val (chsign (q @ [- 1])) = - val (q @ [- 1])" "digits (chsign (q @ [- 1]))" by auto
qed

lemma chsign_val:
  assumes "number p"
  shows "val (chsign p) = - val p" "number (chsign p)"
  using assms chsign_pos [of p] chsign_neg
  by (cases p rule: number_cases; auto simp: number_def)+

section \<open>Addition\<close>

lemma number_Nil [simp]: "number []"
  by (simp add: number_def)

lemma number_snoc [simp]: "number (p @ [d]) \<longleftrightarrow> digits p \<and> - 1 \<le> d \<and> d \<le> 99"
  by (auto simp: number_def)

lemma number_Cons:
  assumes "number r" "0 \<le> d" "d \<le> 99"
  shows "number (d # r)"
  using assms(1)
proof (cases r rule: number_cases)
  case (neg s)
  then show ?thesis using number_snoc [of "d # s" "- 1"] assms by simp
qed (use assms in \<open>simp add: number_def\<close>)

lemma digits_number: "digits p \<Longrightarrow> number p"
  by (simp add: number_def)

lemma number_range: "number p \<Longrightarrow> d \<in> set p \<Longrightarrow> - 1 \<le> d \<and> d \<le> 99"
  by (fastforce simp: number_def digits_def)

lemma tl_set: "d \<in> set (tl p) \<Longrightarrow> d \<in> set p"
  by (cases p) auto

lemma digits_tl: "digits p \<Longrightarrow> digits (tl p)"
  by (cases p) auto

lemma add_loop_val:
  "length a1 \<le> n \<Longrightarrow> length a2 \<le> n \<Longrightarrow> \<forall>d \<in> set a1 \<union> set a2. - 1 \<le> d \<and> d \<le> 99 \<Longrightarrow>
   - 1 \<le> carry \<Longrightarrow> carry \<le> 1 \<Longrightarrow>
   val (add_loop n a1 a2 carry) = val a1 + val a2 + carry \<and> number (add_loop n a1 a2 carry)"
proof (induction n arbitrary: a1 a2 carry)
  case 0
  then show ?case using number_snoc [of "[]" carry] by simp
next
  case (Suc n)
  define n1 where "n1 = (case a1 of [] \<Rightarrow> 0 | d # _ \<Rightarrow> d)"
  define n2 where "n2 = (case a2 of [] \<Rightarrow> 0 | d # _ \<Rightarrow> d)"
  define m where "m = n1 + n2 + carry"
  define c' where "c' = (if m \<ge> 100 then 1 else if m < 0 then - 1 else 0 :: int)"
  have v: "val a1 = n1 + 100 * val (tl a1)" "val a2 = n2 + 100 * val (tl a2)"
    by (simp_all add: n1_def n2_def split: list.splits)
  have r: "- 1 \<le> n1" "n1 \<le> 99" "- 1 \<le> n2" "n2 \<le> 99"
    using Suc.prems(3) by (auto simp: n1_def n2_def split: list.splits)
  then have m: "0 \<le> m - 100 * c'" "m - 100 * c' \<le> 99" "- 1 \<le> c'" "c' \<le> 1"
    using Suc.prems(4,5) by (auto simp: m_def c'_def)
  have eq: "add_loop (Suc n) a1 a2 carry = (m - 100 * c') # add_loop n (tl a1) (tl a2) c'"
    by (simp add: n1_def [symmetric] n2_def [symmetric] m_def [symmetric] c'_def)
  have "val (add_loop n (tl a1) (tl a2) c') = val (tl a1) + val (tl a2) + c'
      \<and> number (add_loop n (tl a1) (tl a2) c')"
    using Suc.prems m by (intro Suc.IH) (auto dest: tl_set)
  then show ?case unfolding eq using m v by (simp add: number_Cons m_def)
qed

lemma add_loop_not_m1: "add_loop n a1 a2 0 \<noteq> [- 1]" if "\<forall>d \<in> set a1 \<union> set a2. - 1 \<le> d \<and> d \<le> 99"
  using that by (cases n; cases a1; cases a2) (auto simp: Let_def split: if_splits)

lemma strip0_snoc: "strip0 (p @ [d]) = (if d = 0 then strip0 p else p @ [d])"
  by (simp add: strip0_def)

lemma strip0_Nil [simp]: "strip0 [] = []"
  by (simp add: strip0_def)

lemma strip0_canon: "number p \<Longrightarrow> val (strip0 p) = val p \<and> canon (strip0 p)"
proof (induction p rule: rev_induct)
  case (snoc d p)
  then show ?case by (auto simp: strip0_snoc val_append canon_def digits_number)
qed (simp add: canon_def)

lemma strip0_m1: "number p \<Longrightarrow> strip0 p = [- 1] \<Longrightarrow> p = [- 1]"
proof (induction p rule: rev_induct)
  case (snoc d p)
  show ?case
  proof (cases "d = 0")
    case True
    then have "strip0 p = [- 1]" "digits p" using snoc.prems by (simp_all add: strip0_snoc)
    then show ?thesis using snoc.IH by (simp add: digits_number)
  next
    case False
    then show ?thesis using snoc.prems by (simp add: strip0_snoc)
  qed
qed simp

lemma fix99_walk:
  "digits b \<Longrightarrow> rev (dropWhile (\<lambda>d. d = 99) (rev b)) = r \<Longrightarrow>
     digits r \<and> val r - 100 ^ length r = val b - 100 ^ length b"
  by (induction b arbitrary: r rule: rev_induct) (auto simp: val_append split: if_splits)

lemma fix99_canon:
  assumes "canon p" "p \<noteq> [- 1]"
  shows "val (fix99 p) = val p \<and> canon (fix99 p)"
proof (cases "p \<noteq> [] \<and> last p = - 1")
  case True
  then obtain b where p: "p = b @ [- 1]" using append_butlast_last_id by metis
  with assms have b: "digits b" "b \<noteq> []" by (auto simp: canon_def)
  define r where "r = rev (dropWhile (\<lambda>d. d = 99) (rev b))"
  from fix99_walk [OF b(1) r_def [symmetric]]
  have r: "digits r" "val r - 100 ^ length r = val b - 100 ^ length b" by auto
  show ?thesis
  proof (cases "dropWhile (\<lambda>d. d = 99) (rev b)")
    case Nil
    then have "r = []" "\<forall>d \<in> set b. d = 99" by (auto simp: r_def dropWhile_eq_Nil_conv)
    then have "take 1 (b @ [- 1]) = [99]" using b(2) by (cases b) auto
    then have "fix99 p = [99, - 1]" by (simp add: p fix99_def Nil)
    moreover have "val b = 100 ^ length b - 1" using r(2) \<open>r = []\<close> by simp
    ultimately show ?thesis
      using number_snoc [of "[99]" "- 1"] by (simp add: p val_append canon_def del: number_snoc)
  next
    case (Cons x xs)
    then have "fix99 p = r @ [- 1]" by (simp add: p fix99_def r_def)
    with r show ?thesis by (simp add: p val_append canon_def)
  qed
qed (use assms in \<open>auto simp: fix99_def\<close>)

lemma add_val:
  assumes "number a" "number b"
  shows "val (add a b) = val a + val b" "canon (add a b)"
proof -
  define p where "p = add_loop (max (length a) (length b)) a b 0"
  have rng: "\<forall>d \<in> set a \<union> set b. - 1 \<le> d \<and> d \<le> 99" using assms number_range by auto
  then have p: "val p = val a + val b" "number p" using add_loop_val [of a _ b 0] by (auto simp: p_def)
  have "strip0 p \<noteq> [- 1]" using strip0_m1 [OF p(2)] add_loop_not_m1 [OF rng] by (auto simp: p_def)
  then have "val (fix99 (strip0 p)) = val a + val b \<and> canon (fix99 (strip0 p))"
    using fix99_canon [of "strip0 p"] strip0_canon [OF p(2)] p(1) by simp
  then show "val (add a b) = val a + val b" "canon (add a b)" by (simp_all add: add_def p_def)
qed

section \<open>Multiplication\<close>

lemma mult_row_val:
  "digits mp \<Longrightarrow> digits mr \<Longrightarrow> length mr \<le> length mp \<Longrightarrow> 0 \<le> cq \<Longrightarrow> cq \<le> 99 \<Longrightarrow>
   0 \<le> carry \<Longrightarrow> carry \<le> 99 \<Longrightarrow> r = mult_row cq mp mr carry \<Longrightarrow>
     val r = cq * val mp + carry + val mr \<and> digits r \<and>
     length mp \<le> length r \<and> length r \<le> Suc (length mp)"
proof (induction cq mp mr carry arbitrary: r rule: mult_row.induct)
  case (2 cq cp mp mr carry)
  define mcr where "mcr = (case mr of [] \<Rightarrow> 0 | m # _ \<Rightarrow> m)"
  define mt where "mt = cp * cq + carry + mcr"
  have mcr: "0 \<le> mcr" "mcr \<le> 99" "val mr = mcr + 100 * val (tl mr)" "digits (tl mr)"
    using 2(3) digits_tl by (auto simp: mcr_def split: list.splits)
  have "0 \<le> cp * cq" "cp * cq \<le> 99 * 99"
    using 2(2,5,6) mult_mono [of cp 99 cq 99] by auto
  then have mt: "0 \<le> mt" "mt \<le> 9999" using mcr 2(7,8) by (auto simp: mt_def)
  then have c: "cdiv mt 100 = mt div 100" "cmod mt 100 = mt mod 100"
    by simp_all
  have r: "r = mt mod 100 # mult_row cq mp (tl mr) (mt div 100)"
    using 2(9) c by (simp add: mcr_def [symmetric] mt_def [symmetric])
  have IH: "val (tl r) = cq * val mp + cdiv mt 100 + val (tl mr) \<and> digits (tl r) \<and>
      length mp \<le> length (tl r) \<and> length (tl r) \<le> Suc (length mp)"
    using 2(2,4,5,6) mcr(4) mt c
    by (intro 2(1) [OF mcr_def mt_def]) (auto simp: r digits_tl)
  have "mt = 100 * (mt div 100) + mt mod 100" by simp
  with IH mcr(3) c(1) show ?case by (auto simp: r mt_def algebra_simps)
qed (auto split: list.splits)

lemma mult_loop_Nil: "mult_loop mq [] mr offset = mr"
  by (induction mq "[] :: blk" mr offset rule: mult_loop.induct) simp_all

lemma mult_loop_val:
  "digits mq \<Longrightarrow> digits mp \<Longrightarrow> digits mr \<Longrightarrow> offset \<le> length mr \<or> mp = [] \<and> mr = [] \<Longrightarrow>
   length mr \<le> offset + length mp \<Longrightarrow>
     val (mult_loop mq mp mr offset) = val mr + 100 ^ offset * val mq * val mp \<and>
     digits (mult_loop mq mp mr offset)"
proof (induction mq mp mr offset rule: mult_loop.induct)
  case (2 cq mq mp mr offset)
  define row where "row = mult_row cq mp (drop offset mr) 0"
  have dr: "digits (take offset mr)" "digits (drop offset mr)"
    using 2(4) digits_simps(3) [of "take offset mr" "drop offset mr"] by auto
  have row: "val row = cq * val mp + val (drop offset mr)" "digits row"
    "length mp \<le> length row" "length row \<le> Suc (length mp)"
    using mult_row_val [OF 2(3) dr(2) _ _ _ _ _ row_def] 2(2,6) by auto
  show ?case
  proof (cases "mp = []")
    case True
    then show ?thesis using 2(4) by (simp add: mult_loop_Nil del: mult_loop.simps(2))
  next
    case False
    then have off: "offset \<le> length mr" using 2(5) by auto
    have vmr: "val mr = val (take offset mr) + 100 ^ offset * val (drop offset mr)"
      using val_append [of "take offset mr" "drop offset mr"] off by simp
    have "val (mult_loop mq mp (take offset mr @ row) (Suc offset)) =
        val (take offset mr @ row) + 100 ^ Suc offset * val mq * val mp \<and>
        digits (mult_loop mq mp (take offset mr @ row) (Suc offset))"
      unfolding row_def using 2(2,3) dr row False off
      by (intro 2(1)) (auto simp: row_def [symmetric] Suc_le_eq)
    then show ?thesis
      using off row(1) vmr by (simp add: row_def [symmetric] val_append algebra_simps)
  qed
qed simp

lemma mult_val:
  assumes "number p" "number q"
  shows "val (mult p q) = val p * val q" "number (mult p q)"
proof -
  define mp where "mp = (if negative p then chsign p else p)"
  define mq where "mq = (if negative q then chsign q else q)"
  have pos: "digits (if negative a then chsign a else a) \<and>
      val (if negative a then chsign a else a) = (if negative a then - val a else val a)"
    if "number a" for a
    using that chsign_neg by (cases a rule: number_cases) auto
  have "val (mult_loop mq mp [] 0) = val mq * val mp" "digits (mult_loop mq mp [] 0)"
    using mult_loop_val [of mq mp "[]" 0] pos [OF assms(1)] pos [OF assms(2)]
    by (auto simp: mp_def mq_def)
  then have "val (mult p q) = val p * val q \<and> number (mult p q)"
    using pos [OF assms(1)] pos [OF assms(2)] chsign_val [of "mult_loop mq mp [] 0"]
    by (auto simp: mult_def mp_def [symmetric] mq_def [symmetric] Let_def digits_number)
  then show "val (mult p q) = val p * val q" "number (mult p q)" by auto
qed

lemma val_zeros [simp]: "val (replicate n 0 @ p) = 100 ^ n * val p"
  by (induction n) simp_all

lemma number_zeros: "number p \<Longrightarrow> number (replicate n 0 @ p)"
  by (induction n) (simp_all add: number_Cons)

lemma add0_val:
  assumes "number p"
  shows "val (add0 p ct) = 10 ^ ct * val p" "number (add0 p ct)"
proof -
  have t: "number tenptr" "val tenptr = 10" by (simp_all add: tenptr_def number_def)
  have e: "(100::int) ^ (ct div 2) = 10 ^ (2 * (ct div 2))" by (simp add: power_mult)
  show "val (add0 p ct) = 10 ^ ct * val p"
    using mult_val(1) [OF t(1) number_zeros [OF assms]] t(2) e
    by (cases "odd ct") (auto simp: add0_def Let_def elim!: oddE evenE)
  show "number (add0 p ct)"
    using mult_val(2) [OF t(1) number_zeros [OF assms]] number_zeros [OF assms]
    by (simp add: add0_def Let_def)
qed

section \<open>The stack\<close>

text \<open>A block on the stack stands for its value divided by ten to its scale.\<close>

definition scaled :: "blk \<Rightarrow> bool" where
  "scaled p \<longleftrightarrow> p \<noteq> [] \<and> number (butlast p) \<and> 0 \<le> last p"

definition rat :: "blk \<Rightarrow> real" where
  "rat p = real_of_int (val (butlast p)) / 10 ^ nat (last p)"

lemma rat_snoc: "rat (p @ [k]) = real_of_int (val p) / 10 ^ nat k"
  by (simp add: rat_def)

lemma canon_zero: "canon p \<Longrightarrow> p = [] \<longleftrightarrow> val p = 0"
proof -
  assume c: "canon p"
  then have "number p" by (simp add: canon_def)
  then show ?thesis
  proof (cases p rule: number_cases)
    case pos
    then show ?thesis using c digits_val_0 [OF pos(1) _ last_in_set [of p]]
      by (auto simp: canon_def)
  next
    case (neg r)
    then show ?thesis using digits_val [of r] by (simp add: val_append)
  qed
qed

lemma canon_sign: "canon p \<Longrightarrow> p \<noteq> [] \<Longrightarrow> (last p < 0 \<longleftrightarrow> val p < 0) \<and> (last p > 0 \<longleftrightarrow> val p > 0)"
  using canon_zero [of p] negative_val [of p] by (auto simp: canon_def negative_def)

lemma eqk_two:
  assumes "stk s = p # q # ps" "\<not> stkerr s" "scaled p" "scaled q"
  obtains a b k where "eqk s = (Some (a, b, k), s\<lparr>stk := ps\<rparr>)" "number a" "number b" "0 \<le> k"
    "val a = rat p * 10 ^ nat k" "val b = rat q * 10 ^ nat k"
proof -
  define m n where "m = last p" and "n = last q"
  note sc = assms(3,4)
  have pw: "(10::real) ^ nat y = 10 ^ nat (y - x) * 10 ^ nat x" if "0 \<le> x" "x \<le> y" for x y :: int
    using that by (simp add: power_add [symmetric] nat_add_distrib [symmetric])
  consider "m = n" | "m < n" | "n < m" by linarith
  then show thesis
  proof cases
    case 1
    show thesis
      by (rule that [of "butlast p" "butlast q" m])
        (use sc 1 assms in \<open>auto simp: eqk_def pop_def rat_def scaled_def m_def n_def\<close>)
  next
    case 2
    show thesis
      by (rule that [of "add0 (butlast p) (nat (n - m))" "butlast q" n])
        (use sc 2 assms pw [of m n] in \<open>auto simp: eqk_def pop_def rat_def scaled_def m_def n_def add0_val Let_def\<close>)
  next
    case 3
    show thesis
      by (rule that [of "butlast p" "add0 (butlast q) (nat (m - n))" m])
        (use sc 3 assms pw [of n m] in \<open>auto simp: eqk_def pop_def rat_def scaled_def m_def n_def add0_val Let_def\<close>)
  qed
qed

lemma subt_two:
  assumes "stk s = p # q # ps" "\<not> stkerr s" "scaled p" "scaled q" "length ps < 98"
  obtains r where "subt s = (False, s\<lparr>stk := r # ps\<rparr>)" "r \<noteq> []" "canon (butlast r)" "0 \<le> last r"
    "rat r = rat q - rat p"
proof -
  define p' where "p' = chsign (butlast p) @ [last p]"
  have p': "scaled p'" "rat p' = - rat p"
    using assms(3) chsign_val [of "butlast p"] by (auto simp: p'_def scaled_def rat_def)
  have e: "pushp p' (s\<lparr>stk := q # ps\<rparr>) = s\<lparr>stk := p' # q # ps\<rparr>"
    using assms(2,5) by (cases s) (simp add: pushp_def)
  obtain a b k where k: "eqk (s\<lparr>stk := p' # q # ps\<rparr>) = (Some (a, b, k), s\<lparr>stk := ps\<rparr>)"
    "number a" "number b" "0 \<le> k" "val a = rat p' * 10 ^ nat k" "val b = rat q * 10 ^ nat k"
    by (rule eqk_two [of "s\<lparr>stk := p' # q # ps\<rparr>" p' q ps]) (use assms p' in auto)
  have "subt s = (False, s\<lparr>stk := (add a b @ [k]) # ps\<rparr>)"
    using assms(1,2,5) e k(1) by (cases s) (simp add: subt_def pop_def p'_def binop_def pushp_def)
  then show thesis
    by (rule that) (use k p' add_val [of a b] in \<open>simp_all add: rat_snoc diff_divide_distrib\<close>)
qed

fun holds :: "rel \<Rightarrow> real \<Rightarrow> real \<Rightarrow> bool" where
  "holds Lt x y = (x < y)"
| "holds Gt x y = (x > y)"
| "holds Eq x y = (x = y)"
| "holds NL x y = (\<not> x < y)"
| "holds NG x y = (\<not> x > y)"
| "holds NE x y = (x \<noteq> y)"

text \<open>
  C22: The conditional commands decide the comparison they name: with two well-formed numbers
  on the stack, of any signs and scales, the pair is removed, and the register is run exactly
  when the top number stands in the relation to the one below it (as rationals); otherwise
  the register's name is skipped.
\<close>

theorem cond_decides:
  assumes "stk s = p # q # ps" "\<not> stkerr s" "scaled p" "scaled q" "length ps < 98"
  shows "cond c s = (if holds c (rat p) (rat q) then Load else Skip, s\<lparr>stk := ps\<rparr>)"
proof -
  obtain r where r: "subt s = (False, s\<lparr>stk := r # ps\<rparr>)" "r \<noteq> []" "canon (butlast r)" "0 \<le> last r"
    "rat r = rat q - rat p"
    using subt_two [OF assms] .
  have sg: "val (butlast r) < 0 \<longleftrightarrow> rat q < rat p" "val (butlast r) > 0 \<longleftrightarrow> rat p < rat q"
      "val (butlast r) = 0 \<longleftrightarrow> rat p = rat q"
  proof -
    have "rat r < 0 \<longleftrightarrow> val (butlast r) < 0" "rat r > 0 \<longleftrightarrow> val (butlast r) > 0"
      "rat r = 0 \<longleftrightarrow> val (butlast r) = 0"
      by (simp_all add: rat_def divide_less_0_iff zero_less_divide_iff)
    with r(5) show "val (butlast r) < 0 \<longleftrightarrow> rat q < rat p" "val (butlast r) > 0 \<longleftrightarrow> rat p < rat q"
      "val (butlast r) = 0 \<longleftrightarrow> rat p = rat q" by auto
  qed
  show ?thesis
    using canon_zero [OF r(3)] canon_sign [OF r(3)] sg r(1)
    by (cases c; cases "butlast r = []") (auto simp: cond_def pop_def)
qed

lemma cond_decides_witness:
  "fst (cond Lt \<lparr>stk = [[5, 1, 2], [51, 0]], stkerr = False\<rparr>) = Load \<and>
   holds Lt (rat [5, 1, 2]) (rat [51, 0])"
proof -
  have h: "holds Lt (rat [5, 1, 2]) (rat [51, 0])" by (simp add: rat_def)
  with cond_decides [of "\<lparr>stk = [[5, 1, 2], [51, 0]], stkerr = False\<rparr>" "[5, 1, 2]" "[51, 0]" "[]" Lt]
  show ?thesis by (simp add: scaled_def number_def)
qed

text \<open>
  The command \<open>+\<close> is exact: it replaces the two top numbers, of any scales, by one block
  for their sum, whose scale is the larger one.
\<close>

theorem plus_cmd_exact:
  assumes "stk s = p # q # ps" "\<not> stkerr s" "scaled p" "scaled q" "length ps < 98"
  shows "\<exists>r. plus_cmd s = s\<lparr>stk := r # ps\<rparr> \<and> scaled r \<and> rat r = rat p + rat q \<and>
    last r = max (last p) (last q)"
proof -
  obtain a b k where k: "eqk s = (Some (a, b, k), s\<lparr>stk := ps\<rparr>)" "number a" "number b" "0 \<le> k"
    "val a = rat p * 10 ^ nat k" "val b = rat q * 10 ^ nat k"
    using eqk_two [OF assms(1-4)] .
  have "k = max (last p) (last q)"
    using k(1) assms(1,2) by (auto simp: eqk_def pop_def Let_def split: if_splits)
  moreover have "plus_cmd s = s\<lparr>stk := (add a b @ [k]) # ps\<rparr>"
    using k(1) assms(2,5) by (cases s) (simp add: plus_cmd_def binop_def pushp_def)
  moreover have "rat (add a b @ [k]) = rat p + rat q"
    using k by (simp add: rat_snoc add_val add_divide_distrib)
  moreover have "scaled (add a b @ [k])"
    using k add_val [of a b] by (simp add: scaled_def canon_def)
  ultimately show ?thesis by auto
qed

lemma plus_cmd_exact_witness:
  "\<exists>r. plus_cmd \<lparr>stk = [[5, 1], [51, - 1, 0]], stkerr = False\<rparr> = \<lparr>stk = [r], stkerr = False\<rparr> \<and>
    rat r = rat [5, 1] + rat [51, - 1, 0]"
  using plus_cmd_exact [of "\<lparr>stk = [[5, 1], [51, - 1, 0]], stkerr = False\<rparr>" "[5, 1]" "[51, - 1, 0]" "[]"]
    number_snoc [of "[51]" "- 1"] number_snoc [of "[]" "5"]
  by (auto simp: scaled_def)

text \<open>
  A subtraction on a stack of one number reports "stack empty" but leaves that number with
  its sign changed, and a further one restores it.
\<close>

theorem subt_short:
  assumes "stk s = [p]" "scaled p"
  shows "\<exists>r. subt (s\<lparr>stkerr := False\<rparr>) = (True, s\<lparr>stk := [r], stkerr := False\<rparr>) \<and> rat r = - rat p"
proof -
  define r where "r = chsign (butlast p) @ [last p]"
  have "rat r = - rat p"
    using assms(2) chsign_val [of "butlast p"] by (simp add: r_def rat_def scaled_def)
  moreover have "subt (s\<lparr>stkerr := False\<rparr>) = (True, s\<lparr>stk := [r], stkerr := False\<rparr>)"
    using assms(1) by (cases s) (simp add: subt_def eqk_def pop_def pushp_def r_def)
  ultimately show ?thesis by auto
qed

lemma subt_short_witness:
  "\<exists>r. subt \<lparr>stk = [[7, 0]], stkerr = False\<rparr> = (True, \<lparr>stk = [r], stkerr = False\<rparr>) \<and> rat r = - 7"
  using subt_short [of "\<lparr>stk = [[7, 0]], stkerr = False\<rparr>" "[7, 0]"]
  by (simp add: scaled_def rat_def number_def)

text \<open>
  The guard of \<open>pushp\<close> compares \<open>stkptr\<close> with the end of the array before it increments it:
  a push on 99 numbers is accepted and writes \<open>stack[100]\<close>, one past an array of \<open>STKSZ\<close>
  slots, and the guard never lets \<open>stkptr\<close> go further than that.
\<close>

theorem pushp_bound:
  "length (stk (foldr pushp bs \<lparr>stk = [], stkerr = False\<rparr>)) = min (length bs) STKSZ"
  by (induction bs) (auto simp: pushp_def)

end
