(* ===== verification/DcDiv.thy ===== *)
theory DcDiv
  imports DcArith
begin

text \<open>
  Division in the desk calculator, \<open>div\<close> of \<open>cmd/dc/dc.c\<close>: long division in base 100 with an
  estimate of every quotient digit from the leading digits of both numbers. Digits of the running
  remainder and of the quotient can exceed 99 for a while; \<open>schar\<close> is what a \<open>char\<close> keeps of them.
  The theorem shows that the quotient and the remainder are those of truncating division.
\<close>

section \<open>The code\<close>

definition schar :: "int \<Rightarrow> int" where
  "schar d = (d + 128) mod 256 - 128"

text \<open>The \<open>i\<close>-th \<open>sbackc\<close> from the end, 0 where the code tests \<open>sfbeg\<close> first.\<close>

definition sback :: "blk \<Rightarrow> nat \<Rightarrow> int" where
  "sback p i = (if i < length p then p ! (length p - 1 - i) else 0)"

text \<open>The leading digits of the divisor and whether there are three of them (\<open>c\<close>, \<open>magic\<close>).\<close>

definition lead :: "blk \<Rightarrow> int \<times> bool" where
  "lead divr =
     (let c = sback divr 0; magic = c < 10; c = c * 100 + sback divr 1
      in (if magic then cdiv ((c * 100 + sback divr 2) * 2) 25 else c, magic))"

text \<open>The estimate of a digit, and \<open>under\<close>.\<close>

definition estimate :: "int \<Rightarrow> bool \<Rightarrow> nat \<Rightarrow> blk \<Rightarrow> int \<times> bool" where
  "estimate c magic offset divd =
     (let td = (sback divd 0 * 100 + sback divd 1) * 100 + sback divd 2;
          (td, cc) = (if offset = 0 then (td + 1, c) else (td, c + 1));
          td = (if magic then td * 8 else td);
          dig = cdiv td cc
      in if cmod td cc < 8 \<and> dig > 0 \<and> magic then (dig - 1, True) else (dig, False))"

text \<open>
  The multiple of the divisor in \<open>divxyz\<close>. Digits that an earlier division has left behind these
  are not read: the subtraction takes as many as there are here.
\<close>

fun mul_row :: "int \<Rightarrow> blk \<Rightarrow> int \<Rightarrow> blk" where
  "mul_row dig [] carry = [schar carry]"
| "mul_row dig (x # divr) carry =
     (let d = x * dig + carry in schar (cmod d 100) # mul_row dig divr (cdiv d 100))"

fun sub_loop :: "blk \<Rightarrow> blk \<Rightarrow> int \<Rightarrow> blk \<times> int" where
  "sub_loop [] xyz carry = ([], carry)"
| "sub_loop (x # divd) xyz carry =
     (let d = x - (case xyz of [] \<Rightarrow> 0 | y # _ \<Rightarrow> y) - carry;
          (d, carry) = (if d < 0 then (d + 100, 1) else (d, 0));
          (r, carry) = sub_loop divd (tl xyz) carry
      in (schar d # r, carry))"

text \<open>The digit that is left on top goes into the one below it.\<close>

definition fold_top :: "blk \<Rightarrow> blk" where
  "fold_top divd =
     (let r = butlast divd in
      if last divd \<noteq> 0 then butlast r @ [schar (last r + 100)] else r)"

text \<open>One pass for every digit of the quotient, the highest first; \<open>p\<close> is filled from its end.\<close>

fun div_loop :: "blk \<Rightarrow> int \<Rightarrow> bool \<Rightarrow> nat \<Rightarrow> blk \<Rightarrow> blk \<Rightarrow> blk \<times> blk \<times> int \<times> bool \<times> int" where
  "div_loop divr c magic offset divd p =
     (let (dig, under) = estimate c magic offset divd;
          (w, carry) = sub_loop (drop offset divd) (mul_row dig divr 0) 0;
          divd = take offset divd @ w;
          p = schar dig # p
      in case offset of
           0 \<Rightarrow> (divd, p, dig, under, carry)
         | Suc offset' \<Rightarrow> div_loop divr c magic offset' (fold_top divd) p)"

text \<open>\<open>salterc\<close> at the position \<open>pos\<close> of a block, at most its end.\<close>

definition put :: "nat \<Rightarrow> int \<Rightarrow> blk \<Rightarrow> blk" where
  "put pos c p = (if pos < length p then p[pos := schar c] else p @ [schar c])"

text \<open>
  The corrections after the last digit: a second subtraction when it was taken one too low, an
  addition when it was one too high. The positions are those of the pointers \<open>rd\<close>.
\<close>

definition adjust :: "blk \<Rightarrow> blk \<times> blk \<times> int \<times> bool \<times> int \<Rightarrow> blk \<times> blk" where
  "adjust divr = (\<lambda>(divd, p, dig, under, divcarry).
     let (divd, p, rdd, rdp) =
           (if under then
              let ps = add (chsign divr) divd in
              if ps \<noteq> [] \<and> last ps < 0 then (divd, p, length divd, 0)
              else (ps, put 0 (dig + 1) p, length ps - 1, 1)
            else (divd, p, length divd - 1, 0 :: nat))
     in if divcarry \<noteq> 0 then (add divr (put rdd (- 1) divd), put rdp (dig - 1) p) else (divd, p))"

fun carry_loop :: "blk \<Rightarrow> int \<Rightarrow> blk" where
  "carry_loop [] divcarry = (if divcarry \<noteq> 0 then [divcarry] else [])"
| "carry_loop (x # p) divcarry =
     (let d = x + divcarry in
      if d \<ge> 100 then schar (d - 100) # carry_loop p 1 else schar d # carry_loop p 0)"

text \<open>
  \<^term>\<open>None\<close> is a division by an empty block, which pushes the divisor, prints a message and leaves
  \<open>rem\<close> null. The result is the quotient and \<open>rem\<close>.
\<close>

definition div_blk :: "blk \<Rightarrow> blk \<Rightarrow> (blk \<times> blk) option" where
  "div_blk ddivd ddivr =
     (if ddivr = [] then None
      else let sr = (last ddivr = - 1); sd = (ddivd \<noteq> [] \<and> last ddivd = - 1);
               divr = (if sr then chsign ddivr else ddivr);
               divd = (if sd then chsign ddivd else ddivd);
               (p, divd) =
                 (if length divd < length divr then ([], divd)
                  else let (c, magic) = lead divr;
                           (divd, p) = adjust divr (div_loop divr c magic (length divd - length divr) (divd @ [0]) []);
                           p = strip0 (carry_loop p 0)
                       in (if sr \<noteq> sd then chsign p else p, strip0 divd))
           in Some (p, if sd then chsign divd else divd))"

section \<open>The digits\<close>

lemma schar_id: "- 128 \<le> d \<Longrightarrow> d < 128 \<Longrightarrow> schar d = d"
  by (simp add: schar_def)

lemma sback_snoc [simp]: "sback (p @ [d]) 0 = d" "sback (p @ [d]) (Suc i) = sback p i"
  by (auto simp: sback_def nth_append)

lemma sback_more [simp]:
  "sback (xs @ [s, t]) 0 = t" "sback (xs @ [s, t]) (Suc i) = sback (xs @ [s]) i"
  "sback (xs @ [u, s, t]) 0 = t" "sback (xs @ [u, s, t]) (Suc i) = sback (xs @ [u, s]) i"
  using sback_snoc [of "xs @ [s]" t] sback_snoc [of "xs @ [u, s]" t] by simp_all

lemma sback_Nil [simp]: "sback [] i = 0"
  by (simp add: sback_def)

text \<open>The leading two and three digits of a block as a quotient of its value.\<close>

lemma lead_div:
  fixes B :: int
  assumes "0 \<le> r" "r < B" "0 < k"
  shows "k * (r + B * v) div (k * B) = v"
proof -
  have "k * (r + B * v) div (k * B) = (r + B * v) div B"
    using assms(3) by (intro div_mult_mult1) simp
  then show ?thesis using assms by simp
qed

lemma sback_two:
  assumes "digits lo"
  shows "sback (lo @ [t]) 0 * 100 + sback (lo @ [t]) 1 = 100 * val (lo @ [t]) div 100 ^ length lo"
proof (cases lo rule: rev_cases)
  case (snoc xs s)
  have "0 \<le> val xs" "val xs < 100 ^ length xs" using assms snoc digits_val [of xs] by auto
  then have "100 * (val xs + 100 ^ length xs * (s + 100 * t)) div (100 * 100 ^ length xs) = s + 100 * t"
    by (rule lead_div) simp
  with snoc show ?thesis by (simp add: val_append algebra_simps numeral_2_eq_2)
qed (simp add: sback_def)

lemma sback_three:
  assumes "digits lo"
  shows "(sback (lo @ [t]) 0 * 100 + sback (lo @ [t]) 1) * 100 + sback (lo @ [t]) 2 =
    10000 * val (lo @ [t]) div 100 ^ length lo"
proof (cases lo rule: rev_cases)
  case (snoc ys s)
  show ?thesis
  proof (cases ys rule: rev_cases)
    case Nil
    then show ?thesis using snoc by (simp add: sback_def)
  next
    case (snoc xs u)
    define v where "v = u + 100 * s + 10000 * t"
    have "0 \<le> val xs" "val xs < 100 ^ length xs"
      using assms \<open>lo = ys @ [s]\<close> snoc digits_val [of xs] by auto
    then have "10000 * (val xs + 100 ^ length xs * v) div (10000 * 100 ^ length xs) = v"
      by (rule lead_div) simp
    with snoc \<open>lo = ys @ [s]\<close> show ?thesis
      by (simp add: val_append algebra_simps numeral_2_eq_2 v_def)
  qed
qed (simp add: sback_def)

lemma mul_row_spec:
  "digits p \<Longrightarrow> 0 \<le> dig \<Longrightarrow> dig \<le> 125 \<Longrightarrow> 0 \<le> carry \<Longrightarrow> carry \<le> 124 \<Longrightarrow>
     \<exists>lo x. mul_row dig p carry = lo @ [x] \<and> length lo = length p \<and> digits lo \<and> 0 \<le> x \<and> x \<le> 124 \<and>
       val (lo @ [x]) = dig * val p + carry"
proof (induction p arbitrary: carry)
  case Nil
  then show ?case by (simp add: schar_id)
next
  case (Cons a p)
  define d where "d = a * dig + carry"
  have "0 \<le> a * dig" "a * dig \<le> 99 * 125"
    using Cons.prems mult_mono [of a 99 dig 125] by auto
  then have d: "0 \<le> d" "d \<le> 12499" using Cons.prems by (auto simp: d_def)
  then have q: "0 \<le> d div 100" "d div 100 \<le> 124" by auto
  obtain lo x where IH: "mul_row dig p (d div 100) = lo @ [x]" "length lo = length p" "digits lo"
    "0 \<le> x" "x \<le> 124" "val (lo @ [x]) = dig * val p + d div 100"
    using Cons.IH [OF _ _ _ q] Cons.prems by auto
  have m: "schar (cmod d 100) = d mod 100" using d(1) by (simp add: schar_id)
  have "mul_row dig (a # p) carry = (d mod 100 # lo) @ [x]"
    using IH(1) m d(1) by (simp add: d_def [symmetric])
  moreover have "val ((d mod 100 # lo) @ [x]) = dig * val (a # p) + carry"
    using IH(6) by (simp add: d_def algebra_simps)
  ultimately show ?case using IH by (intro exI [of _ "d mod 100 # lo"] exI [of _ x]) simp
qed

text \<open>The subtraction, except at the top digit, which may be anything.\<close>

lemma sub_loop_spec:
  "digits lo \<Longrightarrow> digits ylo \<Longrightarrow> length ylo = length lo \<Longrightarrow> carry \<in> {0, 1} \<Longrightarrow>
     \<exists>r d. sub_loop (lo @ [t]) (ylo @ [y]) carry =
         (r @ [schar (if d < 0 then d + 100 else d)], if d < 0 then 1 else 0) \<and>
       digits r \<and> length r = length lo \<and>
       val r + 100 ^ length lo * d = val (lo @ [t]) - val (ylo @ [y]) - carry"
proof (induction lo arbitrary: ylo carry)
  case Nil
  then show ?case by (auto simp: Let_def)
next
  case (Cons a lo)
  then obtain b ys where ys: "ylo = b # ys" "length ys = length lo" by (cases ylo) auto
  define c where "c = (if a - b - carry < 0 then 1 else 0 :: int)"
  have c01: "c \<in> {0, 1}" by (simp add: c_def)
  have e: "0 \<le> a - b - carry + 100 * c" "a - b - carry + 100 * c \<le> 99"
    using Cons.prems ys by (auto simp: c_def)
  obtain r d where IH: "sub_loop (lo @ [t]) (ys @ [y]) c =
      (r @ [schar (if d < 0 then d + 100 else d)], if d < 0 then 1 else 0)"
    "digits r" "length r = length lo"
    "val r + 100 ^ length lo * d = val (lo @ [t]) - val (ys @ [y]) - c"
    using Cons.IH [of ys c] Cons.prems(1,2) ys c01 by auto
  have "sub_loop ((a # lo) @ [t]) (ylo @ [y]) carry =
      ((((a - b - carry + 100 * c) # r)) @ [schar (if d < 0 then d + 100 else d)], if d < 0 then 1 else 0)"
    using IH(1) e by (auto simp: ys Let_def c_def schar_id split: if_splits)
  moreover have "val ((a - b - carry + 100 * c) # r) + 100 ^ length (a # lo) * d =
      val ((a # lo) @ [t]) - val (ylo @ [y]) - carry"
    using IH(4) ys by (simp add: algebra_simps)
  ultimately show ?case using IH e
    by (intro exI [of _ "(a - b - carry + 100 * c) # r"] exI [of _ d]) simp
qed

section \<open>The estimate\<close>

text \<open>
  With \<open>B\<close> the weight of the top digit of the divisor \<open>D\<close> and \<open>T\<close> that of the quotient digit, the
  loop starts a pass with a remainder \<open>X\<close> below \<open>120 D T\<close>. Before the last digit the estimate is
  never too high, and what it leaves is below \<open>1.2 D T\<close>; the last one is at most one off.
\<close>

definition lead_ok :: "int \<Rightarrow> int \<Rightarrow> int \<Rightarrow> bool \<Rightarrow> bool" where
  "lead_ok D B c magic \<longleftrightarrow> 0 < B \<and> B \<le> D \<and>
     (if magic then c = (10000 * D div B * 2) div 25 else 10 * B \<le> D \<and> c = 100 * D div B)"

lemma div_bounds:
  fixes a b :: int
  assumes "0 < b"
  shows "b * (a div b) \<le> a" "a < b * (a div b) + b"
  using assms pos_mod_bound [of b a] pos_mod_sign [of b a] mult_div_mod_eq [of b a] by linarith+

text \<open>The divisor against its leading digits.\<close>

lemma lead_bounds:
  assumes "lead_ok D B c magic"
  shows "magic \<Longrightarrow> c * B \<le> 800 * D \<and> 20000 * D < (25 * c + 26) * B \<and> 800 \<le> c"
    "\<not> magic \<Longrightarrow> c * B \<le> 100 * D \<and> 100 * D < (c + 1) * B \<and> 1000 \<le> c"
proof -
  have B: "0 < B" using assms by (simp add: lead_ok_def)
  {
    assume m: magic
    define q where "q = 10000 * D div B"
    have q: "B * q \<le> 10000 * D" "10000 * D < B * q + B"
      using div_bounds [OF B, of "10000 * D"] by (simp_all add: q_def)
    have c: "25 * c \<le> 2 * q" "2 * q < 25 * c + 25"
      using div_bounds [of 25 "q * 2"] m assms by (auto simp: lead_ok_def q_def)
    have "10000 * B \<le> 10000 * D" using assms by (simp add: lead_ok_def)
    then have "10000 \<le> q" using B zdiv_mono1 [of "10000 * B" "10000 * D" B] by (simp add: q_def)
    moreover have "B * (25 * c) \<le> B * (2 * q)" "B * (2 * q) \<le> B * (25 * c + 24)"
      using B c by (simp_all add: mult_le_cancel_left)
    moreover have "B * (25 * c) = 25 * (c * B)" "B * (25 * c + 24) = 25 * (c * B) + 24 * B"
      "B * (2 * q) = 2 * (B * q)" "(25 * c + 26) * B = 25 * (c * B) + 26 * B"
      by (simp_all add: algebra_simps)
    ultimately show "c * B \<le> 800 * D \<and> 20000 * D < (25 * c + 26) * B \<and> 800 \<le> c"
      using q c by linarith
  }
  {
    assume m: "\<not> magic"
    then have "c = 100 * D div B" "1000 * B \<le> 100 * D" using assms by (auto simp: lead_ok_def)
    then show "c * B \<le> 100 * D \<and> 100 * D < (c + 1) * B \<and> 1000 \<le> c"
      using div_bounds [OF B, of "100 * D"] B zdiv_mono1 [of "1000 * B" "100 * D" B]
      by (auto simp: algebra_simps)
  }
qed

lemma le_from_mult:
  fixes d k D :: int
  assumes "d * D < k * D" "0 < D"
  shows "d < k"
  using assms by (simp add: mult_less_cancel_right)

lemma estimate_mid:
  fixes X D B :: int
  assumes lead: "magic \<Longrightarrow> c * B \<le> 800 * D \<and> 20000 * D < (25 * c + 26) * B \<and> 800 \<le> c"
      "\<not> magic \<Longrightarrow> c * B \<le> 100 * D \<and> 100 * D < (c + 1) * B \<and> 1000 \<le> c \<and> 10 * B \<le> D"
    and BD: "0 < B" "B \<le> D" and X: "0 \<le> X" "X < 120 * D"
    and td: "B * td \<le> 100 * X" "100 * X < B * td + B" "0 \<le> td"
    and tm: "tm = (if magic then td * 8 else td)" and dig0: "dig0 = tm div (c + 1)"
    and res: "(dig, u) = (if tm mod (c + 1) < 8 \<and> dig0 > 0 \<and> magic then (dig0 - 1, True) else (dig0, False))"
  shows "0 \<le> dig \<and> dig < 120 \<and> dig * D \<le> X \<and> 5 * X < 5 * (dig * D) + 6 * D"
proof -
  define m where "m = tm mod (c + 1)"
  have c: "0 < c + 1" using lead by (cases magic) auto
  have tm': "dig0 * (c + 1) + m = tm" "0 \<le> m" "m \<le> c"
    using c pos_mod_bound [of "c + 1" tm] div_mult_mod_eq [of tm "c + 1"] by (simp_all add: m_def dig0)
  have d0: "0 \<le> dig0" using tm td(3) c by (auto simp: dig0 pos_imp_zdiv_nonneg_iff)
  have dB: "dig0 * B \<le> dig0 * D" using BD d0 by (simp add: mult_left_mono)
  have Btm: "B * tm = dig0 * ((c + 1) * B) + m * B"
    by (simp add: tm'(1) [symmetric] algebra_simps)
  have up: "dig * D \<le> X \<Longrightarrow> dig < 120"
    using X(2) BD le_from_mult [of dig D 120] by linarith
  show ?thesis
  proof (cases magic)
    case True
    have b: "B * tm = 8 * (B * td)" using True tm by simp
    have "20000 * D \<le> 25 * ((c + 1) * B) + B" "(c + 1) * B \<le> 800 * D + B"
      using lead(1) [OF True] by (simp_all add: algebra_simps)
    from mult_left_mono [OF this(1) d0] mult_left_mono [OF this(2) d0]
    have k: "20000 * (dig0 * D) \<le> 25 * (dig0 * ((c + 1) * B)) + dig0 * B"
      "dig0 * ((c + 1) * B) \<le> 800 * (dig0 * D) + dig0 * B" "(c + 1) * B \<le> 800 * D + B"
      using \<open>(c + 1) * B \<le> 800 * D + B\<close> by (simp_all add: algebra_simps)
    have mB: "0 \<le> m * B" "m * B + B \<le> (c + 1) * B"
      using tm' BD mult_right_mono [of m c B] by (auto simp: algebra_simps)
    have "19999 * (dig0 * D) < 19999 * (121 * D)"
      using k(1) dB Btm b td(1) X(2) mB(1) BD by linarith
    then have "dig0 < 121" using le_from_mult [of dig0 D 121] BD by linarith
    then have dB': "dig0 * B \<le> 120 * B" using BD by (simp add: mult_right_mono)
    show ?thesis
    proof (cases "m < 8 \<and> dig0 > 0")
      case under: True
      then have dig: "dig = dig0 - 1" using True res by (simp add: m_def)
      have dd: "dig * D = dig0 * D - D" by (simp add: dig algebra_simps)
      have "m * B \<le> 7 * B" using under BD by (intro mult_right_mono) auto
      then have "dig * D \<le> X" "5 * X < 5 * (dig * D) + 6 * D"
        using dd dB' k b td Btm mB BD by linarith+
      then show ?thesis using up under dig by simp
    next
      case over: False
      then have dig: "dig = dig0" using True res by (auto simp: m_def split: if_splits)
      have "dig0 = 0 \<or> 8 * B \<le> m * B"
        using over d0 BD by (auto intro: mult_right_mono)
      then have "dig0 * D \<le> X"
      proof
        assume "8 * B \<le> m * B"
        then show ?thesis using dB' k b td Btm BD by linarith
      qed (use X(1) in simp)
      moreover have "5 * X < 5 * (dig0 * D) + 6 * D" using dB' k b td Btm mB BD by linarith
      ultimately show ?thesis using up d0 dig by simp
    qed
  next
    case False
    then have dig: "dig = dig0" and t: "tm = td" using res tm by (auto split: if_splits)
    note l = lead(2) [OF False]
    from l have "100 * D \<le> (c + 1) * B" "(c + 1) * B \<le> 100 * D + B"
      by (simp_all add: algebra_simps)
    from mult_left_mono [OF this(1) d0] mult_left_mono [OF this(2) d0] this(2)
    have k: "100 * (dig0 * D) \<le> dig0 * ((c + 1) * B)"
      "dig0 * ((c + 1) * B) \<le> 100 * (dig0 * D) + dig0 * B" "(c + 1) * B \<le> 100 * D + B"
      by (simp_all add: algebra_simps)
    have mB: "0 \<le> m * B" "m * B + B \<le> (c + 1) * B"
      using tm' BD mult_right_mono [of m c B] by (auto simp: algebra_simps)
    have le: "dig0 * D \<le> X" using k(1) mB(1) Btm [unfolded t] td(1) by linarith
    have "dig0 * D \<le> 119 * D" using up dig le BD by (simp add: mult_right_mono)
    moreover have "10 * (dig0 * B) \<le> dig0 * D"
      using l d0 mult_left_mono [of "10 * B" D dig0] by (simp add: algebra_simps)
    moreover have "10 * B \<le> D" using l by simp
    ultimately have "5 * X < 5 * (dig0 * D) + 6 * D" using k Btm [unfolded t] td(2) mB(2) by linarith
    then show ?thesis using up le dig d0 by simp
  qed
qed

lemma estimate_last:
  fixes X D B :: int
  assumes lead: "magic \<Longrightarrow> c * B \<le> 800 * D \<and> 20000 * D < (25 * c + 26) * B \<and> 800 \<le> c"
      "\<not> magic \<Longrightarrow> c * B \<le> 100 * D \<and> 100 * D < (c + 1) * B \<and> 1000 \<le> c \<and> 10 * B \<le> D"
    and BD: "0 < B" "B \<le> D" and X: "0 \<le> X" "X < 120 * D"
    and td: "B * td \<le> 100 * X" "100 * X < B * td + B" "0 \<le> td"
    and tm: "tm = (if magic then (td + 1) * 8 else td + 1)" and dig0: "dig0 = tm div c"
    and res: "(dig, u) = (if tm mod c < 8 \<and> dig0 > 0 \<and> magic then (dig0 - 1, True) else (dig0, False))"
  shows "0 \<le> dig \<and> dig < 122 \<and> (if u then dig * D \<le> X \<and> X < dig * D + 2 * D
    else dig * D \<le> X + D \<and> X < dig * D + D)"
proof -
  define m where "m = tm mod c"
  have c: "0 < c" using lead by (cases magic) auto
  have tm': "dig0 * c + m = tm" "0 \<le> m" "m < c"
    using c pos_mod_bound [of c tm] by (simp_all add: m_def dig0)
  have d0: "0 \<le> dig0" using tm td(3) c by (auto simp: dig0 pos_imp_zdiv_nonneg_iff)
  have dB: "dig0 * B \<le> dig0 * D" using BD d0 by (simp add: mult_left_mono)
  have Btm: "B * tm = dig0 * (c * B) + m * B"
    by (simp add: tm'(1) [symmetric] algebra_simps)
  have mB: "0 \<le> m * B" "m * B < c * B" using tm' BD by simp_all
  show ?thesis
  proof (cases magic)
    case True
    have b: "B * tm = 8 * (B * td) + 8 * B" using True tm by (simp add: algebra_simps)
    have "20000 * D \<le> 25 * (c * B) + 26 * B" "c * B \<le> 800 * D"
      using lead(1) [OF True] by (simp_all add: algebra_simps)
    from mult_left_mono [OF this(1) d0] mult_left_mono [OF this(2) d0] this(2)
    have k: "20000 * (dig0 * D) \<le> 25 * (dig0 * (c * B)) + 26 * (dig0 * B)"
      "dig0 * (c * B) \<le> 800 * (dig0 * D)" "c * B \<le> 800 * D"
      by (simp_all add: algebra_simps)
    have "19974 * (dig0 * D) < 19974 * (121 * D)"
      using k(1) dB Btm b td(1) X(2) mB(1) BD by linarith
    then have d: "dig0 < 121" using le_from_mult [of dig0 D 121] BD by linarith
    then have dB': "dig0 * B \<le> 120 * B" using BD by (simp add: mult_right_mono)
    have le: "dig0 * D \<le> X + D" and less: "X < dig0 * D + D"
      using k dB' b td(1,2) Btm mB BD by linarith+
    show ?thesis
    proof (cases "m < 8 \<and> dig0 > 0")
      case under: True
      then have dig: "dig = dig0 - 1" "u" using True res by (simp_all add: m_def)
      have "dig * D = dig0 * D - D" by (simp add: dig algebra_simps)
      then show ?thesis using le less d under dig by simp
    next
      case False
      then have "dig = dig0" "\<not> u" using True res by (auto simp: m_def split: if_splits)
      then show ?thesis using le less d d0 by simp
    qed
  next
    case False
    then have dig: "dig = dig0" "\<not> u" and t: "tm = td + 1" using res tm by (auto split: if_splits)
    note l = lead(2) [OF False]
    from l have "100 * D \<le> c * B + B" "c * B \<le> 100 * D"
      by (simp_all add: algebra_simps)
    from mult_left_mono [OF this(1) d0] mult_left_mono [OF this(2) d0] this(2)
    have k: "100 * (dig0 * D) \<le> dig0 * (c * B) + dig0 * B"
      "dig0 * (c * B) \<le> 100 * (dig0 * D)" "c * B \<le> 100 * D"
      by (simp_all add: algebra_simps)
    have d10: "10 * (dig0 * B) \<le> dig0 * D"
      using l d0 mult_left_mono [of "10 * B" D dig0] by (simp add: algebra_simps)
    have b: "B * tm = B * td + B" by (simp add: t algebra_simps)
    have "999 * (dig0 * D) < 999 * (122 * D)"
      using k(1) d10 Btm b td(1) X(2) mB(1) BD by linarith
    then have d: "dig0 < 122" using le_from_mult [of dig0 D 122] BD by linarith
    then have "dig0 * D \<le> 121 * D" "10 * B \<le> D" using BD l by (simp_all add: mult_right_mono)
    then have "dig0 * D \<le> X + D" "X < dig0 * D + D"
      using k d10 Btm b td(1,2) mB by linarith+
    then show ?thesis using d d0 dig by simp
  qed
qed

section \<open>The loop\<close>

text \<open>The divisor: positive digits without a leading zero. The weight of its top digit.\<close>

definition divisor :: "blk \<Rightarrow> bool" where
  "divisor q \<longleftrightarrow> digits q \<and> q \<noteq> [] \<and> last q \<noteq> 0"

abbreviation weight :: "blk \<Rightarrow> int" where
  "weight q \<equiv> 100 ^ (length q - 1)"

lemma divisor_val: "divisor q \<Longrightarrow> weight q \<le> val q \<and> val q < 100 * weight q"
proof (induction q rule: rev_induct)
  case (snoc d q)
  then have q: "digits q" "1 \<le> d" "d \<le> 99" by (auto simp: divisor_def)
  have "(100::int) ^ length q * 1 \<le> 100 ^ length q * d"
    by (rule mult_left_mono) (use q in simp_all)
  moreover have "(100::int) ^ length q * d \<le> 100 ^ length q * 99"
    by (rule mult_left_mono) (use q in simp_all)
  moreover have "val (q @ [d]) = val q + 100 ^ length q * d" "weight (q @ [d]) = 100 ^ length q"
    by (simp_all add: val_append)
  ultimately show ?case using digits_val [OF q(1)] by linarith
qed (simp add: divisor_def)

lemma divisor_pos:
  assumes "divisor q" shows "0 < val q"
proof -
  have "(0::int) < weight q" by simp
  then show ?thesis using divisor_val [OF assms] by linarith
qed

lemma lead_divisor:
  assumes "divisor q" "lead q = (c, magic)"
  shows "lead_ok (val q) (weight q) c magic"
proof -
  obtain lo t where q: "q = lo @ [t]" using assms(1) by (cases q rule: rev_cases) (auto simp: divisor_def)
  then have d: "digits lo" "1 \<le> t" "t \<le> 99" "0 \<le> val lo"
    using assms(1) digits_val [of lo] by (auto simp: divisor_def)
  have m: "magic \<longleftrightarrow> t < 10" using assms(2) by (auto simp: lead_def q Let_def)
  have three: "0 \<le> 10000 * val q div 100 ^ length lo"
    using divisor_val [OF assms(1)] d(4) by (simp add: pos_imp_zdiv_nonneg_iff q val_append)
  have c: "c = (if magic then 10000 * val q div weight q * 2 div 25 else 100 * val q div weight q)"
    using assms(2) sback_two [OF d(1), of t] sback_three [OF d(1), of t] three m
    by (auto simp: lead_def q Let_def)
  have "100 ^ length lo * 10 \<le> 100 ^ length lo * t" if "\<not> magic"
    using that m by simp
  moreover have "val q = val lo + 100 ^ length lo * t" "weight q = 100 ^ length lo"
    by (simp_all add: q val_append)
  ultimately have "\<not> magic \<Longrightarrow> 10 * weight q \<le> val q" using d(4) by linarith
  with c show ?thesis using divisor_val [OF assms(1)] by (simp add: lead_ok_def)
qed

text \<open>The bounds of the divisor, at the place of a quotient digit.\<close>

lemma lead_scaled:
  assumes "divisor q" "lead q = (c, magic)" "0 < T"
  shows "magic \<Longrightarrow> c * (weight q * T) \<le> 800 * (val q * T) \<and>
      20000 * (val q * T) < (25 * c + 26) * (weight q * T) \<and> 800 \<le> c"
    "\<not> magic \<Longrightarrow> c * (weight q * T) \<le> 100 * (val q * T) \<and>
      100 * (val q * T) < (c + 1) * (weight q * T) \<and> 1000 \<le> c \<and> 10 * (weight q * T) \<le> val q * T"
proof -
  note l = lead_divisor [OF assms(1,2)]
  have le: "a * T \<le> b * T \<longleftrightarrow> a \<le> b" and less: "a * T < b * T \<longleftrightarrow> a < b" for a b
    using assms(3) by simp_all
  note sc = le less mult.assoc [symmetric]
  show "magic \<Longrightarrow> c * (weight q * T) \<le> 800 * (val q * T) \<and>
      20000 * (val q * T) < (25 * c + 26) * (weight q * T) \<and> 800 \<le> c"
    unfolding sc by (rule lead_bounds(1) [OF l])
  assume "\<not> magic"
  with l lead_bounds(2) [OF l]
  show "c * (weight q * T) \<le> 100 * (val q * T) \<and> 100 * (val q * T) < (c + 1) * (weight q * T) \<and>
      1000 \<le> c \<and> 10 * (weight q * T) \<le> val q * T"
    unfolding sc by (simp add: lead_ok_def)
qed

text \<open>The running remainder: digits below a top digit that may be up to 119.\<close>

definition running :: "blk \<Rightarrow> nat \<Rightarrow> blk \<Rightarrow> bool" where
  "running q offset p \<longleftrightarrow> (\<exists>lo t. p = lo @ [t] \<and> digits lo \<and> 0 \<le> t \<and> t < 120 \<and>
     length lo = length q + offset \<and> val p < 120 * (val q * 100 ^ offset))"

lemma running_lead:
  assumes "running q offset p" "q \<noteq> []"
  defines "td \<equiv> (sback p 0 * 100 + sback p 1) * 100 + sback p 2" and "W \<equiv> weight q * 100 ^ offset"
  shows "W * td \<le> 100 * val p" "100 * val p < W * td + W" "0 \<le> td" "0 \<le> val p"
    "val p < 120 * (val q * 100 ^ offset)"
proof -
  obtain lo t where p: "p = lo @ [t]" "digits lo" "0 \<le> t" "length lo = length q + offset"
      "val p < 120 * (val q * 100 ^ offset)"
    using assms(1) by (auto simp: running_def)
  obtain k where k: "length q = Suc k" using assms(2) by (cases q) auto
  then have W: "100 ^ length lo = 100 * W" "0 < W"
    by (simp_all add: W_def p(4) power_add)
  have td: "td = 10000 * val p div (100 * W)"
    using sback_three [OF p(2), of t] by (simp add: td_def p(1) W)
  show v: "0 \<le> val p" using digits_val [OF p(2)] p(3) by (simp add: p(1) val_append)
  show "W * td \<le> 100 * val p" "100 * val p < W * td + W" "0 \<le> td" "val p < 120 * (val q * 100 ^ offset)"
    using div_bounds [of "100 * W" "10000 * val p"] W(2) v p(5)
    by (simp_all add: td pos_imp_zdiv_nonneg_iff)
qed

lemma estimate_eq:
  assumes "td = (sback p 0 * 100 + sback p 1) * 100 + sback p 2" "0 \<le> td"
    and "tm = (if magic then (if n = 0 then td + 1 else td) * 8 else if n = 0 then td + 1 else td)"
    and "cc = (if n = 0 then c else c + 1)" "0 < cc"
  shows "estimate c magic n p =
    (if tm mod cc < 8 \<and> tm div cc > 0 \<and> magic then (tm div cc - 1, True) else (tm div cc, False))"
proof -
  have "0 \<le> tm" using assms(2,3) by auto
  then have "cdiv tm cc = tm div cc" "cmod tm cc = tm mod cc" using assms(5) by simp_all
  moreover note td = assms(1) [symmetric]
  ultimately show ?thesis
    unfolding estimate_def td by (cases magic; cases "n = 0") (auto simp: assms(3,4) Let_def)
qed

lemma sub_pass:
  assumes "running q offset p" "digits q" "0 \<le> dig" "dig \<le> 125"
  obtains r d where "sub_loop (drop offset p) (mul_row dig q 0) 0 =
      (r @ [schar (if d < 0 then d + 100 else d)], if d < 0 then 1 else 0)"
    "digits r" "length r = length q" "digits (take offset p)" "length (take offset p) = offset"
    "val (take offset p) + 100 ^ offset * (val r + 100 ^ length q * d) = val p - dig * (val q * 100 ^ offset)"
proof -
  obtain lo t where p: "p = lo @ [t]" "digits lo" "length lo = length q + offset"
    using assms(1) by (auto simp: running_def)
  obtain ylo y where y: "mul_row dig q 0 = ylo @ [y]" "length ylo = length q" "digits ylo"
      "val (ylo @ [y]) = dig * val q"
    using mul_row_spec [OF assms(2-4), of 0] by auto
  have d: "digits (drop offset lo)" "digits (take offset lo)"
    using p(2) by (auto simp: digits_def dest: in_set_dropD in_set_takeD)
  have dp: "drop offset p = drop offset lo @ [t]" "take offset p = take offset lo" using p by simp_all
  obtain r d where r: "sub_loop (drop offset p) (mul_row dig q 0) 0 =
      (r @ [schar (if d < 0 then d + 100 else d)], if d < 0 then 1 else 0)"
    "digits r" "length r = length q"
    "val r + 100 ^ length q * d = val (drop offset p) - dig * val q"
    using sub_loop_spec [OF d(1) y(3), of 0 t y] y(1,2,4) p(3) by (auto simp: dp)
  have v: "val p = val (take offset p) + 100 ^ offset * val (drop offset p)"
    using val_append [of "take offset p" "drop offset p", unfolded append_take_drop_id] p(1,3) by simp
  show thesis
    by (rule that [OF r(1-3)], unfold r(4) v)
      (use d(2) p(1,3) in \<open>simp_all add: algebra_simps\<close>)
qed

lemma top_digit:
  fixes V T R N d Y k :: int
  assumes "V + T * (R + N * d) = Y" "0 \<le> V" "V < T" "0 \<le> R" "R < N"
  shows "k * (N * T) \<le> Y \<Longrightarrow> k \<le> d" "Y < k * (N * T) \<Longrightarrow> d < k"
proof -
  have NT: "0 < N * T" using assms by simp
  have Y: "Y = V + T * R + d * (N * T)" by (simp add: assms(1) [symmetric] algebra_simps)
  have "T * (R + 1) \<le> T * N" "0 \<le> T * R"
    using assms by (simp_all add: mult_left_mono)
  then have b: "d * (N * T) \<le> Y" "Y < (d + 1) * (N * T)"
    using assms(2,3) by (simp_all add: Y algebra_simps)
  show "k * (N * T) \<le> Y \<Longrightarrow> k \<le> d"
    using b(2) le_from_mult [of k "N * T" "d + 1"] NT by linarith
  show "Y < k * (N * T) \<Longrightarrow> d < k"
    using b(1) le_from_mult [of d "N * T" k] NT by linarith
qed

lemma pass_mid:
  assumes q: "divisor q" "lead q = (c, magic)" and run: "running q (Suc n) p"
    and est: "estimate c magic (Suc n) p = (dig, u)"
    and sub: "sub_loop (drop (Suc n) p) (mul_row dig q 0) 0 = (w, carry)"
  shows "running q n (fold_top (take (Suc n) p @ w)) \<and> 0 \<le> dig \<and> dig < 120 \<and>
    val (fold_top (take (Suc n) p @ w)) = val p - dig * (val q * 100 ^ Suc n)"
proof -
  define T :: int where "T = 100 ^ Suc n"
  define D where "D = val q * T"
  define L :: int where "L = 100 ^ length q * T"
  have qd: "digits q" "q \<noteq> []" using q(1) by (simp_all add: divisor_def)
  have w: "0 < weight q * T" "weight q * T \<le> D"
    using divisor_val [OF q(1)] by (simp_all add: D_def T_def)
  define td' where "td' = (sback p 0 * 100 + sback p 1) * 100 + sback p 2"
  note td = running_lead [OF run qd(2), folded T_def D_def td'_def]
  have c1: "0 < c + 1" using lead_scaled [OF q, of T] by (cases magic) (auto simp: T_def)
  note lead = lead_scaled [OF q, of T, folded D_def]
  have T: "0 < T" by (simp add: T_def)
  have res: "(dig, u) =
      (if (if magic then td' * 8 else td') mod (c + 1) < 8 \<and>
          (if magic then td' * 8 else td') div (c + 1) > 0 \<and> magic
       then ((if magic then td' * 8 else td') div (c + 1) - 1, True)
       else ((if magic then td' * 8 else td') div (c + 1), False))"
    using estimate_eq [OF td'_def td(3) refl refl, of "Suc n" c magic] est c1 by simp
  have e: "0 \<le> dig \<and> dig < 120 \<and> dig * D \<le> val p \<and> 5 * val p < 5 * (dig * D) + 6 * D"
    by (rule estimate_mid [OF lead(1) [OF T] lead(2) [OF T] w td(4,5) td(1-3) refl refl res])
  have dig: "0 \<le> dig" "dig \<le> 125" using e by auto
  obtain r d where r: "w = r @ [schar (if d < 0 then d + 100 else d)]"
    "digits r" "length r = length q" "digits (take (Suc n) p)" "length (take (Suc n) p) = Suc n"
    "val (take (Suc n) p) + T * (val r + 100 ^ length q * d) = val p - dig * D"
    using sub_pass [OF run qd(1) dig] sub by (metis T_def D_def prod.inject)
  define V where "V = val (take (Suc n) p)"
  define N :: int where "N = 100 ^ length q"
  have b: "0 \<le> V" "V < T" "0 \<le> val r" "val r < N"
    using digits_val [OF r(2)] digits_val [OF r(4)] r(3,5) by (simp_all add: V_def T_def N_def)
  have DN: "D < N * T"
    using divisor_val [OF q(1)] qd(2) by (cases q) (simp_all add: D_def T_def N_def)
  note eq = r(6) [folded V_def N_def]
  have d: "0 \<le> d" "d < 2"
    using top_digit [OF eq b, of 0] top_digit(2) [OF eq b, of 2] e DN by auto
  obtain r' s where rs: "r = r' @ [s]" using r(3) qd(2) by (cases r rule: rev_cases) auto
  have n: "length q = Suc (length r')" using r(3) by (simp add: rs)
  have "d = 1 \<Longrightarrow> s < 20"
  proof -
    assume "d = 1"
    have "V + T * (val r' + 100 ^ length r' * (s + 100)) = val p - dig * D"
      using eq \<open>d = 1\<close> n by (simp add: rs val_append N_def algebra_simps)
    from top_digit(2) [OF this, of 120] show "s < 20"
      using b(1,2) r(2) digits_val [of r'] DN e by (simp add: rs n N_def)
  qed
  then have s: "0 \<le> s" "s < 100" "d = 1 \<Longrightarrow> schar (s + 100) = s + 100 \<and> s < 20" "digits r'"
    using r(2) by (auto simp: rs schar_id)
  have f: "fold_top (take (Suc n) p @ w) = (take (Suc n) p @ r') @ [s + 100 * d]"
    using d s(3) by (auto simp: fold_top_def r(1) rs Let_def butlast_append schar_id)
  have v: "val ((take (Suc n) p @ r') @ [s + 100 * d]) = val p - dig * D"
    using eq r(5) n by (simp add: rs val_append V_def T_def N_def power_add algebra_simps)
  have "d = 0 \<or> d = 1" using d by auto
  then have "0 \<le> s + 100 * d" "s + 100 * d < 120" using s by auto
  then show ?thesis
    unfolding f running_def
    using e d s r(4,5) n v by (auto simp: D_def T_def)
qed

lemma pass_last:
  assumes q: "divisor q" "lead q = (c, magic)" and run: "running q 0 p"
    and est: "estimate c magic 0 p = (dig, u)"
    and sub: "sub_loop p (mul_row dig q 0) 0 = (w, carry)"
  defines "R \<equiv> val p - dig * val q"
  shows "0 \<le> dig \<and> dig < 122 \<and> (if u then 0 \<le> R \<and> R < 2 * val q else - val q \<le> R \<and> R < val q) \<and>
    digits w \<and> carry = (if R < 0 then 1 else 0) \<and>
    val w = R + carry * (100 * 100 ^ length q) \<and>
    (R < 0 \<longrightarrow> 0 < dig \<and> (\<exists>r. w = r @ [99] \<and> length r = length q))"
proof -
  define D where "D = val q"
  have qd: "digits q" "q \<noteq> []" using q(1) by (simp_all add: divisor_def)
  have w: "0 < weight q * 1" "weight q * 1 \<le> D"
    using divisor_val [OF q(1)] by (simp_all add: D_def)
  define td where "td = (sback p 0 * 100 + sback p 1) * 100 + sback p 2"
  note t = running_lead [OF run qd(2), folded td_def, simplified, folded D_def]
  note lead = lead_scaled [OF q, of 1, folded D_def, simplified]
  have c: "0 < c" using lead by (cases magic) auto
  have res: "(dig, u) =
      (if (if magic then (td + 1) * 8 else td + 1) mod c < 8 \<and>
          (if magic then (td + 1) * 8 else td + 1) div c > 0 \<and> magic
       then ((if magic then (td + 1) * 8 else td + 1) div c - 1, True)
       else ((if magic then (td + 1) * 8 else td + 1) div c, False))"
    using estimate_eq [OF td_def t(3) refl refl, of 0 c magic] est c by simp
  have e: "0 \<le> dig \<and> dig < 122 \<and> (if u then dig * D \<le> val p \<and> val p < dig * D + 2 * D
    else dig * D \<le> val p + D \<and> val p < dig * D + D)"
    by (rule estimate_last [OF _ _ w _ _ _ _ _ refl refl res]) (use lead t in \<open>auto simp: mult.commute\<close>)
  then have dig: "0 \<le> dig" "dig \<le> 125" by auto
  obtain r d where r0: "sub_loop (drop 0 p) (mul_row dig q 0) 0 =
      (r @ [schar (if d < 0 then d + 100 else d)], if d < 0 then 1 else 0)"
    and r1: "digits r" "length r = length q"
      "val (take 0 p) + 100 ^ 0 * (val r + 100 ^ length q * d) = val p - dig * (val q * 100 ^ 0)"
    using sub_pass [OF run qd(1) dig] by blast
  have r: "w = r @ [schar (if d < 0 then d + 100 else d)]" "carry = (if d < 0 then 1 else 0)"
    "digits r" "length r = length q" "0 + 1 * (val r + 100 ^ length q * d) = R"
    using r0 r1 sub by (simp_all add: R_def)
  have b: "0 \<le> (0::int)" "0 < (1::int)" "0 \<le> val r" "val r < 100 ^ length q"
    using digits_val [OF r(3)] r(4) by simp_all
  have DN: "D < 100 ^ length q"
    using divisor_val [OF q(1)] qd(2) by (cases q) (simp_all add: D_def)
  have R: "- D \<le> R" "R < 2 * D" "u \<Longrightarrow> 0 \<le> R" using e by (auto simp: R_def D_def split: if_splits)
  have d: "- 1 \<le> d" "d < 2"
    using top_digit(1) [OF r(5) b, of "- 1"] top_digit(2) [OF r(5) b, of 2] R DN by auto
  have neg: "d < 0 \<longleftrightarrow> R < 0"
    using top_digit(1) [OF r(5) b, of 0] top_digit(2) [OF r(5) b, of 0] by (simp add: not_less [symmetric]) blast
  have "0 < dig" if "R < 0"
  proof (rule ccontr)
    assume "\<not> 0 < dig"
    then have "dig = 0" using dig by simp
    then show False using that t(4) by (simp add: R_def)
  qed
  moreover have "d = - 1 \<or> d = 0 \<or> d = 1" using d by auto
  ultimately show ?thesis
    using e neg r(3,4) r(5) by (auto simp: r(1,2) val_append schar_id R_def D_def)
qed

declare div_loop.simps [simp del]

text \<open>All passes: the digits of \<open>p\<close> may still exceed 99.\<close>

definition quot_digits :: "int \<Rightarrow> blk \<Rightarrow> bool" where
  "quot_digits k p \<longleftrightarrow> (\<forall>d \<in> set p. 0 \<le> d \<and> d < k)"

lemma div_loop_spec:
  assumes "divisor q" "lead q = (c, magic)" "running q n x" "quot_digits 122 p"
    "div_loop q c magic n x p = (w, p', dig, u, carry)"
  shows "\<exists>ds R. p' = dig # ds @ p \<and> length ds = n \<and> quot_digits 122 p' \<and>
    val x = val (dig # ds) * val q + R \<and>
    (if u then 0 \<le> R \<and> R < 2 * val q else - val q \<le> R \<and> R < val q) \<and>
    digits w \<and> carry = (if R < 0 then 1 else 0) \<and> val w = R + carry * (100 * 100 ^ length q) \<and>
    (R < 0 \<longrightarrow> 0 < dig \<and> (\<exists>r. w = r @ [99] \<and> length r = length q))"
  using assms(3-5)
proof (induction n arbitrary: x p)
  case 0
  obtain g u' where g: "estimate c magic 0 x = (g, u')" by (cases "estimate c magic 0 x")
  obtain w' k where k: "sub_loop x (mul_row g q 0) 0 = (w', k)" by (cases "sub_loop x (mul_row g q 0) 0")
  note l = pass_last [OF assms(1,2) 0(1) g k]
  have e: "w = w'" "p' = schar g # p" "dig = g" "u = u'" "carry = k"
    using 0(3) g k by (auto simp: div_loop.simps [of q c magic 0])
  have s: "schar g = g" using l by (simp add: schar_id)
  show ?case
    using l 0(2) unfolding e s by (intro exI [of _ "[]"] exI [of _ "val x - g * val q"]) (auto simp: quot_digits_def)
next
  case (Suc n)
  obtain g u' where g: "estimate c magic (Suc n) x = (g, u')" by (cases "estimate c magic (Suc n) x")
  obtain w' k where k: "sub_loop (drop (Suc n) x) (mul_row g q 0) 0 = (w', k)"
    by (cases "sub_loop (drop (Suc n) x) (mul_row g q 0) 0")
  note l = pass_mid [OF assms(1,2) Suc.prems(1) g k]
  define y where "y = fold_top (take (Suc n) x @ w')"
  have s: "schar g = g" using l by (simp add: schar_id)
  have "div_loop q c magic n y (g # p) = (w, p', dig, u, carry)"
    using Suc.prems(3) g k s by (simp add: y_def div_loop.simps [of q c magic "Suc n"])
  moreover have "quot_digits 122 (g # p)" "running q n y" using Suc.prems(2) l by (auto simp: quot_digits_def y_def)
  ultimately obtain ds R where IH: "p' = dig # ds @ g # p" "length ds = n" "quot_digits 122 p'"
    "val y = val (dig # ds) * val q + R"
    "if u then 0 \<le> R \<and> R < 2 * val q else - val q \<le> R \<and> R < val q"
    "digits w" "carry = (if R < 0 then 1 else 0)" "val w = R + carry * (100 * 100 ^ length q)"
    "R < 0 \<longrightarrow> 0 < dig \<and> (\<exists>r. w = r @ [99] \<and> length r = length q)"
    using Suc.IH by blast
  have "val x = val (dig # ds @ [g]) * val q + R"
    using l IH(2,4) by (simp add: y_def val_append algebra_simps)
  with IH show ?case by (intro exI [of _ "ds @ [g]"] exI [of _ R]) simp
qed

section \<open>The quotient and the remainder\<close>

lemma canon_digits:
  assumes "canon p" "0 \<le> val p" shows "digits p"
proof -
  have "number p" using assms(1) by (simp add: canon_def)
  then show ?thesis
    using negative_val [of p] assms(2) by (cases p rule: number_cases) auto
qed

text \<open>The corrections make the remainder smaller than the divisor.\<close>

lemma adjust_spec:
  assumes q: "divisor q" and p: "p = dig # ds" "quot_digits 122 p" and w: "digits w"
    and R: "if u then 0 \<le> R \<and> R < 2 * val q else - val q \<le> R \<and> R < val q"
    and c: "carry = (if R < 0 then 1 else 0)" "val w = R + carry * (100 * 100 ^ length q)"
      "R < 0 \<longrightarrow> 0 < dig \<and> (\<exists>r. w = r @ [99] \<and> length r = length q)"
  shows "\<exists>w' p'. adjust q (w, p, dig, u, carry) = (w', p') \<and> quot_digits 123 p' \<and> digits w' \<and>
    val p' * val q + val w' = val p * val q + R \<and> 0 \<le> val w' \<and> val w' < val q"
proof -
  have dig: "0 \<le> dig" "dig < 122" using p by (auto simp: quot_digits_def)
  have qn: "number q" using q by (simp add: divisor_def digits_number)
  show ?thesis
  proof (cases u)
    case True
    define ps where "ps = add (chsign q) w"
    have v: "val w = R" "carry = 0" using R c True by auto
    have ps: "val ps = R - val q" "canon ps"
      using add_val [of "chsign q" w] chsign_val [OF qn] w v by (simp_all add: ps_def digits_number)
    have neg: "ps \<noteq> [] \<and> last ps < 0 \<longleftrightarrow> R < val q"
      using canon_sign [OF ps(2)] canon_zero [OF ps(2)] ps(1) by auto
    show ?thesis
    proof (cases "R < val q")
      case True
      then show ?thesis using \<open>u\<close> v neg p w R by (fastforce simp: adjust_def ps_def [symmetric] quot_digits_def)
    next
      case False
      then have "digits ps" "val ps < val q" "0 \<le> val ps"
        using canon_digits [OF ps(2)] ps(1) R True by simp_all
      moreover have "adjust q (w, p, dig, u, carry) = (ps, (dig + 1) # ds)"
        using False neg True v p(1) dig by (auto simp: adjust_def ps_def [symmetric] put_def schar_id)
      ultimately show ?thesis using p ps(1) by (fastforce simp: quot_digits_def algebra_simps)
    qed
  next
    case False
    show ?thesis
    proof (cases "R < 0")
      case True
      then obtain r where r: "w = r @ [99]" "length r = length q" "0 < dig" using c by blast
      define y where "y = add q (r @ [- 1])"
      have "val (r @ [- 1]) = R" "number (r @ [- 1])"
        using c True w r by (simp_all add: val_append)
      then have y: "val y = val q + R" "canon y"
        using add_val [OF qn] by (simp_all add: y_def)
      have "put (length w - 1) (- 1) w = r @ [- 1]" by (simp add: put_def r schar_id list_update_append)
      then have "adjust q (w, p, dig, u, carry) = (y, (dig - 1) # ds)"
        using False c(1) True p(1) dig by (simp add: adjust_def y_def put_def schar_id)
      moreover have "digits y" using canon_digits [OF y(2)] y(1) R False by simp
      ultimately show ?thesis
        using p r(3) y(1) R False True by (fastforce simp: quot_digits_def algebra_simps)
    next
      case ge: False
      then show ?thesis using False c R p w by (fastforce simp: adjust_def quot_digits_def)
    qed
  qed
qed

lemma carry_loop_spec:
  "quot_digits 123 p \<Longrightarrow> c \<in> {0, 1} \<Longrightarrow> digits (carry_loop p c) \<and> val (carry_loop p c) = val p + c"
proof (induction p arbitrary: c)
  case (Cons a p)
  have "0 \<le> a" "a < 123" "quot_digits 123 p" using Cons.prems by (auto simp: quot_digits_def)
  then show ?case
    using Cons.IH [of 0] Cons.IH [of 1] Cons.prems(2) by (auto simp: Let_def schar_id)
qed auto

text \<open>Long division of positive numbers.\<close>

lemma long_division:
  assumes "divisor q" "digits p" "length q \<le> length p" "lead q = (c, magic)"
  shows "\<exists>w p'. adjust q (div_loop q c magic (length p - length q) (p @ [0]) []) = (w, p') \<and>
    quot_digits 123 p' \<and> digits w \<and> val p' = val p div val q \<and> val w = val p mod val q"
proof -
  define n where "n = length p - length q"
  have "(100::int) ^ length p = 100 ^ n * 100 ^ length q"
    using assms(3) by (simp add: n_def power_add [symmetric])
  moreover have "(100::int) ^ length q = 100 * weight q"
    using assms(1) by (cases q) (simp_all add: divisor_def)
  moreover have "100 ^ n * weight q \<le> 100 ^ n * val q"
    using divisor_val [OF assms(1)] by (simp add: mult_left_mono)
  ultimately have "100 ^ length p \<le> 100 * (100 ^ n * val q)"
    by (simp del: mult_le_cancel_left_pos)
  then have "val p < 100 * (100 ^ n * val q)" using digits_val [OF assms(2)] by linarith
  moreover have "0 < 100 ^ n * val q" using divisor_pos [OF assms(1)] by simp
  ultimately have "val p < 120 * (100 ^ n * val q)" by linarith
  then have "val p < 120 * (val q * 100 ^ n)" by (simp only: mult.commute)
  then have "running q n (p @ [0])"
    using assms(2,3) by (auto simp: running_def n_def val_append)
  moreover obtain w p' dig u carry where l: "div_loop q c magic n (p @ [0]) [] = (w, p', dig, u, carry)"
    by (metis prod_cases5)
  ultimately obtain ds R where s: "p' = dig # ds" "quot_digits 122 p'" "val (p @ [0]) = val p' * val q + R"
    "if u then 0 \<le> R \<and> R < 2 * val q else - val q \<le> R \<and> R < val q"
    "digits w" "carry = (if R < 0 then 1 else 0)" "val w = R + carry * (100 * 100 ^ length q)"
    "R < 0 \<longrightarrow> 0 < dig \<and> (\<exists>r. w = r @ [99] \<and> length r = length q)"
    using div_loop_spec [OF assms(1,4) _ _ l] by (auto simp: quot_digits_def)
  obtain w' p'' where a: "adjust q (w, p', dig, u, carry) = (w', p'')" "quot_digits 123 p''" "digits w'"
    "val p'' * val q + val w' = val p' * val q + R" "0 \<le> val w'" "val w' < val q"
    using adjust_spec [OF assms(1) s(1,2,5,4,6-8)] by blast
  have v: "val p = val p'' * val q + val w'" using a(4) s(3) by (simp add: val_append)
  have "val p div val q = val p''" "val p mod val q = val w'"
    using a(5,6) by (simp_all add: v)
  with a l show ?thesis by (simp add: n_def)
qed

section \<open>Blocks as the operations leave them\<close>

text \<open>
  No leading zero, and no 99 below a sign that could absorb it, except in \<open>[99, -1]\<close>, the form
  in which \<open>add\<close> leaves the number -1: the form of sums and of changed signs.
\<close>

definition tight :: "blk \<Rightarrow> bool" where
  "tight p \<longleftrightarrow> canon p \<and> (\<forall>r. p = r @ [99, - 1] \<longrightarrow> r = [])"

lemma tight_number: "tight p \<Longrightarrow> number p"
  by (simp add: tight_def canon_def)

lemma tight_Nil [simp]: "tight []"
  by (simp add: tight_def canon_def)

lemma divisor_tight: "divisor p \<Longrightarrow> tight p"
  by (auto simp: tight_def canon_def divisor_def digits_number)

lemma divisor_canon: "digits p \<Longrightarrow> canon p \<Longrightarrow> p \<noteq> [] \<Longrightarrow> divisor p"
  by (simp add: divisor_def canon_def)

lemma chsign_Nil [simp]: "chsign [] = []"
  by (simp add: chsign_def)

lemma chsign_tight:
  assumes "divisor p" shows "tight (chsign p)"
proof -
  obtain lo d where p: "p = lo @ [d]" "digits lo" "1 \<le> d" "d \<le> 99"
    using assms by (cases p rule: rev_cases) (auto simp: divisor_def)
  obtain r c where rc: "chsign_loop 0 lo = (r, c)" by (cases "chsign_loop 0 lo")
  from chsign_loop_digits [OF p(2) _ rc]
  have r: "digits r" "c \<in> {0, 1}" "val r - 100 ^ length lo * c = - val lo" by auto
  have "chsign_loop 0 p = (r @ [100 - d - c], 1)"
    using rc p r(2) by (auto simp: chsign_loop_append)
  then have ch: "chsign p = (if d + c = 1 then r @ [- 1] else r @ [100 - d - c, - 1])"
    by (auto simp: chsign_def)
  show ?thesis
  proof (cases "d + c = 1")
    case True
    then have "c = 0" using p(3) r(2) by auto
    then have "val r = 0" using r(3) digits_val [OF p(2)] digits_val [OF r(1)] by simp
    then have z: "\<forall>x \<in> set r. x = 0" using digits_val_0 [OF r(1)] by simp
    have "r \<noteq> r' @ [99]" for r' using z by auto
    with True r show ?thesis by (auto simp: ch tight_def canon_def append_eq_append_conv2 Cons_eq_append_conv)
  next
    case False
    then have e: "chsign p = (r @ [100 - d - c]) @ [- 1]" by (simp add: ch)
    show ?thesis
      unfolding tight_def canon_def e number_snoc using False r p by auto
  qed
qed

lemma chsign_divisor:
  assumes "tight p" "negative p" shows "divisor (chsign p)"
proof -
  obtain q where q: "p = q @ [- 1]" "digits q"
    using tight_number [OF assms(1)] assms(2) by (cases p rule: number_cases) auto
  obtain r c where rc: "chsign_loop 0 q = (r, c)" by (cases "chsign_loop 0 q")
  from chsign_loop_digits [OF q(2) _ rc]
  have r: "digits r" "c \<in> {0, 1}" "length r = length q" by auto
  have l: "chsign_loop 0 p = (r @ [1 - c], 0)" using rc r(2) q(1) by (auto simp: chsign_loop_append)
  show ?thesis
  proof (cases "c = 1")
    case True
    then obtain lo d where lo: "q = lo @ [d]" using rc by (cases q rule: rev_cases) auto
    obtain r' c' where r': "chsign_loop 0 lo = (r', c')" by (cases "chsign_loop 0 lo")
    have c': "c' \<in> {0, 1}" "digits r'" using chsign_loop_digits [OF _ _ r'] q(2) lo by auto
    have d: "0 \<le> d" "d \<le> 99" "d = 99 \<Longrightarrow> c' = 0"
      using q lo assms(1) r' by (auto simp: tight_def)
    have "r = r' @ [100 - d - c']"
      using rc lo r' True d by (auto simp: chsign_loop_append Let_def split: if_splits)
    moreover have "chsign p = r" using l True calculation by (simp add: chsign_def butlast_append)
    ultimately show ?thesis using d c' r(1) by (auto simp: divisor_def)
  next
    case False
    then show ?thesis using l r by (auto simp: chsign_def divisor_def)
  qed
qed

lemma add_tight:
  assumes "number a" "number b" shows "tight (add a b)"
proof -
  define p where "p = strip0 (add_loop (max (length a) (length b)) a b 0)"
  have r: "r = []" if e: "fix99 p = r @ [99, - 1]" for r
  proof (cases "p \<noteq> [] \<and> last p = - 1")
    case True
    show ?thesis
    proof (cases "dropWhile (\<lambda>d. d = 99) (rev (butlast p))")
      case Nil
      then have "take 1 p @ [- 1] = r @ [99, - 1]" using e True unfolding fix99_def Nil by simp
      then have "take 1 p = r @ [99]" by simp
      then have "length (r @ [99]) \<le> 1" by (metis length_take min.cobounded2)
      then show ?thesis by simp
    next
      case (Cons x xs)
      then have "x \<noteq> 99" using hd_dropWhile [of "\<lambda>d. d = 99" "rev (butlast p)"] by simp
      moreover have "rev xs @ [x, - 1] = r @ [99, - 1]" using e True Cons by (simp add: fix99_def)
      moreover have "[- 1, 99] @ rev r = [- 1, x] @ xs"
        using arg_cong [OF calculation(2), of rev] by simp
      ultimately show ?thesis by simp
    qed
  next
    case False
    then show ?thesis using e by (auto simp: fix99_def split: if_splits)
  qed
  then show ?thesis using add_val [OF assms] by (simp add: tight_def add_def p_def)
qed

section \<open>Signed division\<close>

definition mag :: "blk \<Rightarrow> blk" where
  "mag p = (if negative p then chsign p else p)"

lemma mag_facts:
  assumes "number p"
  shows "digits (mag p)" "val (mag p) = \<bar>val p\<bar>" "negative p \<longleftrightarrow> p \<noteq> [] \<and> last p = - 1"
proof -
  have "digits (mag p) \<and> val (mag p) = \<bar>val p\<bar> \<and> (negative p \<longleftrightarrow> p \<noteq> [] \<and> last p = - 1)"
    using assms
  proof (cases p rule: number_cases)
    case pos
    then show ?thesis using digits_val [of p] by (auto simp: mag_def negative_def)
  next
    case (neg r)
    then show ?thesis using chsign_neg [of r] negative_val [OF assms] by (auto simp: mag_def)
  qed
  then show "digits (mag p)" "val (mag p) = \<bar>val p\<bar>" "negative p \<longleftrightarrow> p \<noteq> [] \<and> last p = - 1"
    by auto
qed

lemma tight_mag:
  assumes "tight p" "p \<noteq> []" shows "divisor (mag p)"
proof (cases "negative p")
  case True
  then show ?thesis using chsign_divisor [OF assms(1)] by (simp add: mag_def)
next
  case False
  then show ?thesis
    using assms mag_facts(1) [OF tight_number [OF assms(1)]]
    by (auto simp: mag_def divisor_def tight_def canon_def)
qed

text \<open>What division needs of a block: no leading zero in its magnitude.\<close>

definition trim :: "blk \<Rightarrow> bool" where
  "trim p \<longleftrightarrow> number p \<and> (p = [] \<or> divisor (mag p))"

lemma trim_number: "trim p \<Longrightarrow> number p"
  by (simp add: trim_def)

lemma trim_Nil [simp]: "trim []"
  by (simp add: trim_def)

lemma mag_divisor: "trim p \<Longrightarrow> p \<noteq> [] \<Longrightarrow> divisor (mag p)"
  by (simp add: trim_def)

lemma tight_trim: "tight p \<Longrightarrow> trim p"
  using tight_mag [of p] tight_number [of p] by (auto simp: trim_def)

lemma divisor_trim: "divisor p \<Longrightarrow> trim p"
  by (rule tight_trim [OF divisor_tight])

lemma trim_zero: "trim p \<Longrightarrow> p = [] \<longleftrightarrow> val p = 0"
  using divisor_pos [of "mag p"] mag_facts(2) [of p] by (auto simp: trim_def)

lemma trim_nonneg: "trim p \<Longrightarrow> 0 \<le> val p \<Longrightarrow> p = [] \<or> divisor p"
  using negative_val [of p] by (auto simp: trim_def mag_def)

lemma mag_Nil [simp]: "mag [] = []"
  by (simp add: mag_def)

lemma signed_trim:
  assumes "p = [] \<or> divisor p"
  shows "trim (if b then chsign p else p)" "val (if b then chsign p else p) = (if b then - val p else val p)"
  using assms tight_trim [OF chsign_tight] divisor_trim chsign_val [of p] by (auto simp: divisor_def digits_number)

lemma strip0_divisor: "digits p \<Longrightarrow> (strip0 p = [] \<or> divisor (strip0 p)) \<and> val (strip0 p) = val p"
  using strip0_canon [OF digits_number, of p] canon_digits [of "strip0 p"] digits_val [of p]
  by (auto intro: divisor_canon)

lemma cdiv_cmod:
  assumes "b \<noteq> 0"
  shows "cdiv a b = (if (b < 0) \<noteq> (a < 0) then - (\<bar>a\<bar> div \<bar>b\<bar>) else \<bar>a\<bar> div \<bar>b\<bar>)"
    "cmod a b = (if a < 0 then - (\<bar>a\<bar> mod \<bar>b\<bar>) else \<bar>a\<bar> mod \<bar>b\<bar>)"
proof -
  show c: "cdiv a b = (if (b < 0) \<noteq> (a < 0) then - (\<bar>a\<bar> div \<bar>b\<bar>) else \<bar>a\<bar> div \<bar>b\<bar>)"
    using assms by (auto simp: cdiv_def sgn_if)
  show "cmod a b = (if a < 0 then - (\<bar>a\<bar> mod \<bar>b\<bar>) else \<bar>a\<bar> mod \<bar>b\<bar>)"
    unfolding cmod_def c minus_mult_div_eq_mod [symmetric] using assms by (auto simp: abs_if)
qed

text \<open>\<open>div\<close> is division that truncates towards zero.\<close>

lemma div_blk_spec:
  assumes "number a" "trim b" "b \<noteq> []"
  obtains q r where "div_blk a b = Some (q, r)" "val q = cdiv (val a) (val b)"
    "val r = cmod (val a) (val b)" "trim q" "number r" "trim a \<Longrightarrow> trim r"
proof -
  note A = mag_facts [OF assms(1)] and B = mag_facts [OF trim_number [OF assms(2)]]
  have D: "divisor (mag b)" by (rule mag_divisor [OF assms(2,3)])
  have b0: "val b \<noteq> 0" using divisor_pos [OF D] B(2) by auto
  have sb: "last b = - 1 \<longleftrightarrow> val b < 0" using B(3) negative_val [OF trim_number [OF assms(2)]] assms(3) by auto
  have sa: "a \<noteq> [] \<and> last a = - 1 \<longleftrightarrow> val a < 0" using A(3) negative_val [OF assms(1)] by auto
  have m: "(if val b < 0 then chsign b else b) = mag b" "(if val a < 0 then chsign a else a) = mag a"
    using sa sb A(3) B(3) assms(3) by (auto simp: mag_def)
  note d = div_blk_def [of a b, unfolded Let_def sb sa m]
  show thesis
  proof (cases "length (mag a) < length (mag b)")
    case True
    have "(100::int) ^ length (mag a) \<le> weight (mag b)"
      using True by (intro power_increasing) auto
    then have "\<bar>val a\<bar> < \<bar>val b\<bar>"
      using digits_val [OF A(1)] divisor_val [OF D] A(2) B(2) by linarith
    then have z: "cdiv (val a) (val b) = 0" "cmod (val a) (val b) = val a"
      using b0 by (simp_all add: cdiv_cmod)
    define r where "r = (if val a < 0 then chsign (mag a) else mag a)"
    have "div_blk a b = Some ([], r)"
      using True assms(3) by (simp add: d r_def)
    moreover have "val r = val a" "number r"
      using chsign_val [OF digits_number [OF A(1)]] A(1,2) by (auto simp: r_def digits_number)
    moreover have "trim r" if "trim a"
      using signed_trim(1) [of "mag a" "val a < 0"] mag_divisor [OF that] by (cases "a = []") (auto simp: r_def)
    ultimately show thesis using that z by simp
  next
    case False
    obtain c magic where l: "lead (mag b) = (c, magic)" by (cases "lead (mag b)")
    obtain w p where ld: "adjust (mag b) (div_loop (mag b) c magic (length (mag a) - length (mag b)) (mag a @ [0]) []) = (w, p)"
      "quot_digits 123 p" "digits w" "val p = val (mag a) div val (mag b)" "val w = val (mag a) mod val (mag b)"
      using long_division [OF D A(1) _ l] False by auto
    define q where "q = strip0 (carry_loop p 0)"
    have q: "q = [] \<or> divisor q" "val q = \<bar>val a\<bar> div \<bar>val b\<bar>"
      using carry_loop_spec [OF ld(2), of 0] strip0_divisor [of "carry_loop p 0"] ld(4) A(2) B(2) by (auto simp: q_def)
    have r: "strip0 w = [] \<or> divisor (strip0 w)" "val (strip0 w) = \<bar>val a\<bar> mod \<bar>val b\<bar>"
      using strip0_divisor [OF ld(3)] ld(5) A(2) B(2) by auto
    have e: "div_blk a b = Some (if (val b < 0) \<noteq> (val a < 0) then chsign q else q,
        if val a < 0 then chsign (strip0 w) else strip0 w)"
      using False assms(3) l ld(1) by (simp add: d q_def)
    show thesis
      by (rule that [OF e])
        (use signed_trim [OF q(1)] signed_trim [OF r(1)] q(2) r(2) trim_number in
          \<open>simp_all add: cdiv_cmod [OF b0]\<close>)
  qed
qed

text \<open>
  C12: Division is exact: whatever the estimates of the digits and their corrections do on the way,
  the quotient and the remainder of two numbers of any signs and lengths are those of division
  that truncates towards zero, and both are numbers again.
\<close>

theorem div_exact:
  assumes "number a" "trim b" "b \<noteq> []"
  shows "\<exists>q r. div_blk a b = Some (q, r) \<and> val q = cdiv (val a) (val b) \<and>
    val r = cmod (val a) (val b) \<and> trim q \<and> number r"
  using div_blk_spec [OF assms] by metis

lemma div_exact_witness:
  "\<exists>q r. div_blk [5, 99, 3, 0, - 1] [98, 7] = Some (q, r) \<and>
     val q = cdiv (- 99960095) 798 \<and> val r = cmod (- 99960095) 798"
proof -
  have "trim [98, 7]" by (rule divisor_trim) (simp add: divisor_def)
  moreover have "number [5, 99, 3, 0, - 1]" using number_snoc [of "[5, 99, 3, 0]" "- 1"] by simp
  ultimately show ?thesis using div_exact [of "[5, 99, 3, 0, - 1]" "[98, 7]"] by auto
qed

end
