(* ===== verification/DcCmd.thy ===== *)
theory DcCmd
  imports DcDiv
begin

text \<open>
  The arithmetic commands of the desk calculator that need division: \<open>/\<close> and \<open>%\<close> with \<open>dscale\<close> and
  \<open>removr\<close>, the scaling of products with \<open>removc\<close>, square roots and powers (\<open>cmd/dc/dc.c\<close>). \<open>k\<close> is
  the scale that the \<open>k\<close> command sets. Messages are left out. \<^term>\<open>None\<close> is the use of a null
  or released block.
\<close>

section \<open>The code\<close>

text \<open>\<open>removc\<close> drops the last \<open>n\<close> decimal digits.\<close>

definition removc :: "blk \<Rightarrow> nat \<Rightarrow> blk option" where
  "removc p n =
     (let q = drop (n div 2) p in
      if odd n then map_option fst (div_blk q tenptr) else Some q)"

text \<open>\<open>removr\<close> does so too, towards zero, and leaves what it has dropped in \<open>irem\<close>.\<close>

fun removr_loop :: "nat \<Rightarrow> blk \<Rightarrow> blk \<times> blk \<times> nat" where
  "removr_loop (Suc (Suc n)) p =
     (let (q, r, m) = removr_loop n (tl p) in ((case p of [] \<Rightarrow> - 1 | d # _ \<Rightarrow> d) # q, r, m))"
| "removr_loop n p = ([], p, n)"

definition removr :: "blk \<Rightarrow> nat \<Rightarrow> (blk \<times> blk) option" where
  "removr p n =
     (let neg = (p = [] \<or> last p < 0);
          p = (if neg then chsign p else p);
          (q, r, n) = removr_loop n p
      in if n = 1 then
           (case div_blk r tenptr of
              None \<Rightarrow> None
            | Some (s, rem) \<Rightarrow>
                let q = q @ take 1 rem in Some (if neg then (chsign s, chsign q) else (s, q)))
         else Some (if neg then (chsign r, chsign q) else (r, q)))"

text \<open>
  \<open>dscale\<close> returns 1 on a short stack and where an operand is zero; otherwise it sets \<open>arg1\<close>,
  \<open>arg2\<close>, \<open>irem\<close> (\<^term>\<open>None\<close> is the null pointer), \<open>skd\<close> and \<open>skr\<close>.
\<close>

definition zero_blk :: "blk \<Rightarrow> bool" where
  "zero_blk p \<longleftrightarrow> p = [] \<or> last p = 0"

datatype dscaled = Return dcstate | Args blk blk "blk option" int int dcstate

definition dscale :: "int \<Rightarrow> dcstate \<Rightarrow> dscaled option" where
  "dscale k s =
     (let (dr, s) = pop s in
      if stkerr s then Some (Return s)
      else let (dd, s) = pop s in
      if stkerr s then Some (Return (pushp dr s))
      else let skd = last dd; dd = butlast dd; skr = last dr; dr = butlast dr in
      if zero_blk dr then Some (Return (pushp (dr @ [skr]) s))
      else if zero_blk dd then Some (Return (pushp (dd @ [skd]) s))
      else let c = k - skd + skr in
      if c < 0 then
        map_option (\<lambda>(r, irem). Args r dr (Some irem) skd skr s) (removr dd (nat (- c)))
      else Some (Args (add0 dd (nat c)) dr None skd skr s))"

text \<open>\<open>binop('/')\<close>: the result goes on the stack, \<open>rem\<close> is kept.\<close>

definition binop_div :: "blk \<Rightarrow> blk \<Rightarrow> int \<Rightarrow> dcstate \<Rightarrow> (blk \<times> dcstate) option" where
  "binop_div arg1 arg2 savk s =
     map_option (\<lambda>(r, rem). (rem, pushp (r @ [savk]) s)) (div_blk arg1 arg2)"

definition div_cmd :: "int \<Rightarrow> dcstate \<Rightarrow> dcstate option" where
  "div_cmd k s =
     (case dscale k s of
        None \<Rightarrow> None
      | Some (Return s) \<Rightarrow> Some s
      | Some (Args arg1 arg2 irem skd skr s) \<Rightarrow> map_option snd (binop_div arg1 arg2 k s))"

definition mod_cmd :: "int \<Rightarrow> dcstate \<Rightarrow> dcstate option" where
  "mod_cmd k s =
     (case dscale k s of
        None \<Rightarrow> None
      | Some (Return s) \<Rightarrow> Some s
      | Some (Args arg1 arg2 irem skd skr s) \<Rightarrow>
          (case binop_div arg1 arg2 k s of
             None \<Rightarrow> None
           | Some (rem, s) \<Rightarrow>
               let s = snd (pop s) in
               case irem of
                 None \<Rightarrow> Some (pushp (rem @ [schar (skr + k)]) s)
               | Some irem \<Rightarrow>
                   let p = add0 rem (nat (skd - (skr + k)))
                   in Some (pushp (add p irem @ [skd]) s)))"

text \<open>The command \<open>*\<close>.\<close>

definition times_cmd :: "int \<Rightarrow> dcstate \<Rightarrow> dcstate option" where
  "times_cmd k s =
     (let (arg1, s) = pop s in
      if stkerr s then Some s
      else let (arg2, s) = pop s in
      if stkerr s then Some (pushp arg1 s)
      else let sk1 = last arg1; arg1 = butlast arg1; sk2 = last arg2; arg2 = butlast arg2;
               n = sk1 + sk2; p = mult arg1 arg2
           in if n > k \<and> n > sk1 \<and> n > sk2 then
                let sk = max (max sk1 sk2) k
                in map_option (\<lambda>p. pushp (p @ [sk]) s) (removc p (nat (n - sk)))
              else Some (pushp (p @ [n]) s))"

subsection \<open>Square roots\<close>

text \<open>Subtraction of the odd numbers.\<close>

function odd_root :: "int \<Rightarrow> nat \<Rightarrow> nat" where
  "odd_root c nn = (if c - int nn \<ge> 0 then odd_root (c - int nn) (nn + 2) else nn)"
  by auto
termination
  by (relation "measure (\<lambda>(c, nn). 2 * nat c + (if nn = 0 then 1 else 0))") auto

declare odd_root.simps [simp del]

definition sqrt_start :: "blk \<Rightarrow> blk" where
  "sqrt_start p =
     (let n = length p; c = sback p 0;
          c = (if odd n then c else c * 100 + sback p 1);
          c = int ((odd_root c 1 + 1) div 2);
          z = replicate ((n + 1) div 2 - 1) 0
      in if c \<ge> 100 then z @ [c - 100, 1] else z @ [c])"

definition sqtemp :: blk where "sqtemp = [2]"

partial_function (option) sqrt_loop :: "blk \<Rightarrow> blk \<Rightarrow> blk option" where
  "sqrt_loop p r =
     (case div_blk p r of
        None \<Rightarrow> None
      | Some (q, _) \<Rightarrow>
          (case div_blk (add q r) sqtemp of
             None \<Rightarrow> None
           | Some (q, _) \<Rightarrow>
               let t = add (chsign r) q in
               if t = [] \<or> last t \<ge> 0 then Some r else sqrt_loop p q))"

definition sqrt_blk :: "blk \<Rightarrow> blk option" where
  "sqrt_blk p = sqrt_loop p (sqrt_start p)"

text \<open>The command \<open>v\<close>; a negative number has already been taken off the stack.\<close>

definition sqrt_cmd :: "int \<Rightarrow> dcstate \<Rightarrow> dcstate option" where
  "sqrt_cmd k s =
     (let (p, s) = pop s in
      if stkerr s then Some s
      else let savk = last p; p = butlast p in
      if p = [] then Some (pushp (p @ [savk]) s)
      else if last p < 0 then Some s
      else let (n, savk) = (if k < savk then (savk, savk) else (k * 2 - savk, k))
           in map_option (\<lambda>r. pushp (r @ [savk]) s) (sqrt_blk (add0 p (nat n))))"

subsection \<open>Powers\<close>

partial_function (option) exp_loop :: "blk \<Rightarrow> blk \<Rightarrow> blk \<Rightarrow> blk option" where
  "exp_loop e p r =
     (if e = [] then Some r
      else (case div_blk e sqtemp of
              None \<Rightarrow> None
            | Some (e, rem) \<Rightarrow> exp_loop e (mult p p) (if rem \<noteq> [] then mult p r else r)))"

text \<open>A negative exponent leaves the inverse truncated to an integer.\<close>

definition exp_blk :: "blk \<Rightarrow> blk \<Rightarrow> blk option" where
  "exp_blk base ex =
     (if ex = [] then Some [1]
      else let neg = (last ex < 0); e = (if neg then chsign ex else ex)
           in map_option (\<lambda>r.
                if neg then
                  (case base of
                     [] \<Rightarrow> r
                   | [c] \<Rightarrow> if c \<le> 1 then [c] else []
                   | _ \<Rightarrow> [])
                else r) (exp_loop e base [1]))"

text \<open>The exponent as an integer, and the power cut off to its scale, from the digits of both.\<close>

definition exp_value :: "blk \<Rightarrow> int" where
  "exp_value e = (case e of [] \<Rightarrow> 0 | [c] \<Rightarrow> c | c # c' # _ \<Rightarrow> c' * 100 + c)"

definition exp_result :: "int \<Rightarrow> blk \<Rightarrow> int \<Rightarrow> blk \<Rightarrow> blk option" where
  "exp_result k base savk e =
     (case exp_blk base e of
        None \<Rightarrow> None
      | Some p \<Rightarrow>
          let d = exp_value e * savk; n = max k savk
          in if n < d then map_option (\<lambda>q. q @ [n]) (removc p (nat (d - n))) else Some (p @ [d]))"

text \<open>
  The command \<open>^\<close>. When there is no second number, the first goes back without the scale that
  \<open>sunputc\<close> has taken off it.
\<close>

definition exp_cmd :: "int \<Rightarrow> dcstate \<Rightarrow> dcstate option" where
  "exp_cmd k s =
     (let (arg1, s) = pop s in
      if stkerr s then Some s
      else let sk = last arg1; arg1 = butlast arg1 in
      if sk \<noteq> 0 then Some s
      else let (arg2, s) = pop s in
      if stkerr s then Some (pushp arg1 s)
      else let neg = (arg1 \<noteq> [] \<and> last arg1 < 0);
               arg1 = (if neg then chsign arg1 else arg1)
      in if length arg1 \<ge> 3 then Some s
      else case exp_result k (butlast arg2) (last arg2) arg1 of
        None \<Rightarrow> None
      | Some q \<Rightarrow> if neg then div_cmd k (pushp q (pushp [1, 0] s)) else Some (pushp q s))"

section \<open>Blocks\<close>

lemma tenptr_divisor: "divisor tenptr" and sqtemp_divisor: "divisor sqtemp"
  by (simp_all add: tenptr_def sqtemp_def divisor_def)

lemma constants_val [simp]: "val tenptr = 10" "val sqtemp = 2" "tenptr \<noteq> []" "sqtemp \<noteq> []"
  by (simp_all add: tenptr_def sqtemp_def)

lemma divisor_number: "divisor p \<Longrightarrow> number p"
  by (simp add: divisor_def digits_number)

lemma mult_row_top:
  "digits mp \<Longrightarrow> mp \<noteq> [] \<Longrightarrow> last mp \<noteq> 0 \<Longrightarrow> digits mr \<Longrightarrow> length mr \<le> length mp \<Longrightarrow>
   0 < cq \<Longrightarrow> 0 \<le> carry \<Longrightarrow> mult_row cq mp mr carry \<noteq> [] \<and> last (mult_row cq mp mr carry) \<noteq> 0"
proof (induction cq mp mr carry rule: mult_row.induct)
  case (2 cq cp mp mr carry)
  define mcr where "mcr = (case mr of [] \<Rightarrow> 0 | m # _ \<Rightarrow> m)"
  define mt where "mt = cp * cq + carry + mcr"
  have mcr: "0 \<le> mcr" using 2(5) by (auto simp: mcr_def split: list.splits)
  have cp: "0 \<le> cp" using 2(2) by simp
  then have mt: "cp \<le> mt" "0 \<le> mt"
    using 2(7,8) mcr mult_left_mono [of 1 cq cp] by (auto simp: mt_def)
  have eq: "mult_row cq (cp # mp) mr carry = mt mod 100 # mult_row cq mp (tl mr) (mt div 100)"
    using mt(2) by (simp add: mcr_def [symmetric] mt_def [symmetric])
  show ?case
  proof (cases "mp = []")
    case True
    then have "tl mr = []" "0 < mt" using 2(2,4,6) mt cp by (cases mr; auto)+
    then show ?thesis unfolding eq using True mt(2) by auto
  next
    case False
    then have "mult_row cq mp (tl mr) (cdiv mt 100) \<noteq> [] \<and> last (mult_row cq mp (tl mr) (cdiv mt 100)) \<noteq> 0"
      using 2(2-8) mt digits_tl by (intro 2(1) [OF mcr_def mt_def]) auto
    then show ?thesis unfolding eq using mt(2) by simp
  qed
qed simp

lemma mult_loop_top:
  "digits mq \<Longrightarrow> mq \<noteq> [] \<Longrightarrow> last mq \<noteq> 0 \<Longrightarrow> divisor mp \<Longrightarrow> digits mr \<Longrightarrow> offset \<le> length mr \<Longrightarrow>
   length mr \<le> offset + length mp \<Longrightarrow> mult_loop mq mp mr offset \<noteq> [] \<and> last (mult_loop mq mp mr offset) \<noteq> 0"
proof (induction mq mp mr offset rule: mult_loop.induct)
  case (2 cq mq mp mr offset)
  define row where "row = mult_row cq mp (drop offset mr) 0"
  have dr: "digits (take offset mr)" "digits (drop offset mr)"
    using 2(6) digits_simps(3) [of "take offset mr" "drop offset mr"] by auto
  have mp: "digits mp" "mp \<noteq> []" "last mp \<noteq> 0" using 2(5) by (simp_all add: divisor_def)
  have row: "digits row" "length mp \<le> length row" "length row \<le> Suc (length mp)"
    using mult_row_val [OF mp(1) dr(2) _ _ _ _ _ row_def] 2(2,8) by auto
  show ?case
  proof (cases "mq = []")
    case True
    then have "0 < cq" using 2(2,4) by auto
    then have "row \<noteq> [] \<and> last row \<noteq> 0"
      unfolding row_def using mp dr 2(8) by (intro mult_row_top) auto
    then show ?thesis using True by (simp add: row_def [symmetric])
  next
    case False
    have "mult_loop mq mp (take offset mr @ mult_row cq mp (drop offset mr) 0) (Suc offset) \<noteq> [] \<and>
        last (mult_loop mq mp (take offset mr @ mult_row cq mp (drop offset mr) 0) (Suc offset)) \<noteq> 0"
      using 2(2-8) False dr row mp by (intro 2(1)) (auto simp: row_def [symmetric] Suc_le_eq)
    then show ?thesis by simp
  qed
qed simp

lemma mult_tight:
  assumes "trim a" "trim b" shows "tight (mult a b)"
proof -
  define m where "m = mult_loop (mag b) (mag a) [] 0"
  have ab: "mag a = [] \<or> divisor (mag a)" "mag b = [] \<or> divisor (mag b)"
    using assms by (auto simp: trim_def)
  have "m = [] \<or> divisor m"
  proof (cases "mag a = [] \<or> mag b = []")
    case True
    then show ?thesis by (auto simp: m_def mult_loop_Nil)
  next
    case False
    then have "divisor (mag a)" "divisor (mag b)" using ab by auto
    then show ?thesis
      using mult_loop_val [of "mag b" "mag a" "[]" 0] mult_loop_top [of "mag b" "mag a" "[]" 0]
      by (auto simp: m_def divisor_def)
  qed
  moreover have "mult a b = (if negative a \<noteq> negative b then chsign m else m)"
    by (simp add: mult_def Let_def m_def mag_def)
  ultimately show ?thesis using chsign_tight divisor_tight by auto
qed

lemma chsign_zeros: "p \<noteq> [] \<Longrightarrow> chsign (replicate n 0 @ p) = replicate n 0 @ chsign p"
proof (induction n)
  case (Suc n)
  have "chsign (0 # q) = 0 # chsign q" if "q \<noteq> []" for q
  proof -
    obtain r c where rc: "chsign_loop 0 q = (r, c)" by (cases "chsign_loop 0 q")
    then have "r \<noteq> []" using that by (cases q) (auto simp: Let_def split: prod.splits)
    with rc show ?thesis by (simp add: chsign_def)
  qed
  with Suc show ?case by simp
qed simp

lemma zeros_trim: "trim p \<Longrightarrow> p \<noteq> [] \<Longrightarrow> trim (replicate n 0 @ p)"
proof -
  assume p: "trim p" "p \<noteq> []"
  have "mag (replicate n 0 @ p) = replicate n 0 @ mag p"
    using p(2) by (simp add: mag_def negative_def chsign_zeros)
  moreover have "digits (replicate n 0)" by (induction n) simp_all
  ultimately show ?thesis using p number_zeros by (auto simp: trim_def divisor_def)
qed

lemma add0_trim:
  assumes "trim p" "p \<noteq> []" shows "trim (add0 p n)"
  using tight_trim [OF mult_tight [OF divisor_trim [OF tenptr_divisor] zeros_trim [OF assms]]]
    zeros_trim [OF assms] by (simp add: add0_def Let_def)

section \<open>Dropping digits\<close>

lemma drop_divisor:
  assumes "divisor p"
  shows "drop m p = [] \<or> divisor (drop m p)" "val (drop m p) = val p div 100 ^ m"
proof -
  have d: "digits (take m p)" "digits (drop m p)"
    using assms by (auto simp: divisor_def digits_def dest: in_set_takeD in_set_dropD)
  then show "drop m p = [] \<or> divisor (drop m p)" using assms by (auto simp: divisor_def)
  show "val (drop m p) = val p div 100 ^ m"
  proof (cases "m \<le> length p")
    case True
    have "val p = val (take m p) + 100 ^ m * val (drop m p)"
      using val_append [of "take m p" "drop m p", unfolded append_take_drop_id] True by simp
    then show ?thesis using digits_val [OF d(1)] True by simp
  next
    case False
    then have "(100::int) ^ length p \<le> 100 ^ m" by (intro power_increasing) auto
    moreover have "val p < 100 ^ length p" using digits_val [of p] assms by (simp add: divisor_def)
    ultimately have "val p < 100 ^ m" by linarith
    then show ?thesis using divisor_pos [OF assms] False by simp
  qed
qed

lemma drop_tight:
  assumes "tight p" shows "tight (drop m p)"
proof (cases "negative p")
  case False
  then have "p = [] \<or> divisor p"
    using tight_mag [OF assms] by (auto simp: mag_def)
  then show ?thesis using drop_divisor(1) [of p m] divisor_tight by auto
next
  case True
  obtain r where r: "p = r @ [- 1]" "digits r"
    using tight_number [OF assms] True by (cases p rule: number_cases) auto
  have d: "digits (drop m r)" using r(2) by (auto simp: digits_def dest: in_set_dropD)
  show ?thesis
  proof (cases "m \<le> length r")
    case True
    have "s = []" if "drop m r = s @ [99]" for s
    proof -
      have "r = (take m r @ s) @ [99]" using that append_take_drop_id [of m r] by simp
      then have "p = (take m r @ s) @ [99, - 1]" using r(1) by simp
      then show ?thesis using assms by (auto simp: tight_def)
    qed
    then show ?thesis using r d True by (auto simp: tight_def canon_def)
  next
    case False
    then show ?thesis using r by simp
  qed
qed

lemma exp10: "(10::int) ^ n = 100 ^ (n div 2) * (if odd n then 10 else 1)"
  by (cases "odd n") (auto simp: power_mult elim!: oddE evenE)

lemma removc_ok:
  assumes "tight p"
  shows "\<exists>q. removc p n = Some q \<and> trim q \<and> (0 \<le> val p \<longrightarrow> val q = val p div 10 ^ n)"
proof -
  define q where "q = drop (n div 2) p"
  have q: "trim q" "number q" using tight_trim [OF drop_tight [OF assms]] trim_number by (auto simp: q_def)
  have v: "val q = val p div 100 ^ (n div 2)" "0 \<le> val q" if "0 \<le> val p"
  proof -
    have "p = [] \<or> divisor p" using trim_nonneg [OF tight_trim [OF assms] that] .
    then show "val q = val p div 100 ^ (n div 2)" using drop_divisor(2) by (auto simp: q_def)
    then show "0 \<le> val q" using that by (simp add: pos_imp_zdiv_nonneg_iff)
  qed
  obtain r t where r: "div_blk q tenptr = Some (r, t)" "trim r" "val r = cdiv (val q) 10"
    by (rule div_blk_spec [OF q(2) divisor_trim [OF tenptr_divisor] constants_val(3)]) simp
  show ?thesis
    using q r v by (auto simp: removc_def q_def [symmetric] exp10 zdiv_zmult2_eq)
qed

lemma removr_loop_eq:
  "removr_loop n p = (map (\<lambda>i. if i < length p then p ! i else - 1) [0..<n div 2], drop (n div 2) p, n mod 2)"
proof (induction n p rule: removr_loop.induct)
  case (1 n p)
  have "map (\<lambda>i. if i < length p then p ! i else - 1) [0..<Suc (Suc n) div 2] =
      (case p of [] \<Rightarrow> - 1 | d # _ \<Rightarrow> d) # map (\<lambda>i. if i < length (tl p) then tl p ! i else - 1) [0..<n div 2]"
    by (cases p) (simp_all add: upt_conv_Cons map_Suc_upt [symmetric] del: upt_Suc)
  with 1 show ?case by (simp add: drop_Suc)
qed auto

lemma removr_digits: "m \<le> length p \<Longrightarrow> map (\<lambda>i. if i < length p then p ! i else - 1) [0..<m] = take m p"
  by (auto intro: nth_equalityI)

lemma removr_ok:
  assumes "trim p" "p \<noteq> []"
  obtains s q where "removr p n = Some (s, q)" "trim s" "val s = cdiv (val p) (10 ^ n)"
    "n div 2 \<le> length (mag p) \<Longrightarrow> number q \<and> val q = cmod (val p) (10 ^ n)"
proof -
  define m where "m = mag p"
  define r where "r = drop (n div 2) m"
  define q where "q = map (\<lambda>i. if i < length m then m ! i else - 1) [0..<n div 2]"
  have pn: "number p" by (rule trim_number [OF assms(1)])
  have m: "divisor m" "val m = \<bar>val p\<bar>" "p = [] \<or> last p < 0 \<longleftrightarrow> val p < 0"
    "(if val p < 0 then chsign p else p) = m"
    using mag_divisor [OF assms] mag_facts(2) [OF pn] negative_val [OF pn] assms(2)
    by (auto simp: m_def mag_def negative_def)
  note rl = removr_loop_eq [of n m, folded q_def r_def]
  have r: "r = [] \<or> divisor r" "val r = \<bar>val p\<bar> div 100 ^ (n div 2)"
    using drop_divisor [OF m(1)] m(2) by (auto simp: r_def)
  have rn: "number r" "0 \<le> val r" using r divisor_number by (auto simp: pos_imp_zdiv_nonneg_iff)
  have q: "digits q \<and> val q = \<bar>val p\<bar> mod 100 ^ (n div 2)" if "n div 2 \<le> length (mag p)"
  proof -
    have "q = take (n div 2) m" unfolding q_def by (rule removr_digits) (use that in \<open>simp add: m_def\<close>)
    moreover have "digits (take (n div 2) m)"
      using m(1) by (auto simp: divisor_def digits_def dest: in_set_takeD)
    moreover have "val m = val (take (n div 2) m) + 100 ^ (n div 2) * val r"
      using val_append [of "take (n div 2) m" r, unfolded r_def append_take_drop_id] that
      by (simp add: r_def m_def)
    ultimately show ?thesis using r(2) m(2) by (metis add_diff_cancel_right' minus_mult_div_eq_mod)
  qed
  have sgn: "cdiv (val p) (10 ^ n) = (if val p < 0 then - (\<bar>val p\<bar> div 10 ^ n) else \<bar>val p\<bar> div 10 ^ n)"
    "cmod (val p) (10 ^ n) = (if val p < 0 then - (\<bar>val p\<bar> mod 10 ^ n) else \<bar>val p\<bar> mod 10 ^ n)"
    using cdiv_cmod [of "10 ^ n" "val p"] zero_less_power [of "10 :: int" n] by simp_all
  have c: "(p = [] \<or> last p < 0) = (val p < 0)" by (rule m(3))
  note e = removr_def [of p n, unfolded Let_def c m(4) rl prod.case]
  show thesis
  proof (cases "odd n")
    case False
    then have x: "removr p n = Some (if val p < 0 then (chsign r, chsign q) else (r, q))"
      using e by (auto simp: odd_iff_mod_2_eq_one)
    show thesis
      by (rule that [of "if val p < 0 then chsign r else r" "if val p < 0 then chsign q else q"])
        (use False x r q signed_trim [OF r(1)] chsign_val [of q] sgn in
          \<open>auto simp: exp10 digits_number\<close>)
  next
    case True
    obtain s t where d: "div_blk r tenptr = Some (s, t)" "val s = val r div 10" "val t = val r mod 10"
        "trim s" "trim t"
      by (rule div_blk_spec [OF rn(1) divisor_trim [OF tenptr_divisor] constants_val(3)])
        (use rn(2) r(1) divisor_trim in auto)
    have s: "s = [] \<or> divisor s" and t: "t = [] \<or> divisor t"
      using trim_nonneg [OF d(4)] trim_nonneg [OF d(5)] rn(2) d(2,3) by auto
    have t1: "take 1 t = t"
    proof (rule ccontr)
      assume "take 1 t \<noteq> t"
      then have "2 \<le> length t" by (cases t; cases "tl t") auto
      moreover from this have "(100::int) \<le> weight t"
        using power_increasing [of 1 "length t - 1" "100 :: int"] by simp
      moreover have "divisor t" using t \<open>2 \<le> length t\<close> by auto
      moreover have "val t < 10" using d(3) by simp
      ultimately show False using divisor_val [of t] by linarith
    qed
    have n: "n mod 2 = 1" using True by presburger
    have x: "removr p n = Some (if val p < 0 then (chsign s, chsign (q @ t)) else (s, q @ t))"
      using e n d(1) t1 by simp
    have vs: "val s = \<bar>val p\<bar> div 10 ^ n"
      using d(2) r(2) True by (simp add: exp10 zdiv_zmult2_eq)
    have vq: "digits (q @ t) \<and> val (q @ t) = \<bar>val p\<bar> mod 10 ^ n" if "n div 2 \<le> length (mag p)"
    proof -
      have "digits t" using t by (auto simp: divisor_def)
      moreover have "\<bar>val p\<bar> mod 10 ^ n = 100 ^ (n div 2) * (\<bar>val p\<bar> div 100 ^ (n div 2) mod 10) +
          \<bar>val p\<bar> mod 100 ^ (n div 2)"
        using True by (simp add: exp10 zmod_zmult2_eq)
      ultimately show ?thesis using q [OF that] d(3) r(2) by (simp add: val_append q_def)
    qed
    show thesis
      by (rule that [of "if val p < 0 then chsign s else s" "if val p < 0 then chsign (q @ t) else q @ t"])
        (use x vs vq signed_trim [OF s] chsign_val [of "q @ t"] sgn in \<open>auto simp: digits_number\<close>)
  qed
qed

section \<open>Division of scaled numbers\<close>

text \<open>Numbers on the stack: a block as division needs it, under a scale that fits a \<open>char\<close>.\<close>

definition entry :: "blk \<Rightarrow> bool" where
  "entry p \<longleftrightarrow> p \<noteq> [] \<and> trim (butlast p) \<and> 0 \<le> last p \<and> last p \<le> 127"

text \<open>A number cut off towards zero.\<close>

definition rtrunc :: "real \<Rightarrow> int" where
  "rtrunc x = (if 0 \<le> x then \<lfloor>x\<rfloor> else \<lceil>x\<rceil>)"

lemma cdiv_rtrunc: "b \<noteq> 0 \<Longrightarrow> cdiv a b = rtrunc (real_of_int a / real_of_int b)"
proof -
  assume b: "b \<noteq> 0"
  have "\<lfloor>real_of_int \<bar>a\<bar> / real_of_int \<bar>b\<bar>\<rfloor> = \<bar>a\<bar> div \<bar>b\<bar>"
    by (rule floor_divide_of_int_eq)
  then show ?thesis
    using cdiv_cmod(1) [OF b, of a] b
    by (auto simp: rtrunc_def ceiling_def zero_le_divide_iff abs_if split: if_splits)
qed

lemma cdiv_cdiv:
  assumes "0 < b" "c \<noteq> 0"
  shows "cdiv (cdiv a b) c = cdiv a (b * c)"
proof -
  define x where "x = \<bar>a\<bar> div b"
  have x: "0 \<le> x" using assms(1) by (simp add: x_def pos_imp_zdiv_nonneg_iff)
  have a: "cdiv a b = sgn a * x" using assms(1) by (simp add: cdiv_def x_def)
  have b: "cdiv a (b * c) = sgn a * sgn c * (x div \<bar>c\<bar>)"
    using assms(1) by (simp add: cdiv_def x_def sgn_mult abs_mult zdiv_zmult2_eq)
  have "sgn (sgn a * x) * (\<bar>sgn a * x\<bar> div \<bar>c\<bar>) = sgn a * (x div \<bar>c\<bar>)"
    using x by (auto simp: sgn_if)
  then show ?thesis unfolding b unfolding a cdiv_def [of _ c] by (simp add: ac_simps)
qed

lemma entry_cases:
  assumes "entry p"
  obtains a m where "p = a @ [m]" "trim a" "number a" "0 \<le> m" "m \<le> 127" "rat p = real_of_int (val a) / 10 ^ nat m"
proof -
  have "p = butlast p @ [last p]" using assms by (simp add: entry_def)
  then show thesis
    using that [of "butlast p" "last p"] assms trim_number by (auto simp: entry_def rat_def)
qed

lemma entry_snoc [simp]: "entry (a @ [m]) \<longleftrightarrow> trim a \<and> 0 \<le> m \<and> m \<le> 127"
  by (simp add: entry_def)

lemma trim_zero_blk:
  assumes "trim p" shows "zero_blk p \<longleftrightarrow> val p = 0"
proof -
  have "last p \<noteq> 0" if "p \<noteq> []"
    using mag_divisor [OF assms that] by (cases "negative p") (auto simp: mag_def negative_def divisor_def)
  then show ?thesis using trim_zero [OF assms] by (auto simp: zero_blk_def)
qed

text \<open>What \<open>dscale\<close> hands to \<open>binop\<close>: a dividend for a quotient of scale \<open>k\<close>.\<close>

lemma dscale_two:
  fixes k :: int
  assumes "stk s = (b @ [m]) # (a @ [n]) # ps" "\<not> stkerr s" "trim a" "trim b" "val a \<noteq> 0" "val b \<noteq> 0"
    "c = k - n + m"
  obtains arg irem where "dscale k s = Some (Args arg b irem n m (s\<lparr>stk := ps\<rparr>))" "trim arg"
    "val arg = (if c < 0 then cdiv (val a) (10 ^ nat (- c)) else val a * 10 ^ nat c)"
    "irem = None \<longleftrightarrow> 0 \<le> c"
    "\<And>q. irem = Some q \<Longrightarrow> nat (- c) div 2 \<le> length (mag a) \<Longrightarrow>
       number q \<and> val q = cmod (val a) (10 ^ nat (- c))"
proof -
  have ne: "a \<noteq> []" using assms(5) by auto
  have z: "\<not> zero_blk a" "\<not> zero_blk b" using assms trim_zero_blk by auto
  show thesis
  proof (cases "c < 0")
    case True
    obtain x q where x: "removr a (nat (- c)) = Some (x, q)" "trim x" "val x = cdiv (val a) (10 ^ nat (- c))"
      "nat (- c) div 2 \<le> length (mag a) \<Longrightarrow> number q \<and> val q = cmod (val a) (10 ^ nat (- c))"
      using removr_ok [OF assms(3) ne] by metis
    show thesis
      by (rule that [of x "Some q"])
        (use assms(1,2) z True x in \<open>simp_all add: dscale_def pop_def assms(7) [symmetric] Let_def\<close>)
  next
    case False
    show thesis
      by (rule that [of "add0 a (nat c)" None])
        (use assms(1,2) z False add0_trim [OF assms(3) ne] add0_val(1) [OF trim_number [OF assms(3)]] in
          \<open>simp_all add: dscale_def pop_def assms(7) [symmetric] Let_def\<close>)
  qed
qed

lemma scale_split:
  assumes "0 \<le> m" "0 \<le> n" "0 \<le> k" "c = k - n + m"
  shows "(10::real) ^ nat m * 10 ^ nat k * 10 ^ nat (- c) = 10 ^ nat n * 10 ^ nat c"
proof -
  have "nat m + nat k + nat (- c) = nat n + nat c" using assms by simp
  then show ?thesis by (simp only: power_add [symmetric])
qed

lemma quotient_scaled:
  assumes "b \<noteq> 0" "0 \<le> m" "0 \<le> n" "0 \<le> k" "c = k - n + m"
    and "v = (if c < 0 then cdiv a (10 ^ nat (- c)) else a * 10 ^ nat c)"
  shows "cdiv v b = rtrunc (real_of_int a / 10 ^ nat n / (real_of_int b / 10 ^ nat m) * 10 ^ nat k)"
proof -
  have "real_of_int a / 10 ^ nat n / (real_of_int b / 10 ^ nat m) * 10 ^ nat k =
      (if c < 0 then real_of_int a / real_of_int (10 ^ nat (- c) * b)
       else real_of_int (a * 10 ^ nat c) / real_of_int b)"
    using scale_split [OF assms(2-5)] assms(1) by (cases "c < 0") (simp_all add: field_simps)
  moreover have "cdiv v b = (if c < 0 then cdiv a (10 ^ nat (- c) * b) else cdiv (a * 10 ^ nat c) b)"
    using assms(1,6) by (simp add: cdiv_cdiv)
  ultimately show ?thesis using assms(1) by (simp add: cdiv_rtrunc)
qed

text \<open>
  C23: The command \<open>/\<close> computes the quotient of the two top numbers, of any signs and scales, cut off
  towards zero at the scale set by \<open>k\<close>. A dividend that is zero is left as it is.
\<close>

theorem div_cmd_exact:
  assumes "stk s = p # q # ps" "\<not> stkerr s" "entry p" "entry q" "rat p \<noteq> 0" "0 \<le> k" "k \<le> 99" "length ps < 99"
  shows "\<exists>r. div_cmd k s = Some (s\<lparr>stk := r # ps\<rparr>) \<and> entry r \<and>
    (if rat q = 0 then r = q
     else last r = k \<and> rat r = real_of_int (rtrunc (rat q / rat p * 10 ^ nat k)) / 10 ^ nat k)"
proof -
  obtain b m where p: "p = b @ [m]" "trim b" "0 \<le> m" "rat p = real_of_int (val b) / 10 ^ nat m"
    using entry_cases [OF assms(3)] by metis
  obtain a n where q: "q = a @ [n]" "trim a" "number a" "0 \<le> n" "rat q = real_of_int (val a) / 10 ^ nat n"
    using entry_cases [OF assms(4)] by metis
  have b0: "val b \<noteq> 0" using assms(5) p(4) by auto
  show ?thesis
  proof (cases "val a = 0")
    case True
    then have "div_cmd k s = Some (s\<lparr>stk := q # ps\<rparr>)"
      using assms(1,2,8) p q b0 trim_zero_blk by (cases s) (simp add: div_cmd_def dscale_def pop_def pushp_def)
    then show ?thesis using True q(5) assms(4) by simp
  next
    case False
    define c where "c = k - n + m"
    obtain arg irem where d: "dscale k s = Some (Args arg b irem n m (s\<lparr>stk := ps\<rparr>))" "trim arg"
      "val arg = (if c < 0 then cdiv (val a) (10 ^ nat (- c)) else val a * 10 ^ nat c)"
      using dscale_two [of s b m a n ps c k] assms(1,2) p q False b0 c_def by metis
    obtain r t where r: "div_blk arg b = Some (r, t)" "val r = cdiv (val arg) (val b)" "trim r"
      using div_blk_spec [OF trim_number [OF d(2)] p(2)] b0 by (metis val.simps(1))
    have "val r = rtrunc (rat q / rat p * 10 ^ nat k)"
      unfolding r(2) p(4) q(5) by (rule quotient_scaled [OF b0 p(3) q(4) assms(6) c_def d(3)])
    then have v: "rat (r @ [k]) = real_of_int (rtrunc (rat q / rat p * 10 ^ nat k)) / 10 ^ nat k"
      by (simp add: rat_snoc)
    moreover have "div_cmd k s = Some (s\<lparr>stk := (r @ [k]) # ps\<rparr>)"
      using d(1) r(1) assms(2,8) by (cases s) (simp add: div_cmd_def binop_div_def pushp_def)
    moreover have "rat q \<noteq> 0" using False q(5) by simp
    ultimately show ?thesis using r(3) assms(6,7) by (intro exI [of _ "r @ [k]"]) simp
  qed
qed

lemma div_cmd_exact_witness:
  "\<exists>r. div_cmd 3 \<lparr>stk = [[3, 0], [93, - 1, 1]], stkerr = False\<rparr> = Some \<lparr>stk = [r], stkerr = False\<rparr> \<and>
    last r = 3 \<and> rat r = real_of_int (rtrunc (- 700 / 3)) / 1000"
proof -
  have "trim [3]" by (rule divisor_trim) (simp add: divisor_def)
  moreover have "trim [93, - 1]"
    using number_snoc [of "[93]" "- 1"]
    by (simp add: trim_def mag_def negative_def chsign_def divisor_def)
  ultimately show ?thesis
    using div_cmd_exact [of "\<lparr>stk = [[3, 0], [93, - 1, 1]], stkerr = False\<rparr>" "[3, 0]" "[93, - 1, 1]" "[]" 3]
    by (auto simp: entry_def rat_def)
qed

text \<open>
  The command \<open>%\<close> computes the remainder that belongs to \<open>/\<close>, exactly: dividend minus divisor
  times quotient. The scale \<open>skr + k\<close> has to fit a \<open>char\<close>, and of the dividend no more digits may be
  cut off than its block has.
\<close>

lemma mod_cmd_exact:
  assumes "stk s = p # q # ps" "\<not> stkerr s" "entry p" "entry q" "rat p \<noteq> 0" "0 \<le> k" "k \<le> 99" "length ps < 99"
    and "last p + k \<le> 127" "(last q - last p - k) div 2 \<le> int (length (mag (butlast q)))"
  shows "\<exists>r. mod_cmd k s = Some (s\<lparr>stk := r # ps\<rparr>) \<and> entry r \<and>
    rat r = rat q - rat p * (real_of_int (rtrunc (rat q / rat p * 10 ^ nat k)) / 10 ^ nat k)"
proof -
  obtain b m where p: "p = b @ [m]" "trim b" "0 \<le> m" "rat p = real_of_int (val b) / 10 ^ nat m"
    using entry_cases [OF assms(3)] by metis
  obtain a n where q: "q = a @ [n]" "trim a" "number a" "0 \<le> n" "n \<le> 127" "rat q = real_of_int (val a) / 10 ^ nat n"
    using entry_cases [OF assms(4)] .
  have b0: "val b \<noteq> 0" using assms(5) p(4) by auto
  show ?thesis
  proof (cases "val a = 0")
    case True
    then have "mod_cmd k s = Some (s\<lparr>stk := q # ps\<rparr>)"
      using assms(1,2,8) p q b0 trim_zero_blk by (cases s) (simp add: mod_cmd_def dscale_def pop_def pushp_def)
    then show ?thesis using True q(6) assms(4) by (intro exI [of _ q]) (simp add: rtrunc_def)
  next
    case False
    define c where "c = k - n + m"
    obtain arg irem where d: "dscale k s = Some (Args arg b irem n m (s\<lparr>stk := ps\<rparr>))" "trim arg"
      "val arg = (if c < 0 then cdiv (val a) (10 ^ nat (- c)) else val a * 10 ^ nat c)"
      "irem = None \<longleftrightarrow> 0 \<le> c"
      "\<And>q. irem = Some q \<Longrightarrow> nat (- c) div 2 \<le> length (mag a) \<Longrightarrow>
         number q \<and> val q = cmod (val a) (10 ^ nat (- c))"
      using dscale_two [of s b m a n ps c k] assms(1,2) p q False b0 c_def by metis
    obtain r t where r: "div_blk arg b = Some (r, t)" "val r = cdiv (val arg) (val b)"
      "val t = val arg - val b * val r" "trim t"
      using div_blk_spec [OF trim_number [OF d(2)] p(2)] b0 d(2) unfolding cmod_def by (metis val.simps(1))
    note quot = quotient_scaled [OF b0 p(3) q(4) assms(6) c_def d(3), folded p(4) q(6) r(2)]
    have mk: "schar (m + k) = m + k" "0 \<le> m + k" "m + k \<le> 127"
      using p(1,3) assms(6,9) by (simp_all add: schar_id)
    show ?thesis
    proof (cases "c < 0")
      case False
      then have i: "irem = None" using d(4) by simp
      have "mod_cmd k s = Some (s\<lparr>stk := (t @ [m + k]) # ps\<rparr>)"
        using d(1) i r(1) assms(2,8) mk(1) by (cases s) (simp add: mod_cmd_def binop_div_def pushp_def pop_def)
      moreover have "rat (t @ [m + k]) = rat q - rat p * (real_of_int (val r) / 10 ^ nat k)"
      proof -
        have pw: "(10::real) ^ nat m * 10 ^ nat k = 10 ^ nat n * 10 ^ nat c"
          using False scale_split [OF p(3) q(4) assms(6) c_def] by simp
        have "rat (t @ [m + k]) = real_of_int (val a * 10 ^ nat c - val b * val r) / (10 ^ nat m * 10 ^ nat k)"
          using False d(3) r(3) p(3) assms(6) by (simp add: rat_snoc nat_add_distrib power_add)
        also have "\<dots> = real_of_int (val a * 10 ^ nat c) / (10 ^ nat n * 10 ^ nat c) -
            real_of_int (val b * val r) / (10 ^ nat m * 10 ^ nat k)"
          by (simp add: diff_divide_distrib pw)
        finally show ?thesis by (simp add: p(4) q(6))
      qed
      ultimately show ?thesis using r(4) mk quot by (intro exI [of _ "t @ [m + k]"]) simp
    next
      case True
      then obtain i where i: "irem = Some i" using d(4) by (cases irem) auto
      have "nat (- c) div 2 \<le> length (mag a)"
        using assms(10) True by (simp add: p(1) q(1) c_def nat_div_distrib)
      then have n: "number i" "val i = val a - 10 ^ nat (- c) * val arg"
        using d(5) [OF i] d(3) True by (simp_all add: cmod_def)
      define u where "u = add (add0 t (nat (n - (m + k)))) i"
      have u: "trim u" "val u = 10 ^ nat (- c) * val t + val i"
        using add_val(1) [OF add0_val(2) n(1)] add0_val(1) trim_number [OF r(4)]
          tight_trim [OF add_tight [OF add0_val(2) n(1)]]
        by (simp_all add: u_def c_def algebra_simps)
      have "mod_cmd k s = Some (s\<lparr>stk := (u @ [n]) # ps\<rparr>)"
        using d(1) i r(1) assms(2,8) by (cases s) (simp add: mod_cmd_def binop_div_def pushp_def pop_def u_def)
      moreover have "rat (u @ [n]) = rat q - rat p * (real_of_int (val r) / 10 ^ nat k)"
      proof -
        have pw: "(10::real) ^ nat n = 10 ^ nat m * 10 ^ nat k * 10 ^ nat (- c)"
          using True scale_split [OF p(3) q(4) assms(6) c_def] by simp
        have "val u = val a - val b * val r * 10 ^ nat (- c)"
          using u(2) n(2) r(3) by (simp add: algebra_simps)
        then have "rat (u @ [n]) = real_of_int (val a) / 10 ^ nat n -
            real_of_int (val b * val r * 10 ^ nat (- c)) / (10 ^ nat m * 10 ^ nat k * 10 ^ nat (- c))"
          by (simp add: rat_snoc diff_divide_distrib pw)
        then show ?thesis by (simp add: p(4) q(6))
      qed
      ultimately show ?thesis using u(1) q(4,5) quot by (intro exI [of _ "u @ [n]"]) simp
    qed
  qed
qed

lemma mod_cmd_exact_witness:
  "\<exists>r. mod_cmd 0 \<lparr>stk = [[3, 0], [83, 2]], stkerr = False\<rparr> = Some \<lparr>stk = [r], stkerr = False\<rparr> \<and>
    rat r = 83 / 100 - 3 * (real_of_int (rtrunc (83 / 300)))"
proof -
  have "trim [3]" "trim [83]" by (auto intro: divisor_trim simp: divisor_def)
  then have "trim (butlast [83, 2])" "mag [83] = [83]" by (simp_all add: mag_def negative_def)
  with \<open>trim [3]\<close> \<open>trim [83]\<close> show ?thesis
    using mod_cmd_exact [of "\<lparr>stk = [[3, 0], [83, 2]], stkerr = False\<rparr>" "[3, 0]" "[83, 2]" "[]" 0]
    by (auto simp: entry_def rat_def)
qed


section \<open>Products\<close>

text \<open>
  The command \<open>*\<close> keeps the scale between the larger scale of its operands, or \<open>k\<close>, and the sum
  of both. Where no digit has to go, or the product is not negative, the result is the product cut
  off at that scale.
\<close>

lemma times_cmd_exact:
  assumes "stk s = p # q # ps" "\<not> stkerr s" "entry p" "entry q" "0 \<le> k" "k \<le> 99" "length ps < 99"
  defines "sc \<equiv> min (last p + last q) (max (max (last p) (last q)) k)"
  shows "\<exists>r. times_cmd k s = Some (s\<lparr>stk := r # ps\<rparr>) \<and> entry r \<and> last r = sc \<and>
    (sc = last p + last q \<or> 0 \<le> rat p * rat q \<longrightarrow>
       rat r = real_of_int (rtrunc (rat p * rat q * 10 ^ nat sc)) / 10 ^ nat sc)"
proof -
  obtain a m where p: "p = a @ [m]" "trim a" "number a" "0 \<le> m" "m \<le> 127" "rat p = real_of_int (val a) / 10 ^ nat m"
    using entry_cases [OF assms(3)] .
  obtain b n where q: "q = b @ [n]" "trim b" "number b" "0 \<le> n" "n \<le> 127" "rat q = real_of_int (val b) / 10 ^ nat n"
    using entry_cases [OF assms(4)] .
  have sc: "sc = min (m + n) (max (max m n) k)" by (simp add: sc_def p(1) q(1))
  have scb: "0 \<le> sc" "sc \<le> 127"
    using p(4,5) q(4,5) assms(5,6) by (auto simp: sc min_def max_def)
  define x where "x = mult a b"
  have x: "tight x" "val x = val a * val b" "trim x"
    using mult_tight [OF p(2) q(2)] mult_val(1) [OF p(3) q(3)] tight_trim by (auto simp: x_def)
  have pw: "(10::real) ^ nat m * 10 ^ nat n = 10 ^ nat sc * 10 ^ nat (m + n - sc)"
    using p(4) q(4) sc by (simp add: power_add [symmetric] nat_add_distrib [symmetric])
  have v: "rat p * rat q * 10 ^ nat sc = real_of_int (val x) / real_of_int (10 ^ nat (m + n - sc))"
    using pw by (simp add: p(6) q(6) x(2) field_simps)
  obtain r where r: "removc x (nat (m + n - sc)) = Some r" "trim r"
    "0 \<le> val x \<longrightarrow> val r = val x div 10 ^ nat (m + n - sc)"
    using removc_ok [OF x(1)] by blast
  show ?thesis
  proof (cases "sc = m + n")
    case True
    then have "times_cmd k s = Some (s\<lparr>stk := (x @ [sc]) # ps\<rparr>)"
      using assms(1,2,7) p(1) q(1) sc
      by (cases s) (auto simp: times_cmd_def pop_def pushp_def Let_def x_def min_def max_def split: if_splits)
    moreover have "entry (x @ [sc])" using x(3) scb by simp
    moreover have "rat (x @ [sc]) = real_of_int (rtrunc (rat p * rat q * 10 ^ nat sc)) / 10 ^ nat sc"
      using v True by (simp add: rat_snoc rtrunc_def)
    ultimately show ?thesis by (intro exI [of _ "x @ [sc]"]) simp
  next
    case False
    then have e: "m + n > k \<and> m + n > m \<and> m + n > n" "sc = max (max m n) k"
      using sc by (auto simp: min_def max_def split: if_splits)
    have "times_cmd k s = Some (s\<lparr>stk := (r @ [sc]) # ps\<rparr>)"
      using assms(1,2,7) p(1) q(1) e r(1)
      by (cases s) (simp add: times_cmd_def pop_def pushp_def x_def)
    moreover have "entry (r @ [sc])" using r(2) scb by simp
    moreover have "rat (r @ [sc]) = real_of_int (rtrunc (rat p * rat q * 10 ^ nat sc)) / 10 ^ nat sc"
      if "0 \<le> rat p * rat q"
    proof -
      have "0 \<le> rat p * rat q * 10 ^ nat sc" using that by simp
      moreover have "(0::real) < real_of_int (10 ^ nat (m + n - sc))" by simp
      ultimately have "0 \<le> val x" unfolding v using pos_le_divide_eq [of _ 0 "real_of_int (val x)"] by fastforce
      then have "val r = cdiv (val x) (10 ^ nat (m + n - sc))" using r(3) by simp
      then have "val r = rtrunc (real_of_int (val x) / real_of_int (10 ^ nat (m + n - sc)))"
        by (simp add: cdiv_rtrunc)
      then show ?thesis by (simp only: v rat_snoc)
    qed
    moreover have "sc \<noteq> last p + last q" using False p(1) q(1) by simp
    ultimately show ?thesis by (intro exI [of _ "r @ [sc]"]) simp
  qed
qed

lemma times_cmd_exact_witness:
  "\<exists>r. times_cmd 2 \<lparr>stk = [[15, 1], [25, 2]], stkerr = False\<rparr> = Some \<lparr>stk = [r], stkerr = False\<rparr> \<and>
    last r = 2 \<and> rat r = real_of_int (rtrunc (375 / 10)) / 100"
proof -
  have "trim [15]" "trim [25]" by (auto intro: divisor_trim simp: divisor_def)
  then show ?thesis
    using times_cmd_exact [of "\<lparr>stk = [[15, 1], [25, 2]], stkerr = False\<rparr>" "[15, 1]" "[25, 2]" "[]" 2]
    by (auto simp: entry_def rat_def)
qed

text \<open>
  A negative product is cut off the wrong way: -.05 times .05 at scale 2 is -.01, where the exact
  product is -.0025 and \<open>/\<close> cuts off towards zero.
\<close>

lemma times_cmd_negative:
  "times_cmd 2 \<lparr>stk = [[5, 2], [95, - 1, 2]], stkerr = False\<rparr> = Some \<lparr>stk = [[- 1, 2]], stkerr = False\<rparr> \<and>
    rat [5, 2] * rat [95, - 1, 2] = - 25 / 10 ^ 4 \<and> rat [- 1, 2] = - 1 / 10 ^ 2"
proof -
  have "mult [5] [95, - 1] = [75, - 1]"
    by (simp add: mult_def negative_def chsign_def Let_def)
  then show ?thesis
    by (simp add: times_cmd_def pop_def pushp_def removc_def rat_def)
qed

end
