(* ===== verification/DcRoot.thy ===== *)
theory DcRoot
  imports DcCmd
begin

text \<open>
  Square roots and powers of the desk calculator: the iteration of \<open>sqrt\<close> ends, and its result is
  the integer square root; the loop of \<open>exp\<close> ends with the power.
\<close>

section \<open>Heron's iteration on integers\<close>

lemma heron_upper:
  fixes n r :: int
  assumes "0 < r" "0 \<le> n"
  shows "n < ((n div r + r) div 2 + 1) ^ 2"
proof (rule ccontr)
  define x where "x = (n div r + r) div 2 + 1"
  assume "\<not> n < ((n div r + r) div 2 + 1) ^ 2"
  then have le: "x ^ 2 \<le> n" by (simp add: x_def)
  have "n div r + r + 1 \<le> 2 * x" 
    using div_bounds(2) [of 2 "n div r + r"] by (simp add: x_def)
  then have "r * (n div r + r + 1) \<le> r * (2 * x)" using assms(1) by (intro mult_left_mono) auto
  moreover have "n < r * (n div r) + r" using div_bounds(2) [OF assms(1), of n] .
  ultimately have "n + r * r < 2 * (r * x)" by (simp add: algebra_simps)
  moreover have "0 \<le> (x - r) ^ 2" by simp
  ultimately show False using le by (simp add: power2_eq_square algebra_simps)
qed

lemma heron_stop:
  fixes n r :: int
  assumes "0 < r" "r \<le> (n div r + r) div 2"
  shows "r ^ 2 \<le> n"
proof -
  have "r \<le> n div r" using assms(2) by linarith
  then have "r * r \<le> r * (n div r)" using assms(1) by (intro mult_left_mono) auto
  also have "\<dots> \<le> n" using div_bounds(1) [OF assms(1), of n] .
  finally show ?thesis by (simp add: power2_eq_square)
qed

section \<open>The square root of a block\<close>

lemma positive_divisor: "trim p \<Longrightarrow> 0 < val p \<Longrightarrow> divisor p"
  using trim_nonneg [of p] by auto

lemma divisor_nonneg: "divisor p \<Longrightarrow> \<not> last p < 0"
  unfolding divisor_def digits_def by (metis last_in_set not_less)

lemma sqrt_loop_ok:
  assumes "divisor p" "divisor r" "val p < (val r + 1) ^ 2"
  shows "\<exists>x. sqrt_loop p r = Some x \<and> divisor x \<and> val x ^ 2 \<le> val p \<and> val p < (val x + 1) ^ 2"
  using assms
proof (induction "nat (val r)" arbitrary: r rule: less_induct)
  case less
  define n where "n = val p"
  have pos: "0 < n" "0 < val r" using divisor_pos less.prems by (auto simp: n_def)
  obtain q q' where q: "div_blk p r = Some (q, q')" "val q = n div val r" "trim q"
    by (rule div_blk_spec [OF divisor_number [OF less.prems(1)] divisor_trim [OF less.prems(2)]])
      (use less.prems(2) pos in \<open>auto simp: divisor_def n_def\<close>)
  define s where "s = add q r"
  have s: "number s" "val s = n div val r + val r" "0 \<le> val s"
    using add_val [OF trim_number [OF q(3)] divisor_number [OF less.prems(2)]] pos q(2)
    by (simp_all add: s_def canon_def pos_imp_zdiv_nonneg_iff)
  define m where "m = (n div val r + val r) div 2"
  obtain x x' where x: "div_blk s sqtemp = Some (x, x')" "val x = m" "trim x"
    by (rule div_blk_spec [OF s(1) divisor_trim [OF sqtemp_divisor]]) (use s(2,3) in \<open>auto simp: m_def\<close>)
  define t where "t = add (chsign r) x"
  have t: "canon t" "val t = m - val r"
    using add_val [of "chsign r" x] chsign_val [OF divisor_number [OF less.prems(2)]] trim_number [OF x(3)] x(2)
    by (simp_all add: t_def)
  have stop: "t = [] \<or> 0 \<le> last t \<longleftrightarrow> val r \<le> m"
    using canon_zero [OF t(1)] canon_sign [OF t(1)] t(2) by auto
  have step: "sqrt_loop p r = (if val r \<le> m then Some r else sqrt_loop p x)"
    using q(1) x(1) stop by (simp add: sqrt_loop.simps [of p r] s_def t_def)
  show ?case
  proof (cases "val r \<le> m")
    case True
    then show ?thesis using step less.prems heron_stop [OF pos(2), of n] by (simp add: m_def n_def)
  next
    case False
    have up: "n < (m + 1) ^ 2" using heron_upper [OF pos(2), of n] pos(1) by (simp add: m_def)
    have "m \<noteq> 0" using up pos(1) by auto
    moreover have "0 \<le> m" using s(2,3) by (simp add: m_def)
    ultimately have "divisor x" using positive_divisor [OF x(3)] x(2) by simp
    moreover have "nat (val x) < nat (val r)" using False x(2) pos(2) by simp
    ultimately show ?thesis using less.hyps [of x] less.prems(1) up step False x(2) by (simp add: n_def)
  qed
qed

lemma odd_root_ok:
  assumes "c = C - int (j ^ 2)" "0 \<le> C"
  shows "\<exists>m. odd_root c (2 * j + 1) = 2 * m + 1 \<and> C < int ((m + 1) ^ 2) \<and> (m = j \<or> int (m ^ 2) \<le> C)"
  using assms(1)
proof (induction "nat c" arbitrary: c j rule: less_induct)
  case less
  show ?case
  proof (cases "c - int (2 * j + 1) \<ge> 0")
    case True
    define d where "d = c - int (2 * j + 1)"
    have d: "d = C - int ((j + 1) ^ 2)" using less.prems by (simp add: d_def power2_eq_square algebra_simps)
    have "nat d < nat c" using True by (simp add: d_def)
    then obtain m where m: "odd_root d (2 * (j + 1) + 1) = 2 * m + 1" "C < int ((m + 1) ^ 2)"
      "m = j + 1 \<or> int (m ^ 2) \<le> C"
      using less.hyps d by blast
    have "int ((j + 1) ^ 2) \<le> C" using d True by (simp add: d_def)
    moreover have "odd_root c (2 * j + 1) = odd_root d (2 * (j + 1) + 1)"
      using True by (simp add: odd_root.simps [of c] d_def)
    ultimately show ?thesis using m by (intro exI [of _ m]) auto
  next
    case False
    then show ?thesis
      using less.prems by (intro exI [of _ j]) (simp add: odd_root.simps [of c] power2_eq_square algebra_simps)
  qed
qed

lemma sqrt_start_ok:
  assumes "divisor p"
  shows "divisor (sqrt_start p)" "val p < val (sqrt_start p) ^ 2"
proof -
  obtain lo t where p: "p = lo @ [t]" using assms by (cases p rule: rev_cases) (auto simp: divisor_def)
  then have lo: "digits lo" "1 \<le> t" "t \<le> 99" "0 \<le> val lo" "val lo < 100 ^ length lo"
    using assms digits_val [of lo] by (auto simp: divisor_def)
  define c where "c = (if odd (length p) then sback p 0 else sback p 0 * 100 + sback p 1)"
  define z where "z = (length p + 1) div 2 - 1"
  have c: "0 \<le> c \<and> c \<le> 9999 \<and> val p < (c + 1) * 100 ^ (2 * z)"
  proof (cases "odd (length p)")
    case True
    then have "2 * z = length lo" by (auto simp: z_def p elim!: oddE)
    with True lo show ?thesis by (simp add: c_def p val_append algebra_simps)
  next
    case False
    then obtain xs s where xs: "lo = xs @ [s]" by (cases lo rule: rev_cases) (auto simp: p)
    have d: "digits xs" "0 \<le> s" "s \<le> 99" using lo(1) xs by auto
    have "2 * z = length xs" using False by (auto simp: z_def p xs elim!: evenE)
    with False lo digits_val [OF d(1)] d show ?thesis
      by (simp add: c_def p xs val_append algebra_simps)
  qed
  obtain m where m: "odd_root c 1 = 2 * m + 1" "c < int ((m + 1) ^ 2)" "m = 0 \<or> int (m ^ 2) \<le> c"
    using odd_root_ok [of c c 0] c by auto
  have m100: "m < 100"
  proof (rule ccontr)
    assume "\<not> m < 100"
    then have "(100::int) ^ 2 \<le> int m ^ 2" by (intro power_mono) auto
    then show False using m(3) c \<open>\<not> m < 100\<close> by auto
  qed
  have e: "sqrt_start p = (if m = 99 then replicate z 0 @ [0, 1] else replicate z 0 @ [int m + 1])"
    using m(1) m100 by (auto simp: sqrt_start_def c_def [symmetric] z_def Let_def)
  have dz: "digits (replicate z 0)" by (induction z) simp_all
  show "divisor (sqrt_start p)" using dz m100 by (simp add: e divisor_def)
  have v: "val (sqrt_start p) = 100 ^ z * (int m + 1)" using e by simp
  have "c < (int m + 1) ^ 2" using m(2) by (simp add: add.commute)
  then have "(c + 1) * 100 ^ (2 * z) \<le> (int m + 1) ^ 2 * 100 ^ (2 * z)"
    by (intro mult_right_mono) auto
  also have "\<dots> = val (sqrt_start p) ^ 2"
    by (simp add: v power_mult_distrib power_mult [symmetric] mult.commute)
  finally show "val p < val (sqrt_start p) ^ 2" using c by linarith
qed

lemma sqrt_blk_ok:
  assumes "divisor p"
  shows "\<exists>x. sqrt_blk p = Some x \<and> divisor x \<and> val x ^ 2 \<le> val p \<and> val p < (val x + 1) ^ 2"
proof -
  have "0 < val (sqrt_start p)" using sqrt_start_ok(1) [OF assms] by (rule divisor_pos)
  then have "val (sqrt_start p) ^ 2 \<le> (val (sqrt_start p) + 1) ^ 2" by (intro power_mono) auto
  then show ?thesis
    using sqrt_loop_ok [OF assms sqrt_start_ok(1) [OF assms]] sqrt_start_ok(2) [OF assms]
    by (simp add: sqrt_blk_def)
qed

text \<open>
  C14: The command \<open>v\<close> ends, and its result is the square root cut off at the larger of the scale set
  by \<open>k\<close> and the scale of the number. Zero is left as it is.
\<close>

theorem sqrt_cmd_exact:
  assumes "stk s = p # ps" "\<not> stkerr s" "entry p" "0 \<le> rat p" "0 \<le> k" "k \<le> 99" "length ps < 99"
  shows "\<exists>r. sqrt_cmd k s = Some (s\<lparr>stk := r # ps\<rparr>) \<and> entry r \<and>
    (if rat p = 0 then r = p
     else last r = max k (last p) \<and> 0 \<le> rat r \<and> rat r ^ 2 \<le> rat p \<and> rat p < (rat r + 1 / 10 ^ nat (last r)) ^ 2)"
proof -
  obtain a m where p: "p = a @ [m]" "trim a" "number a" "0 \<le> m" "m \<le> 127" "rat p = real_of_int (val a) / 10 ^ nat m"
    using entry_cases [OF assms(3)] .
  have a0: "0 \<le> val a" using assms(4) by (simp add: p(6) pos_le_divide_eq)
  show ?thesis
  proof (cases "a = []")
    case True
    then have "sqrt_cmd k s = Some (s\<lparr>stk := p # ps\<rparr>)"
      using assms(1,2,7) p by (cases s) (simp add: sqrt_cmd_def pop_def pushp_def)
    then show ?thesis using True p(6) assms(3) by (intro exI [of _ p]) simp
  next
    case False
    then have d: "divisor a" using trim_nonneg [OF p(2) a0] by simp
    define sc where "sc = max k m"
    define n where "n = (if k < m then m else k * 2 - m)"
    define x where "x = add0 a (nat n)"
    have n: "m + n = 2 * sc" "0 \<le> n" "0 \<le> sc" "sc \<le> 127" using p(4,5) assms(5,6) by (auto simp: n_def sc_def)
    have x: "trim x" "val x = 10 ^ nat n * val a"
      using add0_trim [OF p(2) False] add0_val(1) [OF p(3)] by (simp_all add: x_def)
    have "divisor x" using positive_divisor [OF x(1)] x(2) divisor_pos [OF d] by simp
    then obtain r where r: "sqrt_blk x = Some r" "divisor r" "val r ^ 2 \<le> val x" "val x < (val r + 1) ^ 2"
      using sqrt_blk_ok by blast
    have l: "\<not> last a < 0" by (rule divisor_nonneg [OF d])
    have c: "sqrt_cmd k s = Some (s\<lparr>stk := (r @ [sc]) # ps\<rparr>)"
      using assms(1,2,7) p(1) False l r(1)
      by (cases s) (auto simp: sqrt_cmd_def pop_def pushp_def sc_def x_def n_def)
    define T :: real where "T = 10 ^ nat sc"
    have T: "0 < T" "T ^ 2 = 10 ^ nat m * 10 ^ nat n"
      using n p(4) by (simp_all add: T_def power_mult [symmetric] power_add [symmetric] nat_add_distrib [symmetric]
          nat_mult_distrib mult.commute)
    have v: "rat (r @ [sc]) = real_of_int (val r) / T" "rat p = real_of_int (val x) / T ^ 2"
      by (simp_all add: rat_snoc T_def [symmetric] p(6) x(2)) (simp add: T(2))
    have b: "real_of_int (val r) ^ 2 \<le> real_of_int (val x)" "real_of_int (val x) < (real_of_int (val r) + 1) ^ 2"
    proof -
      have "real_of_int (val r ^ 2) \<le> real_of_int (val x)" using r(3) by (simp only: of_int_le_iff)
      then show "real_of_int (val r) ^ 2 \<le> real_of_int (val x)" by simp
      have "real_of_int (val x) < real_of_int ((val r + 1) ^ 2)" using r(4) by (simp only: of_int_less_iff)
      then show "real_of_int (val x) < (real_of_int (val r) + 1) ^ 2" by simp
    qed
    have "rat (r @ [sc]) + 1 / T = (real_of_int (val r) + 1) / T" by (simp add: v add_divide_distrib)
    then have "rat (r @ [sc]) ^ 2 \<le> rat p" "rat p < (rat (r @ [sc]) + 1 / T) ^ 2"
      using b T(1) by (simp_all add: v power_divide divide_right_mono divide_strict_right_mono)
    moreover have "0 \<le> rat (r @ [sc])" using divisor_pos [OF r(2)] T(1) by (simp add: v)
    moreover have "rat p \<noteq> 0" using divisor_pos [OF d] by (simp add: p(6))
    ultimately show ?thesis
      using c divisor_trim [OF r(2)] n(3,4) p(1) by (intro exI [of _ "r @ [sc]"]) (simp add: T_def sc_def)
  qed
qed

lemma sqrt_cmd_exact_witness:
  "\<exists>r. sqrt_cmd 5 \<lparr>stk = [[2, 0]], stkerr = False\<rparr> = Some \<lparr>stk = [r], stkerr = False\<rparr> \<and>
    rat r ^ 2 \<le> 2 \<and> 2 < (rat r + 1 / 10 ^ 5) ^ 2"
proof -
  have "trim [2]" by (rule divisor_trim) (simp add: divisor_def)
  then show ?thesis
    using sqrt_cmd_exact [of "\<lparr>stk = [[2, 0]], stkerr = False\<rparr>" "[2, 0]" "[]" 5]
    by (auto simp: entry_def rat_def)
qed

section \<open>Powers\<close>

lemma exp_loop_ok:
  assumes "e = [] \<or> divisor e" "trim p" "tight r"
  shows "\<exists>x. exp_loop e p r = Some x \<and> tight x \<and> val x = val r * val p ^ nat (val e)"
  using assms
proof (induction "nat (val e)" arbitrary: e p r rule: less_induct)
  case less
  show ?case
  proof (cases "e = []")
    case True
    then show ?thesis using less.prems by (simp add: exp_loop.simps [of "[]"])
  next
    case False
    then have e: "divisor e" "number e" "0 < val e"
      using less.prems(1) divisor_number divisor_pos by auto
    obtain q t where q: "div_blk e sqtemp = Some (q, t)" "val q = val e div 2" "val t = val e mod 2"
        "trim q" "trim t"
      by (rule div_blk_spec [OF e(2) divisor_trim [OF sqtemp_divisor]]) (use e divisor_trim in auto)
    define r' where "r' = (if t \<noteq> [] then mult p r else r)"
    have t: "t \<noteq> [] \<longleftrightarrow> odd (val e)" using trim_zero [OF q(5)] q(3) by (auto simp: even_iff_mod_2_eq_zero)
    have p: "trim (mult p p)" "val (mult p p) = val p * val p"
      using tight_trim [OF mult_tight] mult_val(1) trim_number less.prems(2) by auto
    have r': "tight r'" "val r' = (if odd (val e) then val p * val r else val r)"
      using t less.prems(2,3) mult_tight [OF less.prems(2) tight_trim] mult_val(1) trim_number tight_trim
      by (auto simp: r'_def)
    have "nat (val q) < nat (val e)" using e(3) q(2) by auto
    moreover have "q = [] \<or> divisor q" using trim_nonneg [OF q(4)] e(3) q(2) by simp
    ultimately obtain x where x: "exp_loop q (mult p p) r' = Some x" "tight x"
      "val x = val r' * val (mult p p) ^ nat (val q)"
      using less.hyps p r' by blast
    have "nat (val e) = 2 * nat (val q) + (if odd (val e) then 1 else 0)"
    proof -
      have "nat (val q) = nat (val e) div 2" "odd (val e) \<longleftrightarrow> odd (nat (val e))"
        using e(3) by (simp_all add: q(2) nat_div_distrib even_nat_iff)
      then show ?thesis by simp
    qed
    then have "val x = val r * val p ^ nat (val e)"
      using x(3) p(2) r'(2) by (simp add: power_add power_mult power2_eq_square)
    then show ?thesis using x q(1) False by (simp add: exp_loop.simps [of e] r'_def)
  qed
qed

lemma exp_blk_ok:
  assumes "e = [] \<or> divisor e" "trim p"
  shows "\<exists>x. exp_blk p e = Some x \<and> tight x \<and> val x = val p ^ nat (val e)"
proof -
  have one: "tight [1]" by (rule divisor_tight) (simp add: divisor_def)
  have "e \<noteq> [] \<Longrightarrow> \<not> last e < 0" using assms(1) divisor_nonneg by auto
  then show ?thesis
    using exp_loop_ok [OF assms one] one by (auto simp: exp_blk_def)
qed

text \<open>
  For an exponent from 0 to 9999 the command \<open>^\<close> ends and computes the power, cut off at the
  larger of \<open>k\<close> and the scale of the base when its own scale is larger than that. The result is
  exact where nothing is cut off.
\<close>

lemma exp_cmd_exact:
  assumes "stk s = p # q # ps" "\<not> stkerr s" "entry p" "entry q" "last p = 0" "0 \<le> rat p" "rat p < 10000"
    and "0 \<le> k" "k \<le> 99" "length ps < 99"
  defines "sc \<equiv> min (\<lfloor>rat p\<rfloor> * last q) (max k (last q))"
  shows "\<exists>r. exp_cmd k s = Some (s\<lparr>stk := r # ps\<rparr>) \<and> entry r \<and> last r = sc \<and>
    (sc = \<lfloor>rat p\<rfloor> * last q \<or> 0 \<le> rat q \<longrightarrow>
       rat r = real_of_int (rtrunc (rat q ^ nat \<lfloor>rat p\<rfloor> * 10 ^ nat sc)) / 10 ^ nat sc)"
proof -
  obtain e where p: "p = e @ [0]" "trim e" "rat p = real_of_int (val e)"
    using entry_cases [OF assms(3)] assms(5) by (metis div_by_1 last_snoc nat_0 nat_zero_as_int power_0)
  obtain b n where q: "q = b @ [n]" "trim b" "number b" "0 \<le> n" "n \<le> 127" "rat q = real_of_int (val b) / 10 ^ nat n"
    using entry_cases [OF assms(4)] .
  have e: "0 \<le> val e" "val e < 10000" using assms(6,7) by (simp_all add: p(3))
  have ed: "e = [] \<or> divisor e" by (rule trim_nonneg [OF p(2) e(1)])
  have len: "length e < 3"
  proof (rule ccontr)
    assume "\<not> length e < 3"
    moreover from this have "(100::int) ^ 2 \<le> weight e" by (intro power_increasing) auto
    ultimately show False using divisor_val [of e] ed e(2) by auto
  qed
  define d where "d = val e * n"
  have c: "exp_value e * n = d"
    using len by (auto simp: d_def exp_value_def split: list.splits)
  have l: "\<not> (e \<noteq> [] \<and> last e < 0)" using ed divisor_nonneg by auto
  have sc: "sc = min d (max k n)" by (simp add: sc_def p(3) q(1) d_def)
  have d0: "0 \<le> d" using e(1) q(4) by (simp add: d_def)
  then have scb: "0 \<le> sc" "sc \<le> 127" using q(4,5) assms(8,9) by (auto simp: sc min_def max_def)
  obtain x where x: "exp_blk b e = Some x" "tight x" "val x = val b ^ nat (val e)"
    using exp_blk_ok [OF ed q(2)] by blast
  have "(10::real) ^ (nat n * nat (val e)) = 10 ^ nat sc * 10 ^ nat (d - sc)"
    using e(1) q(4) scb(1) sc d0
    by (simp add: power_add [symmetric] nat_add_distrib [symmetric] nat_mult_distrib [symmetric] d_def mult.commute)
  then have v: "rat q ^ nat (val e) * 10 ^ nat sc = real_of_int (val x) / real_of_int (10 ^ nat (d - sc))"
    by (simp add: q(6) x(3) power_divide power_mult [symmetric] field_simps)
  obtain r where r: "removc x (nat (d - sc)) = Some r" "trim r" "0 \<le> val x \<longrightarrow> val r = val x div 10 ^ nat (d - sc)"
    using removc_ok [OF x(2)] by blast
  define y where "y = (if sc = d then x else r)"
  have y: "trim y" "sc = d \<or> 0 \<le> val x \<Longrightarrow> val y = cdiv (val x) (10 ^ nat (d - sc))"
    using r tight_trim [OF x(2)] by (auto simp: y_def mult_sgn_abs cdiv_def [of _ 1])
  have cmd: "exp_cmd k s = Some (s\<lparr>stk := (y @ [sc]) # ps\<rparr>)"
  proof -
    have "max k n < d \<longleftrightarrow> sc \<noteq> d" "sc \<noteq> d \<Longrightarrow> sc = max k n" using sc by auto
    then show ?thesis
      using assms(1,2,10) p(1) q(1) l len c x(1) r(1)
      by (cases s) (auto simp: exp_cmd_def exp_result_def pop_def pushp_def y_def Let_def)
  qed
  have "rat (y @ [sc]) = real_of_int (rtrunc (rat q ^ nat (val e) * 10 ^ nat sc)) / 10 ^ nat sc"
    if "sc = d \<or> 0 \<le> rat q"
  proof -
    have "0 \<le> rat q \<Longrightarrow> 0 \<le> val x" by (simp add: q(6) x(3) pos_le_divide_eq)
    then have "val y = cdiv (val x) (10 ^ nat (d - sc))" using y(2) that by auto
    then show ?thesis unfolding rat_snoc v by (simp add: cdiv_rtrunc)
  qed
  with cmd y(1) scb show ?thesis
    by (intro exI [of _ "y @ [sc]"]) (simp add: p(3) q(1) d_def)
qed

lemma exp_cmd_exact_witness:
  "\<exists>r. exp_cmd 3 \<lparr>stk = [[10, 0], [11, 1]], stkerr = False\<rparr> = Some \<lparr>stk = [r], stkerr = False\<rparr> \<and>
    last r = 3 \<and> rat r = real_of_int (rtrunc ((11 / 10) ^ 10 * 1000)) / 1000"
proof -
  have "trim [10]" "trim [11]" by (auto intro: divisor_trim simp: divisor_def)
  then show ?thesis
    using exp_cmd_exact [of "\<lparr>stk = [[10, 0], [11, 1]], stkerr = False\<rparr>" "[10, 0]" "[11, 1]" "[]" 3]
    by (auto simp: entry_def rat_def)
qed

text \<open>
  A power on a stack of one number reports "stack empty" and puts the number back without its
  scale, so that its last digit pair becomes the scale: 2 turns into a zero of scale 2.
\<close>

lemma exp_cmd_short:
  assumes "stk s = [a @ [0]]" "\<not> stkerr s"
  shows "exp_cmd k s = Some (s\<lparr>stk := [a], stkerr := False\<rparr>)"
  using assms by (cases s) (simp add: exp_cmd_def pop_def pushp_def)

lemma exp_cmd_short_witness:
  "exp_cmd 0 \<lparr>stk = [[2, 0]], stkerr = False\<rparr> = Some \<lparr>stk = [[2]], stkerr = False\<rparr> \<and> rat [2, 0] = 2 \<and> rat [2] = 0"
  using exp_cmd_short [of "\<lparr>stk = [[2, 0]], stkerr = False\<rparr>" "[2]" 0] by (simp add: rat_def)

end
