(* ===== verification/DcIO.thy ===== *)
theory DcIO
  imports DcRoot
begin

text \<open>
  Numbers on their way in and out of the desk calculator: \<open>readin\<close> with \<open>scale\<close>, and \<open>print\<close> with
  \<open>tenot\<close> for the output base ten (\<open>cmd/dc/dc.c\<close>). The input is the list of characters still to be
  read; where it is exhausted \<open>readc\<close> ends the program, which is \<^term>\<open>None\<close>.
\<close>

section \<open>The code\<close>

subsection \<open>Input\<close>

text \<open>\<open>scale\<close> divides by the input base to the power of the number of digits after the point.\<close>

definition scale :: "blk \<Rightarrow> blk \<Rightarrow> nat \<Rightarrow> blk option" where
  "scale inbas p n =
     (case exp_blk inbas [int n] of
        None \<Rightarrow> None
      | Some s \<Rightarrow> map_option (\<lambda>(q, rem). q @ [int n]) (div_blk (add0 p n) s))"

definition digit_value :: "char \<Rightarrow> int option" where
  "digit_value c =
     (if CHR ''A'' \<le> c \<and> c \<le> CHR ''F'' then Some (int (of_char c) - 65 + 10)
      else if CHR ''0'' \<le> c \<and> c \<le> CHR ''9'' then Some (int (of_char c) - 48)
      else None)"

definition next_digit :: "blk \<Rightarrow> int \<Rightarrow> blk \<Rightarrow> blk" where
  "next_digit inbas c p = add (if c \<noteq> 0 then [c] else []) (mult p inbas)"

fun readin_loop :: "blk \<Rightarrow> cstr \<Rightarrow> bool \<Rightarrow> nat \<Rightarrow> blk \<Rightarrow> (blk \<times> bool \<times> nat \<times> cstr) option" where
  "readin_loop inbas [] dp dpct p = None"
| "readin_loop inbas (c # s) dp dpct p =
     (if c = CHR ''.'' then (if dp then Some (p, dp, dpct, c # s) else readin_loop inbas s True dpct p)
      else if c = CHR 0x5C then
        (case s of [] \<Rightarrow> None | _ # s \<Rightarrow> readin_loop inbas s dp dpct p)
      else (case digit_value c of
              None \<Rightarrow> Some (p, dp, dpct, c # s)
            | Some d \<Rightarrow>
                if dp \<and> dpct \<ge> 99 then readin_loop inbas s dp dpct p
                else readin_loop inbas s dp (if dp then dpct + 1 else dpct) (next_digit inbas d p)))"

text \<open>A fraction in another base than ten is brought to the precision that \<open>k\<close> sets.\<close>

definition readin :: "blk \<Rightarrow> nat \<Rightarrow> cstr \<Rightarrow> (blk \<times> cstr) option" where
  "readin inbas k s =
     (case readin_loop inbas s False 0 [] of
        None \<Rightarrow> None
      | Some (p, dp, dpct, s) \<Rightarrow>
          if \<not> dp then Some (p @ [0], s)
          else let more = (if hd inbas \<noteq> 10 then k - dpct else 0)
               in map_option (\<lambda>q. (q, s)) (scale inbas (((next_digit inbas 0) ^^ more) p) (dpct + more)))"

subsection \<open>Output\<close>

definition dchar :: "int \<Rightarrow> char" where
  "dchar d = char_of (nat (48 + d))"

text \<open>\<open>tenot\<close>: the digits before the point, from the list of digits with the highest first.\<close>

fun before_point :: "nat \<Rightarrow> bool \<Rightarrow> blk \<Rightarrow> cstr \<times> blk" where
  "before_point sc f [] = ([], [])"
| "before_point sc f (c # ds) =
     (if 2 * length ds \<ge> sc then
        let (out, rest) = before_point sc True ds
        in ((if c < 10 then (if f then ''0'' else []) @ [dchar c] else [dchar (c div 10), dchar (c mod 10)]) @ out, rest)
      else ([], c # ds))"

text \<open>The digits after it; reading before the beginning of the block yields -1.\<close>

fun pairs :: "nat \<Rightarrow> blk \<Rightarrow> cstr" where
  "pairs (Suc (Suc sc)) ds =
     (case ds of
        [] \<Rightarrow> ''0-1'' @ pairs sc []
      | c # ds \<Rightarrow> (if c < 10 then [CHR ''0'', dchar c] else [dchar (c div 10), dchar (c mod 10)]) @ pairs sc ds)"
| "pairs (Suc 0) ds = [dchar (case ds of [] \<Rightarrow> 0 | c # _ \<Rightarrow> c div 10)]"
| "pairs 0 ds = []"

definition after_point :: "nat \<Rightarrow> blk \<Rightarrow> cstr" where
  "after_point sc ds =
     (if sc = 0 then []
      else let (out, ds, sc) =
                 (if 2 * length ds > sc then
                    ([dchar (hd ds div 10), CHR ''.'', dchar (hd ds mod 10)], tl ds, sc - 1)
                  else (''.'', ds, sc));
               zeros = sc - 2 * length ds
           in out @ replicate zeros (CHR ''0'') @ pairs (sc - zeros) ds)"

definition tenot_chars :: "blk \<Rightarrow> nat \<Rightarrow> cstr" where
  "tenot_chars p sc =
     (let (out, rest) = before_point sc False (rev p) in out @ after_point sc rest)"

text \<open>\<open>CHECKEND\<close> before every character: a backslash and a newline when the line is full.\<close>

fun wrap :: "nat \<Rightarrow> int \<Rightarrow> cstr \<Rightarrow> cstr" where
  "wrap ll count [] = []"
| "wrap ll count (c # s) =
     (if count = 2 then [CHR 0x5C, CHR ''\<newline>'', c] @ wrap ll (int ll - 1) s
      else c # wrap ll (count - 1) s)"

text \<open>
  \<open>print\<close> for the output base ten. A block with a digit above 99 is a string; a block without digits
  under its scale is 0.
\<close>

definition print_dec :: "nat \<Rightarrow> blk \<Rightarrow> cstr" where
  "print_dec ll hptr =
     (if \<exists>d \<in> set hptr. d > 99 then map (\<lambda>d. char_of (nat (d mod 256))) hptr @ [CHR ''\<newline>'']
      else if length hptr \<le> 1 then [CHR ''0'', CHR ''\<newline>'']
      else let sc = nat (last hptr); p = butlast hptr in
      if last p < 0 then
        let count = int ll - 1; count' = (if count = 0 then int ll else count) in
        [CHR ''-''] @ (if count = 0 then [CHR 0x5C, CHR ''\<newline>''] else []) @
          wrap ll count' (tenot_chars (chsign p) sc) @ [CHR ''\<newline>'']
      else wrap ll (int ll) (tenot_chars p sc) @ [CHR ''\<newline>''])"

section \<open>Printed digits\<close>

abbreviation decimals :: "int list \<Rightarrow> bool" where
  "decimals ds \<equiv> \<forall>d \<in> set ds. 0 \<le> d \<and> d \<le> 9"

definition dec :: "int \<Rightarrow> int list \<Rightarrow> int" where
  "dec v ds = foldl (\<lambda>v d. 10 * v + d) v ds"

lemma dec_simps [simp]:
  "dec v [] = v" "dec v (d # ds) = dec (10 * v + d) ds" "dec v (ds @ es) = dec (dec v ds) es"
  "dec v (replicate n 0) = 10 ^ n * v"
proof -
  show "dec v (replicate n 0) = 10 ^ n * v" by (induction n arbitrary: v) (simp_all add: dec_def)
qed (simp_all add: dec_def)

lemma two_digits: "0 \<le> c \<Longrightarrow> c \<le> 99 \<Longrightarrow> 0 \<le> c div 10 \<and> c div 10 \<le> 9 \<and> 0 \<le> c mod 10 \<and> c mod 10 \<le> (9::int)"
  by auto

lemma dchar_0: "dchar 0 = CHR ''0''"
  by code_simp

text \<open>A pair is always two digits; before the first digit of a number a leading zero is left out.\<close>

lemma pair_dec:
  assumes "0 \<le> c" "c \<le> 99"
  shows "\<exists>ds. (if c < 10 then [CHR ''0'', dchar c] else [dchar (c div 10), dchar (c mod 10)]) = map dchar ds \<and>
    decimals ds \<and> length ds = 2 \<and> (\<forall>v. dec v ds = 100 * v + c)"
  by (rule exI [of _ "[c div 10, c mod 10]"]) (use assms two_digits [of c] in \<open>auto simp: dchar_0\<close>)

lemma pairs_dec:
  "digits ds \<Longrightarrow> \<exists>es. pairs (2 * length ds) ds = map dchar es \<and> decimals es \<and> length es = 2 * length ds \<and>
     (\<forall>v. dec v es = v * 100 ^ length ds + val (rev ds))"
proof (induction ds)
  case (Cons c ds)
  then obtain es where es: "pairs (2 * length ds) ds = map dchar es" "decimals es" "length es = 2 * length ds"
    "\<forall>v. dec v es = v * 100 ^ length ds + val (rev ds)" by auto
  obtain x where x: "(if c < 10 then [CHR ''0'', dchar c] else [dchar (c div 10), dchar (c mod 10)]) = map dchar x"
    "decimals x" "length x = 2" "\<forall>v. dec v x = 100 * v + c"
    using pair_dec [of c] Cons.prems by auto
  have "pairs (2 * length (c # ds)) (c # ds) = map dchar (x @ es)"
    using x(1) es(1) by (simp del: if_split)
  then show ?case
    using es x by (intro exI [of _ "x @ es"]) (auto simp: val_append algebra_simps)
qed (rule exI [of _ "[]"], simp)

lemma before_point_dec:
  "digits ds \<Longrightarrow> before_point sc f ds = (out, rest) \<Longrightarrow>
     digits rest \<and> (rest = [] \<or> 2 * length rest < sc + 2) \<and> (2 * length rest < sc \<longrightarrow> rest = ds \<and> out = []) \<and>
     (\<exists>es. out = map dchar es \<and> decimals es \<and>
       (\<forall>v. f \<or> v = 0 \<longrightarrow> dec v es * 100 ^ length rest + val (rev rest) = v * 100 ^ length ds + val (rev ds)))"
proof (induction sc f ds arbitrary: out rest rule: before_point.induct)
  case (2 sc f c ds)
  show ?case
  proof (cases "2 * length ds \<ge> sc")
    case True
    obtain o' where b: "before_point sc True ds = (o', rest)"
      "out = (if c < 10 then (if f then ''0'' else []) @ [dchar c] else [dchar (c div 10), dchar (c mod 10)]) @ o'"
      using 2(3) True by (auto split: prod.splits)
    have c: "0 \<le> c" "c \<le> 99" using 2(2) by auto
    obtain es where es: "digits rest" "rest = [] \<or> 2 * length rest < sc + 2" "2 * length rest < sc \<longrightarrow> rest = ds"
      "o' = map dchar es" "decimals es"
      "\<forall>v. dec v es * 100 ^ length rest + val (rev rest) = v * 100 ^ length ds + val (rev ds)"
      using 2(1) [OF True _ b(1)] 2(2) by auto
    obtain x where x: "(if c < 10 then (if f then ''0'' else []) @ [dchar c] else [dchar (c div 10), dchar (c mod 10)]) = map dchar x"
      "decimals x" "\<forall>v. f \<or> v = 0 \<longrightarrow> dec v x = 100 * v + c"
    proof (cases "f \<or> c \<ge> 10")
      case True
      moreover obtain x where "(if c < 10 then [CHR ''0'', dchar c] else [dchar (c div 10), dchar (c mod 10)]) = map dchar x"
        "decimals x" "\<forall>v. dec v x = 100 * v + c"
        using pair_dec [OF c] by auto
      ultimately show thesis by (intro that [of x]) auto
    next
      case False
      then show thesis using that [of "[c]"] c by auto
    qed
    have "f \<or> v = 0 \<longrightarrow> dec v (x @ es) * 100 ^ length rest + val (rev rest) = v * 100 ^ length (c # ds) + val (rev (c # ds))" for v
      using es(6) x(3) by (auto simp: val_append algebra_simps)
    then show ?thesis
      using es x b(2) True by (intro conjI exI [of _ "x @ es"]) auto
  next
    case False
    then show ?thesis using 2(2,3) by (auto intro: exI [of _ "[]"])
  qed
qed (auto intro: exI [of _ "[]"])

lemma after_point_dec:
  assumes "digits ds" "2 * length ds < sc + 2" "0 < sc"
  shows "\<exists>xs ys. after_point sc ds = map dchar xs @ [CHR ''.''] @ map dchar ys \<and> decimals xs \<and> decimals ys \<and>
    length ys = sc \<and> (\<forall>v. dec v (xs @ ys) = v * 100 ^ length ds * 10 ^ (sc - 2 * length ds) + val (rev ds))"
proof (cases "2 * length ds > sc")
  case True
  then obtain c es where ds: "ds = c # es" "sc = 2 * length es + 1" using assms(2) by (cases ds) auto
  then have c: "0 \<le> c" "c \<le> 99" "digits es" using assms(1) by auto
  obtain ys where ys: "pairs (2 * length es) es = map dchar ys" "decimals ys" "length ys = 2 * length es"
    "\<forall>v. dec v ys = v * 100 ^ length es + val (rev es)"
    using pairs_dec [OF c(3)] by auto
  have "after_point sc ds = map dchar [c div 10] @ [CHR ''.''] @ map dchar (c mod 10 # ys)"
    using ys(1) by (simp add: after_point_def ds)
  then show ?thesis
    using ys two_digits [OF c(1,2)] ds
    by (intro exI [of _ "[c div 10]"] exI [of _ "c mod 10 # ys"]) (auto simp: val_append algebra_simps)
next
  case False
  obtain ys where ys: "pairs (2 * length ds) ds = map dchar ys" "decimals ys" "length ys = 2 * length ds"
    "\<forall>v. dec v ys = v * 100 ^ length ds + val (rev ds)"
    using pairs_dec [OF assms(1)] by auto
  define z where "z = sc - 2 * length ds"
  have "after_point sc ds = map dchar [] @ [CHR ''.''] @ map dchar (replicate z 0 @ ys)"
    using ys(1) False assms(3) by (simp add: after_point_def z_def dchar_0 map_replicate)
  then show ?thesis
    using ys False by (intro exI [of _ "[]"] exI [of _ "replicate z 0 @ ys"]) (auto simp: z_def algebra_simps)
qed

text \<open>The digits printed are those of the value, \<open>sc\<close> of them after the point.\<close>

lemma tenot_chars_dec:
  assumes "digits p"
  shows "\<exists>xs ys. tenot_chars p sc = map dchar xs @ (if sc = 0 then [] else [CHR ''.''] @ map dchar ys) \<and>
    decimals xs \<and> decimals ys \<and> length ys = sc \<and> dec 0 (xs @ ys) = val p"
proof -
  obtain out rest where b: "before_point sc False (rev p) = (out, rest)" by fastforce
  have dr: "digits (rev p)" using assms by simp
  obtain es where es: "digits rest" "rest = [] \<or> 2 * length rest < sc + 2" "2 * length rest < sc \<longrightarrow> out = []"
    "out = map dchar es" "decimals es"
    "dec 0 es * 100 ^ length rest + val (rev rest) = val p"
    using before_point_dec [OF dr b] by auto
  show ?thesis
  proof (cases "sc = 0")
    case True
    then have "rest = []" using es(2) by (cases rest) auto
    then show ?thesis
      using b es True by (intro exI [of _ es] exI [of _ "[]"]) (simp add: tenot_chars_def after_point_def)
  next
    case False
    then have l: "2 * length rest < sc + 2" using es(2) by auto
    obtain xs ys where xy: "after_point sc rest = map dchar xs @ [CHR ''.''] @ map dchar ys" "decimals xs" "decimals ys"
      "length ys = sc" "\<forall>v. dec v (xs @ ys) = v * 100 ^ length rest * 10 ^ (sc - 2 * length rest) + val (rev rest)"
      using after_point_dec [OF es(1) l] False by auto
    have "dec 0 ((es @ xs) @ ys) = val p"
    proof (cases "2 * length rest < sc")
      case True
      then have "es = []" using es(3,4) by simp
      then show ?thesis using xy(5) es(6) by simp
    next
      case False
      then show ?thesis using xy(5) es(6) by simp
    qed
    then show ?thesis
      using b es(4,5) xy \<open>sc \<noteq> 0\<close>
      by (intro exI [of _ "es @ xs"] exI [of _ ys]) (auto simp: tenot_chars_def)
  qed
qed

section \<open>Reading\<close>

abbreviation decptr :: blk where "decptr \<equiv> [10]"

lemma dchar_value: "0 \<le> d \<Longrightarrow> d \<le> 9 \<Longrightarrow> digit_value (dchar d) = Some d \<and> dchar d \<noteq> CHR ''.'' \<and> dchar d \<noteq> CHR 0x5C"
proof -
  assume "0 \<le> d" "d \<le> 9"
  then have "d \<in> {0..9}" by simp
  moreover have "{0..9} = {0, 1, 2, 3, 4, 5, 6, 7, 8, 9 :: int}" by code_simp
  ultimately have "d \<in> {0, 1, 2, 3, 4, 5, 6, 7, 8, 9}" by simp
  moreover have "\<forall>d \<in> {0, 1, 2, 3, 4, 5, 6, 7, 8, 9}.
      digit_value (dchar d) = Some d \<and> dchar d \<noteq> CHR ''.'' \<and> dchar d \<noteq> CHR 0x5C"
    by code_simp
  ultimately show ?thesis by blast
qed

lemma next_digit_dec:
  assumes "trim p" "0 \<le> d" "d \<le> 9"
  shows "trim (next_digit decptr d p)" "val (next_digit decptr d p) = 10 * val p + d"
proof -
  have t: "trim decptr" using divisor_trim [OF tenptr_divisor] by (simp add: tenptr_def)
  have m: "number (mult p decptr)" "val (mult p decptr) = 10 * val p"
    using mult_val [OF trim_number [OF assms(1)] trim_number [OF t]] by simp_all
  have n: "number (if d \<noteq> 0 then [d] else [])" using assms(2,3) number_snoc [of "[]" d] by simp
  show "trim (next_digit decptr d p)" "val (next_digit decptr d p) = 10 * val p + d"
    using tight_trim [OF add_tight [OF n m(1)]] add_val(1) [OF n m(1)] m(2) by (auto simp: next_digit_def)
qed

lemma read_digits:
  assumes "decimals ds" "trim p" "dp \<Longrightarrow> n + length ds \<le> 99"
  shows "\<exists>p'. trim p' \<and> val p' = dec (val p) ds \<and>
    readin_loop decptr (map dchar ds @ s) dp n p = readin_loop decptr s dp (if dp then n + length ds else n) p'"
  using assms
proof (induction ds arbitrary: n p)
  case (Cons d ds)
  then have d: "0 \<le> d" "d \<le> 9" by auto
  define q where "q = next_digit decptr d p"
  have q: "trim q" "val q = 10 * val p + d" using next_digit_dec [OF Cons.prems(2) d] by (simp_all add: q_def)
  obtain p' where "trim p'" "val p' = dec (val q) ds"
    "readin_loop decptr (map dchar ds @ s) dp (if dp then n + 1 else n) q =
       readin_loop decptr s dp (if dp then (if dp then n + 1 else n) + length ds else (if dp then n + 1 else n)) p'"
    using Cons.IH [of q "if dp then n + 1 else n"] Cons.prems q by auto
  then show ?case
    using dchar_value [OF d] Cons.prems(3) q(2) by (intro exI [of _ p']) (auto simp: q_def)
qed auto

text \<open>The breaks of a long line are skipped.\<close>

fun numeral_chars :: "bool \<Rightarrow> cstr \<Rightarrow> bool" where
  "numeral_chars dp [] = True"
| "numeral_chars dp (c # s) =
     (if c = CHR ''.'' then \<not> dp \<and> numeral_chars True s
      else c \<noteq> CHR 0x5C \<and> digit_value c \<noteq> None \<and> numeral_chars dp s)"

lemma numeral_chars_digits: "decimals ds \<Longrightarrow> numeral_chars dp (map dchar ds @ s) = numeral_chars dp s"
  using dchar_value by (induction ds) auto

lemma read_wrap:
  "numeral_chars dp t \<Longrightarrow>
     readin_loop inbas (wrap ll count t @ s) dp n p = readin_loop inbas (t @ s) dp n p"
  by (induction ll count t arbitrary: dp n p rule: wrap.induct) (auto split: option.splits)

section \<open>What is printed is read back\<close>

lemma exp_blk_dec:
  assumes "n \<le> 99"
  shows "\<exists>x. exp_blk decptr [int n] = Some x \<and> divisor x \<and> val x = 10 ^ n"
proof (cases "n = 0")
  case True
  have "div_blk [0] sqtemp = Some ([], [])" by code_simp
  then have "exp_blk decptr [0] = Some [1]"
    by (simp add: exp_blk_def exp_loop.simps [of "[0]"] exp_loop.simps [of "[]"])
  then show ?thesis using True by (simp add: divisor_def)
next
  case False
  then have "divisor [int n]" using assms by (simp add: divisor_def)
  then obtain x where x: "exp_blk decptr [int n] = Some x" "tight x" "val x = val decptr ^ nat (val [int n])"
    using exp_blk_ok [of "[int n]" decptr] divisor_trim [OF tenptr_divisor] by (auto simp: tenptr_def)
  moreover have "divisor x" using positive_divisor [OF tight_trim [OF x(2)]] x(3) by simp
  ultimately show ?thesis by simp
qed

lemma scale_dec:
  assumes "trim p" "n \<le> 99"
  shows "\<exists>q. scale decptr p n = Some (q @ [int n]) \<and> trim q \<and> val q = val p"
proof -
  obtain x where x: "exp_blk decptr [int n] = Some x" "divisor x" "val x = 10 ^ n"
    using exp_blk_dec [OF assms(2)] by blast
  have a: "number (add0 p n)" "val (add0 p n) = 10 ^ n * val p"
    using add0_val [OF trim_number [OF assms(1)]] by simp_all
  obtain q t where "div_blk (add0 p n) x = Some (q, t)" "val q = cdiv (10 ^ n * val p) (10 ^ n)" "trim q"
    by (rule div_blk_spec [OF a(1) divisor_trim [OF x(2)]]) (use x(2,3) a(2) in \<open>auto simp: divisor_def\<close>)
  moreover have "cdiv (10 ^ n * val p) (10 ^ n) = val p"
    by (auto simp: cdiv_def abs_mult sgn_mult mult_sgn_abs)
  ultimately show ?thesis using x(1) by (simp add: scale_def)
qed

lemma divisor_unique:
  "digits p \<Longrightarrow> digits q \<Longrightarrow> val p = val q \<Longrightarrow> (p \<noteq> [] \<longrightarrow> last p \<noteq> 0) \<Longrightarrow> (q \<noteq> [] \<longrightarrow> last q \<noteq> 0) \<Longrightarrow> p = q"
proof (induction p arbitrary: q)
  case Nil
  then show ?case using digits_val_0 [of q "last q"] by (cases "q = []") auto
next
  case (Cons d p)
  show ?case
  proof (cases q)
    case Nil
    then show ?thesis using Cons.prems digits_val_0 [of "d # p" "last (d # p)"] by (auto split: if_splits)
  next
    case q: (Cons e r)
    have "(d + 100 * val p) mod 100 = (e + 100 * val r) mod 100" using Cons.prems(3) q by simp
    then have "d = e" using Cons.prems(1,2) q by simp
    then have "val p = val r" using Cons.prems(3) q by simp
    then have "p = r" using Cons.IH [of r] Cons.prems q by (auto split: if_splits)
    then show ?thesis using \<open>d = e\<close> q by simp
  qed
qed

text \<open>
  C13: What \<open>p\<close> prints in base ten is read back as the same block: for every positive number with up
  to 99 decimals, broken over as many lines as it takes, \<open>readin\<close> consumes the printed text up to the
  newline at its end and gives the block that was printed, digits and scale.
\<close>

theorem print_readin:
  assumes "divisor p" "0 \<le> sc" "sc \<le> 99"
  shows "readin [10] k (print_dec ll (p @ [sc])) = Some (p @ [sc], [CHR 0x0A])"
proof -
  have pd: "digits p" "p \<noteq> []" "last p \<noteq> 0" using assms(1) by (simp_all add: divisor_def)
  define n where "n = nat sc"
  have n: "n \<le> 99" "int n = sc" using assms(2,3) by (simp_all add: n_def)
  obtain xs ys where t: "tenot_chars p n = map dchar xs @ (if n = 0 then [] else [CHR ''.''] @ map dchar ys)"
    "decimals xs" "decimals ys" "length ys = n" "dec 0 (xs @ ys) = val p"
    using tenot_chars_dec [OF pd(1)] by blast
  have out: "print_dec ll (p @ [sc]) = wrap ll (int ll) (tenot_chars p n) @ [CHR 0x0A]"
    using pd assms divisor_nonneg [OF assms(1)] by (auto simp: print_dec_def n_def digits_def)
  have "numeral_chars False (tenot_chars p n)"
    using t(1) numeral_chars_digits [OF t(2)] numeral_chars_digits [OF t(3), of _ "[]"] by simp
  then have r: "readin_loop decptr (print_dec ll (p @ [sc])) False 0 [] =
      readin_loop decptr (tenot_chars p n @ [CHR 0x0A]) False 0 []"
    unfolding out by (rule read_wrap)
  have stop: "readin_loop decptr [CHR 0x0A] dp m q = Some (q, dp, m, [CHR 0x0A])" for dp m q
    by (simp add: digit_value_def)
  have eq: "q = p" if "trim q" "val q = val p" for q
  proof -
    have "0 < val q" using that(2) divisor_pos [OF assms(1)] by simp
    then have "divisor q" by (rule positive_divisor [OF that(1)])
    then show ?thesis using divisor_unique [of q p] pd that(2) by (simp add: divisor_def)
  qed
  show ?thesis
  proof (cases "n = 0")
    case True
    obtain q where q: "trim q" "val q = dec 0 xs"
      "readin_loop decptr (map dchar xs @ [CHR 0x0A]) False 0 [] = readin_loop decptr [CHR 0x0A] False 0 q"
      using read_digits [OF t(2), of "[]" False 0 "[CHR 0x0A]"] by auto
    have "q = p" using eq [OF q(1)] q(2) t(4,5) True by simp
    then show ?thesis using r t(1) q(3) stop True n(2) by (simp add: readin_def)
  next
    case False
    obtain q where q: "trim q" "val q = dec 0 xs"
      "readin_loop decptr (map dchar xs @ [CHR ''.''] @ map dchar ys @ [CHR 0x0A]) False 0 [] =
         readin_loop decptr ([CHR ''.''] @ map dchar ys @ [CHR 0x0A]) False 0 q"
      using read_digits [OF t(2), of "[]" False 0 "[CHR ''.''] @ map dchar ys @ [CHR 0x0A]"] by auto
    obtain u where u: "trim u" "val u = dec (val q) ys"
      "readin_loop decptr (map dchar ys @ [CHR 0x0A]) True 0 q = readin_loop decptr [CHR 0x0A] True n u"
      using read_digits [OF t(3) q(1), of True 0 "[CHR 0x0A]"] t(4) n(1) by auto
    have up: "u = p" using eq [OF u(1)] u(2) q(2) t(5) by simp
    obtain v where v: "scale decptr p n = Some (v @ [int n])" "trim v" "val v = val p"
      using scale_dec [OF divisor_trim [OF assms(1)] n(1)] by blast
    then have "v = p" using eq by blast
    then show ?thesis using r t(1) q(3) u(3) up stop False v(1) n(2) by (simp add: readin_def)
  qed
qed

lemma print_readin_witness:
  "readin [10] 0 (print_dec 70 [5, 1, 2, 3]) = Some ([5, 1, 2, 3], [CHR 0x0A])"
  using print_readin [of "[5, 1, 2]" 3 0 70] by (simp add: divisor_def)

end
