(* ===== verification/DcType.thy ===== *)
theory DcType
  imports DcIO
begin

text \<open>
  The arithmetic commands of the desk calculator as one function, and what they keep in order: every
  number on the stack is a block as division needs it, under a scale that fits a \<open>char\<close>.
\<close>

section \<open>The commands\<close>

datatype command = Sum | Difference | Product | Quotient | Remainder | Root | Power | Duplicate | Clear

definition dup_cmd :: "dcstate \<Rightarrow> dcstate" where
  "dup_cmd s = (case stk s of [] \<Rightarrow> s | p # _ \<Rightarrow> pushp p s)"

definition clear_cmd :: "dcstate \<Rightarrow> dcstate" where
  "clear_cmd s = (if stkerr s then s else s\<lparr>stk := [], stkerr := True\<rparr>)"

text \<open>\<open>K\<close> pushes a copy of the block that \<open>k\<close> has set; \<open>init\<close> sets it to a digit 0.\<close>

definition scale_cmd :: "blk \<Rightarrow> dcstate \<Rightarrow> dcstate" where
  "scale_cmd scalptr s = pushp (scalptr @ [0]) s"

fun exec :: "int \<Rightarrow> command \<Rightarrow> dcstate \<Rightarrow> dcstate option" where
  "exec k Sum s = Some (plus_cmd s)"
| "exec k Difference s = Some (snd (subt s))"
| "exec k Product s = times_cmd k s"
| "exec k Quotient s = div_cmd k s"
| "exec k Remainder s = mod_cmd k s"
| "exec k Root s = sqrt_cmd k s"
| "exec k Power s = exp_cmd k s"
| "exec k Duplicate s = Some (dup_cmd s)"
| "exec k Clear s = Some (clear_cmd s)"

section \<open>The state\<close>

definition well :: "dcstate \<Rightarrow> bool" where
  "well s \<longleftrightarrow> (\<forall>p \<in> set (stk s). entry p) \<and> (stkerr s \<longrightarrow> stk s = []) \<and> length (stk s) \<le> 99"

text \<open>
  What the user has to see to: room for a copy, two numbers for a power of an integer, and for a
  remainder a scale that fits and a dividend that is long enough.
\<close>

definition legal :: "int \<Rightarrow> command \<Rightarrow> dcstate \<Rightarrow> bool" where
  "legal k c s \<longleftrightarrow>
     (c = Duplicate \<longrightarrow> length (stk s) < 99) \<and>
     (c = Power \<longrightarrow> length (stk s) \<noteq> 1) \<and>
     (c = Remainder \<longrightarrow> (\<forall>p q ps. stk s = p # q # ps \<longrightarrow>
        last p + k \<le> 127 \<and> (last q - last p - k) div 2 \<le> int (length (mag (butlast q)))))"

lemma well_pushp: "well s \<Longrightarrow> entry p \<Longrightarrow> length (stk s) < 99 \<Longrightarrow> well (pushp p s)"
  by (auto simp: well_def pushp_def)

lemma well_cases [consumes 1, case_names empty one two]:
  assumes "well s"
  obtains "stk s = []" | p where "stk s = [p]" "entry p" "\<not> stkerr s"
  | p q ps where "stk s = p # q # ps" "entry p" "entry q" "\<not> stkerr s" "well (s\<lparr>stk := ps\<rparr>)" "length ps < 98"
proof (cases "stk s")
  case (Cons p r)
  then show thesis using assms that(2,3) by (cases r) (auto simp: well_def)
qed (rule that(1))

lemma pop_empty: "stk s = [] \<Longrightarrow> pop s = ([], s\<lparr>stkerr := True\<rparr>)"
  by (simp add: pop_def)

lemma pop_Cons: "stk s = p # ps \<Longrightarrow> pop s = (p, s\<lparr>stk := ps\<rparr>)"
  by (simp add: pop_def)

lemma well_empty: "stk s = [] \<Longrightarrow> well (s\<lparr>stkerr := b\<rparr>)"
  by (simp add: well_def)

lemma well_one: "entry p \<Longrightarrow> stk s = [p] \<Longrightarrow> well (pushp p (s\<lparr>stk := [], stkerr := True\<rparr>))"
  by (auto simp: well_def pushp_def)

lemma entry_number: "entry p \<Longrightarrow> scaled p"
  using trim_number by (auto simp: entry_def scaled_def)

lemma eqk_well:
  assumes "well s" "eqk s = (r, s')"
  shows "(case r of None \<Rightarrow> well s' | Some (a, b, k) \<Rightarrow> number a \<and> number b \<and> 0 \<le> k \<and> k \<le> 127 \<and> well s' \<and> length (stk s') < 98)"
  using assms(1)
proof (cases s rule: well_cases)
  case empty
  then show ?thesis using assms(2) well_empty by (auto simp: eqk_def pop_empty)
next
  case (one p)
  then show ?thesis using assms(2) well_one [of p s] by (auto simp: eqk_def pop_def pushp_def)
next
  case (two p q ps)
  obtain a b k where e: "eqk s = (Some (a, b, k), s\<lparr>stk := ps\<rparr>)" "number a" "number b" "0 \<le> k"
    using eqk_two [OF two(1,4) entry_number [OF two(2)] entry_number [OF two(3)]] by metis
  moreover have "k = max (last p) (last q)"
    using e(1) two(1,4) by (auto simp: eqk_def pop_def Let_def split: if_splits)
  ultimately show ?thesis using assms(2) two by (auto simp: entry_def)
qed

lemma sum_well:
  assumes "number a" "number b" "0 \<le> k" "k \<le> 127" "well s" "length (stk s) < 98"
  shows "well (binop Plus a b k s)"
  using assms tight_trim [OF add_tight [OF assms(1,2)]] by (simp add: binop_def well_pushp)

lemma plus_well: "well s \<Longrightarrow> well (plus_cmd s)"
  using eqk_well [of s "fst (eqk s)" "snd (eqk s)"] sum_well
  by (auto simp: plus_cmd_def split: prod.splits option.splits)

lemma chsign_trim: "trim p \<Longrightarrow> trim (chsign p)"
  using mag_divisor [of p] tight_trim [OF chsign_tight, of p] divisor_trim [of "chsign p"]
  by (cases "p = []"; cases "negative p") (auto simp: mag_def)

lemma subt_well:
  assumes "well s" shows "well (snd (subt s))"
proof (cases "stk s")
  case Nil
  then show ?thesis using assms by (simp add: subt_def pop_def well_def)
next
  case (Cons p r)
  define s1 where "s1 = s\<lparr>stk := (chsign (butlast p) @ [last p]) # r\<rparr>"
  have e: "\<not> stkerr s" "entry p" "length r < 99" using assms Cons by (auto simp: well_def)
  have w: "well s1" using assms Cons e chsign_trim by (auto simp: well_def s1_def entry_def)
  have "subt s = (case eqk s1 of (None, s) \<Rightarrow> (True, s) | (Some (a, b, k), s) \<Rightarrow> (False, binop Plus a b k s))"
    using Cons e by (cases s) (simp add: subt_def pop_def pushp_def s1_def)
  then show ?thesis
    using eqk_well [OF w, of "fst (eqk s1)" "snd (eqk s1)"] sum_well
    by (auto split: prod.splits option.splits)
qed

lemma times_well:
  assumes "well s" "0 \<le> k" "k \<le> 99"
  shows "\<exists>s'. times_cmd k s = Some s' \<and> well s'"
  using assms(1)
proof (cases s rule: well_cases)
  case empty
  then show ?thesis using well_empty by (simp add: times_cmd_def pop_empty)
next
  case (one p)
  then show ?thesis using well_one [of p s] by (simp add: times_cmd_def pop_def)
next
  case (two p q ps)
  then have l: "length ps < 99" by simp
  obtain r where "times_cmd k s = Some (s\<lparr>stk := r # ps\<rparr>)" "entry r"
    using times_cmd_exact [OF two(1,4,2,3) assms(2,3) l] by blast
  then show ?thesis using two by (auto simp: well_def)
qed

text \<open>What \<open>dscale\<close> returns without a division.\<close>

lemma dscale_well:
  assumes "well s" "0 \<le> k"
  shows "(\<exists>s'. dscale k s = Some (Return s') \<and> well s') \<or>
    (\<exists>b m a n ps. stk s = (b @ [m]) # (a @ [n]) # ps \<and> \<not> stkerr s \<and> trim a \<and> trim b \<and> val a \<noteq> 0 \<and> val b \<noteq> 0 \<and>
       0 \<le> m \<and> 0 \<le> n \<and> n \<le> 127 \<and> well (s\<lparr>stk := ps\<rparr>) \<and> length ps < 98)"
  using assms(1)
proof (cases s rule: well_cases)
  case empty
  then show ?thesis using well_empty by (auto simp: dscale_def pop_empty)
next
  case (one p)
  then show ?thesis using well_one [of p s] by (simp add: dscale_def pop_def)
next
  case (two p q ps)
  obtain b m where p: "p = b @ [m]" "trim b" "0 \<le> m" using entry_cases [OF two(2)] by metis
  obtain a n where q: "q = a @ [n]" "trim a" "0 \<le> n" "n \<le> 127" using entry_cases [OF two(3)] by metis
  have push: "well (pushp x (s\<lparr>stk := ps\<rparr>))" if "entry x" for x
    using well_pushp [OF two(5) that] two(6) by simp
  show ?thesis
  proof (cases "val a = 0 \<or> val b = 0")
    case True
    then show ?thesis
      using two(1,4) p q push [OF two(2)] push [OF two(3)] trim_zero_blk
      by (auto simp: dscale_def pop_def)
  next
    case False
    then show ?thesis using two p q by blast
  qed
qed

lemma div_well:
  assumes "well s" "0 \<le> k" "k \<le> 99"
  shows "\<exists>s'. div_cmd k s = Some s' \<and> well s'"
  using dscale_well [OF assms(1,2)]
proof (elim disjE exE conjE)
  fix b m a n ps
  assume d: "stk s = (b @ [m]) # (a @ [n]) # ps" "\<not> stkerr s" "trim a" "trim b" "val a \<noteq> 0" "val b \<noteq> 0"
    "well (s\<lparr>stk := ps\<rparr>)" "length ps < 98"
  obtain arg irem where x: "dscale k s = Some (Args arg b irem n m (s\<lparr>stk := ps\<rparr>))" "trim arg"
    using dscale_two [OF d(1-6) refl, of k] by metis
  obtain r t where "div_blk arg b = Some (r, t)" "trim r"
    using div_blk_spec [OF trim_number [OF x(2)] d(4)] d(6) by (metis val.simps(1))
  then show ?thesis
    using x(1) well_pushp [OF d(7), of "r @ [k]"] d(8) assms(2,3) by (simp add: div_cmd_def binop_div_def)
qed (simp add: div_cmd_def)

lemma mod_well:
  assumes "well s" "0 \<le> k" "k \<le> 99" "legal k Remainder s"
  shows "\<exists>s'. mod_cmd k s = Some s' \<and> well s'"
  using dscale_well [OF assms(1,2)]
proof (elim disjE exE conjE)
  fix b m a n ps
  assume d: "stk s = (b @ [m]) # (a @ [n]) # ps" "\<not> stkerr s" "val b \<noteq> 0" "well (s\<lparr>stk := ps\<rparr>)" "length ps < 98"
  have e: "entry (b @ [m])" "entry (a @ [n])" "length ps < 99" using assms(1) d(1,5) by (auto simp: well_def)
  have "rat (b @ [m]) \<noteq> 0" using d(3) by (simp add: rat_snoc)
  then obtain r where "mod_cmd k s = Some (s\<lparr>stk := r # ps\<rparr>)" "entry r"
    using mod_cmd_exact [OF d(1,2) e(1,2) _ assms(2,3) e(3)] assms(4) d(1) by (auto simp: legal_def)
  then show ?thesis using d(2,4,5) by (auto simp: well_def)
qed (simp add: mod_cmd_def)

lemma root_well:
  assumes "well s" "0 \<le> k" "k \<le> 99"
  shows "\<exists>s'. sqrt_cmd k s = Some s' \<and> well s'"
proof (cases "stk s")
  case Nil
  then show ?thesis using well_empty by (simp add: sqrt_cmd_def pop_empty)
next
  case (Cons p ps)
  have e: "\<not> stkerr s" "entry p" "length ps < 99" "well (s\<lparr>stk := ps\<rparr>)"
    using assms(1) Cons by (auto simp: well_def)
  obtain a m where p: "p = a @ [m]" "trim a" "0 \<le> m" "m \<le> 127" using entry_cases [OF e(2)] by metis
  have push: "well (pushp x (s\<lparr>stk := ps\<rparr>))" if "entry x" for x
    using well_pushp [OF e(4) that] e(3) by simp
  show ?thesis
  proof (cases "a = [] \<or> last a < 0")
    case True
    then show ?thesis
      using Cons e(1,2,4) p(1) push [OF e(2)] by (auto simp: sqrt_cmd_def pop_def)
  next
    case False
    define n where "n = (if k < m then m else k * 2 - m)"
    have "divisor a" using False p(2) by (auto simp: trim_def mag_def negative_def)
    then have v: "0 < val (add0 a (nat n))"
      using add0_val(1) [OF trim_number [OF p(2)]] divisor_pos by simp
    obtain r where r: "sqrt_blk (add0 a (nat n)) = Some r" "divisor r"
      using sqrt_blk_ok [OF positive_divisor [OF add0_trim [OF p(2)] v]] False by blast
    have "sqrt_cmd k s = Some (pushp (r @ [max k m]) (s\<lparr>stk := ps\<rparr>))"
      using Cons e(1) p(1) False r(1) by (auto simp: sqrt_cmd_def pop_def n_def)
    moreover have "entry (r @ [max k m])" using divisor_trim [OF r(2)] p(3,4) assms(2,3) by simp
    ultimately show ?thesis using push by blast
  qed
qed

lemma power_result:
  assumes "e = [] \<or> divisor e" "length e < 3" "trim b" "0 \<le> n" "n \<le> 127" "0 \<le> k" "k \<le> 99"
  shows "\<exists>y. exp_result k b n e = Some y \<and> entry y"
proof -
  define d where "d = exp_value e * n"
  obtain x where x: "exp_blk b e = Some x" "tight x" using exp_blk_ok [OF assms(1,3)] by blast
  obtain r where r: "removc x (nat (d - max k n)) = Some r" "trim r" using removc_ok [OF x(2)] by blast
  have "0 \<le> d" using assms(1,4) by (auto simp: d_def exp_value_def divisor_def split: list.splits)
  then show ?thesis
    using x r tight_trim [OF x(2)] assms(4-7) by (auto simp: exp_result_def d_def [symmetric] Let_def)
qed

lemma power_well:
  assumes "well s" "0 \<le> k" "k \<le> 99" "length (stk s) \<noteq> 1"
  shows "\<exists>s'. exp_cmd k s = Some s' \<and> well s'"
  using assms(1)
proof (cases s rule: well_cases)
  case empty
  then show ?thesis using well_empty by (simp add: exp_cmd_def pop_empty)
next
  case (one p)
  then show ?thesis using assms(4) by simp
next
  case (two p q ps)
  obtain e m where p: "p = e @ [m]" "trim e" using entry_cases [OF two(2)] by metis
  obtain b n where q: "q = b @ [n]" "trim b" "0 \<le> n" "n \<le> 127" using entry_cases [OF two(3)] by metis
  have wq: "well (s\<lparr>stk := q # ps\<rparr>)" using two by (auto simp: well_def)
  have ed: "mag e = [] \<or> divisor (mag e)" using p(2) by (auto simp: trim_def)
  have me: "(if e \<noteq> [] \<and> last e < 0 then chsign e else e) = mag e" by (simp add: mag_def negative_def)
  have start: "exp_cmd k s = (if m \<noteq> 0 then Some (s\<lparr>stk := q # ps\<rparr>)
      else if 3 \<le> length (mag e) then Some (s\<lparr>stk := ps\<rparr>)
      else case exp_result k b n (mag e) of None \<Rightarrow> None
        | Some y \<Rightarrow> if e \<noteq> [] \<and> last e < 0 then div_cmd k (pushp y (pushp [1, 0] (s\<lparr>stk := ps\<rparr>)))
            else Some (pushp y (s\<lparr>stk := ps\<rparr>)))"
    using two(1,4) p(1) q(1) by (simp add: exp_cmd_def pop_def Let_def me [symmetric])
  show ?thesis
  proof (cases "m \<noteq> 0 \<or> 3 \<le> length (mag e)")
    case True
    then show ?thesis using start wq two(5) by auto
  next
    case False
    then have m: "m = 0" "length (mag e) < 3" by auto
    obtain y where xy: "exp_result k b n (mag e) = Some y" "entry y"
      using power_result [OF ed m(2) q(2-4) assms(2,3)] by blast
    have one: "entry [1, 0]" using divisor_trim [of "[1]"] by (simp add: entry_def divisor_def)
    have w1: "well (pushp [1, 0] (s\<lparr>stk := ps\<rparr>))" using well_pushp [OF two(5) one] two(6) by simp
    have "length (stk (pushp [1, 0] (s\<lparr>stk := ps\<rparr>))) < 99" using two(6) by (simp add: pushp_def)
    then have "well (pushp y (pushp [1, 0] (s\<lparr>stk := ps\<rparr>)))" by (rule well_pushp [OF w1 xy(2)])
    then have "\<exists>s'. div_cmd k (pushp y (pushp [1, 0] (s\<lparr>stk := ps\<rparr>))) = Some s' \<and> well s'"
      by (rule div_well [OF _ assms(2,3)])
    moreover have "well (pushp y (s\<lparr>stk := ps\<rparr>))" using well_pushp [OF two(5) xy(2)] two(6) by simp
    ultimately show ?thesis
      unfolding start using m xy(1) by simp
  qed
qed

text \<open>
  C15: Every arithmetic command is safe and keeps its state well formed: on a stack of numbers, of
  any depth, signs and scales, it ends without using a null or released block, and leaves a stack of
  numbers again, whose scales fit a \<open>char\<close> and on which division is safe. This holds for stacks too
  short for the command and for divisors that are zero, and needs for a power that the stack is not
  a single number, and for a remainder that its scale fits and its dividend is long enough.
\<close>

theorem exec_well:
  assumes "well s" "legal k c s" "0 \<le> k" "k \<le> 99"
  shows "\<exists>s'. exec k c s = Some s' \<and> well s'"
proof (cases c)
  case Duplicate
  then show ?thesis
    using assms(1,2) well_pushp [OF assms(1)] by (auto simp: dup_cmd_def legal_def well_def split: list.splits)
next
  case Clear
  then show ?thesis using assms(1) by (auto simp: clear_cmd_def well_def)
qed (use assms plus_well subt_well times_well div_well mod_well root_well power_well in \<open>auto simp: legal_def\<close>)

lemma exec_well_witness:
  "\<exists>s'. exec 3 Power \<lparr>stk = [[98, - 1, 0], [15, 1], [0]], stkerr = False\<rparr> = Some s' \<and> well s'"
proof -
  have "trim [15]" by (rule divisor_trim) (simp add: divisor_def)
  moreover have "trim [98, - 1]"
    using number_snoc [of "[98]" "- 1"]
    by (simp add: trim_def mag_def negative_def chsign_def divisor_def)
  ultimately show ?thesis
    using exec_well [of "\<lparr>stk = [[98, - 1, 0], [15, 1], [0]], stkerr = False\<rparr>" 3 Power]
    by (simp add: well_def legal_def entry_def)
qed

text \<open>
  C40: \<open>K\<close> and \<open>v\<close> before any \<open>k\<close> use a null block: \<open>init\<close> has set the scale to a block with the
  digit 0, which \<open>v\<close> does not take for zero, so that the iteration comes down to a division by an
  empty block, and the remainder that this leaves null is released.
\<close>

theorem scale_root_null:
  assumes "length (stk s) < 100"
  shows "sqrt_cmd 0 (scale_cmd [0] s) = None"
proof -
  have d: "div_blk [0] [1] = Some ([], [])" "div_blk (add [] [1]) sqtemp = Some ([], [1])"
    "add (chsign [1]) [] = [99, - 1]" "div_blk [0] [] = None" "sqrt_start (add0 [0] 0) = [1]" "add0 [0] 0 = [0]"
    by code_simp+
  have "sqrt_loop [0] [1] = sqrt_loop [0] []"
    using d by (simp add: sqrt_loop.simps [of "[0]" "[1]"])
  also have "\<dots> = None" using d by (simp add: sqrt_loop.simps [of "[0]" "[]"])
  finally have "sqrt_blk (add0 [0] 0) = None" using d by (simp add: sqrt_blk_def)
  then show ?thesis
    using assms by (cases s) (simp add: sqrt_cmd_def scale_cmd_def pushp_def pop_def)
qed

lemma scale_root_null_witness:
  "sqrt_cmd 0 (scale_cmd [0] \<lparr>stk = [], stkerr = False\<rparr>) = None"
  using scale_root_null [of "\<lparr>stk = [], stkerr = False\<rparr>"] by simp

end
