(* ===== verification/SccsText.thy ===== *)
theory SccsText
  imports Prelude
begin

text \<open>
  The string routines of SCCS (\<open>cmd/sccs/lib/mpwlib\<close>) and its version numbers, the SIDs
  (\<open>cmd/sccs/lib/comobj\<close>: \<open>sid_ab\<close>, \<open>sid_ba\<close>, \<open>eqsid\<close>, \<open>chksid\<close>, \<open>auxf\<close>). A routine that
  moves a pointer over its argument returns the rest of the string. Numbers are natural
  numbers: \<open>satoi\<close> is modelled for inputs whose value fits an \<open>int\<close>.
\<close>

section \<open>Strings\<close>

definition satoi :: "cstr \<Rightarrow> cstr \<times> nat" where
  "satoi p = (dropWhile numeric p, foldl (\<lambda>sum c. sum * 10 + digit_val c) 0 (takeWhile numeric p))"

text \<open>\<open>patoi\<close>: the collation of one-digit strings is the order of the digits.\<close>

definition patoi :: "cstr \<Rightarrow> int" where
  "patoi s =
     (let i = foldl (\<lambda>i c. 10 * i + digit_val c) 0 (takeWhile numeric s)
      in if dropWhile numeric s \<noteq> [] then - 1 else int i)"

definition any :: "char \<Rightarrow> cstr \<Rightarrow> bool" where
  "any c s \<longleftrightarrow> c \<in> set s"

text \<open>\<open>imatch\<close> compares before it tests for the end of the prefix, so an empty prefix fails.\<close>

fun imatch :: "cstr \<Rightarrow> cstr \<Rightarrow> bool" where
  "imatch prefix s \<longleftrightarrow>
     (case prefix of
        [] \<Rightarrow> False
      | c # pr \<Rightarrow> c = deref s \<and> (pr = [] \<or> imatch pr (tl s)))"

declare imatch.simps [simp del]

text \<open>
  The comparison loop of \<open>sccs_index\<close> after a first character has matched; the result tells
  whether the rest of the pattern was consumed.
\<close>

fun index_rest :: "cstr \<Rightarrow> cstr \<Rightarrow> bool" where
  "index_rest [] s1 = True"
| "index_rest (c # s2) [] = False"
| "index_rest (c # s2) (d # s1) = (c = d \<and> index_rest s2 s1)"

fun index_from :: "nat \<Rightarrow> cstr \<Rightarrow> cstr \<Rightarrow> int" where
  "index_from off [] s2 = - 1"
| "index_from off (x # s1) s2 =
     (if x = deref s2 \<and> index_rest (tl s2) s1 then int off else index_from (Suc off) s1 s2)"

definition sccs_index :: "cstr \<Rightarrow> cstr \<Rightarrow> int" where
  "sccs_index as1 as2 = index_from 0 as1 as2"

text \<open>\<open>trnslat\<close> with the position of the first match in \<open>old\<close>; \<open>new\<close> is read at that index.\<close>

definition trnslat :: "cstr \<Rightarrow> cstr \<Rightarrow> cstr \<Rightarrow> cstr" where
  "trnslat str old new =
     map (\<lambda>r. let k = length (takeWhile (\<lambda>o'. o' \<noteq> r) old) in if k < length old then new ! k else r) str"

definition repl :: "cstr \<Rightarrow> char \<Rightarrow> char \<Rightarrow> cstr" where
  "repl str old new = trnslat str [old] [new]"

definition cat :: "cstr list \<Rightarrow> cstr" where
  "cat srcs = concat srcs"

text \<open>
  \<open>dname\<close>: the scan for a slash starts before the last character and stops before the first.
\<close>

definition dname :: "cstr \<Rightarrow> cstr" where
  "dname p =
     (let js = rev (filter (\<lambda>j. p ! j = CHR ''/'') [1..<length p]) in
      case js of
        j # _ \<Rightarrow> take j p
      | [] \<Rightarrow> (if deref p \<noteq> CHR ''/'' then ''.'' else ''/''))"

text \<open>
  \<open>sname\<close> cuts trailing slashes (a string of slashes alone stays) and returns what follows
  the last slash.
\<close>

definition cut_slashes :: "cstr \<Rightarrow> cstr" where
  "cut_slashes s =
     (let t = rev (dropWhile (\<lambda>c. c = CHR ''/'') (rev s)) in if t = [] then s else t)"

definition sname :: "cstr \<Rightarrow> cstr" where
  "sname s = rev (takeWhile (\<lambda>c. c \<noteq> CHR ''/'') (rev (cut_slashes s)))"

definition auxf :: "cstr \<Rightarrow> char option \<Rightarrow> cstr" where
  "auxf sfile ch =
     (if sfile = [] then []
      else
        let snp = sname sfile; sfile = cut_slashes sfile; dir = take (length sfile - length snp) sfile in
        case ch of
          None \<Rightarrow> drop 2 snp
        | Some c \<Rightarrow>
            if c = CHR ''g'' then drop 2 snp
            else if c = CHR ''A'' then ''g.'' @ drop 2 snp
            else if c = CHR ''l'' then CHR ''l'' # tl snp
            else if c = CHR ''G'' then dir @ ''g.'' @ snp
            else dir @ c # tl snp)"

subsection \<open>What they compute\<close>

lemma satoi_prefix:
  "\<forall>c \<in> set s. numeric c \<Longrightarrow> \<not> numeric (deref t) \<Longrightarrow> satoi (s @ t) = (t, dec_val s)"
proof -
  assume h: "\<forall>c \<in> set s. numeric c" "\<not> numeric (deref t)"
  show ?thesis
    unfolding satoi_def takeWhile_prefix [OF h] dropWhile_prefix [OF h] dec_val_def ..
qed

lemma satoi_print [simp]: "\<not> numeric (deref t) \<Longrightarrow> satoi (print_dec n @ t) = (t, n)"
  using satoi_prefix [of "print_dec n" t] print_dec_numeric by simp

lemma satoi_print_end [simp]: "satoi (print_dec n) = ([], n)"
  using satoi_print [of "[]" n] by simp

lemma satoi_nonnum: "\<not> numeric (deref t) \<Longrightarrow> satoi t = (t, 0)"
  by (cases t) (simp_all add: satoi_def)

lemma index_rest_prefix: "cstr s2 \<Longrightarrow> index_rest s2 s1 \<longleftrightarrow> take (length s2) s1 = s2"
  by (induction s2 s1 rule: index_rest.induct) auto

lemma index_from_least:
  assumes "s2 \<noteq> []" "cstr s2" "cstr s1"
  shows "case index_from off s1 s2 of r \<Rightarrow>
    (r = - 1 \<and> (\<forall>k. take (length s2) (drop k s1) \<noteq> s2)) \<or>
    (\<exists>k. r = int (off + k) \<and> take (length s2) (drop k s1) = s2 \<and>
       (\<forall>j < k. take (length s2) (drop j s1) \<noteq> s2))"
  using assms
proof (induction s1 arbitrary: off)
  case Nil
  then show ?case by simp
next
  case (Cons x s1)
  obtain c s where s2: "s2 = c # s" using assms(1) by (cases s2) auto
  show ?case
  proof (cases "x = c \<and> take (length s) s1 = s")
    case True
    then show ?thesis using Cons.prems by (auto simp: s2 index_rest_prefix intro!: exI [of _ 0])
  next
    case False
    then have ne: "take (length s2) (drop 0 (x # s1)) \<noteq> s2" by (auto simp: s2)
    have r: "index_from off (x # s1) s2 = index_from (Suc off) s1 s2"
      using False Cons.prems by (auto simp: s2 index_rest_prefix)
    from Cons.IH [of "Suc off"] Cons.prems
    consider "index_from (Suc off) s1 s2 = - 1" "\<forall>k. take (length s2) (drop k s1) \<noteq> s2"
      | k where "index_from (Suc off) s1 s2 = int (Suc off + k)" "take (length s2) (drop k s1) = s2"
          "\<forall>j < k. take (length s2) (drop j s1) \<noteq> s2"
      by auto
    then show ?thesis
    proof cases
      case 1
      have "take (length s2) (drop k (x # s1)) \<noteq> s2" for k
        using 1(2) ne by (cases k) auto
      then show ?thesis using 1(1) r by simp
    next
      case (2 k)
      have "take (length s2) (drop j (x # s1)) \<noteq> s2" if "j < Suc k" for j
        using 2(3) ne that by (cases j) auto
      then show ?thesis using 2(1,2) r by (intro disjI2 exI [of _ "Suc k"]) simp
    qed
  qed
qed

lemma index_char:
  "c \<notin> set s \<Longrightarrow> c \<noteq> NUL \<Longrightarrow> sccs_index (s @ c # t) [c] = int (length s)"
proof -
  have "index_from off (s @ c # t) [c] = int (off + length s)" if "c \<notin> set s" for off
    using that by (induction s arbitrary: off) auto
  then show "c \<notin> set s \<Longrightarrow> ?thesis" by (simp add: sccs_index_def)
qed

lemma imatch_prefix:
  "cstr s \<Longrightarrow> cstr p \<Longrightarrow> imatch p s \<longleftrightarrow> p \<noteq> [] \<and> take (length p) s = p"
proof (induction p arbitrary: s)
  case (Cons c p)
  then show ?case
    by (cases s) (auto simp: imatch.simps [of "c # p"] cstr_tl)
qed (simp add: imatch.simps)

section \<open>Version numbers\<close>

record sid =
  s_rel :: nat
  s_lev :: nat
  s_br :: nat
  s_seq :: nat

definition dot :: "cstr \<Rightarrow> cstr" where
  "dot p = (if deref p = CHR ''.'' then tl p else p)"

definition sid_ab :: "cstr \<Rightarrow> cstr \<times> sid" where
  "sid_ab p =
     (let (p, r) = satoi p; (p, l) = satoi (dot p); (p, b) = satoi (dot p); (p, q) = satoi (dot p)
      in (p, \<lparr>s_rel = r, s_lev = l, s_br = b, s_seq = q\<rparr>))"

definition omit_sid :: "cstr \<Rightarrow> cstr" where
  "omit_sid p = fst (sid_ab p)"

definition sid_ba :: "sid \<Rightarrow> cstr" where
  "sid_ba sp =
     print_dec (s_rel sp) @ ''.'' @ print_dec (s_lev sp) @
     (if s_br sp \<noteq> 0 then ''.'' @ print_dec (s_br sp) @ ''.'' @ print_dec (s_seq sp) else [])"

definition eqsid :: "sid \<Rightarrow> sid \<Rightarrow> bool" where
  "eqsid s1 s2 \<longleftrightarrow> s_rel s1 = s_rel s2 \<and> s_lev s1 = s_lev s2 \<and> s_br s1 = s_br s2 \<and> s_seq s1 = s_seq s2"

text \<open>\<open>chksid\<close>: \<^term>\<open>True\<close> where the code calls \<open>fatal\<close>.\<close>

definition chksid :: "cstr \<Rightarrow> sid \<Rightarrow> bool" where
  "chksid p sp \<longleftrightarrow>
     p \<noteq> [] \<or> s_rel sp = 0 \<and> s_lev sp \<noteq> 0 \<or> s_lev sp = 0 \<and> s_br sp \<noteq> 0 \<or>
     s_br sp = 0 \<and> s_seq sp \<noteq> 0"

lemma eqsid_eq: "eqsid s1 s2 \<longleftrightarrow> s1 = s2"
  by (auto simp: eqsid_def)

text \<open>A string after which a printed number ends and no component follows.\<close>

definition sid_end :: "cstr \<Rightarrow> bool" where
  "sid_end t \<longleftrightarrow> \<not> numeric (deref t) \<and> deref t \<noteq> CHR ''.''"

lemma dot_simps [simp]: "dot (CHR ''.'' # p) = p" "sid_end t \<Longrightarrow> dot t = t"
  by (simp_all add: dot_def sid_end_def)

lemma satoi_end: "sid_end t \<Longrightarrow> satoi t = (t, 0)"
  by (simp add: sid_end_def satoi_nonnum)

lemma sid_ab_ba:
  assumes "sid_end t" "s_br s \<noteq> 0 \<or> s_seq s = 0"
  shows "sid_ab (sid_ba s @ t) = (t, s)"
proof -
  have t: "\<not> numeric (deref t)" using assms(1) by (simp add: sid_end_def)
  show ?thesis
    using assms t by (cases s) (auto simp: sid_ab_def sid_ba_def satoi_end)
qed

text \<open>
  A version number is read back as it was written, up to what follows it, for every SID that
  has a branch or no sequence number; \<open>sid_ba\<close> would lose the sequence number of the others.
\<close>

theorem sid_roundtrip:
  assumes "sid_end t" "s_br s \<noteq> 0 \<or> s_seq s = 0"
  shows "sid_ab (sid_ba s @ t) = (t, s)"
  by (rule sid_ab_ba [OF assms])

lemma sid_roundtrip_witness:
  "sid_ab (sid_ba \<lparr>s_rel = 1, s_lev = 20, s_br = 3, s_seq = 4\<rparr> @ '' x'') =
    ('' x'', \<lparr>s_rel = 1, s_lev = 20, s_br = 3, s_seq = 4\<rparr>)"
  using sid_roundtrip [of "'' x''" "\<lparr>s_rel = 1, s_lev = 20, s_br = 3, s_seq = 4\<rparr>"]
  by (simp add: sid_end_def)

text \<open>
  \<open>sccs_index\<close> finds the first occurrence of a non-empty pattern, and its answer is -1 exactly
  when there is none.
\<close>

theorem sccs_index_first:
  assumes "p \<noteq> []" "cstr p" "cstr s"
  shows "(sccs_index s p = - 1 \<and> (\<forall>k. take (length p) (drop k s) \<noteq> p)) \<or>
    (\<exists>k. sccs_index s p = int k \<and> take (length p) (drop k s) = p \<and>
       (\<forall>j < k. take (length p) (drop j s) \<noteq> p))"
  using index_from_least [OF assms, of 0] by (simp add: sccs_index_def)

lemma sccs_index_first_witness: "sccs_index ''aab'' ''ab'' = 1"
proof -
  let ?at = "\<lambda>k. take (length ''ab'') (drop k ''aab'') = ''ab''"
  have one: "?at 1" by simp
  have "(sccs_index ''aab'' ''ab'' = - 1 \<and> (\<forall>k. \<not> ?at k)) \<or>
      (\<exists>k. sccs_index ''aab'' ''ab'' = int k \<and> ?at k \<and> (\<forall>j < k. \<not> ?at j))"
    by (rule sccs_index_first) simp_all
  then obtain k where k: "sccs_index ''aab'' ''ab'' = int k" "?at k" "\<forall>j < k. \<not> ?at j"
    using one by blast
  have "\<not> 1 < k" using k(3) one by blast
  moreover have "\<not> ?at 0" by simp
  with k(2) have "k \<noteq> 0" by (intro notI) (simp only:)
  ultimately have "k = 1" by simp
  with k(1) show ?thesis by simp
qed

end
