(* ===== verification/SccsDate.thy ===== *)
theory SccsDate
  imports SccsText
begin

text \<open>
  Dates of SCCS: \<open>date_ab.c\<close>, \<open>date_ba.c\<close>, \<open>strptim.c\<close> and \<open>cmpdate.c\<close> of
  \<open>cmd/sccs/lib/comobj\<close>. The C library's view of the time zone is a parameter: \<open>tz\<close> is the
  variable \<open>timezone\<close> after \<open>tzset\<close>, \<open>isdst t\<close> the field \<open>tm_isdst\<close> of
  \<open>localtime(&t)\<close>, and \<open>lt\<close> the function \<open>localtime\<close>. The variant of the
  sources without \<open>GMT_TIME\<close> is modelled.
\<close>

section \<open>The code\<close>

text \<open>
  \<open>gN\<close>: skips to a digit and reads up to \<open>num\<close> of them. The result is the rest, the number
  (-2 at the end of the string), the digits read and the characters consumed.
\<close>

definition gN :: "cstr \<Rightarrow> nat \<Rightarrow> cstr \<times> int \<times> nat \<times> nat" where
  "gN str num =
     (let t = dropWhile (\<lambda>c. \<not> numeric c) str; m = length str - length t in
      if t \<noteq> [] then
        let ds = takeWhile numeric (take num t)
        in (drop (length ds) t, int (foldl (\<lambda>c d. c * 10 + digit_val d) 0 ds), length ds, m + length ds)
      else (t, - 2, 0, m))"

definition dysize :: "nat \<Rightarrow> nat" where
  "dysize a = (if a mod 4 \<noteq> 0 then 365 else 366)"

definition dmsize :: "nat list" where
  "dmsize = [31, 28, 31, 30, 31, 30, 31, 31, 30, 31, 30, 31]"

definition mosize :: "nat \<Rightarrow> nat \<Rightarrow> nat" where
  "mosize y t = (if t = 2 \<and> dysize y = 366 then 29 else dmsize ! (t - 1))"

text \<open>The sum both conversions compute, as they write it.\<close>

definition dtime :: "nat \<Rightarrow> nat \<Rightarrow> nat \<Rightarrow> nat \<Rightarrow> nat \<Rightarrow> nat \<Rightarrow> nat" where
  "dtime y t d h m s =
     (let tim = sum_list (map dysize [1970..<y]);
          tim = tim + sum_list (map (mosize y) [1..<t]);
          tim = tim + (d - 1);
          tim = tim * 24; tim = tim + h;
          tim = tim * 60; tim = tim + m;
          tim = tim * 60; tim = tim + s
      in tim)"

definition to_gmt :: "int \<Rightarrow> (int \<Rightarrow> bool) \<Rightarrow> nat \<Rightarrow> int" where
  "to_gmt tz isdst tim =
     (let tim = int tim + tz in if isdst tim then tim + - 1 * 60 * 60 else tim)"

text \<open>\<open>date_ab\<close>: where \<open>Datep\<close> is left, the returned value, and \<open>*bdt\<close> where it is set.\<close>

definition date_ab :: "int \<Rightarrow> (int \<Rightarrow> bool) \<Rightarrow> cstr \<Rightarrow> cstr \<times> int \<times> int option" where
  "date_ab tz isdst adt =
     (let (p, y, dn, cn) = gN (NONBLANK adt) 4;
          warn = ((dn \<noteq> 2 \<and> dn \<noteq> 4) \<or> cn \<noteq> dn \<or> deref p \<noteq> CHR ''/'') in
      if y < 0 then (p, - 1, None)
      else if dn > 2 \<and> y < 1969 then (p, - 1, None)
      else
        let y = nat (if dn \<le> 2 then (if y < 69 then y + 2000 else y + 1900) else y);
            (p, t, dn, cn) = gN p 2;
            warn = (warn \<or> dn \<noteq> 2 \<or> cn \<noteq> dn + 1 \<or> deref p \<noteq> CHR ''/'') in
        if t < 1 \<or> t > 12 then (p, - 1, None)
        else
          let (p, d, dn, cn) = gN p 2; warn = (warn \<or> dn \<noteq> 2 \<or> cn \<noteq> dn + 1) in
          if d < 1 \<or> d > int (mosize y (nat t)) then (p, - 1, None)
          else
            let (p, h, dn, cn) = gN (NONBLANK p) 2;
                warn = (warn \<or> dn \<noteq> 2 \<or> cn \<noteq> dn \<or> deref p \<noteq> CHR '':'') in
            if h < 0 \<or> h > 23 then (p, - 1, None)
            else
              let (p, m, dn, cn) = gN p 2;
                  warn = (warn \<or> dn \<noteq> 2 \<or> cn \<noteq> dn + 1 \<or> deref p \<noteq> CHR '':'') in
              if m < 0 \<or> m > 59 then (p, - 1, None)
              else
                let (p, s, dn, cn) = gN p 2; warn = (warn \<or> dn \<noteq> 2 \<or> cn \<noteq> dn + 1) in
                if s < 0 \<or> s > 59 then (p, - 1, None)
                else (p, (if warn then 1 else 0),
                      Some (to_gmt tz isdst (dtime y (nat t) (nat d) (nat h) (nat m) (nat s)))))"

text \<open>\<open>parse_date\<close>: units left off are replaced by their largest value.\<close>

definition parse_date :: "int \<Rightarrow> (int \<Rightarrow> bool) \<Rightarrow> cstr \<Rightarrow> int option" where
  "parse_date tz isdst adt =
     (let (p, y, _) = gN adt 2; y = (if y = - 2 then 99 else y); y = (if y < 69 then y + 100 else y);
          (p, t, _) = gN p 2; t = (if t = - 2 then 12 else t) in
      if t < 1 \<or> t > 12 then None
      else
        let (p, d, _) = gN p 2; d = (if d = - 2 then int (mosize (nat y) (nat t)) else d) in
        if d < 1 \<or> d > int (mosize (nat y) (nat t)) then None
        else
          let (p, h, _) = gN p 2; h = (if h = - 2 then 23 else h) in
          if h < 0 \<or> h > 23 then None
          else
            let (p, m, _) = gN p 2; m = (if m = - 2 then 59 else m) in
            if m < 0 \<or> m > 59 then None
            else
              let (p, s, _) = gN p 2; s = (if s = - 2 then 59 else s) in
              if s < 0 \<or> s > 59 then None
              else Some (to_gmt tz isdst
                     (dtime (nat y + 1900) (nat t) (nat d) (nat h) (nat m) (nat s))))"

record tm =
  tm_year :: int
  tm_mon :: int
  tm_mday :: int
  tm_hour :: int
  tm_min :: int
  tm_sec :: int

definition cmpdate :: "tm \<Rightarrow> tm \<Rightarrow> int" where
  "cmpdate d1 d2 =
     (if tm_year d1 \<noteq> tm_year d2 then tm_year d1 - tm_year d2
      else if tm_mon d1 \<noteq> tm_mon d2 then tm_mon d1 - tm_mon d2
      else if tm_mday d1 \<noteq> tm_mday d2 then tm_mday d1 - tm_mday d2
      else if tm_hour d1 \<noteq> tm_hour d2 then tm_hour d1 - tm_hour d2
      else if tm_min d1 \<noteq> tm_min d2 then tm_min d1 - tm_min d2
      else if tm_sec d1 \<noteq> tm_sec d2 then tm_sec d1 - tm_sec d2
      else 0)"

text \<open>\<open>mystrptime\<close> leaves the month as 1 to 12; the fields set before a failure stay set.\<close>

definition tm0 :: tm where
  "tm0 = \<lparr>tm_year = 0, tm_mon = 0, tm_mday = 0, tm_hour = 0, tm_min = 0, tm_sec = 0\<rparr>"

definition mystrptime :: "cstr \<Rightarrow> int \<times> tm" where
  "mystrptime p =
     (let (p, y, dn, cn) = gN (NONBLANK p) 4; r = tm0\<lparr>tm_year := y\<rparr>;
          warn = ((dn \<noteq> 2 \<and> dn \<noteq> 4) \<or> cn \<noteq> dn \<or> deref p \<noteq> CHR ''/'') in
      if y < 0 then (- 1, r)
      else if dn > 2 \<and> y < 1969 then (- 1, r)
      else
        let y = (if dn \<le> 2 then (if y < 69 then y + 100 else y) else y - 1900); r = r\<lparr>tm_year := y\<rparr>;
            (p, t, dn, cn) = gN p 2; r = r\<lparr>tm_mon := t\<rparr>;
            warn = (warn \<or> dn \<noteq> 2 \<or> cn \<noteq> dn + 1 \<or> deref p \<noteq> CHR ''/'') in
        if t < 1 \<or> t > 12 then (- 1, r)
        else
          let (p, d, dn, cn) = gN p 2; r = r\<lparr>tm_mday := d\<rparr>; warn = (warn \<or> dn \<noteq> 2 \<or> cn \<noteq> dn + 1) in
          if d < 1 \<or> d > int (mosize (nat y) (nat t)) then (- 1, r)
          else
            let (p, h, dn, cn) = gN (NONBLANK p) 2; r = r\<lparr>tm_hour := h\<rparr>;
                warn = (warn \<or> dn \<noteq> 2 \<or> cn \<noteq> dn \<or> deref p \<noteq> CHR '':'') in
            if h < 0 \<or> h > 23 then (- 1, r)
            else
              let (p, m, dn, cn) = gN p 2; r = r\<lparr>tm_min := m\<rparr>;
                  warn = (warn \<or> dn \<noteq> 2 \<or> cn \<noteq> dn + 1 \<or> deref p \<noteq> CHR '':'') in
              if m < 0 \<or> m > 59 then (- 1, r)
              else
                let (p, s, dn, cn) = gN p 2; r = r\<lparr>tm_sec := s\<rparr>;
                    warn = (warn \<or> dn \<noteq> 2 \<or> cn \<noteq> dn + 1) in
                if s < 0 \<or> s > 59 then (- 1, r) else ((if warn then 1 else 0), r))"

definition do2 :: "int \<Rightarrow> cstr" where
  "do2 n = [digit_char (nat n div 10), digit_char (nat n mod 10)]"

definition date_ba :: "(int \<Rightarrow> tm) \<Rightarrow> int \<Rightarrow> cstr" where
  "date_ba lt bdt =
     (let lcltm = lt bdt;
          year = (if tm_year lcltm \<ge> 100 then tm_year lcltm - 100 else tm_year lcltm)
      in do2 year @ ''/'' @ do2 (tm_mon lcltm + 1) @ ''/'' @ do2 (tm_mday lcltm) @ '' '' @
         do2 (tm_hour lcltm) @ '':'' @ do2 (tm_min lcltm) @ '':'' @ do2 (tm_sec lcltm))"

section \<open>Reading the fields\<close>

lemma dec_val_two: "n < 100 \<Longrightarrow> foldl (\<lambda>c d. c * 10 + digit_val d) 0 (do2 (int n)) = n"
  by (simp add: do2_def nat_div_distrib)

lemma gN_two:
  assumes "n < 100" "2 \<le> k" "k = 2 \<or> \<not> numeric (deref t)"
  shows "gN (do2 (int n) @ t) k = (t, int n, 2, 2)"
proof -
  define ds where "ds = do2 (int n)"
  have ds: "\<forall>c \<in> set ds. numeric c" "length ds = 2" using assms(1) by (auto simp: ds_def do2_def)
  have tk: "takeWhile numeric (take k (ds @ t)) = ds"
  proof -
    have "take k (ds @ t) = ds @ take (k - 2) t" using assms(2) ds(2) by simp
    moreover have "\<not> numeric (deref (take (k - 2) t))"
      using assms(3) by (cases t; cases "k - 2") auto
    ultimately show ?thesis using takeWhile_prefix [OF ds(1)] by simp
  qed
  have dw: "dropWhile (\<lambda>c. \<not> numeric c) (ds @ t) = ds @ t"
    using ds by (cases ds) auto
  show ?thesis
    unfolding ds_def [symmetric] gN_def Let_def dw tk
    using ds dec_val_two [OF assms(1)] by (auto simp: ds_def [symmetric])
qed

lemma gN_sep:
  assumes "n < 100" "\<not> numeric c" "2 \<le> k" "k = 2 \<or> \<not> numeric (deref t)"
  shows "gN (c # do2 (int n) @ t) k = (t, int n, 2, 3)"
proof -
  have d: "dropWhile (\<lambda>c. \<not> numeric c) (c # do2 (int n) @ t) = dropWhile (\<lambda>c. \<not> numeric c) (do2 (int n) @ t)"
    using assms(2) by simp
  have "dropWhile (\<lambda>c. \<not> numeric c) (do2 (int n) @ t) = do2 (int n) @ t"
    using assms(1) by (simp add: do2_def)
  with d gN_two [OF assms(1,3,4)] show ?thesis
    unfolding gN_def d by (auto simp: Let_def)
qed

lemma gN_end [simp]: "gN [] k = ([], - 2, 0, 0)"
  by (simp add: gN_def)

definition valid_date :: "nat \<Rightarrow> nat \<Rightarrow> nat \<Rightarrow> nat \<Rightarrow> nat \<Rightarrow> nat \<Rightarrow> bool" where
  "valid_date y t d h m s \<longleftrightarrow> 1970 \<le> y \<and> 1 \<le> t \<and> t \<le> 12 \<and> 1 \<le> d \<and> d \<le> mosize y t \<and>
     h \<le> 23 \<and> m \<le> 59 \<and> s \<le> 59"

lemma mosize_le: "1 \<le> t \<Longrightarrow> t \<le> 12 \<Longrightarrow> mosize y t \<le> 31"
proof -
  assume "1 \<le> t" "t \<le> 12"
  then have "dmsize ! (t - 1) \<in> set dmsize" by (intro nth_mem) (simp add: dmsize_def)
  moreover have "\<forall>x \<in> set dmsize. x \<le> 31" by (simp add: dmsize_def)
  ultimately show ?thesis by (auto simp: mosize_def)
qed

lemma NONBLANK_do2 [simp]: "n < 100 \<Longrightarrow> NONBLANK (do2 (int n) @ t) = do2 (int n) @ t"
  by (simp add: do2_def)

text \<open>The printed form of a date with a two-digit year, read back field by field.\<close>

lemma date_ab_fields:
  assumes "valid_date y t d h m s" "y \<le> 2068"
    and "\<not> numeric (deref z)"
  shows "date_ab tz isdst (do2 (int (y mod 100)) @ ''/'' @ do2 (int t) @ ''/'' @ do2 (int d) @ '' '' @
      do2 (int h) @ '':'' @ do2 (int m) @ '':'' @ do2 (int s) @ z) =
    (z, 0, Some (to_gmt tz isdst (dtime y t d h m s)))"
proof -
  have b: "y mod 100 < 100" "t < 100" "d < 100" "h < 100" "m < 100" "s < 100"
    using assms(1) mosize_le [of t y] by (auto simp: valid_date_def)
  have sep: "\<not> numeric (CHR ''/'')" "\<not> numeric (CHR '':'')" "\<not> numeric SPC" by simp_all
  have yy: "(if y mod 100 < 69 then y mod 100 + 2000 else y mod 100 + 1900) = y"
  proof (cases "y < 2000")
    case True
    then obtain r where "y = 1900 + r" "r < 100" "69 \<le> r"
      using assms(1) le_Suc_ex [of 1900 y] by (auto simp: valid_date_def)
    then have "y mod 100 = r" using mod_mult_self1 [of r 19 100] by (simp add: add.commute)
    with \<open>y = 1900 + r\<close> \<open>69 \<le> r\<close> show ?thesis by simp
  next
    case False
    then obtain r where "y = 2000 + r" "r < 69"
      using assms(2) le_Suc_ex [of 2000 y] by auto
    then have "y mod 100 = r" using mod_mult_self1 [of r 20 100] by (simp add: add.commute)
    with \<open>y = 2000 + r\<close> \<open>r < 69\<close> show ?thesis by simp
  qed
  have fields:
    "gN (do2 (int (y mod 100)) @ CHR ''/'' # r) 4 = (CHR ''/'' # r, int (y mod 100), 2, 2)"
    "gN (CHR ''/'' # do2 (int t) @ r) 2 = (r, int t, 2, 3)"
    "gN (CHR ''/'' # do2 (int d) @ r) 2 = (r, int d, 2, 3)"
    "gN (do2 (int h) @ r) 2 = (r, int h, 2, 2)"
    "gN (CHR '':'' # do2 (int m) @ r) 2 = (r, int m, 2, 3)"
    "gN (CHR '':'' # do2 (int s) @ r) 2 = (r, int s, 2, 3)" for r
    using gN_two [of "y mod 100" 4 "CHR ''/'' # r"] gN_sep [of t "CHR ''/''" 2 r]
      gN_sep [of d "CHR ''/''" 2 r] gN_two [of h 2 r] gN_sep [of m "CHR '':''" 2 r]
      gN_sep [of s "CHR '':''" 2 r] b sep by auto
  have ye: "y mod 100 < 69 \<Longrightarrow> nat (int (y mod 100) + 2000) = y"
    "\<not> y mod 100 < 69 \<Longrightarrow> nat (int (y mod 100) + 1900) = y"
    using yy by simp_all
  show ?thesis
    using assms(1) b
    by (cases "y mod 100 < 69")
      (simp_all add: date_ab_def fields ye valid_date_def Let_def del: of_nat_mod)
qed

section \<open>The order of dates\<close>

lemma year_sum: "sum_list (map (mosize y) [1..<13]) = dysize y"
  by (simp add: upt_rec mosize_def dmsize_def dysize_def)

lemma month_mono: "t \<le> t' \<Longrightarrow> sum_list (map (mosize y) [1..<t]) \<le> sum_list (map (mosize y) [1..<t'])"
proof (induction t')
  case (Suc t')
  then show ?case by (cases "t = Suc t'") (auto simp: upt_Suc)
qed simp

lemma month_step: "1 \<le> t \<Longrightarrow> sum_list (map (mosize y) [1..<Suc t]) = sum_list (map (mosize y) [1..<t]) + mosize y t"
  by (simp add: upt_Suc)

definition yday :: "nat \<Rightarrow> nat \<Rightarrow> nat \<Rightarrow> nat" where
  "yday y t d = sum_list (map (mosize y) [1..<t]) + (d - 1)"

lemma yday_less: "valid_date y t d h m s \<Longrightarrow> yday y t d < dysize y"
proof -
  assume v: "valid_date y t d h m s"
  then have "yday y t d < sum_list (map (mosize y) [1..<Suc t])"
    using month_step [of t y] by (auto simp: yday_def valid_date_def)
  also have "\<dots> \<le> sum_list (map (mosize y) [1..<13])"
    using v by (intro month_mono) (simp add: valid_date_def)
  finally show ?thesis by (simp only: year_sum)
qed

lemma yday_mono:
  assumes "valid_date y t d h m s" "valid_date y t' d' h' m' s'" "t < t' \<or> t = t' \<and> d < d'"
  shows "yday y t d < yday y t' d'"
proof (cases "t < t'")
  case True
  have "yday y t d < sum_list (map (mosize y) [1..<Suc t])"
    using assms(1) month_step [of t y] by (auto simp: yday_def valid_date_def)
  also have "\<dots> \<le> sum_list (map (mosize y) [1..<t'])" using True by (intro month_mono) simp
  finally show ?thesis by (simp add: yday_def)
qed (use assms in \<open>auto simp: yday_def valid_date_def\<close>)

definition days :: "nat \<Rightarrow> nat \<Rightarrow> nat \<Rightarrow> nat" where
  "days y t d = sum_list (map dysize [1970..<y]) + yday y t d"

lemma days_mono:
  assumes "valid_date y t d h m s" "valid_date y' t' d' h' m' s'"
    "y < y' \<or> y = y' \<and> (t < t' \<or> t = t' \<and> d < d')"
  shows "days y t d < days y' t' d'"
proof (cases "y < y'")
  case True
  have "sum_list (map dysize [1970..<Suc y]) = sum_list (map dysize [1970..<y]) + dysize y"
    using assms(1) by (simp add: valid_date_def)
  then have "days y t d < sum_list (map dysize [1970..<Suc y])"
    using yday_less [OF assms(1)] by (simp add: days_def)
  also have "\<dots> \<le> sum_list (map dysize [1970..<y'])"
  proof -
    have "[1970..<y'] = [1970..<Suc y] @ [Suc y..<y']"
      using True assms(1) upt_add_eq_append [of 1970 "Suc y" "y' - Suc y"] by (simp add: valid_date_def)
    then show ?thesis by simp
  qed
  finally show ?thesis by (simp add: days_def)
qed (use assms yday_mono [of y t d h m s t' d' h' m' s'] in \<open>auto simp: days_def\<close>)

lemma dtime_days: "dtime y t d h m s = ((days y t d * 24 + h) * 60 + m) * 60 + s"
  by (simp add: dtime_def days_def yday_def Let_def algebra_simps)

lemma radix_less: "h < (k::nat) \<Longrightarrow> h' < k \<Longrightarrow> a * k + h < b * k + h' \<longleftrightarrow> a < b \<or> a = b \<and> h < h'"
proof -
  assume h: "h < k" "h' < k"
  have "a * k + h < b * k" if "a < b"
  proof -
    have "Suc a * k \<le> b * k" using that by (intro mult_le_mono1) simp
    with h show ?thesis by simp
  qed
  moreover have "b * k + h' < a * k" if "b < a"
  proof -
    have "Suc b * k \<le> a * k" using that by (intro mult_le_mono1) simp
    with h show ?thesis by simp
  qed
  ultimately show ?thesis by (cases a b rule: linorder_cases) force+
qed

lemma radix_eq: "h < (k::nat) \<Longrightarrow> h' < k \<Longrightarrow> a * k + h = b * k + h' \<longleftrightarrow> a = b \<and> h = h'"
  using radix_less [of h k h' a b] radix_less [of h' k h b a] by (metis less_irrefl linorder_neqE_nat)

lemma dtime_less:
  assumes "valid_date y t d h m s" "valid_date y' t' d' h' m' s'"
  shows "dtime y t d h m s < dtime y' t' d' h' m' s' \<longleftrightarrow>
    (y < y' \<or> y = y' \<and> (t < t' \<or> t = t' \<and> (d < d' \<or> d = d' \<and>
       (h < h' \<or> h = h' \<and> (m < m' \<or> m = m' \<and> s < s')))))"
proof -
  have b: "h < 24" "h' < 24" "m < 60" "m' < 60" "s < 60" "s' < 60"
    using assms by (auto simp: valid_date_def)
  have D: "days y t d < days y' t' d' \<longleftrightarrow> y < y' \<or> y = y' \<and> (t < t' \<or> t = t' \<and> d < d')"
    "days y t d = days y' t' d' \<longleftrightarrow> y = y' \<and> t = t' \<and> d = d'"
    using days_mono [OF assms] days_mono [OF assms(2,1)]
    by (metis less_asym less_irrefl linorder_neqE_nat)+
  show ?thesis
    unfolding dtime_days radix_less [OF b(5,6)] radix_less [OF b(3,4)] radix_less [OF b(1,2)]
    unfolding radix_eq [OF b(3,4)] radix_eq [OF b(1,2)] D by blast
qed

lemma dtime_eq:
  assumes "valid_date y t d h m s" "valid_date y' t' d' h' m' s'"
  shows "dtime y t d h m s = dtime y' t' d' h' m' s' \<longleftrightarrow>
    y = y' \<and> t = t' \<and> d = d' \<and> h = h' \<and> m = m' \<and> s = s'"
proof -
  have b: "h < 24" "h' < 24" "m < 60" "m' < 60" "s < 60" "s' < 60"
    using assms by (auto simp: valid_date_def)
  have "days y t d = days y' t' d' \<longleftrightarrow> y = y' \<and> t = t' \<and> d = d'"
    using days_mono [OF assms] days_mono [OF assms(2,1)]
    by (metis less_irrefl linorder_neqE_nat)
  then show ?thesis unfolding dtime_days radix_eq [OF b(5,6)] radix_eq [OF b(3,4)] radix_eq [OF b(1,2)] by blast
qed

section \<open>Properties\<close>

text \<open>
  What is asked of the C library at a time: it breaks the time down into a valid local date of
  1970 to 2068 that differs from it by the time zone and an hour of daylight saving time.
\<close>

definition local_date :: "(int \<Rightarrow> tm) \<Rightarrow> int \<Rightarrow> (int \<Rightarrow> bool) \<Rightarrow> int \<Rightarrow> bool" where
  "local_date lt tz isdst t \<longleftrightarrow>
     (let r = lt t; y = nat (tm_year r + 1900); mo = nat (tm_mon r + 1); d = nat (tm_mday r);
          h = nat (tm_hour r); mi = nat (tm_min r); s = nat (tm_sec r); T = int (dtime y mo d h mi s) in
      0 \<le> tm_hour r \<and> 0 \<le> tm_min r \<and> 0 \<le> tm_sec r \<and> valid_date y mo d h mi s \<and> y \<le> 2068 \<and>
      T = t - tz + (if isdst t then 3600 else 0) \<and> isdst (T + tz) = isdst t)"

lemma year_of_century:
  assumes "1970 \<le> y" "y \<le> 2068"
  shows "(if int y - 1900 \<ge> 100 then int y - 1900 - 100 else int y - 1900) = int (y mod 100)"
proof (cases "y < 2000")
  case True
  then obtain r where "y = r + 19 * 100" "r < 100"
    using assms(1) le_Suc_ex [of 1900 y] by (auto simp: add.commute)
  moreover from this have "y mod 100 = r" using mod_mult_self1 [of r 19 100] by simp
  ultimately show ?thesis by simp
next
  case False
  then obtain r where "y = r + 20 * 100" "r < 100"
    using assms(2) le_Suc_ex [of 2000 y] by (auto simp: add.commute)
  moreover from this have "y mod 100 = r" using mod_mult_self1 [of r 20 100] by simp
  ultimately show ?thesis by simp
qed

lemma date_ab_ba:
  assumes "local_date lt tz isdst t" and "\<not> numeric (deref z)"
  shows "date_ab tz isdst (date_ba lt t @ z) = (z, 0, Some t)" "NONBLANK (date_ba lt t @ z) = date_ba lt t @ z"
proof -
  define y mo d h mi s where
    "y = nat (tm_year (lt t) + 1900)" "mo = nat (tm_mon (lt t) + 1)" "d = nat (tm_mday (lt t))"
    "h = nat (tm_hour (lt t))" "mi = nat (tm_min (lt t))" "s = nat (tm_sec (lt t))"
  note defs = this
  have "0 \<le> tm_hour (lt t) \<and> 0 \<le> tm_min (lt t) \<and> 0 \<le> tm_sec (lt t) \<and> valid_date y mo d h mi s \<and>
      y \<le> 2068 \<and> int (dtime y mo d h mi s) = t - tz + (if isdst t then 3600 else 0) \<and>
      isdst (int (dtime y mo d h mi s) + tz) = isdst t"
    using assms(1) unfolding local_date_def Let_def defs .
  note a = this [THEN conjunct2, THEN conjunct2, THEN conjunct2, THEN conjunct1]
    this [THEN conjunct2, THEN conjunct2, THEN conjunct2, THEN conjunct2, THEN conjunct1]
    this [THEN conjunct2, THEN conjunct2, THEN conjunct2, THEN conjunct2, THEN conjunct2, THEN conjunct1]
    this [THEN conjunct2, THEN conjunct2, THEN conjunct2, THEN conjunct2, THEN conjunct2, THEN conjunct2]
    this [THEN conjunct1] this [THEN conjunct2, THEN conjunct1] this [THEN conjunct2, THEN conjunct2, THEN conjunct1]
  have y: "1970 \<le> y" and v: "1 \<le> mo" "1 \<le> d" using a(1) by (simp_all add: valid_date_def)
  have f: "tm_year (lt t) = int y - 1900" "tm_mon (lt t) = int mo - 1" "tm_mday (lt t) = int d"
    "tm_hour (lt t) = int h" "tm_min (lt t) = int mi" "tm_sec (lt t) = int s"
    using y v a(5-7) by (simp_all add: defs)
  have ba: "date_ba lt t @ z = do2 (int (y mod 100)) @ ''/'' @ do2 (int mo) @ ''/'' @ do2 (int d) @ '' '' @
      do2 (int h) @ '':'' @ do2 (int mi) @ '':'' @ do2 (int s) @ z"
    using year_of_century [OF y a(2)] unfolding date_ba_def f Let_def by simp
  have "to_gmt tz isdst (dtime y mo d h mi s) = t"
    using a(3,4) by (auto simp: to_gmt_def Let_def)
  then show "date_ab tz isdst (date_ba lt t @ z) = (z, 0, Some t)"
    unfolding ba using date_ab_fields [OF a(1,2) assms(2), of tz isdst] by simp
  show "NONBLANK (date_ba lt t @ z) = date_ba lt t @ z"
    unfolding ba by (rule NONBLANK_do2) simp
qed


definition utc_1970 :: "int \<Rightarrow> tm" where
  "utc_1970 t = \<lparr>tm_year = 70, tm_mon = 2, tm_mday = 1, tm_hour = 12, tm_min = 5, tm_sec = 9\<rparr>"

lemma utc_1970_local: "local_date utc_1970 0 (\<lambda>_. False) 5141109"
proof -
  have "[1..<3] = [1, 2 :: nat]" by (simp add: upt_rec)
  then have d: "dtime 1970 3 1 12 5 9 = 5141109"
    by (simp add: dtime_def mosize_def dmsize_def dysize_def)
  then show ?thesis
    by (simp add: local_date_def d [simplified] utc_1970_def valid_date_def mosize_def dmsize_def)
qed


lemma lex_if:
  "(if (a::int) \<noteq> b then a - b else r) < 0 \<longleftrightarrow> a < b \<or> a = b \<and> r < 0"
  "(if a \<noteq> b then a - b else r) = 0 \<longleftrightarrow> a = b \<and> r = 0"
  by auto

definition tm_of :: "nat \<Rightarrow> nat \<Rightarrow> nat \<Rightarrow> nat \<Rightarrow> nat \<Rightarrow> nat \<Rightarrow> tm" where
  "tm_of y t d h m s = \<lparr>tm_year = int y - 1900, tm_mon = int t, tm_mday = int d, tm_hour = int h,
     tm_min = int m, tm_sec = int s\<rparr>"

text \<open>
  C32: The comparison of dates by their fields is the order of the times they are converted to:
  the calendar arithmetic of the conversion, with its month lengths and leap years, is strictly
  monotone and distinguishes all valid dates.
\<close>

theorem cmpdate_order:
  assumes "valid_date y t d h m s" and "valid_date y' t' d' h' m' s'"
  shows "(cmpdate (tm_of y t d h m s) (tm_of y' t' d' h' m' s') < 0 \<longleftrightarrow>
      dtime y t d h m s < dtime y' t' d' h' m' s') \<and>
    (cmpdate (tm_of y t d h m s) (tm_of y' t' d' h' m' s') = 0 \<longleftrightarrow>
      dtime y t d h m s = dtime y' t' d' h' m' s')"
proof -
  have "cmpdate (tm_of y t d h m s) (tm_of y' t' d' h' m' s') < 0 \<longleftrightarrow>
      (y < y' \<or> y = y' \<and> (t < t' \<or> t = t' \<and> (d < d' \<or> d = d' \<and>
        (h < h' \<or> h = h' \<and> (m < m' \<or> m = m' \<and> s < s')))))"
    unfolding cmpdate_def lex_if by (simp add: tm_of_def)
  moreover have "cmpdate (tm_of y t d h m s) (tm_of y' t' d' h' m' s') = 0 \<longleftrightarrow>
      y = y' \<and> t = t' \<and> d = d' \<and> h = h' \<and> m = m' \<and> s = s'"
    unfolding cmpdate_def lex_if by (simp add: tm_of_def)
  ultimately show ?thesis using dtime_less [OF assms] dtime_eq [OF assms] by simp
qed

lemma cmpdate_order_witness:
  "cmpdate (tm_of 1999 12 31 23 59 59) (tm_of 2000 2 29 0 0 0) < 0 \<and>
   dtime 1999 12 31 23 59 59 < dtime 2000 2 29 0 0 0"
proof -
  have v: "valid_date 1999 12 31 23 59 59" "valid_date 2000 2 29 0 0 0"
    by (simp_all add: valid_date_def mosize_def dmsize_def dysize_def)
  have "cmpdate (tm_of 1999 12 31 23 59 59) (tm_of 2000 2 29 0 0 0) < 0"
    by (simp add: cmpdate_def tm_of_def)
  then show ?thesis using cmpdate_order [OF v] by blast
qed

lemma mosize_1900: "mosize (y + 1900) t = mosize y t"
proof -
  have "(y + 1900) mod 4 = y mod 4" using mod_mult_self1 [of y 475 4] by simp
  then show ?thesis by (simp add: mosize_def dysize_def)
qed

text \<open>The fields of a cutoff date, with their defaults.\<close>

definition cutoff_fields :: "nat \<Rightarrow> nat list \<Rightarrow> nat list" where
  "cutoff_fields y fs =
     (let t = (case fs of [] \<Rightarrow> 12 | t # _ \<Rightarrow> t); d = (case fs of _ # d # _ \<Rightarrow> d | _ \<Rightarrow> mosize y t)
      in [t, d, case fs of _ # _ # h # _ \<Rightarrow> h | _ \<Rightarrow> 23, case fs of _ # _ # _ # m # _ \<Rightarrow> m | _ \<Rightarrow> 59,
          case fs of _ # _ # _ # _ # s # _ \<Rightarrow> s | _ \<Rightarrow> 59])"

lemma two_digit_year:
  assumes "1970 \<le> y" "y \<le> 2068"
  shows "nat (if int (y mod 100) < 69 then int (y mod 100) + 100 else int (y mod 100)) + 1900 = y"
proof (cases "y < 2000")
  case True
  then obtain r where r: "y = r + 19 * 100" "r < 100" "69 \<le> r"
    using assms(1) le_Suc_ex [of 1900 y] by (auto simp: add.commute)
  then have "y mod 100 = r" using mod_mult_self1 [of r 19 100] by simp
  with r show ?thesis by simp
next
  case False
  then obtain r where r: "y = r + 20 * 100" "r < 69"
    using assms(2) le_Suc_ex [of 2000 y] by (auto simp: add.commute)
  then have "y mod 100 = r" using mod_mult_self1 [of r 20 100] by simp
  with r show ?thesis by simp
qed

lemma parse_date_fields:
  assumes y: "1970 \<le> y" "y \<le> 2068" and fs: "length fs \<le> 5" "\<forall>f \<in> set fs. f < 100"
    and v: "cutoff_fields y fs = [t, d, h, m, s]" "valid_date y t d h m s"
  shows "parse_date tz isdst (concat (map (\<lambda>f. do2 (int f)) ((y mod 100) # fs))) =
    Some (to_gmt tz isdst (dtime y t d h m s))"
proof -
  define yy where "yy = nat (if int (y mod 100) < 69 then int (y mod 100) + 100 else int (y mod 100))"
  have yy: "yy + 1900 = y" unfolding yy_def by (rule two_digit_year [OF y])
  have mo: "mosize yy u = mosize y u" for u using mosize_1900 [of yy u] yy by simp
  have g: "gN (do2 (int f) @ r) 2 = (r, int f, 2, 2)" if "f < 100" for f r
    using gN_two [of f 2 r] that by simp
  have g1: "gN (do2 (int f)) 2 = ([], int f, 2, 2)" if "f < 100" for f
    using g [of f "[]"] that by simp
  have y0: "y mod 100 < 100" by simp
  have ne2: "(if int x = - 2 then 99 else int x) = int x" for x by simp
  have parse: "parse_date tz isdst (do2 (int (y mod 100)) @ r) =
     (let (p, t, _) = gN r 2; t = (if t = - 2 then 12 else t) in
      if t < 1 \<or> t > 12 then None
      else
        let (p, d, _) = gN p 2; d = (if d = - 2 then int (mosize y (nat t)) else d) in
        if d < 1 \<or> d > int (mosize y (nat t)) then None
        else
          let (p, h, _) = gN p 2; h = (if h = - 2 then 23 else h) in
          if h < 0 \<or> h > 23 then None
          else
            let (p, m, _) = gN p 2; m = (if m = - 2 then 59 else m) in
            if m < 0 \<or> m > 59 then None
            else
              let (p, s, _) = gN p 2; s = (if s = - 2 then 59 else s) in
              if s < 0 \<or> s > 59 then None
              else Some (to_gmt tz isdst (dtime y (nat t) (nat d) (nat h) (nat m) (nat s))))" for r
    unfolding parse_date_def g [OF y0] Let_def prod.case ne2 yy_def [symmetric] mo yy ..
  have "fs = [] \<or> (\<exists>a. fs = [a]) \<or> (\<exists>a b. fs = [a, b]) \<or> (\<exists>a b c. fs = [a, b, c]) \<or>
      (\<exists>a b c e. fs = [a, b, c, e]) \<or> (\<exists>a b c e f. fs = [a, b, c, e, f])"
    using fs(1) by (cases fs; cases "tl fs"; cases "tl (tl fs)"; cases "tl (tl (tl fs))";
        cases "tl (tl (tl (tl fs)))") (auto)
  then show ?thesis
    using v fs(2) by (auto simp: parse g g1 cutoff_fields_def valid_date_def)
qed

lemma mosize_pos: "1 \<le> t \<Longrightarrow> t \<le> 12 \<Longrightarrow> Suc 0 \<le> mosize y t"
proof -
  assume "1 \<le> t" "t \<le> 12"
  then have "dmsize ! (t - 1) \<in> set dmsize" by (intro nth_mem) (simp add: dmsize_def)
  moreover have "\<forall>x \<in> set dmsize. 1 \<le> x" by (simp add: dmsize_def)
  ultimately show ?thesis by (auto simp: mosize_def)
qed

lemma cutoff_latest:
  assumes "valid_date y t d h m s" "k \<le> 5"
  obtains t' d' h' m' s' where "cutoff_fields y (take k [t, d, h, m, s]) = [t', d', h', m', s']"
    "valid_date y t' d' h' m' s'" "dtime y t d h m s \<le> dtime y t' d' h' m' s'"
proof -
  have m1: "Suc 0 \<le> mosize y 12" "Suc 0 \<le> mosize y t"
    using mosize_pos [of 12 y] mosize_pos [of t y] assms(1) by (simp_all add: valid_date_def)
  have "k = 0 \<or> k = 1 \<or> k = 2 \<or> k = 3 \<or> k = 4 \<or> k = 5" using assms(2) by auto
  moreover have m2: "t = 12 \<longrightarrow> \<not> mosize y 12 < d" using assms(1) by (auto simp: valid_date_def)
  ultimately obtain t' d' h' m' s' where
    f: "cutoff_fields y (take k [t, d, h, m, s]) = [t', d', h', m', s']"
    and v: "valid_date y t' d' h' m' s'"
    and le: "\<not> (t' < t \<or> t' = t \<and> (d' < d \<or> d' = d \<and> (h' < h \<or> h' = h \<and> (m' < m \<or> m' = m \<and> s' < s))))"
    using assms(1) m1 by (elim disjE) (simp_all add: cutoff_fields_def valid_date_def)
  have "\<not> dtime y t' d' h' m' s' < dtime y t d h m s"
    using le dtime_less [OF v assms(1)] by auto
  with f v that show thesis by auto
qed

text \<open>
  A cutoff date may leave off units on the right: for every prefix of a date of 1970 to 2068
  that has at least the year, \<open>parse_date\<close> returns a time no earlier than the whole date's,
  so a cutoff includes all that was recorded within the unit it names.
\<close>

theorem parse_date_cutoff:
  assumes "valid_date y t d h m s" and "y \<le> 2068" and "k \<le> 5"
  shows "\<exists>c. parse_date tz (\<lambda>_. False)
      (concat (map (\<lambda>f. do2 (int f)) ((y mod 100) # take k [t, d, h, m, s]))) = Some c \<and>
    parse_date tz (\<lambda>_. False)
      (concat (map (\<lambda>f. do2 (int f)) [y mod 100, t, d, h, m, s])) =
        Some (to_gmt tz (\<lambda>_. False) (dtime y t d h m s)) \<and>
    to_gmt tz (\<lambda>_. False) (dtime y t d h m s) \<le> c"
proof -
  obtain t' d' h' m' s' where f: "cutoff_fields y (take k [t, d, h, m, s]) = [t', d', h', m', s']"
    "valid_date y t' d' h' m' s'" "dtime y t d h m s \<le> dtime y t' d' h' m' s'"
    using cutoff_latest [OF assms(1,3)] .
  have y: "1970 \<le> y" and b: "\<forall>f \<in> set [t, d, h, m, s]. f < 100"
    using assms(1) mosize_le [of t y] by (auto simp: valid_date_def)
  have "parse_date tz (\<lambda>_. False) (concat (map (\<lambda>f. do2 (int f)) ((y mod 100) # take k [t, d, h, m, s]))) =
      Some (to_gmt tz (\<lambda>_. False) (dtime y t' d' h' m' s'))"
    using assms(3) b by (intro parse_date_fields [OF y assms(2) _ _ f(1,2)]) (auto dest: in_set_takeD)
  moreover have "parse_date tz (\<lambda>_. False) (concat (map (\<lambda>f. do2 (int f)) ((y mod 100) # [t, d, h, m, s]))) =
      Some (to_gmt tz (\<lambda>_. False) (dtime y t d h m s))"
    using parse_date_fields [OF y assms(2) _ b _ assms(1)] by (simp add: cutoff_fields_def)
  ultimately show ?thesis using f(3) by (simp add: to_gmt_def)
qed

lemma parse_date_cutoff_witness:
  "\<exists>c. parse_date 0 (\<lambda>_. False) ''0702'' = Some c \<and> to_gmt 0 (\<lambda>_. False) (dtime 2007 2 14 9 30 0) \<le> c"
proof -
  have v: "valid_date 2007 2 14 9 30 0" by (simp add: valid_date_def mosize_def dmsize_def dysize_def)
  have "do2 7 = ''07''" "do2 2 = ''02''" by code_simp+
  moreover have "(2007 :: nat) mod 100 = 7" by simp
  ultimately show ?thesis
    using parse_date_cutoff [OF v, of 1 0] by (auto simp del: of_nat_mod)
qed

text \<open>
  The two-digit year 69 is accepted for 1969, but the sum over the years starts at 1970: a
  time in 1969 becomes the same time in 1970.
\<close>

theorem date_1969:
  "snd (date_ab 0 (\<lambda>_. False) ''69/03/01 12:05:09'') = snd (date_ab 0 (\<lambda>_. False) ''70/03/01 12:05:09'')"
  by (simp add: date_ab_def gN_def dtime_def mosize_def dmsize_def dysize_def numeric_def ord_def
      digit_val_def upt_rec)

end
