(* ===== verification/SccsTable.thy ===== *)
theory SccsTable
  imports SccsDate
begin

text \<open>
  The delta table of an SCCS file and the lines of a p-file: \<open>del_ab.c\<close>, \<open>del_ba.c\<close>,
  \<open>pf_ab.c\<close>, \<open>stats_ab.c\<close> and \<open>dodelt.c\<close> of \<open>cmd/sccs/lib/comobj\<close>. A file is the list of its
  lines, each with its newline; \<open>getline\<close> takes the first. \<open>fmterr\<close> and \<open>fatal\<close> do not
  return: they are errors, and \<open>Wild\<close> is an access outside the table.
\<close>

datatype serr = Fmterr | Fatal cstr | Wild

abbreviation CTLCHAR :: char where "CTLCHAR \<equiv> CHR 0x01"

abbreviation LOGSIZE :: nat where "LOGSIZE \<equiv> 33"

section \<open>Delta lines\<close>

record deltab =
  d_sid :: sid
  d_serial :: nat
  d_pred :: nat
  d_datetime :: int
  d_pgmr :: cstr
  d_type :: char

text \<open>
  \<open>del_ab\<close> on a line and the \<open>deltab\<close> it fills; the result is the character it returns and
  the structure. A date that is rejected leaves \<open>d_datetime\<close> as it was.
\<close>

definition del_ab :: "int \<Rightarrow> (int \<Rightarrow> bool) \<Rightarrow> cstr \<Rightarrow> deltab \<Rightarrow> serr + (char \<times> deltab)" where
  "del_ab tz isdst p dt =
     (if deref p \<noteq> CTLCHAR then Inl Fmterr
      else
        let p = tl p in
        if deref p \<noteq> CHR ''d'' then Inr (deref p, dt)
        else
          let p = NONBLANK (tl p);
              dt = dt\<lparr>d_type := deref p\<rparr>;
              (p, sd) = sid_ab (NONBLANK (tl p));
              dt = dt\<lparr>d_sid := sd\<rparr>;
              (p, r, t) = date_ab tz isdst (NONBLANK p);
              dt = (case t of None \<Rightarrow> dt | Some t \<Rightarrow> dt\<lparr>d_datetime := t\<rparr>);
              p = NONBLANK p;
              n = sccs_index p '' '' in
          if n < 0 then Inl Fmterr
          else
            let dt = dt\<lparr>d_pgmr := take (nat n) p\<rparr>;
                (p, ser) = satoi (NONBLANK (drop (nat n + 1) p));
                (p, pred) = satoi (NONBLANK p);
                dt = dt\<lparr>d_serial := ser, d_pred := pred\<rparr>
            in if deref p \<noteq> NL then Inl Fmterr else Inr (CHR ''d'', dt))"

definition del_ba :: "(int \<Rightarrow> tm) \<Rightarrow> deltab \<Rightarrow> cstr" where
  "del_ba lt dt =
     [CTLCHAR, CHR ''d'', SPC, d_type dt, SPC] @ sid_ba (d_sid dt) @ [SPC] @
     date_ba lt (d_datetime dt) @ [SPC] @ d_pgmr dt @ [SPC] @
     print_dec (d_serial dt) @ [SPC] @ print_dec (d_pred dt) @ [NL]"

section \<open>Lines of the p-file\<close>

record pfile =
  pf_gsid :: sid
  pf_nsid :: sid
  pf_user :: cstr
  pf_date :: "int option"
  pf_ilist :: "cstr option"
  pf_elist :: "cstr option"
  pf_cmrlist :: "cstr option"

text \<open>One list of the tail: up to a blank, after which one more character is skipped.\<close>

definition pf_list :: "char \<Rightarrow> cstr \<Rightarrow> cstr option \<times> cstr" where
  "pf_list c p =
     (if deref p = c then
        let q = tl p; l = takeWhile (\<lambda>x. x \<noteq> SPC) q; r = dropWhile (\<lambda>x. x \<noteq> SPC) q
        in (Some l, drop 2 r)
      else (None, p))"

definition pf_ab :: "int \<Rightarrow> (int \<Rightarrow> bool) \<Rightarrow> cstr \<Rightarrow> bool \<Rightarrow> serr + pfile" where
  "pf_ab tz isdst s all =
     (let p = takeWhile (\<lambda>c. c \<noteq> NL) s;
          (p, g) = sid_ab p; (p, n) = sid_ab (tl p); p = tl p;
          i = sccs_index p '' '' in
      if \<not> (0 \<le> i \<and> i < int LOGSIZE) then Inl (Fatal ''bad p-file format (co17)'')
      else
        let user = take (nat i) p; (p, r, t) = date_ab tz isdst (drop (nat i + 1) p);
            pf = \<lparr>pf_gsid = g, pf_nsid = n, pf_user = user, pf_date = t,
                  pf_ilist = None, pf_elist = None, pf_cmrlist = None\<rparr> in
        if \<not> all \<or> p = [] then Inr pf
        else
          let (il, p) = pf_list (CHR ''i'') (drop 2 p); (el, p) = pf_list (CHR ''x'') p
          in Inr (pf\<lparr>pf_ilist := il, pf_elist := el,
                     pf_cmrlist := (if deref p = CHR ''z'' then Some (tl p) else None)\<rparr>))"

section \<open>The delta table\<close>

record stats =
  s_ins :: nat
  s_del :: nat
  s_unc :: nat

definition stats_ab :: "cstr \<Rightarrow> serr + stats" where
  "stats_ab p =
     (if deref p \<noteq> CTLCHAR \<or> deref (tl p) \<noteq> CHR ''s'' then Inl Fmterr
      else
        let (p, i) = satoi (NONBLANK (tl (tl p))); (p, d) = satoi (tl p); (p, u) = satoi (tl p)
        in Inr \<lparr>s_ins = i, s_del = d, s_unc = u\<rparr>)"

text \<open>The count of an include, exclude or ignore list is kept in a \<open>char\<close>.\<close>

record ixg =
  i_type :: char
  i_cnt :: "8 word"
  i_ser :: "nat list"

record idel =
  i_sid :: sid
  i_ixg :: "ixg list"
  i_pred :: nat
  i_datetime :: int

definition sid0 :: sid where "sid0 = \<lparr>s_rel = 0, s_lev = 0, s_br = 0, s_seq = 0\<rparr>"

definition idel0 :: idel where
  "idel0 = \<lparr>i_sid = sid0, i_ixg = [], i_pred = 0, i_datetime = 0\<rparr>"

text \<open>The numbers of a list line.\<close>

function ixg_nums :: "cstr \<Rightarrow> nat list" where
  "ixg_nums p =
     (if numeric (deref p) then let (q, n) = satoi p in n # ixg_nums (NONBLANK q) else [])"
  by pat_completeness auto
termination
proof (relation "measure length", goal_cases)
  case (2 p x q n)
  then have "q = dropWhile numeric p" by (simp add: satoi_def)
  with 2(1) have "length q < length p"
    by (cases p) (auto simp: le_imp_less_Suc length_dropWhile_le)
  then show ?case using length_NONBLANK [of q] by simp
qed simp

declare ixg_nums.simps [simp del]

definition doixg :: "cstr \<Rightarrow> ixg list \<Rightarrow> ixg list" where
  "doixg p ixgs =
     (let type = deref (tl p); v = ixg_nums (NONBLANK (tl (tl p)))
      in ixgs @ [\<lparr>i_type = type, i_cnt = of_nat (length v), i_ser = v\<rparr>])"

text \<open>
  The lines after a delta line, up to \<open>EDELTAB\<close>: the lists are collected for a delta of type
  \<open>D\<close>, comment and MR lines are passed over. The result is the lists and the lines left.
\<close>

fun delt_body :: "bool \<Rightarrow> cstr list \<Rightarrow> ixg list \<Rightarrow> serr + (ixg list \<times> cstr list)" where
  "delt_body isD [] ixgs = Inl Fmterr"
| "delt_body isD (l # ls) ixgs =
     (if deref l \<noteq> CTLCHAR then Inl Fmterr
      else
        let c = deref (tl l) in
        if c = CHR ''e'' then Inr (ixgs, ls)
        else if c = CHR ''c'' \<or> c = CHR ''m'' then delt_body isD ls ixgs
        else if c = CHR ''i'' \<or> c = CHR ''x'' \<or> c = CHR ''g'' then
          delt_body isD ls (if isD then doixg l ixgs else ixgs)
        else Inl Fmterr)"

lemma delt_body_shorter: "delt_body isD ls ixgs = Inr (r, ls') \<Longrightarrow> length ls' < length ls"
  by (induction isD ls ixgs rule: delt_body.induct) (auto simp: Let_def split: if_splits)

record dtab =
  t_idel :: "idel list"
  t_maxr :: nat
  t_stats :: stats

text \<open>
  The main loop of \<open>dodelt\<close>, called without a delta to look for (\<open>sidp == 0\<close>): the first
  delta sizes the table and leaves its serial number in entry 0. The result is the table,
  the largest release and the lines after the one that ended the loop.
\<close>

definition alloc_table :: "deltab \<Rightarrow> idel list \<Rightarrow> idel list" where
  "alloc_table dt tab =
     (if tab = [] then (replicate (d_serial dt + 1) idel0)[0 := idel0\<lparr>i_pred := d_serial dt\<rparr>] else tab)"

definition idel_of :: "deltab \<Rightarrow> idel \<Rightarrow> idel" where
  "idel_of dt r = r\<lparr>i_sid := d_sid dt, i_pred := d_pred dt, i_datetime := d_datetime dt\<rparr>"

function delt_loop :: "int \<Rightarrow> (int \<Rightarrow> bool) \<Rightarrow> cstr list \<Rightarrow> deltab \<Rightarrow> idel list \<Rightarrow> nat
    \<Rightarrow> serr + (idel list \<times> nat \<times> cstr list)" where
  "delt_loop tz isdst [] dt tab maxr = Inl Fmterr"
| "delt_loop tz isdst (l # ls) dt tab maxr =
     (case del_ab tz isdst l dt of
        Inl e \<Rightarrow> Inl e
      | Inr (c, dt) \<Rightarrow>
          if c \<noteq> CHR ''d'' then Inr (tab, maxr, ls)
          else
            let tab = alloc_table dt tab; isD = (d_type dt = CHR ''D'') in
            if isD \<and> \<not> d_serial dt < length tab then Inl Wild
            else
              let tab = (if isD then tab[d_serial dt := idel_of dt (tab ! d_serial dt)] else tab);
                  maxr = (if isD then max maxr (s_rel (d_sid dt)) else maxr) in
              (case delt_body isD ls (if isD then i_ixg (tab ! d_serial dt) else []) of
                 Inl e \<Rightarrow> Inl e
               | Inr (ixgs, ls') \<Rightarrow>
                   let tab = (if isD then tab[d_serial dt := (tab ! d_serial dt)\<lparr>i_ixg := ixgs\<rparr>] else tab) in
                   (case ls' of
                      [] \<Rightarrow> Inl Fmterr
                    | l' # ls'' \<Rightarrow>
                        if deref l' \<noteq> CTLCHAR \<or> deref (tl l') \<noteq> CHR ''s'' then Inr (tab, maxr, ls'')
                        else delt_loop tz isdst ls'' dt tab maxr)))"
  by pat_completeness auto
termination
  by (relation "measure (\<lambda>(_, _, ls, _). length ls)") (auto dest!: delt_body_shorter [OF sym] delt_body_shorter)

definition dodelt :: "int \<Rightarrow> (int \<Rightarrow> bool) \<Rightarrow> cstr list \<Rightarrow> deltab \<Rightarrow> serr + (dtab \<times> cstr list)" where
  "dodelt tz isdst ls dt =
     (case ls of
        [] \<Rightarrow> Inl Fmterr
      | l # ls \<Rightarrow>
          (case stats_ab l of
             Inl e \<Rightarrow> Inl e
           | Inr st \<Rightarrow>
               (case delt_loop tz isdst ls dt [] 0 of
                  Inl e \<Rightarrow> Inl e
                | Inr (tab, maxr, ls) \<Rightarrow> Inr (\<lparr>t_idel = tab, t_maxr = maxr, t_stats = st\<rparr>, ls))))"

section \<open>Writing and reading a delta\<close>

definition delta_ok :: "(int \<Rightarrow> tm) \<Rightarrow> int \<Rightarrow> (int \<Rightarrow> bool) \<Rightarrow> deltab \<Rightarrow> bool" where
  "delta_ok lt tz isdst dt \<longleftrightarrow>
     d_type dt \<notin> {NUL, SPC, TAB} \<and> (s_br (d_sid dt) \<noteq> 0 \<or> s_seq (d_sid dt) = 0) \<and>
     d_pgmr dt \<noteq> [] \<and> SPC \<notin> set (d_pgmr dt) \<and> deref (d_pgmr dt) \<noteq> TAB \<and>
     local_date lt tz isdst (d_datetime dt)"

lemma NONBLANK_print [simp]: "NONBLANK (print_dec n @ t) = print_dec n @ t"
proof -
  obtain c cs where c: "print_dec n = c # cs" by (cases "print_dec n") auto
  then have "numeric c" using print_dec_numeric [of c n] by simp
  then show ?thesis using c by auto
qed

lemma NONBLANK_sid [simp]: "NONBLANK (sid_ba s @ t) = sid_ba s @ t"
  by (simp add: sid_ba_def)

lemma NONBLANK_pgmr:
  "p \<noteq> [] \<Longrightarrow> SPC \<notin> set p \<Longrightarrow> deref p \<noteq> TAB \<Longrightarrow> NONBLANK (p @ t) = p @ t"
  by (cases p) auto

lemma del_ab_ba:
  assumes "delta_ok lt tz isdst dt"
  shows "del_ab tz isdst (del_ba lt dt) dt0 = Inr (CHR ''d'', dt)"
proof -
  note ok = assms [unfolded delta_ok_def]
  define u where "u = print_dec (d_serial dt) @ SPC # print_dec (d_pred dt) @ [NL]"
  define v where "v = d_pgmr dt @ SPC # u"
  define w where "w = date_ba lt (d_datetime dt) @ SPC # v"
  have nd: "\<not> numeric (deref (SPC # v))" by simp
  note D = date_ab_ba [OF _ nd, of lt tz isdst "d_datetime dt"]
  have w: "date_ab tz isdst w = (SPC # v, 0, Some (d_datetime dt))" "NONBLANK w = w"
    using D ok by (simp_all add: w_def)
  have s: "sid_ab (sid_ba (d_sid dt) @ SPC # w) = (SPC # w, d_sid dt)"
    using ok by (intro sid_ab_ba) (simp_all add: sid_end_def)
  have v: "NONBLANK v = v" unfolding v_def using ok by (intro NONBLANK_pgmr) auto
  have i: "sccs_index v [SPC] = int (length (d_pgmr dt))"
    unfolding v_def using ok by (intro index_char) auto
  have n: "satoi u = (SPC # print_dec (d_pred dt) @ [NL], d_serial dt)"
    unfolding u_def by (rule satoi_print) simp
  have q: "satoi (print_dec (d_pred dt) @ [NL]) = ([NL], d_pred dt)" by (rule satoi_print) simp
  have ba: "del_ba lt dt = CTLCHAR # CHR ''d'' # SPC # d_type dt # SPC # sid_ba (d_sid dt) @ SPC # w"
    by (simp add: del_ba_def w_def v_def u_def)
  have vt: "take (length (d_pgmr dt)) v = d_pgmr dt" "drop (Suc (length (d_pgmr dt))) v = u"
    by (simp_all add: v_def)
  have nu: "NONBLANK u = u" by (simp add: u_def)
  have ty: "NONBLANK (d_type dt # SPC # r) = d_type dt # SPC # r" for r using ok by simp
  show ?thesis
    unfolding ba del_ab_def using ok
    by (simp add: s w v i vt n nu q Let_def)
qed

text \<open>
  A delta of the table is read back exactly as it was written: type, SID, date, programmer,
  serial number and predecessor, for every delta with a printable type, a programmer's name
  without blanks and a date that the C library converts consistently.
\<close>

theorem del_roundtrip:
  assumes "delta_ok lt tz isdst dt"
  shows "del_ab tz isdst (del_ba lt dt) dt0 = Inr (CHR ''d'', dt)"
  by (rule del_ab_ba [OF assms])

definition delta_1 :: deltab where
  "delta_1 = \<lparr>d_sid = \<lparr>s_rel = 1, s_lev = 2, s_br = 1, s_seq = 3\<rparr>, d_serial = 7, d_pred = 5,
     d_datetime = 5141109, d_pgmr = ''ken'', d_type = CHR ''D''\<rparr>"

lemma delta_1_ok: "delta_ok utc_1970 0 (\<lambda>_. False) delta_1"
  using utc_1970_local by (simp add: delta_ok_def delta_1_def)

lemma del_roundtrip_witness:
  "del_ab 0 (\<lambda>_. False) (del_ba utc_1970 delta_1) (delta_1\<lparr>d_serial := 0\<rparr>) = Inr (CHR ''d'', delta_1)"
  by (rule del_roundtrip [OF delta_1_ok])

text \<open>
  The programmer's name of a delta line is copied into the 33 bytes of \<open>d_pgmr\<close> whatever its
  length: a line with a name of 33 characters or more is accepted and writes past the array,
  where the p-file's reader rejects such a name.
\<close>

theorem del_ab_overrun:
  assumes "delta_ok lt tz isdst dt" and "LOGSIZE \<le> length (d_pgmr dt)"
  shows "\<exists>dt'. del_ab tz isdst (del_ba lt dt) dt0 = Inr (CHR ''d'', dt') \<and>
    length (d_pgmr dt') + 1 > LOGSIZE"
  using del_ab_ba [OF assms(1)] assms(2) by auto

definition long_delta :: deltab where
  "long_delta = delta_1\<lparr>d_pgmr := replicate 33 (CHR ''x'')\<rparr>"

lemma del_ab_overrun_witness:
  "\<exists>dt'. del_ab 0 (\<lambda>_. False) (del_ba utc_1970 long_delta) delta_1 = Inr (CHR ''d'', dt') \<and>
    length (d_pgmr dt') + 1 > LOGSIZE"
  by (rule del_ab_overrun)
    (use delta_1_ok in \<open>simp_all add: long_delta_def delta_ok_def numeral_eq_Suc\<close>)

section \<open>Writing and reading the whole table\<close>

type_synonym entry_spec = "deltab \<times> (char \<times> nat list) list"

definition print_ixg :: "char \<times> nat list \<Rightarrow> cstr" where
  "print_ixg cl = [CTLCHAR, fst cl] @ concat (map (\<lambda>n. SPC # print_dec n) (snd cl)) @ [NL]"

definition ixg_of :: "char \<times> nat list \<Rightarrow> ixg" where
  "ixg_of cl = \<lparr>i_type = fst cl, i_cnt = of_nat (length (snd cl)), i_ser = snd cl\<rparr>"

definition e_line :: cstr where "e_line = [CTLCHAR, CHR ''e'', NL]"
definition s_line :: cstr where "s_line = [CTLCHAR, CHR ''s'', SPC] @ ''00000/00000/00000'' @ [NL]"
definition u_line :: cstr where "u_line = [CTLCHAR, CHR ''u'', NL]"

definition print_delta :: "(int \<Rightarrow> tm) \<Rightarrow> entry_spec \<Rightarrow> cstr list" where
  "print_delta lt e = s_line # del_ba lt (fst e) # map print_ixg (snd e) @ [e_line]"

definition print_table :: "(int \<Rightarrow> tm) \<Rightarrow> entry_spec list \<Rightarrow> cstr list" where
  "print_table lt ds = concat (map (print_delta lt) ds) @ [u_line]"

lemma ixg_nums_step: "\<not> numeric (deref t) \<Longrightarrow> ixg_nums (print_dec n @ t) = n # ixg_nums (NONBLANK t)"
proof -
  assume t: "\<not> numeric (deref t)"
  obtain c cs where c: "print_dec n = c # cs" by (cases "print_dec n") auto
  then have "numeric (deref (print_dec n @ t))" using print_dec_numeric [of c n] by simp
  then show ?thesis using t by (simp add: ixg_nums.simps [of "print_dec n @ t"])
qed

lemma ixg_nums_print: "ixg_nums (NONBLANK (concat (map (\<lambda>n. SPC # print_dec n) l) @ [NL])) = l"
proof (induction l)
  case Nil
  then show ?case by (simp add: ixg_nums.simps)
next
  case (Cons n l)
  have "\<not> numeric (deref (concat (map (\<lambda>n. SPC # print_dec n) l) @ [NL]))"
    by (cases l) simp_all
  with Cons show ?case by (simp add: ixg_nums_step)
qed

lemma doixg_print: "doixg (print_ixg cl) ixgs = ixgs @ [ixg_of cl]"
  by (simp add: doixg_def print_ixg_def ixg_nums_print ixg_of_def Let_def)

lemma delt_body_print:
  "\<forall>cl \<in> set l. fst cl \<in> {CHR ''i'', CHR ''x'', CHR ''g''} \<Longrightarrow>
     delt_body True (map print_ixg l @ e_line # r) ixgs = Inr (ixgs @ map ixg_of l, r)"
proof (induction l arbitrary: ixgs)
  case (Cons cl l)
  then have "deref (print_ixg cl) = CTLCHAR" "deref (tl (print_ixg cl)) = fst cl"
    by (simp_all add: print_ixg_def)
  with Cons show ?case by (auto simp: doixg_print)
qed (simp add: e_line_def)

definition entry_ok :: "(int \<Rightarrow> tm) \<Rightarrow> int \<Rightarrow> (int \<Rightarrow> bool) \<Rightarrow> entry_spec \<Rightarrow> bool" where
  "entry_ok lt tz isdst e \<longleftrightarrow> delta_ok lt tz isdst (fst e) \<and> d_type (fst e) = CHR ''D'' \<and>
     (\<forall>cl \<in> set (snd e). fst cl \<in> {CHR ''i'', CHR ''x'', CHR ''g''})"

definition put_entry :: "idel list \<Rightarrow> entry_spec \<Rightarrow> idel list" where
  "put_entry tab e =
     (let dt = fst e; tab = alloc_table dt tab; k = d_serial dt;
          r = idel_of dt (tab ! k)
      in tab[k := r\<lparr>i_ixg := i_ixg r @ map ixg_of (snd e)\<rparr>])"

lemma length_alloc: "length (alloc_table dt tab) = (if tab = [] then d_serial dt + 1 else length tab)"
  by (simp add: alloc_table_def)

lemma length_put: "length (put_entry tab e) = (if tab = [] then d_serial (fst e) + 1 else length tab)"
  by (simp add: put_entry_def Let_def length_alloc)

lemma alloc_ne [simp]: "alloc_table dt tab \<noteq> []"
  by (simp add: alloc_table_def)

lemma put_ne [simp]: "put_entry tab e \<noteq> []"
  by (simp add: put_entry_def Let_def)

lemma delt_loop_print:
  assumes "\<forall>e \<in> set (e # ds). entry_ok lt tz isdst e"
    and "\<forall>e' \<in> set (e # ds). d_serial (fst e') < (if tab = [] then d_serial (fst e) + 1 else length tab)"
  shows "delt_loop tz isdst (tl (concat (map (print_delta lt) (e # ds)) @ u_line # rest)) dt tab maxr =
    Inr (foldl put_entry tab (e # ds), foldl (\<lambda>m e. max m (s_rel (d_sid (fst e)))) maxr (e # ds), rest)"
  using assms
proof (induction ds arbitrary: e dt tab maxr)
  case Nil
  obtain d l where e: "e = (d, l)" by (cases e)
  have d: "del_ab tz isdst (del_ba lt d) dt = Inr (CHR ''d'', d)" "d_type d = CHR ''D''"
    "\<forall>cl \<in> set l. fst cl \<in> {CHR ''i'', CHR ''x'', CHR ''g''}"
    using Nil.prems(1) del_ab_ba by (auto simp: entry_ok_def e)
  have "d_serial d < length (alloc_table d tab)"
    using Nil.prems(2) by (auto simp: length_alloc e split: if_splits)
  then show ?case
    using d delt_body_print [OF d(3)]
    by (simp add: e print_delta_def Let_def length_alloc put_entry_def u_line_def list_update_overwrite)
next
  case (Cons e' ds)
  obtain d l where e: "e = (d, l)" by (cases e)
  have d: "del_ab tz isdst (del_ba lt d) dt = Inr (CHR ''d'', d)" "d_type d = CHR ''D''"
    "\<forall>cl \<in> set l. fst cl \<in> {CHR ''i'', CHR ''x'', CHR ''g''}"
    using Cons.prems(1) del_ab_ba by (auto simp: entry_ok_def e)
  define rest' where "rest' = concat (map (print_delta lt) (e' # ds)) @ u_line # rest"
  have r: "rest' = s_line # tl rest'" by (simp add: rest'_def print_delta_def)
  have "delt_loop tz isdst (tl rest') d (put_entry tab e) (max maxr (s_rel (d_sid d))) =
      Inr (foldl put_entry (put_entry tab e) (e' # ds),
        foldl (\<lambda>m e. max m (s_rel (d_sid (fst e)))) (max maxr (s_rel (d_sid d))) (e' # ds), rest)"
    unfolding rest'_def using Cons.prems by (intro Cons.IH) (auto simp: length_put)
  moreover have "tl (concat (map (print_delta lt) (e # e' # ds)) @ u_line # rest) =
      del_ba lt d # map print_ixg l @ e_line # s_line # tl rest'"
    using r by (simp add: print_delta_def e rest'_def)
  moreover have "d_serial d < length (alloc_table d tab)"
    using Cons.prems(2) by (auto simp: length_alloc e split: if_splits)
  moreover have pe: "put_entry tab (d, l) = (alloc_table d tab)[d_serial d :=
      (idel_of d (alloc_table d tab ! d_serial d))\<lparr>i_ixg :=
         i_ixg (idel_of d (alloc_table d tab ! d_serial d)) @ map ixg_of l\<rparr>]"
    by (simp add: put_entry_def Let_def)
  ultimately show ?case
    using d delt_body_print [OF d(3)]
    by (simp add: e Let_def pe s_line_def)
qed

definition idel_for :: "entry_spec \<Rightarrow> idel" where
  "idel_for e = \<lparr>i_sid = d_sid (fst e), i_ixg = map ixg_of (snd e), i_pred = d_pred (fst e),
     i_datetime = d_datetime (fst e)\<rparr>"

lemma put_entry_nth:
  assumes "tab \<noteq> []" "d_serial (fst e) < length tab" "i_ixg (tab ! d_serial (fst e)) = []"
  shows "put_entry tab e ! k = (if k = d_serial (fst e) then idel_for e else tab ! k)"
  using assms by (simp add: put_entry_def alloc_table_def Let_def idel_for_def idel_of_def nth_list_update)

lemma put_fold:
  "tab \<noteq> [] \<Longrightarrow> distinct (map (\<lambda>e. d_serial (fst e)) ds) \<Longrightarrow>
   \<forall>e \<in> set ds. d_serial (fst e) < length tab \<and> i_ixg (tab ! d_serial (fst e)) = [] \<Longrightarrow>
     length (foldl put_entry tab ds) = length tab \<and>
     (\<forall>e \<in> set ds. foldl put_entry tab ds ! d_serial (fst e) = idel_for e) \<and>
     (\<forall>k. k \<notin> (\<lambda>e. d_serial (fst e)) ` set ds \<longrightarrow> foldl put_entry tab ds ! k = tab ! k)"
proof (induction ds arbitrary: tab)
  case (Cons e ds)
  have tab: "put_entry tab e \<noteq> []" "length (put_entry tab e) = length tab"
    using Cons.prems(1) by (simp_all add: length_put)
  have nth: "put_entry tab e ! k = (if k = d_serial (fst e) then idel_for e else tab ! k)" for k
    using Cons.prems by (intro put_entry_nth) auto
  have ne: "\<forall>e' \<in> set ds. d_serial (fst e') \<noteq> d_serial (fst e)" using Cons.prems(2) by (auto simp: image_iff)
  have "distinct (map (\<lambda>e. d_serial (fst e)) ds)" using Cons.prems(2) by (simp add: comp_def)
  moreover have "\<forall>e' \<in> set ds. d_serial (fst e') < length (put_entry tab e) \<and>
      i_ixg (put_entry tab e ! d_serial (fst e')) = []"
    using Cons.prems(3) ne by (simp add: tab(2) nth)
  ultimately have IH: "length (foldl put_entry (put_entry tab e) ds) = length tab"
    "\<forall>e' \<in> set ds. foldl put_entry (put_entry tab e) ds ! d_serial (fst e') = idel_for e'"
    "\<forall>k. k \<notin> (\<lambda>e. d_serial (fst e)) ` set ds \<longrightarrow> foldl put_entry (put_entry tab e) ds ! k = put_entry tab e ! k"
    using Cons.IH [OF tab(1)] tab(2) by auto
  have "foldl put_entry (put_entry tab e) ds ! d_serial (fst e) = idel_for e"
    using IH(3) Cons.prems(2) by (simp add: nth image_iff)
  with IH show ?case by (auto simp: nth)
qed simp

lemma foldl_max_ge:
  "(m::nat) \<le> foldl (\<lambda>m e. max m (f e)) m ds \<and> (\<forall>e \<in> set ds. f e \<le> foldl (\<lambda>m e. max m (f e)) m ds)"
  by (induction ds arbitrary: m) (auto intro: order_trans dest: max.boundedE)



end
