(* ===== verification/SccsSid.thy ===== *)
theory SccsSid
  imports SccsTable
begin

text \<open>
  From SIDs to deltas and back: \<open>sidtoser.c\<close>, \<open>getser.c\<close>, \<open>newsid.c\<close> and \<open>dolist.c\<close> of
  \<open>cmd/sccs/lib/comobj\<close>. The flags of the file are a map from letters to their values
  (\<open>Sflags\<close>), \<open>hadt\<close> is the \<open>-t\<close> keyletter. A lookup outside the delta table is not possible:
  the loops run over its serial numbers.
\<close>

record packet =
  p_reqsid :: sid
  p_gotsid :: sid
  p_idel :: "idel list"
  p_maxr :: nat

abbreviation MAXSID :: nat where "MAXSID \<equiv> 9999"

definition maxser :: "'a packet_scheme \<Rightarrow> nat" where
  "maxser pkt = i_pred (p_idel pkt ! 0)"

text \<open>The loop \<open>for (n = maxser(pkt); n; n--)\<close> with a break: the largest serial number for which
  the condition holds, or 0.\<close>

fun downto_find :: "(nat \<Rightarrow> bool) \<Rightarrow> nat \<Rightarrow> nat" where
  "downto_find P 0 = 0"
| "downto_find P (Suc n) = (if P (Suc n) then Suc n else downto_find P n)"

definition sidtoser :: "sid \<Rightarrow> 'a packet_scheme \<Rightarrow> nat" where
  "sidtoser sp pkt = downto_find (\<lambda>n. eqsid (i_sid (p_idel pkt ! n)) sp) (maxser pkt)"

section \<open>The delta to get\<close>

text \<open>
  The search for the newest delta of a release: it takes every trunk delta whose release lies
  above the ones met so far, up to the requested release; state is \<open>ser\<close> and \<open>p_gotsid.s_rel\<close>.
\<close>

fun rel_loop :: "bool \<Rightarrow> idel list \<Rightarrow> nat \<Rightarrow> nat \<Rightarrow> nat \<Rightarrow> nat \<Rightarrow> nat \<times> nat" where
  "rel_loop hadt tab req 0 ser got = (ser, got)"
| "rel_loop hadt tab req (Suc n) ser got =
     (let s = i_sid (tab ! Suc n) in
      if (s_br s = 0 \<or> hadt) \<and> req \<ge> s_rel s \<and> s_rel s > got
      then rel_loop hadt tab req n (Suc n) (s_rel s)
      else rel_loop hadt tab req n ser got)"

text \<open>The search on a branch without sequence number: the branch's newest delta, otherwise the
  oldest delta of the level.\<close>

fun br_loop :: "idel list \<Rightarrow> sid \<Rightarrow> nat \<Rightarrow> nat \<Rightarrow> nat" where
  "br_loop tab req 0 ser = ser"
| "br_loop tab req (Suc n) ser =
     (let s = i_sid (tab ! Suc n) in
      if s_rel s = s_rel req \<and> s_lev s = s_lev req then
        (if s_br s = s_br req then Suc n else br_loop tab req n (Suc n))
      else br_loop tab req n ser)"

definition getser :: "(char \<Rightarrow> cstr option) \<Rightarrow> bool \<Rightarrow> 'a packet_scheme
    \<Rightarrow> serr + (nat \<times> 'a packet_scheme)" where
  "getser sflags hadt pkt =
     (let (err, req, def) =
        (if s_rel (p_reqsid pkt) = 0 then
           (case sflags (CHR ''d'') of
              Some p \<Rightarrow> (let (q, sd) = sid_ab p in (chksid q sd, sd, False))
            | None \<Rightarrow> (False, (p_reqsid pkt)\<lparr>s_rel := MAXSID\<rparr>, True))
         else (False, p_reqsid pkt, False)) in
      if err then Inl (Fatal ''invalid sid (co8)'')
      else
        let pkt = pkt\<lparr>p_reqsid := req\<rparr>; n = maxser pkt; tab = p_idel pkt;
            (ser, pkt) =
              (if s_lev req = 0 then
                 (let (ser, got) = rel_loop hadt tab (s_rel req) n 0 (s_rel (p_gotsid pkt))
                  in (ser, pkt\<lparr>p_gotsid := (p_gotsid pkt)\<lparr>s_rel := got\<rparr>\<rparr>))
               else if s_br req = 0 \<and> hadt then
                 (downto_find (\<lambda>n. s_rel (i_sid (tab ! n)) = s_rel req \<and>
                                    s_lev (i_sid (tab ! n)) = s_lev req) n, pkt)
               else if s_br req \<noteq> 0 \<and> s_seq req = 0 then (br_loop tab req n 0, pkt)
               else (sidtoser req pkt, pkt)) in
        if ser = 0 then Inl (Fatal ''nonexistent sid (ge5)'')
        else
          let pkt = pkt\<lparr>p_gotsid := i_sid (tab ! ser)\<rparr>;
              pkt = (if def \<or> s_lev req = 0 \<and> s_rel req = s_rel (p_gotsid pkt)
                     then pkt\<lparr>p_reqsid := p_gotsid pkt\<rparr> else pkt)
          in Inr (ser, pkt))"

section \<open>The new delta's SID\<close>

text \<open>
  \<open>in_pfile\<close>: \<open>plines\<close> are the lines of the p-file, \<^term>\<open>None\<close> when there is none; only the joint
  edit flag makes it look. A malformed line is fatal.
\<close>

fun in_plines :: "int \<Rightarrow> (int \<Rightarrow> bool) \<Rightarrow> sid \<Rightarrow> cstr list \<Rightarrow> serr + bool" where
  "in_plines tz isdst sp [] = Inr False"
| "in_plines tz isdst sp (l # ls) =
     (case pf_ab tz isdst (butlast l) False of
        Inl e \<Rightarrow> Inl e
      | Inr pf \<Rightarrow> if eqsid (pf_nsid pf) sp then Inr True else in_plines tz isdst sp ls)"

text \<open>The SIDs of the p-file as the rest of \<open>newsid\<close> sees them.\<close>

definition in_pfile :: "bool \<Rightarrow> sid list option \<Rightarrow> sid \<Rightarrow> bool" where
  "in_pfile joint pf sp = (joint \<and> (case pf of None \<Rightarrow> False | Some l \<Rightarrow> sp \<in> set l))"

lemma card_branch_less:
  assumes "sp \<in> set taken"
  shows "card {s \<in> set taken. Suc (s_br sp) \<le> s_br s} < card {s \<in> set taken. s_br sp \<le> s_br s}"
proof (rule psubset_card_mono)
  have "sp \<in> {s \<in> set taken. s_br sp \<le> s_br s}" "sp \<notin> {s \<in> set taken. Suc (s_br sp) \<le> s_br s}"
    using assms by auto
  moreover have "{s \<in> set taken. Suc (s_br sp) \<le> s_br s} \<subseteq> {s \<in> set taken. s_br sp \<le> s_br s}"
    by auto
  ultimately show "{s \<in> set taken. Suc (s_br sp) \<le> s_br s} \<subset> {s \<in> set taken. s_br sp \<le> s_br s}"
    by blast
qed simp

text \<open>\<open>while (taken(sid)) { s_br += 1; ++chkbr; }\<close>\<close>

function bump :: "sid list \<Rightarrow> sid \<Rightarrow> nat \<Rightarrow> sid \<times> nat" where
  "bump taken sp chkbr =
     (if sp \<in> set taken then bump taken (sp\<lparr>s_br := s_br sp + 1\<rparr>) (chkbr + 1) else (sp, chkbr))"
  by pat_completeness auto
termination
  by (relation "measure (\<lambda>(taken, sp, _). card {s \<in> set taken. s_br sp \<le> s_br s})")
    (simp_all add: card_branch_less)

declare bump.simps [simp del]

definition table_sids :: "'a packet_scheme \<Rightarrow> sid list" where
  "table_sids pkt = map (\<lambda>n. i_sid (p_idel pkt ! n)) [1..<Suc (maxser pkt)]"

text \<open>The loop over \<open>chkbr\<close>; \<open>pf\<close> and \<open>tab\<close> are the SIDs of the p-file and of the table.\<close>

lemma bump_ge: "bump taken sp k = (sp', k') \<Longrightarrow>
    k' = k + (s_br sp' - s_br sp) \<and> s_br sp \<le> s_br sp' \<and> sp' \<notin> set taken \<and>
    sp' = sp\<lparr>s_br := s_br sp'\<rparr> \<and>
    card {s \<in> set taken. s_br sp' \<le> s_br s} + (s_br sp' - s_br sp) \<le> card {s \<in> set taken. s_br sp \<le> s_br s}"
proof (induction taken sp k arbitrary: sp' k' rule: bump.induct)
  case (1 taken sp k)
  show ?case
  proof (cases "sp \<in> set taken")
    case True
    then have "bump taken (sp\<lparr>s_br := s_br sp + 1\<rparr>) (k + 1) = (sp', k')"
      using 1(2) by (simp add: bump.simps [of taken sp k])
    note IH = 1(1) [OF True this]
    then have IH: "k' = Suc k + (s_br sp' - Suc (s_br sp))" "Suc (s_br sp) \<le> s_br sp'" "sp' \<notin> set taken"
      "sp' = sp\<lparr>s_br := s_br sp'\<rparr>"
      "card {s \<in> set taken. s_br sp' \<le> s_br s} + (s_br sp' - Suc (s_br sp)) \<le>
         card {s \<in> set taken. Suc (s_br sp) \<le> s_br s}"
      by auto
    show ?thesis using IH card_branch_less [OF True] by auto
  next
    case False
    then show ?thesis using 1(2) by (simp add: bump.simps [of taken sp k])
  qed
qed

definition above :: "sid list \<Rightarrow> sid \<Rightarrow> nat" where
  "above taken sp = card {s \<in> set taken. s_br sp \<le> s_br s}"

lemma above_bump:
  "bump taken sp k = (sp', k') \<Longrightarrow> above taken sp' + k' \<le> above taken sp + k"
  "bump taken sp k = (sp', k') \<Longrightarrow> above other sp' \<le> above other sp"
  using bump_ge [of taken sp k sp' k'] by (auto simp: above_def intro!: card_mono)

function newsid_loop :: "sid list \<Rightarrow> sid list \<Rightarrow> sid \<Rightarrow> nat \<Rightarrow> sid" where
  "newsid_loop pf tab sp chkbr =
     (if chkbr = 0 then sp
      else let (sp, chkbr) = bump pf sp (chkbr - 1); (sp, chkbr) = bump tab sp chkbr
           in newsid_loop pf tab sp chkbr)"
  by pat_completeness auto
termination
proof (relation "measure (\<lambda>(pf, tab, sp, chkbr). above pf sp + above tab sp + chkbr)", goal_cases)
  case (2 pf tab sp chkbr x sp' k' y sp'' k'')
  then have b: "bump pf sp (chkbr - 1) = (sp', k')" "bump tab sp' k' = (sp'', k'')" by simp_all
  show ?case
    using above_bump(1) [OF b(1)] above_bump(1) [OF b(2)] 2(1)
      above_bump(2) [OF b(1), of tab] above_bump(2) [OF b(2), of pf] by simp
qed simp

declare newsid_loop.simps [simp del]

definition newsid :: "bool \<Rightarrow> sid list option \<Rightarrow> bool \<Rightarrow> 'a packet_scheme \<Rightarrow> serr + 'a packet_scheme" where
  "newsid joint pfile branch pkt =
     (let req = p_reqsid pkt; got = p_gotsid pkt;
          inpf = in_pfile joint pfile; ser = (\<lambda>sp. sidtoser sp pkt \<noteq> 0);
          (req, chkbr) =
            (if s_br req = 0 then
               (let req = req\<lparr>s_lev := s_lev req + 1\<rparr> in
                if ser req \<or> p_maxr pkt > s_rel req \<or> branch \<or> inpf req then
                  (\<lparr>s_rel = s_rel got, s_lev = s_lev got, s_br = s_br got + 1, s_seq = 1\<rparr>, 1)
                else (req, 0))
             else if s_seq req = 0 \<and> \<not> branch then (req\<lparr>s_seq := s_seq got + 1\<rparr>, 0)
             else
               (let req = req\<lparr>s_seq := s_seq req + 1\<rparr> in
                if branch \<or> ser req \<or> inpf req then (req\<lparr>s_br := s_br req + 1, s_seq := 1\<rparr>, 1)
                else (req, 0)));
          req = newsid_loop (if joint then (case pfile of None \<Rightarrow> [] | Some l \<Rightarrow> l) else [])
                  (table_sids pkt) req chkbr
      in if ser req \<or> inpf req then Inl (Fatal ''bad SID calculated in newsid()'')
         else Inr (pkt\<lparr>p_reqsid := req\<rparr>))"

section \<open>Lists of deltas\<close>

definition getasid :: "cstr \<Rightarrow> serr + (cstr \<times> sid)" where
  "getasid p =
     (let old = p; (p, sp) = sid_ab p in
      if length old = length p \<or> s_rel sp = 0 then Inl (Fatal ''delta list syntax (co13)'')
      else if s_lev sp = 0 then
        (if s_br sp \<noteq> 0 \<or> s_seq sp \<noteq> 0 then Inl (Fatal ''delta list syntax (co13)'')
         else Inr (p, sp\<lparr>s_lev := MAXSID\<rparr>))
      else if s_br sp \<noteq> 0 then
        Inr (p, if s_seq sp = 0 then sp\<lparr>s_seq := MAXSID\<rparr> else sp)
      else if s_seq sp \<noteq> 0 then Inl (Fatal ''delta list syntax (co13)'')
      else Inr (p, sp))"

text \<open>
  The loops that step the level or the sequence number as long as the delta exists (and a bound
  is not passed); the result is what \<open>enter\<close> is called with.
\<close>

lemma downto_find_bounds: "downto_find P n \<le> n \<and> (downto_find P n \<noteq> 0 \<longrightarrow> P (downto_find P n)) \<and>
    (\<forall>k. downto_find P n < k \<and> k \<le> n \<longrightarrow> \<not> P k)"
proof (induction n)
  case (Suc n)
  then show ?case by (auto simp: le_Suc_eq)
qed simp

lemma sidtoser_in: "sidtoser sp pkt \<noteq> 0 \<longleftrightarrow> sp \<in> set (table_sids pkt)"
proof
  assume "sidtoser sp pkt \<noteq> 0"
  then have "1 \<le> sidtoser sp pkt" "sidtoser sp pkt \<le> maxser pkt" "i_sid (p_idel pkt ! sidtoser sp pkt) = sp"
    using downto_find_bounds [of "\<lambda>n. eqsid (i_sid (p_idel pkt ! n)) sp" "maxser pkt"]
    by (auto simp: sidtoser_def eqsid_eq)
  then show "sp \<in> set (table_sids pkt)"
    unfolding table_sids_def set_map set_upt
    by (intro image_eqI [where x = "sidtoser sp pkt"]) auto
next
  assume "sp \<in> set (table_sids pkt)"
  then obtain n where "1 \<le> n" "n \<le> maxser pkt" "i_sid (p_idel pkt ! n) = sp"
    by (auto simp: table_sids_def less_Suc_eq_le)
  moreover have "\<forall>k. sidtoser sp pkt < k \<and> k \<le> maxser pkt \<longrightarrow> \<not> eqsid (i_sid (p_idel pkt ! k)) sp"
    using downto_find_bounds [of "\<lambda>n. eqsid (i_sid (p_idel pkt ! n)) sp" "maxser pkt"]
    by (simp add: sidtoser_def)
  ultimately show "sidtoser sp pkt \<noteq> 0" by (auto simp: eqsid_eq dest: spec [of _ n])
qed

lemma sidtoser_0: "sidtoser sp pkt = 0 \<longleftrightarrow> sp \<notin> set (table_sids pkt)"
  using sidtoser_in by blast

lemma card_step_less:
  assumes "sp \<in> set taken" "f sp < (k::nat)"
  shows "card {s \<in> set taken. k \<le> f s} < card {s \<in> set taken. f sp \<le> f s}"
proof (rule psubset_card_mono)
  have "sp \<in> {s \<in> set taken. f sp \<le> f s}" "sp \<notin> {s \<in> set taken. k \<le> f s}"
    using assms by auto
  moreover have "{s \<in> set taken. k \<le> f s} \<subseteq> {s \<in> set taken. f sp \<le> f s}"
    using assms(2) by auto
  ultimately show "{s \<in> set taken. k \<le> f s} \<subset> {s \<in> set taken. f sp \<le> f s}" by blast
qed simp

function lev_loop :: "'a packet_scheme \<Rightarrow> nat option \<Rightarrow> sid \<Rightarrow> (nat \<times> sid) list" where
  "lev_loop pkt bound sp =
     (let n = sidtoser sp pkt in
      if (case bound of None \<Rightarrow> True | Some h \<Rightarrow> s_lev sp \<le> h) \<and> n \<noteq> 0
      then (n, sp) # lev_loop pkt bound (sp\<lparr>s_lev := s_lev sp + 1\<rparr>) else [])"
  by pat_completeness auto
termination
  by (relation "measure (\<lambda>(pkt, _, sp). card {s \<in> set (table_sids pkt). s_lev sp \<le> s_lev s})")
    (auto simp: sidtoser_in [simplified] intro!: card_step_less)

function seq_loop :: "'a packet_scheme \<Rightarrow> nat \<Rightarrow> sid \<Rightarrow> (nat \<times> sid) list" where
  "seq_loop pkt high sp =
     (let n = sidtoser sp pkt in
      if s_seq sp \<le> high \<and> n \<noteq> 0
      then (n, sp) # seq_loop pkt high (sp\<lparr>s_seq := s_seq sp + 1\<rparr>) else [])"
  by pat_completeness auto
termination
  by (relation "measure (\<lambda>(pkt, _, sp). card {s \<in> set (table_sids pkt). s_seq sp \<le> s_seq s})")
    (auto simp: sidtoser_in [simplified] intro!: card_step_less)

declare lev_loop.simps [simp del] seq_loop.simps [simp del]

definition rel_range :: "'a packet_scheme \<Rightarrow> sid \<Rightarrow> sid \<Rightarrow> (nat \<times> sid) list" where
  "rel_range pkt low high =
     concat (map (\<lambda>r.
         let sp = \<lparr>s_rel = r, s_lev = (if r = s_rel low then s_lev low else 1), s_br = 0, s_seq = 0\<rparr> in
         if r < s_rel high then lev_loop pkt None sp else lev_loop pkt (Some (s_lev high)) sp)
       [s_rel low..<Suc (s_rel high)])"

definition range_enter :: "'a packet_scheme \<Rightarrow> sid \<Rightarrow> sid \<Rightarrow> serr + (nat \<times> sid) list" where
  "range_enter pkt low high =
     (if s_br low = 0 then
        (if s_br high \<noteq> 0 \<or> s_seq high \<noteq> 0 \<or> s_rel high < s_rel low \<or>
            s_rel high = s_rel low \<and> s_lev high < s_lev low
         then Inl (Fatal ''bad range (co12)'') else Inr (rel_range pkt low high))
      else if \<not> (s_rel high = s_rel low \<and> s_lev high = s_lev low \<and> s_br high = s_br low \<and>
                 s_seq high \<ge> s_seq low)
      then Inl (Fatal ''bad range (co12)'') else Inr (seq_loop pkt (s_seq high) low))"

lemma dot_length: "length (dot p) \<le> length p"
  by (simp add: dot_def)

lemma satoi_length: "satoi p = (q, n) \<Longrightarrow> length q \<le> length p"
  by (auto simp: satoi_def length_dropWhile_le)

lemma sid_ab_length: "sid_ab p = (q, sp) \<Longrightarrow> length q \<le> length p"
  using dot_length by (auto simp: sid_ab_def Let_def split: prod.splits dest!: satoi_length)
    (meson order_trans)+

lemma getasid_length: "getasid p = Inr (q, sp) \<Longrightarrow> length q < length p"
  using sid_ab_length [of p "fst (sid_ab p)" "snd (sid_ab p)"]
  by (auto simp: getasid_def Let_def split: prod.splits if_splits)

definition comma :: "cstr \<Rightarrow> cstr" where
  "comma p = (if deref p = CHR '','' then tl p else p)"

lemma comma_length: "length (comma p) \<le> length p"
  by (simp add: comma_def)

function dolist :: "'a packet_scheme \<Rightarrow> cstr \<Rightarrow> serr + (nat \<times> sid) list" where
  "dolist pkt l =
     (if l = [] then Inr []
      else
        case getasid l of
          Inl e \<Rightarrow> Inl e
        | Inr (l1, low) \<Rightarrow>
            if deref l1 = CHR ''-'' then
              (case getasid (tl l1) of
                 Inl e \<Rightarrow> Inl e
               | Inr (l2, high) \<Rightarrow>
                   (case range_enter pkt low high of
                      Inl e \<Rightarrow> Inl e
                    | Inr es \<Rightarrow>
                        (case dolist pkt (comma l2) of Inl e \<Rightarrow> Inl e | Inr es' \<Rightarrow> Inr (es @ es'))))
            else
              (case dolist pkt (comma l1) of
                 Inl e \<Rightarrow> Inl e
               | Inr es' \<Rightarrow> let n = sidtoser low pkt in Inr (if n \<noteq> 0 then (n, low) # es' else es')))"
  by pat_completeness auto
termination
proof (relation "measure (\<lambda>(_, l). length l)", goal_cases)
  case (2 pkt l x l1 low y l2 high es)
  then have "length l1 < length l" "length l2 < length (tl l1)" by (auto dest: getasid_length)
  then show ?case using comma_length [of l2] by simp
next
  case (3 pkt l x l1 low)
  then have "length l1 < length l" by (auto dest: getasid_length)
  then show ?case using comma_length [of l1] by simp
qed simp

declare dolist.simps [simp del]

section \<open>Properties\<close>

text \<open>The last turn of the loop over \<open>chkbr\<close> found nothing to bump.\<close>

lemma bump_same: "bump taken sp k = (sp', k) \<Longrightarrow> sp' = sp \<and> sp \<notin> set taken"
proof -
  assume b: "bump taken sp k = (sp', k)"
  from bump_ge [OF this] have k: "k = k + (s_br sp' - s_br sp)" "s_br sp \<le> s_br sp'"
      "sp' \<notin> set taken" "sp' = sp\<lparr>s_br := s_br sp'\<rparr>" by auto
  then have "s_br sp' = s_br sp" by linarith
  with k show ?thesis by simp
qed

lemma bump_count: "bump taken sp k = (sp', k') \<Longrightarrow> k \<le> k'"
  using bump_ge [of taken sp k sp' k'] by linarith

lemma newsid_loop_0 [simp]: "newsid_loop pf tab sp 0 = sp"
  by (simp add: newsid_loop.simps)

lemma newsid_loop_fresh:
  "chkbr \<noteq> 0 \<Longrightarrow> newsid_loop pf tab sp chkbr \<notin> set pf \<union> set tab"
proof (induction pf tab sp chkbr rule: newsid_loop.induct)
  case (1 pf tab sp chkbr)
  obtain sp1 k1 where b1: "bump pf sp (chkbr - 1) = (sp1, k1)" by (cases "bump pf sp (chkbr - 1)")
  obtain sp2 k2 where b2: "bump tab sp1 k1 = (sp2, k2)" by (cases "bump tab sp1 k1")
  have step: "newsid_loop pf tab sp chkbr = newsid_loop pf tab sp2 k2"
    using 1(2) b1 b2 by (simp add: newsid_loop.simps [of pf tab sp chkbr])
  show ?case
  proof (cases "k2 = 0")
    case True
    then have "k1 = 0" "chkbr - 1 = 0" using bump_count [OF b1] bump_count [OF b2] by auto
    with b1 b2 True have "sp1 = sp" "sp2 = sp1" "sp \<notin> set pf" "sp1 \<notin> set tab"
      using bump_same [of pf sp 0 sp1] bump_same [of tab sp1 0 sp2] by auto
    then show ?thesis using step True by simp
  next
    case False
    then show ?thesis using 1 b1 b2 step by auto
  qed
qed

text \<open>
  C26: The SID computed for a new delta is fresh: the search over branch numbers ends, and except
  where a branch without sequence number was asked for, it never runs into the error at its
  end; the SID is then neither in the delta table nor, with joint edits, in the p-file, and
  only the requested SID changes.
\<close>

theorem newsid_fresh:
  assumes "s_br (p_reqsid pkt) = 0 \<or> s_seq (p_reqsid pkt) \<noteq> 0 \<or> branch"
  shows "\<exists>sp. newsid joint pfile branch pkt = Inr (pkt\<lparr>p_reqsid := sp\<rparr>) \<and>
    sp \<notin> set (table_sids pkt) \<and> \<not> in_pfile joint pfile sp"
proof -
  define pf where "pf = (if joint then (case pfile of None \<Rightarrow> [] | Some l \<Rightarrow> l) else [])"
  have ip: "in_pfile joint pfile sp \<longleftrightarrow> sp \<in> set pf" for sp
    by (cases joint; cases pfile) (simp_all add: in_pfile_def pf_def)
  note fresh = newsid_loop_fresh [OF one_neq_zero, of pf "table_sids pkt"]
  have red: "(if sidtoser sp pkt \<noteq> 0 \<or> in_pfile joint pfile sp then Inl e else Inr (pkt\<lparr>p_reqsid := sp\<rparr>)) =
      Inr (pkt\<lparr>p_reqsid := sp\<rparr>)" if "sp \<notin> set pf \<union> set (table_sids pkt)" for sp e
    using that by (simp add: ip sidtoser_0)
  show ?thesis
  proof (cases "s_br (p_reqsid pkt) = 0")
    case True
    define req where "req = (p_reqsid pkt)\<lparr>s_lev := s_lev (p_reqsid pkt) + 1\<rparr>"
    show ?thesis
    proof (cases "sidtoser req pkt \<noteq> 0 \<or> p_maxr pkt > s_rel req \<or> branch \<or> in_pfile joint pfile req")
      case b: True
      define g where "g = \<lparr>s_rel = s_rel (p_gotsid pkt), s_lev = s_lev (p_gotsid pkt),
        s_br = s_br (p_gotsid pkt) + 1, s_seq = 1\<rparr>"
      have "newsid joint pfile branch pkt = Inr (pkt\<lparr>p_reqsid := newsid_loop pf (table_sids pkt) g 1\<rparr>)"
        using True b red [OF fresh [of g]] unfolding newsid_def Let_def req_def [symmetric] pf_def [symmetric]
        by (simp only: simp_thms if_True prod.case g_def [symmetric])
      then show ?thesis using fresh [of g] ip by auto
    next
      case b: False
      have "newsid joint pfile branch pkt = Inr (pkt\<lparr>p_reqsid := req\<rparr>)"
        using True b unfolding newsid_def Let_def req_def [symmetric] by simp
      then show ?thesis using b sidtoser_0 by auto
    qed
  next
    case False
    define req where "req = (p_reqsid pkt)\<lparr>s_seq := s_seq (p_reqsid pkt) + 1\<rparr>"
    have q: "\<not> (s_seq (p_reqsid pkt) = 0 \<and> \<not> branch)" using assms False by auto
    show ?thesis
    proof (cases "branch \<or> sidtoser req pkt \<noteq> 0 \<or> in_pfile joint pfile req")
      case b: True
      define g where "g = req\<lparr>s_br := s_br req + 1, s_seq := 1\<rparr>"
      have "newsid joint pfile branch pkt = Inr (pkt\<lparr>p_reqsid := newsid_loop pf (table_sids pkt) g 1\<rparr>)"
        using False q b red [OF fresh [of g]] unfolding newsid_def Let_def req_def [symmetric] pf_def [symmetric]
        by (simp only: simp_thms if_True if_False prod.case g_def [symmetric])
      then show ?thesis using fresh [of g] ip by auto
    next
      case b: False
      have "newsid joint pfile branch pkt = Inr (pkt\<lparr>p_reqsid := req\<rparr>)"
        using False q b unfolding newsid_def Let_def req_def [symmetric] by simp
      then show ?thesis using b sidtoser_0 by auto
    qed
  qed
qed

definition trunk_pkt :: packet where
  "trunk_pkt = \<lparr>p_reqsid = \<lparr>s_rel = 1, s_lev = 1, s_br = 0, s_seq = 0\<rparr>,
     p_gotsid = \<lparr>s_rel = 1, s_lev = 1, s_br = 0, s_seq = 0\<rparr>,
     p_idel = [idel0\<lparr>i_pred := 3\<rparr>, idel0\<lparr>i_sid := \<lparr>s_rel = 1, s_lev = 1, s_br = 0, s_seq = 0\<rparr>\<rparr>,
       idel0\<lparr>i_sid := \<lparr>s_rel = 1, s_lev = 2, s_br = 0, s_seq = 0\<rparr>, i_pred := 1\<rparr>,
       idel0\<lparr>i_sid := \<lparr>s_rel = 1, s_lev = 1, s_br = 1, s_seq = 1\<rparr>, i_pred := 1\<rparr>], p_maxr = 1\<rparr>"

lemma newsid_fresh_witness:
  "\<exists>sp. newsid True (Some []) False trunk_pkt = Inr (trunk_pkt\<lparr>p_reqsid := sp\<rparr>) \<and>
     sp \<notin> set (table_sids trunk_pkt)"
  using newsid_fresh [of trunk_pkt False True "Some []"] by (auto simp: trunk_pkt_def)

lemma rel_loop_spec:
  "rel_loop hadt tab req n ser got = (ser', got') \<Longrightarrow>
     got \<le> got' \<and>
     (\<forall>k. 1 \<le> k \<and> k \<le> n \<and> (s_br (i_sid (tab ! k)) = 0 \<or> hadt) \<and> s_rel (i_sid (tab ! k)) \<le> req \<longrightarrow>
        s_rel (i_sid (tab ! k)) \<le> got') \<and>
     (got < got' \<longrightarrow> 1 \<le> ser' \<and> ser' \<le> n \<and> (s_br (i_sid (tab ! ser')) = 0 \<or> hadt) \<and>
        s_rel (i_sid (tab ! ser')) = got' \<and>
        (\<forall>k. ser' < k \<and> k \<le> n \<and> (s_br (i_sid (tab ! k)) = 0 \<or> hadt) \<and> s_rel (i_sid (tab ! k)) \<le> req \<longrightarrow>
           s_rel (i_sid (tab ! k)) < got')) \<and>
     (got = got' \<longrightarrow> ser' = ser)"
proof (induction hadt tab req n ser got rule: rel_loop.induct)
  case (2 hadt tab req n ser got)
  define sd where "sd = i_sid (tab ! Suc n)"
  show ?case
  proof (cases "(s_br sd = 0 \<or> hadt) \<and> req \<ge> s_rel sd \<and> s_rel sd > got")
    case True
    then have "rel_loop hadt tab req n (Suc n) (s_rel sd) = (ser', got')"
      using 2(3) by (simp add: sd_def)
    note IH = 2(1) [OF sd_def True this]
    show ?thesis
    proof (cases "s_rel sd = got'")
      case eq: True
      then show ?thesis using IH True by (auto simp: sd_def le_Suc_eq)
    next
      case False
      then show ?thesis using IH True by (auto simp: sd_def [symmetric] le_Suc_eq)
    qed
  next
    case False
    then have "rel_loop hadt tab req n ser got = (ser', got')"
      using 2(3) by (simp only: rel_loop.simps Let_def sd_def [symmetric] False if_False)
    note IH = 2(2) [OF sd_def False this]
    show ?thesis using IH False by (auto simp: sd_def [symmetric] le_Suc_eq)
  qed
qed auto

text \<open>
  C29: Asked for no particular SID, without a default flag, SCCS gets the newest delta of the
  trunk's largest release: a trunk delta such that no trunk delta has a larger release, and
  none of the same release has a larger serial number; both SIDs of the packet are its SID.
\<close>

theorem getser_default:
  assumes "s_rel (p_reqsid pkt) = 0" and "s_lev (p_reqsid pkt) = 0" and "sflags (CHR ''d'') = None"
    and "s_rel (p_gotsid pkt) = 0"
    and "1 \<le> t" and "t \<le> maxser pkt" and "s_br (i_sid (p_idel pkt ! t)) = 0"
    and "0 < s_rel (i_sid (p_idel pkt ! t))" and "s_rel (i_sid (p_idel pkt ! t)) \<le> MAXSID"
  shows "\<exists>ser. getser sflags False pkt =
      Inr (ser, pkt\<lparr>p_reqsid := i_sid (p_idel pkt ! ser), p_gotsid := i_sid (p_idel pkt ! ser)\<rparr>) \<and>
    1 \<le> ser \<and> ser \<le> maxser pkt \<and> s_br (i_sid (p_idel pkt ! ser)) = 0 \<and>
    (\<forall>k. 1 \<le> k \<and> k \<le> maxser pkt \<and> s_br (i_sid (p_idel pkt ! k)) = 0 \<and>
         s_rel (i_sid (p_idel pkt ! k)) \<le> MAXSID \<longrightarrow>
       s_rel (i_sid (p_idel pkt ! k)) < s_rel (i_sid (p_idel pkt ! ser)) \<or>
       s_rel (i_sid (p_idel pkt ! k)) = s_rel (i_sid (p_idel pkt ! ser)) \<and> k \<le> ser)"
proof -
  obtain ser got where r: "rel_loop False (p_idel pkt) MAXSID (maxser pkt) 0 0 = (ser, got)"
    by (cases "rel_loop False (p_idel pkt) MAXSID (maxser pkt) 0 0")
  note S = rel_loop_spec [OF r]
  have g: "0 < got" using S assms(5-9) by (meson le_zero_eq not_gr_zero order_less_le_trans)
  with S have ser: "1 \<le> ser" "ser \<le> maxser pkt" "s_br (i_sid (p_idel pkt ! ser)) = 0"
    "s_rel (i_sid (p_idel pkt ! ser)) = got" by auto
  have "maxser (pkt\<lparr>p_reqsid := x\<rparr>) = maxser pkt" for x by (simp add: maxser_def)
  then have e: "getser sflags False pkt =
      Inr (ser, pkt\<lparr>p_reqsid := i_sid (p_idel pkt ! ser), p_gotsid := i_sid (p_idel pkt ! ser)\<rparr>)"
    using assms(1-4) r ser(1) by (simp add: getser_def Let_def)
  have le: "s_rel (i_sid (p_idel pkt ! k)) < got \<or> s_rel (i_sid (p_idel pkt ! k)) = got \<and> k \<le> ser"
    if "1 \<le> k" "k \<le> maxser pkt" "s_br (i_sid (p_idel pkt ! k)) = 0"
      "s_rel (i_sid (p_idel pkt ! k)) \<le> MAXSID" for k
  proof (cases "ser < k")
    case True
    then show ?thesis using S g that by auto
  next
    case False
    then show ?thesis using S that by (metis le_neq_implies_less not_less)
  qed
  show ?thesis using e ser le by (intro exI [of _ ser]) auto
qed

lemma getser_default_witness:
  "\<exists>ser pkt'. getser (\<lambda>_. None) False (trunk_pkt\<lparr>p_reqsid := sid0, p_gotsid := sid0\<rparr>) = Inr (ser, pkt') \<and>
     1 \<le> ser"
proof -
  have "maxser (trunk_pkt\<lparr>p_reqsid := sid0, p_gotsid := sid0\<rparr>) = 3"
    by (simp add: maxser_def trunk_pkt_def)
  then show ?thesis
    using getser_default [of "trunk_pkt\<lparr>p_reqsid := sid0, p_gotsid := sid0\<rparr>" "\<lambda>_. None" 1]
    by (auto simp: sid0_def trunk_pkt_def)
qed

end
