(* ===== verification/SccsStream.thy ===== *)
theory SccsStream
  imports SccsSid
begin

text \<open>
  The streams of an SCCS file: \<open>getline.c\<close>, \<open>putline.c\<close> (with \<open>flushline\<close>), \<open>newstats.c\<close>,
  \<open>flushto.c\<close>, \<open>sinit.c\<close> and \<open>permiss.c\<close> (with \<open>finduser\<close>, \<open>doflags\<close> and \<open>ck_lock\<close>) of
  \<open>cmd/sccs/lib/comobj\<close>. An open file is the list of the bytes still to be read, the x-file the
  list of the bytes written so far; the files hold no NUL byte. The hashes are 32-bit integers.
  Writing does not fail, and the creation of the x-file is its reset to the empty file.
\<close>

section \<open>The packet's stream\<close>

record spacket = packet +
  p_data :: cstr                  \<comment> \<open>the bytes of the s-file\<close>
  p_iop :: "cstr option"          \<comment> \<open>what is left of it, \<open>None\<close> when it is closed\<close>
  p_line :: cstr
  p_wrttn :: bool
  p_upd :: bool
  p_slnno :: nat
  p_ihash :: "32 word"
  p_chash :: "32 word"
  p_uchash :: "32 word"
  p_nhash :: "32 word"
  p_reopen :: bool
  p_chkeof :: bool
  do_chksum :: bool
  p_keep :: nat
  p_user :: bool
  Xcreate :: bool
  Xiop :: cstr

abbreviation DEF_LINE_SIZE :: nat where "DEF_LINE_SIZE \<equiv> 128"

text \<open>\<open>fgets\<close> with room for \<open>k\<close> characters and the terminator.\<close>

fun fgets :: "nat \<Rightarrow> cstr \<Rightarrow> cstr \<times> cstr" where
  "fgets 0 s = ([], s)"
| "fgets (Suc k) [] = ([], [])"
| "fgets (Suc k) (c # s) =
     (if c = NL then ([c], s) else let (buf, r) = fgets k s in (c # buf, r))"

lemma fgets_le: "length (snd (fgets k s)) \<le> length s"
  by (induction k s rule: fgets.induct) (auto simp: split_beta)

lemma fgets_shorter: "fgets k s = (buf, r) \<Longrightarrow> k \<noteq> 0 \<Longrightarrow> s \<noteq> [] \<Longrightarrow> length r < length s"
  using fgets_le [of "k - 1" "tl s"]
  by (cases k; cases s) (auto simp: split_beta le_imp_less_Suc split: if_splits)

text \<open>The reading loop of \<open>getline\<close>: \<open>used\<close> is the part of the line in \<open>p_line\<close>.\<close>

function line_loop :: "cstr \<Rightarrow> cstr \<Rightarrow> cstr \<times> cstr" where
  "line_loop used s =
     (if s = [] then (used, [])
      else
        let (buf, r) = fgets (DEF_LINE_SIZE - 1) s; used = used @ buf
        in if last used \<noteq> NL then line_loop used r else (used, r))"
  by pat_completeness auto
termination
  by (relation "measure (\<lambda>(_, s). length s)") (auto dest: fgets_shorter [OF sym])

declare line_loop.simps [simp del]

definition signed_char :: "char \<Rightarrow> 32 word" where
  "signed_char c = scast (of_nat (ord c) :: 8 word)"

definition unsigned_char :: "char \<Rightarrow> 32 word" where
  "unsigned_char c = of_nat (ord c)"

definition ssum :: "cstr \<Rightarrow> 32 word" where
  "ssum s = foldl (\<lambda>h c. h + signed_char c) 0 s"

definition usum :: "cstr \<Rightarrow> 32 word" where
  "usum s = foldl (\<lambda>h c. h + unsigned_char c) 0 s"

definition putline :: "cstr option \<Rightarrow> 'a spacket_scheme \<Rightarrow> 'a spacket_scheme" where
  "putline newline pkt =
     (if \<not> p_upd pkt then pkt
      else
        let x = (if Xcreate pkt then Xiop pkt else []);
            (p, pkt) =
              (case newline of
                 Some s \<Rightarrow> (s, pkt)
               | None \<Rightarrow> if p_wrttn pkt then ([], pkt) else (p_line pkt, pkt\<lparr>p_wrttn := True\<rparr>))
        in pkt\<lparr>p_nhash := (if Xcreate pkt then p_nhash pkt + ssum p else p_nhash pkt),
               Xcreate := True, Xiop := x @ p\<rparr>)"

text \<open>At the end of the file \<open>getline\<close> checks the sum of the bytes read since the header line;
  a file marked for reopening is rewound.\<close>

definition corrupted :: "'a spacket_scheme \<Rightarrow> bool" where
  "corrupted pkt \<longleftrightarrow> do_chksum pkt \<and> (p_chash pkt XOR p_ihash pkt) AND 0xFFFF \<noteq> 0 \<and>
     (p_uchash pkt XOR p_ihash pkt) AND 0xFFFF \<noteq> 0"

definition getline :: "'a spacket_scheme \<Rightarrow> serr + (cstr option \<times> 'a spacket_scheme)" where
  "getline pkt0 =
     (let pkt = (if p_wrttn pkt0 then pkt0 else putline None pkt0) in
      case p_iop pkt of
        None \<Rightarrow> Inl Wild
      | Some s \<Rightarrow>
          let (used, r) = line_loop [] s in
          if used = [] then
            (if \<not> p_chkeof pkt then Inl (Fatal ''premature eof (co5)'')
             else if corrupted pkt then Inl (Fatal ''Corrupted file (co6)'')
             else if p_reopen pkt then
               Inr (None, pkt\<lparr>p_iop := Some (p_data pkt), p_reopen := False, p_slnno := 0, p_ihash := 0,
                              p_chash := 0, p_uchash := 0, p_nhash := 0, p_keep := 0, do_chksum := False\<rparr>)
             else Inr (None, pkt\<lparr>p_iop := None\<rparr>))
          else Inr (Some used, pkt\<lparr>p_iop := Some r, p_line := used, p_wrttn := False,
                                   p_slnno := p_slnno pkt + 1, p_chash := p_chash pkt + ssum used,
                                   p_uchash := p_uchash pkt + usum used\<rparr>))"

section \<open>Header, statistics and the end of the x-file\<close>

definition newstats :: "cstr \<Rightarrow> 'a spacket_scheme \<Rightarrow> 'a spacket_scheme" where
  "newstats ch pkt =
     (let fivech = replicate 5 (deref ch)
      in putline (Some ([CTLCHAR, CHR ''s'', SPC] @ fivech @ ''/'' @ fivech @ ''/'' @ fivech @ [NL])) pkt)"

text \<open>\<open>sprintf\<close> with \<open>%.05d\<close> and with \<open>%5d\<close>, blanks replaced by zeros: the number with leading
  zeros up to five digits.\<close>

definition pad5 :: "nat \<Rightarrow> cstr" where
  "pad5 n = (let s = print_dec n in replicate (5 - length s) (CHR ''0'') @ s)"

abbreviation MAX_LINES :: nat where "MAX_LINES \<equiv> 99999"

definition digit_sum :: "cstr \<Rightarrow> 32 word" where
  "digit_sum s = foldl (\<lambda>h c. h + (signed_char c - signed_char (CHR ''0''))) 0 s"

text \<open>Writing at the start of the x-file after \<open>rewind\<close> replaces its first bytes.\<close>

definition overwrite :: "cstr \<Rightarrow> cstr \<Rightarrow> cstr" where
  "overwrite x s = s @ drop (length s) x"

definition flushline :: "stats option \<Rightarrow> 'a spacket_scheme \<Rightarrow> 'a spacket_scheme" where
  "flushline st pkt =
     (if \<not> p_upd pkt then pkt
      else
        let pkt = putline None pkt;
            nums = (case st of
                None \<Rightarrow> None
              | Some s \<Rightarrow> Some (pad5 (min MAX_LINES (s_ins s)), pad5 (min MAX_LINES (s_del s)),
                               pad5 (min MAX_LINES (s_unc s))));
            pkt = (case nums of
                None \<Rightarrow> pkt
              | Some (i, d, u) \<Rightarrow>
                  pkt\<lparr>p_nhash := p_nhash pkt + digit_sum i + digit_sum d + digit_sum u\<rparr>);
            hash = pad5 (unat (p_nhash pkt AND 0xFFFF));
            out = [CTLCHAR, CHR ''h''] @ hash @ [NL] @
              (case nums of
                 None \<Rightarrow> []
               | Some (i, d, u) \<Rightarrow> [CTLCHAR, CHR ''s'', SPC] @ i @ ''/'' @ d @ ''/'' @ u @ [NL])
        in pkt\<lparr>Xiop := overwrite (Xiop pkt) out\<rparr>)"

section \<open>Opening and skipping\<close>

definition sinit :: "spacket \<Rightarrow> cstr \<Rightarrow> serr + spacket" where
  "sinit pkt file =
     (let pkt = pkt\<lparr>p_data := file, p_iop := Some file, p_wrttn := True, p_upd := False, p_slnno := 0,
                    p_ihash := 0, p_chash := 0, p_uchash := 0, p_nhash := 0, p_reopen := False,
                    p_chkeof := False, p_keep := 0, p_user := False, do_chksum := True\<rparr> in
      case getline pkt of
        Inl e \<Rightarrow> Inl e
      | Inr (None, pkt) \<Rightarrow> Inl Fmterr
      | Inr (Some p, pkt) \<Rightarrow>
          if deref p \<noteq> CTLCHAR \<or> deref (tl p) \<noteq> CHR ''h'' then Inl Fmterr
          else
            let (q, h) = satoi (tl (tl p)) in
            if deref q \<noteq> NL then Inl Fmterr
            else Inr (pkt\<lparr>p_ihash := of_nat h, p_chash := 0, p_uchash := 0\<rparr>))"

section \<open>Reading by chunks reads lines\<close>

text \<open>The first line of a file, with its newline when it has one.\<close>

fun cut_line :: "cstr \<Rightarrow> cstr \<times> cstr" where
  "cut_line [] = ([], [])"
| "cut_line (c # s) = (if c = NL then ([c], s) else let (l, r) = cut_line s in (c # l, r))"

lemma fgets_cut_pair:
  "cut_line s =
     (let (buf, r) = fgets k s in
      if buf \<noteq> [] \<and> last buf = NL then (buf, r) else (buf @ fst (cut_line r), snd (cut_line r)))"
  by (induction k s rule: fgets.induct) (simp_all add: split_beta Let_def)

lemma fgets_cut:
  "fgets k s = (buf, r) \<Longrightarrow>
   cut_line s = (if buf \<noteq> [] \<and> last buf = NL then (buf, r) else (buf @ fst (cut_line r), snd (cut_line r)))"
  using fgets_cut_pair [of s k] by simp

lemma fgets_empty: "fgets k s = ([], r) \<Longrightarrow> k \<noteq> 0 \<Longrightarrow> s = []"
  by (cases k; cases s) (auto split: if_splits prod.splits)

lemma line_loop_cut: "line_loop used s = (used @ fst (cut_line s), snd (cut_line s))"
proof (induction used s rule: line_loop.induct)
  case (1 used s)
  obtain buf r where f: "fgets (DEF_LINE_SIZE - 1) s = (buf, r)" by (cases "fgets (DEF_LINE_SIZE - 1) s")
  show ?case
  proof (cases "s = []")
    case False
    with fgets_empty f have b: "buf \<noteq> []" by fastforce
    with 1 [OF False f [symmetric] refl] fgets_cut [OF f] False f show ?thesis
      by (subst line_loop.simps) simp
  qed (simp add: line_loop.simps)
qed

lemma cut_line_nonempty: "s \<noteq> [] \<Longrightarrow> fst (cut_line s) \<noteq> []"
  by (cases s) (auto simp: split_beta)

lemma cut_line_append: "fst (cut_line s) @ snd (cut_line s) = s"
  by (induction s) (auto simp: split_beta)

text \<open>A complete line.\<close>

definition is_line :: "cstr \<Rightarrow> bool" where
  "is_line l \<longleftrightarrow> l \<noteq> [] \<and> last l = NL \<and> NL \<notin> set (butlast l)"

lemma is_line_Cons: "is_line (c # l) \<longleftrightarrow> (if c = NL then l = [] else is_line l)"
  by (cases l) (auto simp: is_line_def)

lemma cut_line_line [simp]: "is_line l \<Longrightarrow> cut_line (l @ s) = (l, s)"
  by (induction l) (auto simp: is_line_Cons is_line_def [of "[]"])

lemma is_line_snoc: "NL \<notin> set s \<Longrightarrow> is_line (s @ [NL])"
  by (simp add: is_line_def)

lemma print_dec_NL [simp]: "NL \<notin> set (print_dec n)"
  using print_dec_numeric [of NL n] by auto

lemma fgets_line: "is_line l \<Longrightarrow> fgets k (l @ r) = (take k l, drop k l @ r)"
proof (induction l arbitrary: k)
  case (Cons c l)
  then show ?case by (cases k) (auto simp: is_line_Cons split: if_splits)
qed (simp add: is_line_def)

lemma getline_line:
  assumes "p_iop pkt = Some (l @ s)" "is_line l"
  defines "q \<equiv> if p_wrttn pkt then pkt else putline None pkt"
  shows "getline pkt = Inr (Some l, q\<lparr>p_iop := Some s, p_line := l, p_wrttn := False,
    p_slnno := p_slnno q + 1, p_chash := p_chash q + ssum l, p_uchash := p_uchash q + usum l\<rparr>)"
proof -
  have "p_iop q = p_iop pkt" by (simp add: q_def putline_def Let_def split: option.splits)
  moreover have "l \<noteq> []" using assms(2) by (simp add: is_line_def)
  ultimately show ?thesis
    using assms(1,2) unfolding getline_def q_def [symmetric] by (simp add: line_loop_cut)
qed

lemma getline_shorter:
  assumes "getline pkt = Inr (Some l, pkt')"
  obtains s s' where "p_iop pkt = Some s" "p_iop pkt' = Some s'" "length s' < length s" "p_data pkt' = p_data pkt"
proof -
  define q where "q = (if p_wrttn pkt then pkt else putline None pkt)"
  have q: "p_iop q = p_iop pkt" "p_data q = p_data pkt"
    by (simp_all add: q_def putline_def Let_def split: option.splits)
  obtain s where s: "p_iop pkt = Some s"
    using assms by (auto simp: getline_def q_def [symmetric] q split: option.splits)
  have "length (snd (cut_line s)) < length s \<or> s = []"
    using cut_line_nonempty [of s] arg_cong [OF cut_line_append [of s], of length]
    by (cases "s = []"; cases "fst (cut_line s)") auto
  with that [OF s] assms show thesis
    unfolding getline_def q_def [symmetric]
    by (cases "s = []") (auto simp: q s line_loop_cut split_beta Let_def split: if_splits)
qed

definition slen :: "'a spacket_scheme \<Rightarrow> nat" where
  "slen pkt = (case p_iop pkt of None \<Rightarrow> 0 | Some s \<Rightarrow> length s)"

lemma getline_slen: "getline pkt = Inr (Some l, pkt') \<Longrightarrow> slen pkt' < slen pkt"
  by (erule getline_shorter) (simp add: slen_def)

text \<open>\<open>flushto\<close>: the lines up to one of the given kind, copied to the x-file unless \<open>put\<close> marks them
  as written.\<close>

function flushto :: "char \<Rightarrow> bool \<Rightarrow> 'a spacket_scheme \<Rightarrow> serr + 'a spacket_scheme" where
  "flushto ch put pkt =
     (case getline pkt of
        Inl e \<Rightarrow> Inl e
      | Inr (None, pkt') \<Rightarrow> Inl Fmterr
      | Inr (Some p, pkt') \<Rightarrow>
          if deref p = CTLCHAR \<and> deref (tl p) = ch then Inr (putline None pkt')
          else flushto ch put (pkt'\<lparr>p_wrttn := put\<rparr>))"
  by pat_completeness auto
termination
  by (relation "measure (\<lambda>(_, _, pkt). slen pkt)") (auto dest!: getline_slen simp: slen_def)

declare flushto.simps [simp del]

section \<open>Users, flags and permissions\<close>

text \<open>
  \<open>finduser\<close> compares each line with the user and the group until one has admitted him; a list
  without lines admits everybody.
\<close>

function user_loop :: "cstr \<Rightarrow> cstr \<Rightarrow> bool \<Rightarrow> 'a spacket_scheme \<Rightarrow> serr + 'a spacket_scheme" where
  "user_loop user groupid none pkt =
     (case getline pkt of
        Inl e \<Rightarrow> Inl e
      | Inr (None, pkt') \<Rightarrow> Inl Fmterr
      | Inr (Some p, pkt') \<Rightarrow>
          if deref p \<noteq> CTLCHAR then
            (let p = takeWhile (\<lambda>c. c \<noteq> NL) p; ok_user = (deref p \<noteq> CHR ''!'');
                 p = (if ok_user then p else tl p)
             in user_loop user groupid False
                  (if \<not> p_user pkt' \<and> (user = p \<or> groupid = p) then pkt'\<lparr>p_user := ok_user\<rparr> else pkt'))
          else
            (let pkt' = (if none then pkt'\<lparr>p_user := True\<rparr> else pkt') in
             if deref (tl p) \<noteq> CHR ''U'' then Inl Fmterr else Inr pkt'))"
  by pat_completeness auto
termination
  by (relation "measure (\<lambda>(_, _, _, pkt). slen pkt)") (auto dest!: getline_slen simp: slen_def)

declare user_loop.simps [simp del]

definition finduser :: "cstr \<Rightarrow> nat \<Rightarrow> 'a spacket_scheme \<Rightarrow> serr + 'a spacket_scheme" where
  "finduser saveid gid pkt = user_loop saveid (print_dec gid) True pkt"

abbreviation NFLAGS :: nat where "NFLAGS \<equiv> 28"

text \<open>\<open>doflags\<close>: the flags are a map from letters; a flag outside the array writes outside
  \<open>Sflags\<close>, a value without newline makes the scan for it run on.\<close>

function flag_loop :: "(char \<Rightarrow> cstr option) \<Rightarrow> 'a spacket_scheme
    \<Rightarrow> serr + ((char \<Rightarrow> cstr option) \<times> 'a spacket_scheme)" where
  "flag_loop sflags pkt =
     (case getline pkt of
        Inl e \<Rightarrow> Inl e
      | Inr (None, pkt') \<Rightarrow> Inr (sflags, pkt')
      | Inr (Some p, pkt') \<Rightarrow>
          if deref p = CTLCHAR \<and> deref (tl p) = CHR ''f'' then
            (let p = NONBLANK (tl (tl p)); k = deref p; p = NONBLANK (tl p) in
             if \<not> (ord (CHR ''a'') \<le> ord k \<and> ord k < ord (CHR ''a'') + NFLAGS) then Inl Wild
             else if NL \<notin> set p then Inl Wild
             else flag_loop (sflags(k \<mapsto> takeWhile (\<lambda>c. c \<noteq> NL) p)) pkt')
          else Inr (sflags, pkt'))"
  by pat_completeness auto
termination
  by (relation "measure (\<lambda>(_, pkt). slen pkt)") (auto dest!: getline_slen)

declare flag_loop.simps [simp del]

definition doflags :: "'a spacket_scheme \<Rightarrow> serr + ((char \<Rightarrow> cstr option) \<times> 'a spacket_scheme)" where
  "doflags pkt = flag_loop Map.empty pkt"

text \<open>\<open>ck_lock\<close>: \<open>doflags\<close> leaves a second NUL behind the value, so the step over the end stays
  inside the string.\<close>

function lock_loop :: "cstr \<Rightarrow> nat \<Rightarrow> nat \<Rightarrow> nat option" where
  "lock_loop p got req =
     (if p = [] then None
      else
        let (q, l_rel) = satoi p in
        if l_rel = got \<or> l_rel = req then Some l_rel else lock_loop (tl q) got req)"
  by pat_completeness auto
termination
proof (relation "measure (\<lambda>(p, _). length p)", goal_cases)
  case (2 p got req x q l)
  then have "length q \<le> length p" by (simp add: satoi_def length_dropWhile_le)
  with 2(1) show ?case by (cases q; cases p) auto
qed simp

declare lock_loop.simps [simp del]

definition ck_lock :: "cstr \<Rightarrow> 'a packet_scheme \<Rightarrow> serr + unit" where
  "ck_lock p pkt =
     (if deref p = CHR ''a'' then Inl (Fatal ''SCCS file locked against editing (co23)'')
      else
        (case lock_loop p (s_rel (p_gotsid pkt)) (s_rel (p_reqsid pkt)) of
           None \<Rightarrow> Inr ()
         | Some l_rel \<Rightarrow>
             Inl (Fatal (''release `'' @ print_dec l_rel @ [CHR 0x27] @ '' locked against editing (co23)''))))"

text \<open>A number that \<open>patoi\<close> rejects is \<open>-1\<close>, the largest value of the unsigned comparison.\<close>

definition unsigned_int :: "int \<Rightarrow> nat" where
  "unsigned_int n = nat (n mod 2 ^ 32)"

definition print_int :: "int \<Rightarrow> cstr" where
  "print_int n = (if n < 0 then CHR ''-'' # print_dec (nat (- n)) else print_dec (nat n))"

definition permiss :: "(char \<Rightarrow> cstr option) \<Rightarrow> 'a spacket_scheme \<Rightarrow> serr + unit" where
  "permiss sflags pkt =
     (let rel = s_rel (p_reqsid pkt);
          floor_ok = (case sflags (CHR ''f'') of Some p \<Rightarrow> \<not> rel < unsigned_int (patoi p) | None \<Rightarrow> True);
          ceil_ok = (case sflags (CHR ''c'') of Some p \<Rightarrow> \<not> rel > unsigned_int (patoi p) | None \<Rightarrow> True) in
      if \<not> p_user pkt then Inl (Fatal ''not authorized to make deltas (co14)'')
      else if \<not> floor_ok then
        Inl (Fatal (''release '' @ print_dec rel @ '' < '' @ print_int (patoi (the (sflags (CHR ''f'')))) @
                    '' floor (co15)''))
      else if \<not> ceil_ok then
        Inl (Fatal (''release '' @ print_dec rel @ '' > '' @ print_int (patoi (the (sflags (CHR ''c'')))) @
                    '' ceiling (co16)''))
      else (case sflags (CHR ''l'') of Some p \<Rightarrow> ck_lock p pkt | None \<Rightarrow> Inr ()))"

section \<open>What is written is accepted when it is read\<close>

text \<open>Reading a file to its end.\<close>

function read_all :: "spacket \<Rightarrow> serr + (cstr list \<times> spacket)" where
  "read_all pkt =
     (case getline pkt of
        Inl e \<Rightarrow> Inl e
      | Inr (None, pkt') \<Rightarrow> Inr ([], pkt')
      | Inr (Some l, pkt') \<Rightarrow>
          (case read_all pkt' of Inl e \<Rightarrow> Inl e | Inr (ls, q) \<Rightarrow> Inr (l # ls, q)))"
  by pat_completeness auto
termination
  by (relation "measure slen") (auto dest: getline_slen)

declare read_all.simps [simp del]

lemma foldl_add: "foldl (\<lambda>h c. h + f c) a s = a + foldl (\<lambda>h c. h + f c) (0 :: 32 word) s"
proof (induction s arbitrary: a)
  case (Cons c s)
  show ?case using Cons [of "a + f c"] Cons [of "f c"] by (simp add: add.assoc)
qed simp

lemma ssum_append [simp]: "ssum (s @ t) = ssum s + ssum t" and ssum_Nil [simp]: "ssum [] = 0"
  and ssum_Cons [simp]: "ssum (c # s) = signed_char c + ssum s"
  using foldl_add [of signed_char "ssum s" t] foldl_add [of signed_char "signed_char c" s]
  by (simp_all add: ssum_def)

lemma digit_sum_ssum: "digit_sum s = ssum s - of_nat (length s) * signed_char (CHR ''0'')"
proof (induction s rule: rev_induct)
  case (snoc c s)
  then show ?case by (simp add: digit_sum_def ring_class.ring_distribs)
qed (simp add: digit_sum_def)

lemma length_print_dec: "0 < k \<Longrightarrow> n < 10 ^ k \<Longrightarrow> length (print_dec n) \<le> k"
proof (induction k arbitrary: n)
  case (Suc k)
  show ?case
  proof (cases "n < 10")
    case False
    with Suc(3) have "n div 10 < 10 ^ k" by auto
    moreover from this False have "k \<noteq> 0" by (cases k) auto
    ultimately have "length (print_dec (n div 10)) \<le> k" by (intro Suc(1)) auto
    with False show ?thesis by (subst print_dec.simps) simp
  qed (subst print_dec.simps, simp)
qed simp

lemma length_pad5 [simp]: "n \<le> MAX_LINES \<Longrightarrow> length (pad5 n) = 5"
  using length_print_dec [of 5 n] by (simp add: pad5_def Let_def)

lemma satoi_pad5: "satoi (pad5 n @ NL # t) = (NL # t, n)"
proof -
  have z: "satoi (replicate k (CHR ''0'') @ u) = satoi u" for k u
    by (induction k) (simp_all add: satoi_def digit_val_def numeric_def)
  show ?thesis by (simp add: pad5_def Let_def z)
qed

lemma pad5_NL [simp]: "NL \<notin> set (pad5 n)"
  by (simp add: pad5_def Let_def set_replicate_conv_if)

lemma putline_Some [simp]:
  "p_upd pkt \<Longrightarrow> putline (Some l) pkt = pkt\<lparr>p_nhash := (if Xcreate pkt then p_nhash pkt + ssum l else p_nhash pkt),
     Xcreate := True, Xiop := (if Xcreate pkt then Xiop pkt else []) @ l\<rparr>"
  by (simp add: putline_def)

lemma putline_none: "p_wrttn pkt \<Longrightarrow> Xcreate pkt \<Longrightarrow> putline None pkt = pkt"
  by (simp add: putline_def)

lemma put_lines:
  assumes "p_upd pkt" "Xcreate pkt"
  shows "foldl (\<lambda>p l. putline (Some l) p) pkt ls =
    pkt\<lparr>p_nhash := p_nhash pkt + ssum (concat ls), Xiop := Xiop pkt @ concat ls\<rparr>"
  using assms by (induction ls arbitrary: pkt) (simp_all add: add.assoc)

definition stats_line :: "stats \<Rightarrow> cstr" where
  "stats_line st = [CTLCHAR, CHR ''s'', SPC] @ pad5 (min MAX_LINES (s_ins st)) @ ''/'' @
     pad5 (min MAX_LINES (s_del st)) @ ''/'' @ pad5 (min MAX_LINES (s_unc st)) @ [NL]"

lemma ssum_replicate: "ssum (replicate n c) = of_nat n * signed_char c"
  by (induction n) (simp_all add: ring_class.ring_distribs)

lemma stats_line_ssum:
  "ssum (stats_line st) = ssum ([CTLCHAR, CHR ''s'', SPC] @ replicate 5 (CHR ''0'') @ ''/'' @
       replicate 5 (CHR ''0'') @ ''/'' @ replicate 5 (CHR ''0'') @ [NL]) +
     (digit_sum (pad5 (min MAX_LINES (s_ins st))) + digit_sum (pad5 (min MAX_LINES (s_del st))) +
      digit_sum (pad5 (min MAX_LINES (s_unc st))))"
  by (simp add: stats_line_def digit_sum_ssum ssum_replicate)

lemma stats_line_line: "is_line (stats_line st)"
proof -
  have "is_line ((CTLCHAR # CHR ''s'' # SPC # pad5 (min MAX_LINES (s_ins st)) @ ''/'' @
     pad5 (min MAX_LINES (s_del st)) @ ''/'' @ pad5 (min MAX_LINES (s_unc st))) @ [NL])"
    by (rule is_line_snoc) simp
  then show ?thesis by (simp add: stats_line_def)
qed

definition hash_line :: "32 word \<Rightarrow> cstr" where
  "hash_line h = [CTLCHAR, CHR ''h''] @ pad5 (unat (h AND 0xFFFF)) @ [NL]"

lemma hash_line_line: "is_line (hash_line h)"
  using is_line_snoc [of "CTLCHAR # CHR ''h'' # pad5 (unat (h AND 0xFFFF))"] by (simp add: hash_line_def)

lemma mask_bound: "unat (h AND 0xFFFF :: 32 word) \<le> 65535"
proof -
  have "h AND 0xFFFF \<le> (0xFFFF :: 32 word)" by (rule word_and_le1)
  then show ?thesis by (simp add: word_le_nat_alt)
qed

text \<open>The x-file after the placeholder header, the placeholder statistics, some lines and the end.\<close>

definition write_file :: "stats \<Rightarrow> cstr list \<Rightarrow> 'a spacket_scheme \<Rightarrow> 'a spacket_scheme" where
  "write_file st ls pkt =
     flushline (Some st) (foldl (\<lambda>p l. putline (Some l) p)
       (newstats ''0'' (putline (Some ([CTLCHAR, CHR ''h''] @ ''00000'' @ [NL])) pkt)) ls)"

lemma write_file_Xiop:
  assumes "p_upd pkt" "p_wrttn pkt" "\<not> Xcreate pkt" "p_nhash pkt = 0"
  shows "Xiop (write_file st ls pkt) =
    hash_line (ssum (stats_line st @ concat ls)) @ stats_line st @ concat ls"
proof -
  have "length (hash_line h) = 8" "length (stats_line st) = 21" for h
    using mask_bound [of h] by (simp_all add: hash_line_def stats_line_def)
  note len = this
  define z where "z = [CTLCHAR, CHR ''s'', SPC] @ replicate 5 (CHR ''0'') @ ''/'' @
       replicate 5 (CHR ''0'') @ ''/'' @ replicate 5 (CHR ''0'') @ [NL]"
  define h0 where "h0 = [CTLCHAR, CHR ''h''] @ ''00000'' @ [NL]"
  define q where "q = foldl (\<lambda>p l. putline (Some l) p) (newstats ''0'' (putline (Some h0) pkt)) ls"
  have n: "newstats ''0'' p = putline (Some z) p" for p :: "'a spacket_scheme"
    by (simp add: newstats_def z_def Let_def)
  have "q = pkt\<lparr>p_nhash := ssum z + ssum (concat ls), Xcreate := True, Xiop := h0 @ z @ concat ls\<rparr>"
    using assms unfolding q_def n by (simp add: put_lines)
  moreover have "length h0 = 8" "length z = 21" by (simp_all add: h0_def z_def)
  ultimately have "Xiop (flushline (Some st) q) =
      hash_line (ssum z + ssum (concat ls) + digit_sum (pad5 (min MAX_LINES (s_ins st))) +
        digit_sum (pad5 (min MAX_LINES (s_del st))) + digit_sum (pad5 (min MAX_LINES (s_unc st)))) @
      stats_line st @ concat ls"
    using assms len
    by (simp add: flushline_def putline_none overwrite_def hash_line_def stats_line_def)
  moreover have "ssum (stats_line st) = ssum z + (digit_sum (pad5 (min MAX_LINES (s_ins st))) +
      digit_sum (pad5 (min MAX_LINES (s_del st))) + digit_sum (pad5 (min MAX_LINES (s_unc st))))"
    unfolding z_def by (rule stats_line_ssum)
  ultimately have "Xiop (flushline (Some st) q) =
      hash_line (ssum (stats_line st @ concat ls)) @ stats_line st @ concat ls"
    by (simp only: ssum_append ac_simps)
  then show ?thesis by (simp only: write_file_def q_def h0_def)
qed

lemma putline_off [simp]: "\<not> p_upd pkt \<Longrightarrow> putline l pkt = pkt"
  by (simp add: putline_def)

lemma getline_eof:
  assumes "\<not> p_upd pkt" "p_iop pkt = Some []" "p_chkeof pkt" "\<not> corrupted pkt"
  shows "\<exists>q. getline pkt = Inr (None, q)"
  using assms by (cases "p_reopen pkt") (simp_all add: getline_def line_loop_cut)

lemma read_all_lines:
  assumes "\<forall>l \<in> set ls. is_line l" "\<not> p_upd pkt" "p_iop pkt = Some (concat ls)" "p_chkeof pkt"
    and "((p_chash pkt + ssum (concat ls)) XOR p_ihash pkt) AND 0xFFFF = 0"
  shows "\<exists>q. read_all pkt = Inr (ls, q)"
  using assms
proof (induction ls arbitrary: pkt)
  case Nil
  then have "\<exists>q. getline pkt = Inr (None, q)" by (intro getline_eof) (simp_all add: corrupted_def)
  then show ?case by (auto simp: read_all.simps [of pkt])
next
  case (Cons l ls)
  define p where "p = pkt\<lparr>p_iop := Some (concat ls), p_line := l, p_wrttn := False,
    p_slnno := p_slnno pkt + 1, p_chash := p_chash pkt + ssum l, p_uchash := p_uchash pkt + usum l\<rparr>"
  have g: "getline pkt = Inr (Some l, p)"
    using Cons(2-4) by (subst getline_line) (auto simp: p_def)
  obtain q where "read_all p = Inr (ls, q)"
    using Cons(1) [of p] Cons(2-6) by (auto simp: p_def add.assoc)
  with g show ?case by (subst read_all.simps) simp
qed

lemma masked_eq: "(h XOR of_nat (unat (h AND 0xFFFF))) AND 0xFFFF = (0 :: 32 word)"
proof -
  have "of_nat (unat (h AND 0xFFFF)) = h AND 0xFFFF" by simp
  moreover have "(h XOR (h AND 0xFFFF)) AND 0xFFFF = 0" by (rule bit_eqI) (auto simp: bit_simps)
  ultimately show ?thesis by simp
qed

lemma sinit_file:
  assumes "f = hash_line (ssum r) @ r"
  shows "\<exists>q. sinit pkt f = Inr q \<and> \<not> p_upd q \<and> p_iop q = Some r \<and> p_chash q = 0 \<and>
    p_ihash q = of_nat (unat (ssum r AND 0xFFFF)) \<and> p_data q = f"
proof -
  define p where "p = pkt\<lparr>p_data := f, p_iop := Some f, p_wrttn := True, p_upd := False, p_slnno := 0,
                    p_ihash := 0, p_chash := 0, p_uchash := 0, p_nhash := 0, p_reopen := False,
                    p_chkeof := False, p_keep := 0, p_user := False, do_chksum := True\<rparr>"
  have "getline p = Inr (Some (hash_line (ssum r)), p\<lparr>p_iop := Some r, p_line := hash_line (ssum r),
      p_wrttn := False, p_slnno := 1, p_chash := ssum (hash_line (ssum r)),
      p_uchash := usum (hash_line (ssum r))\<rparr>)"
    by (subst getline_line) (auto simp: p_def assms hash_line_line)
  then show ?thesis
    unfolding sinit_def p_def [symmetric]
    by (simp add: Let_def hash_line_def satoi_pad5) (simp add: p_def)
qed

text \<open>
  C19: A file written by SCCS is accepted by SCCS. The x-file that starts with the placeholder
  header and statistics, goes on with any lines and is closed by \<open>flushline\<close> is opened by
  \<open>sinit\<close> and read to its end without a checksum error; the lines read are the statistics and
  the lines that were written.
\<close>

theorem checksum_roundtrip:
  assumes "p_upd pkt" "p_wrttn pkt" "\<not> Xcreate pkt" "p_nhash pkt = 0" "\<forall>l \<in> set ls. is_line l"
  shows "\<exists>q q'. sinit pkt0 (Xiop (write_file st ls pkt)) = Inr q \<and>
    read_all (q\<lparr>p_chkeof := True\<rparr>) = Inr (stats_line st # ls, q')"
proof -
  define r where "r = stats_line st @ concat ls"
  have "Xiop (write_file st ls pkt) = hash_line (ssum r) @ r"
    unfolding r_def by (rule write_file_Xiop [OF assms(1-4)])
  from sinit_file [OF this, of pkt0]
  obtain q where q: "sinit pkt0 (Xiop (write_file st ls pkt)) = Inr q" "\<not> p_upd q" "p_iop q = Some r"
      "p_chash q = 0" "p_ihash q = of_nat (unat (ssum r AND 0xFFFF))"
    by blast
  have "\<exists>q'. read_all (q\<lparr>p_chkeof := True\<rparr>) = Inr (stats_line st # ls, q')"
    using assms(5) stats_line_line q masked_eq [of "ssum r"] by (intro read_all_lines) (simp_all add: r_def)
  with q(1) show ?thesis by auto
qed

definition spacket0 :: spacket where
  "spacket0 = \<lparr>p_reqsid = sid0, p_gotsid = sid0, p_idel = [], p_maxr = 0, p_data = [], p_iop = None,
     p_line = [], p_wrttn = True, p_upd = False, p_slnno = 0, p_ihash = 0, p_chash = 0, p_uchash = 0,
     p_nhash = 0, p_reopen = False, p_chkeof = False, do_chksum = False, p_keep = 0, p_user = False,
     Xcreate = False, Xiop = []\<rparr>"

lemma checksum_roundtrip_witness:
  "\<exists>q q'. sinit spacket0 (Xiop (write_file \<lparr>s_ins = 2, s_del = 0, s_unc = 100000\<rparr> [''ab'' @ [NL], [NL]]
      (spacket0\<lparr>p_upd := True\<rparr>))) = Inr q \<and>
    read_all (q\<lparr>p_chkeof := True\<rparr>) =
      Inr ([stats_line \<lparr>s_ins = 2, s_del = 0, s_unc = 100000\<rparr>, ''ab'' @ [NL], [NL]], q')"
  using checksum_roundtrip [of "spacket0\<lparr>p_upd := True\<rparr>" "[''ab'' @ [NL], [NL]]" spacket0
      "\<lparr>s_ins = 2, s_del = 0, s_unc = 100000\<rparr>"]
  by (simp add: spacket0_def is_line_def)

section \<open>Who may make a delta\<close>

definition admits :: "cstr \<Rightarrow> nat \<Rightarrow> cstr \<Rightarrow> bool" where
  "admits user gid l \<longleftrightarrow> deref l \<noteq> CHR ''!'' \<and> (l = user @ [NL] \<or> l = print_dec gid @ [NL])"

lemma takeWhile_line: "is_line l \<Longrightarrow> takeWhile (\<lambda>c. c \<noteq> NL) l = butlast l"
  by (induction l) (auto simp: is_line_Cons is_line_def [of "[]"])

lemma is_line_butlast: "is_line l \<Longrightarrow> butlast l @ [NL] = l"
  by (metis append_butlast_last_id is_line_def)

lemma admits_butlast:
  "is_line l \<Longrightarrow> deref l \<noteq> CHR ''!'' \<Longrightarrow> admits user gid l \<longleftrightarrow> user = butlast l \<or> print_dec gid = butlast l"
  by (metis admits_def butlast_snoc is_line_butlast)

lemma user_loop_spec:
  assumes "\<forall>l \<in> set us. is_line l \<and> deref l \<noteq> CTLCHAR" "is_line e" "deref e = CTLCHAR" "deref (tl e) = CHR ''U''"
    and "\<not> p_upd pkt" "p_iop pkt = Some (concat us @ e @ rest)"
  shows "\<exists>q. user_loop user (print_dec gid) none pkt = Inr q \<and> p_iop q = Some rest \<and>
    (p_user q \<longleftrightarrow> p_user pkt \<or> (none \<and> us = []) \<or> (\<exists>l \<in> set us. admits user gid l))"
  using assms(1,5,6)
proof (induction us arbitrary: pkt none)
  case Nil
  then have "getline pkt = Inr (Some e, pkt\<lparr>p_iop := Some rest, p_line := e, p_wrttn := False,
      p_slnno := p_slnno pkt + 1, p_chash := p_chash pkt + ssum e, p_uchash := p_uchash pkt + usum e\<rparr>)"
    using assms(2) by (subst getline_line) auto
  then show ?case
    using assms(3,4) by (subst user_loop.simps) simp
next
  case (Cons l us)
  define p where "p = pkt\<lparr>p_iop := Some (concat us @ e @ rest), p_line := l, p_wrttn := False,
      p_slnno := p_slnno pkt + 1, p_chash := p_chash pkt + ssum l, p_uchash := p_uchash pkt + usum l\<rparr>"
  define w where "w = takeWhile (\<lambda>c. c \<noteq> NL) l"
  define ok where "ok \<longleftrightarrow> deref w \<noteq> CHR ''!''"
  define p' where "p' = (if \<not> p_user p \<and> (user = (if ok then w else tl w) \<or> print_dec gid = (if ok then w else tl w))
    then p\<lparr>p_user := ok\<rparr> else p)"
  have l: "is_line l" "deref l \<noteq> CTLCHAR" using Cons(2) by auto
  have g: "getline pkt = Inr (Some l, p)"
    using Cons(3,4) l by (subst getline_line) (auto simp: p_def)
  have w: "w = butlast l" using l by (simp add: w_def takeWhile_line)
  then have "ok \<longleftrightarrow> deref l \<noteq> CHR ''!''"
    using l(1) by (cases l) (auto simp: ok_def is_line_def)
  then have u: "p_user p' \<longleftrightarrow> p_user pkt \<or> admits user gid l"
    using l admits_butlast [of l user gid] by (auto simp: p'_def p_def w admits_def)
  have "\<exists>q. user_loop user (print_dec gid) False p' = Inr q \<and> p_iop q = Some rest \<and>
      (p_user q \<longleftrightarrow> p_user p' \<or> (False \<and> us = []) \<or> (\<exists>l \<in> set us. admits user gid l))"
    using Cons(2,3) by (intro Cons(1)) (auto simp: p'_def p_def)
  moreover have "user_loop user (print_dec gid) none pkt = user_loop user (print_dec gid) False p'"
    using g l(2) by (subst user_loop.simps) (auto simp: Let_def w_def ok_def p'_def)
  ultimately show ?case using u by auto
qed

text \<open>
  Who is on the user list. After \<open>finduser\<close> has read the list of a file, the user is admitted
  exactly when the list is empty or one of its lines is his name or the number of his group; a
  line with \<open>!\<close> never takes the right away that another line gives, wherever it stands.
\<close>

theorem finduser_admits:
  assumes "\<forall>l \<in> set us. is_line l \<and> deref l \<noteq> CTLCHAR"
    and "\<not> p_upd pkt" "\<not> p_user pkt" "p_iop pkt = Some (concat us @ [CTLCHAR, CHR ''U'', NL] @ rest)"
  shows "\<exists>q. finduser user gid pkt = Inr q \<and> p_iop q = Some rest \<and>
    (p_user q \<longleftrightarrow> us = [] \<or> (\<exists>l \<in> set us. admits user gid l))"
  using user_loop_spec [of us "[CTLCHAR, CHR ''U'', NL]" pkt rest user gid True] assms
  by (simp add: finduser_def is_line_def)

lemma finduser_admits_witness:
  "\<exists>q. finduser ''ken'' 7 (spacket0\<lparr>p_iop := Some (concat [''!ken'' @ [NL], ''7'' @ [NL]] @ [CTLCHAR, CHR ''U'', NL] @ ''x'')\<rparr>) = Inr q \<and>
     p_user q"
proof -
  have "admits ''ken'' 7 (''7'' @ [NL])"
    by code_simp
  then show ?thesis
    using finduser_admits [of "[''!ken'' @ [NL], ''7'' @ [NL]]"
        "spacket0\<lparr>p_iop := Some (concat [''!ken'' @ [NL], ''7'' @ [NL]] @ [CTLCHAR, CHR ''U'', NL] @ ''x'')\<rparr>" "''x''" "''ken''" 7]
    by (auto simp: is_line_def spacket0_def)
qed

fun lock_list :: "nat list \<Rightarrow> cstr" where
  "lock_list [] = []"
| "lock_list [r] = print_dec r"
| "lock_list (r # rs) = print_dec r @ SPC # lock_list rs"

lemma lock_loop_list:
  "lock_loop (lock_list rs) got req = List.find (\<lambda>r. r = got \<or> r = req) rs"
proof (induction rs rule: lock_list.induct)
  case (2 r)
  then show ?case by (auto simp: lock_loop.simps)
next
  case (3 r v va)
  then show ?case by (subst lock_loop.simps) simp
qed (simp add: lock_loop.simps)

lemma patoi_print: "patoi (print_dec n) = int n"
  using satoi_print_end [of n] by (auto simp: patoi_def satoi_def ac_simps)

lemma print_dec_a: "deref (lock_list rs) \<noteq> CHR ''a''"
proof (cases rs rule: lock_list.cases)
  case (2 r)
  then show ?thesis
    using print_dec_numeric [of "hd (print_dec r)" r] by (cases "print_dec r") (auto simp: numeric_def ord_def)
next
  case (3 r v va)
  then show ?thesis
    using print_dec_numeric [of "hd (print_dec r)" r] by (cases "print_dec r") (auto simp: numeric_def ord_def)
qed simp

lemma ck_result: "(case x of None \<Rightarrow> Inr () | Some l \<Rightarrow> Inl (f l)) = Inr () \<longleftrightarrow> x = None"
  by (cases x) simp_all

text \<open>
  C30: When a release may get a delta. With a floor, a ceiling and a list of locked releases in the
  flags of the file, \<open>permiss\<close> lets pass exactly an admitted user who asks for a release between
  floor and ceiling, where neither this release nor the release of the gotten delta is locked.
\<close>

theorem permiss_iff:
  assumes "sflags (CHR ''f'') = Some (print_dec lo)" "sflags (CHR ''c'') = Some (print_dec hi)"
    and "sflags (CHR ''l'') = Some (lock_list rs)" "lo < 2 ^ 32" "hi < 2 ^ 32"
  shows "permiss sflags pkt = Inr () \<longleftrightarrow>
    p_user pkt \<and> lo \<le> s_rel (p_reqsid pkt) \<and> s_rel (p_reqsid pkt) \<le> hi \<and>
    s_rel (p_reqsid pkt) \<notin> set rs \<and> s_rel (p_gotsid pkt) \<notin> set rs"
  using assms
  by (auto simp: permiss_def patoi_print unsigned_int_def ck_lock_def lock_loop_list print_dec_a
      find_None_iff Let_def ck_result)

lemma permiss_iff_witness:
  "permiss [CHR ''f'' \<mapsto> print_dec 2, CHR ''c'' \<mapsto> print_dec 5, CHR ''l'' \<mapsto> lock_list [3]]
     (spacket0\<lparr>p_user := True, p_reqsid := sid0\<lparr>s_rel := 4\<rparr>, p_gotsid := sid0\<lparr>s_rel := 2\<rparr>\<rparr>) = Inr ()"
  by (subst permiss_iff [of _ 2 5 "[3]"]) (simp_all add: spacket0_def sid0_def)

end
