(* ===== verification/SccsWeave.thy ===== *)
theory SccsWeave
  imports SccsStream
begin

text \<open>
  The weave of an SCCS file and the extraction of a version from it: \<open>setup.c\<close>, which decides
  for every delta whether it is applied, and \<open>rdmod.c\<close>, whose \<open>readmod\<close> passes over the body of
  the file with a queue of the open insertions and deletions. The messages about
  include/exclude conflicts are output only and left out; their counter is kept.
\<close>

section \<open>Which deltas are applied\<close>

record applyent =
  a_inline :: bool
  a_code :: nat
  a_reason :: "32 word"

abbreviation SX_EMPTY :: nat where "SX_EMPTY \<equiv> 0"
abbreviation APPLY :: nat where "APPLY \<equiv> 1"
abbreviation NOAPPLY :: nat where "NOAPPLY \<equiv> 2"
abbreviation USER :: "32 word" where "USER \<equiv> 0x20"
abbreviation INCL :: "32 word" where "INCL \<equiv> 1"
abbreviation EXCL :: "32 word" where "EXCL \<equiv> 2"
abbreviation CUTOFF :: "32 word" where "CUTOFF \<equiv> 4"

definition apply0 :: applyent where
  "apply0 = \<lparr>a_inline = False, a_code = SX_EMPTY, a_reason = 0\<rparr>"

definition condset :: "nat \<Rightarrow> 32 word \<Rightarrow> applyent \<Rightarrow> applyent" where
  "condset code reason ap =
     (if code = SX_EMPTY then ap\<lparr>a_reason := a_reason ap OR reason\<rparr>
      else if a_code ap = SX_EMPTY then ap\<lparr>a_code := code, a_reason := a_reason ap OR reason\<rparr>
      else ap)"

text \<open>
  \<open>ixgsetup\<close>. The count is a \<open>char\<close>: a negative one makes the loop run away. The code and the
  reason of an unknown type are those of the list before.
\<close>

fun ixg_apply :: "nat list \<Rightarrow> nat \<Rightarrow> 32 word \<Rightarrow> applyent list \<Rightarrow> serr + applyent list" where
  "ixg_apply [] code reason ap = Inr ap"
| "ixg_apply (k # ks) code reason ap =
     (if k < length ap then ixg_apply ks code reason (ap[k := condset code reason (ap ! k)])
      else Inl Wild)"

fun ixgsetup :: "ixg list \<Rightarrow> nat \<Rightarrow> 32 word \<Rightarrow> applyent list \<Rightarrow> serr + applyent list" where
  "ixgsetup [] code reason ap = Inr ap"
| "ixgsetup (cur # ixgp) code reason ap =
     (let (code, reason) =
        (if i_type cur = CHR ''i'' then (APPLY, INCL)
         else if i_type cur = CHR ''x'' \<or> i_type cur = CHR ''g'' then (NOAPPLY, EXCL)
         else (code, reason)) in
      if sint (i_cnt cur) < 0 then Inl Wild
      else
        (case ixg_apply (take (unat (i_cnt cur)) (i_ser cur)) code reason ap of
           Inl e \<Rightarrow> Inl e
         | Inr ap \<Rightarrow> ixgsetup ixgp code reason ap))"

record queue =
  q_sernum :: nat
  q_keep :: nat
  q_iord :: char
  q_ixmsg :: nat
  q_user :: "32 word"

record wpacket = spacket +
  p_apply :: "applyent list"
  p_q :: "queue list"
  p_ixmsg :: int
  p_ixuser :: bool
  p_cutoff :: int
  p_inssid :: sid
  p_glnno :: nat

abbreviation YES :: nat where "YES \<equiv> 1"
abbreviation NO :: nat where "NO \<equiv> 2"

text \<open>The loop of \<open>setup\<close> from the newest delta down; \<open>first_app\<close> is its local variable.\<close>

fun setup_loop :: "nat \<Rightarrow> bool \<Rightarrow> wpacket \<Rightarrow> serr + wpacket" where
  "setup_loop 0 first_app pkt = Inr pkt"
| "setup_loop (Suc m) first_app pkt =
     (let n = Suc m; del = p_idel pkt ! n; inl = a_inline (p_apply pkt ! n) in
      if inl \<and> n \<noteq> 1 \<and> i_pred del = 0 then Inl Fmterr
      else if inl \<and> \<not> i_pred del < length (p_apply pkt) then Inl Wild
      else
        let ap = (if inl then (p_apply pkt)[i_pred del := (p_apply pkt ! i_pred del)\<lparr>a_inline := True\<rparr>]
                  else p_apply pkt);
            late = (i_datetime del > p_cutoff pkt);
            pkt = (if inl \<and> \<not> late \<and> first_app then pkt\<lparr>p_gotsid := i_sid del\<rparr> else pkt);
            first_app = (first_app \<and> \<not> (inl \<and> \<not> late));
            ap = ap[n := (if inl then (if late then condset NOAPPLY CUTOFF (ap ! n)
                                       else condset APPLY 0 (ap ! n))
                          else condset NOAPPLY 0 (ap ! n))]
        in if a_code (ap ! n) = APPLY then
             (case ixgsetup (i_ixg del) 0 0 ap of
                Inl e \<Rightarrow> Inl e
              | Inr ap \<Rightarrow> setup_loop m first_app (pkt\<lparr>p_apply := ap\<rparr>))
           else setup_loop m first_app (pkt\<lparr>p_apply := ap\<rparr>))"

definition setup_pkt :: "nat \<Rightarrow> wpacket \<Rightarrow> serr + wpacket" where
  "setup_pkt serial pkt =
     (if serial < length (p_apply pkt) then
        setup_loop (maxser pkt) True
          (pkt\<lparr>p_apply := (p_apply pkt)[serial := (p_apply pkt ! serial)\<lparr>a_inline := True\<rparr>]\<rparr>)
      else Inl Wild)"

section \<open>The queue\<close>

definition applies :: "queue \<Rightarrow> bool" where
  "applies q \<longleftrightarrow> q_iord q = CHR ''I'' \<and> q_keep q = YES \<or> q_iord q = CHR ''D'' \<and> q_keep q = NO"

text \<open>The loop of \<open>chkix\<close>: \<open>retval\<close>, \<open>firstins\<close> and \<open>lastdel\<close>.\<close>

fun chkix_loop :: "queue list \<Rightarrow> nat \<Rightarrow> nat \<Rightarrow> nat \<Rightarrow> nat \<times> nat \<times> nat" where
  "chkix_loop [] retval firstins lastdel = (retval, firstins, lastdel)"
| "chkix_loop (cur # qs) retval firstins lastdel =
     (if applies cur then
        (if q_iord cur = CHR ''D'' then chkix_loop qs retval firstins (q_sernum cur)
         else chkix_loop qs retval (if firstins = 0 then q_sernum cur else firstins) lastdel)
      else chkix_loop qs (if q_iord cur = CHR ''I'' then retval + 1 else retval) firstins lastdel)"

definition chkix :: "queue \<Rightarrow> queue list \<Rightarrow> nat" where
  "chkix new hd_q =
     (if \<not> applies new then 0
      else if \<forall>q \<in> set hd_q. q_user q = 0 then 0
      else
        let (retval, firstins, lastdel) = chkix_loop hd_q 0 0 0 in
        if retval = 0 then
          (if lastdel \<noteq> 0 \<and> q_sernum new > lastdel then 1 else 0) +
          (if firstins \<noteq> 0 \<and> q_sernum new < firstins then 1 else 0)
        else retval)"

definition setkeep :: "wpacket \<Rightarrow> wpacket" where
  "setkeep pkt =
     (case dropWhile (\<lambda>q. q_keep q = 0) (p_q pkt) of
        [] \<Rightarrow> pkt\<lparr>p_keep := NO\<rparr>
      | q # _ \<Rightarrow>
          let pkt = pkt\<lparr>p_keep := q_keep q\<rparr> in
          if q_keep q = YES then pkt\<lparr>p_inssid := i_sid (p_idel pkt ! q_sernum q)\<rparr> else pkt)"

definition addq :: "wpacket \<Rightarrow> nat \<Rightarrow> nat \<Rightarrow> char \<Rightarrow> 32 word \<Rightarrow> serr + wpacket" where
  "addq pkt ser keep iord user =
     (let prev = takeWhile (\<lambda>q. \<not> q_sernum q \<le> ser) (p_q pkt);
          cur = dropWhile (\<lambda>q. \<not> q_sernum q \<le> ser) (p_q pkt) in
      if cur \<noteq> [] \<and> q_sernum (hd cur) = ser then Inl Fmterr
      else
        let q = \<lparr>q_sernum = ser, q_keep = keep, q_iord = iord, q_ixmsg = 0, q_user = user\<rparr>;
            msg = (if p_ixuser pkt then chkix q (prev @ q # cur) mod 256 else 0)
        in Inr (setkeep (pkt\<lparr>p_q := prev @ q\<lparr>q_ixmsg := msg\<rparr> # cur,
                             p_ixmsg := (if msg \<noteq> 0 then p_ixmsg pkt + 1 else p_ixmsg pkt)\<rparr>)))"

definition remq :: "wpacket \<Rightarrow> nat \<Rightarrow> serr + wpacket" where
  "remq pkt ser =
     (let prev = takeWhile (\<lambda>q. q_sernum q \<noteq> ser) (p_q pkt) in
      case dropWhile (\<lambda>q. q_sernum q \<noteq> ser) (p_q pkt) of
        [] \<Rightarrow> Inl Fmterr
      | cur # q_next \<Rightarrow>
          Inr (setkeep (pkt\<lparr>p_q := prev @ q_next,
                            p_ixmsg := (if q_ixmsg cur \<noteq> 0 then p_ixmsg pkt - 1 else p_ixmsg pkt)\<rparr>)))"

text \<open>A control line of the body.\<close>

definition control :: "wpacket \<Rightarrow> cstr \<Rightarrow> serr + wpacket" where
  "control pkt p =
     (let iord = deref p in
      if iord \<noteq> CHR ''I'' \<and> iord \<noteq> CHR ''D'' \<and> iord \<noteq> CHR ''E'' then Inl Fmterr
      else
        let (_, ser) = satoi (NONBLANK (tl p)) in
        if \<not> (ser > 0 \<and> ser \<le> maxser pkt) then Inl Fmterr
        else if iord = CHR ''E'' then remq pkt ser
        else
          let ap = p_apply pkt ! ser in
          if a_code ap = APPLY then
            addq pkt ser (if iord = CHR ''I'' then YES else NO) iord (a_reason ap AND USER)
          else addq pkt ser (if iord = CHR ''I'' then NO else 0) iord (a_reason ap AND USER))"

lemma setkeep_frame: "\<exists>k s. setkeep pkt = pkt\<lparr>p_keep := k, p_inssid := s\<rparr>"
proof (cases "dropWhile (\<lambda>q. q_keep q = 0) (p_q pkt)")
  case Nil
  then have "setkeep pkt = pkt\<lparr>p_keep := NO, p_inssid := p_inssid pkt\<rparr>"
    unfolding setkeep_def Nil by simp
  then show ?thesis by blast
next
  case (Cons q qs)
  then have "setkeep pkt = pkt\<lparr>p_keep := q_keep q, p_inssid := (if q_keep q = YES
      then i_sid (p_idel pkt ! q_sernum q) else p_inssid pkt)\<rparr>"
    by (simp add: setkeep_def Let_def)
  then show ?thesis by blast
qed

lemma addq_form: "addq pkt ser keep iord user = Inr pkt' \<Longrightarrow> \<exists>q i. pkt' = setkeep (pkt\<lparr>p_q := q, p_ixmsg := i\<rparr>)"
  unfolding addq_def Let_def
  by (cases "dropWhile (\<lambda>q. \<not> q_sernum q \<le> ser) (p_q pkt) \<noteq> [] \<and>
        q_sernum (hd (dropWhile (\<lambda>q. \<not> q_sernum q \<le> ser) (p_q pkt))) = ser")
     (simp, simp only: if_False sum.inject, drule sym, intro exI, assumption)

lemma remq_form: "remq pkt ser = Inr pkt' \<Longrightarrow> \<exists>q i. pkt' = setkeep (pkt\<lparr>p_q := q, p_ixmsg := i\<rparr>)"
  unfolding remq_def Let_def
  by (cases "dropWhile (\<lambda>q. q_sernum q \<noteq> ser) (p_q pkt)")
     (simp, simp only: list.case sum.inject, drule sym, intro exI, assumption)

lemma control_frame:
  assumes "control pkt p = Inr pkt'"
  obtains q i k s where "pkt' = pkt\<lparr>p_q := q, p_ixmsg := i, p_keep := k, p_inssid := s\<rparr>"
proof -
  have "\<exists>q i. pkt' = setkeep (pkt\<lparr>p_q := q, p_ixmsg := i\<rparr>)"
    using assms unfolding control_def Let_def split_beta
    by (auto split: if_splits dest: addq_form remq_form)
  then obtain q i where e: "pkt' = setkeep (pkt\<lparr>p_q := q, p_ixmsg := i\<rparr>)" by blast
  obtain k s where "setkeep (pkt\<lparr>p_q := q, p_ixmsg := i\<rparr>) =
      (pkt\<lparr>p_q := q, p_ixmsg := i\<rparr>)\<lparr>p_keep := k, p_inssid := s\<rparr>"
    using setkeep_frame by blast
  with e that [where q = q and i = i and k = k and s = s] show thesis by simp
qed

lemma control_slen: "control pkt p = Inr pkt' \<Longrightarrow> slen pkt' = slen pkt"
  by (erule control_frame) (simp add: slen_def)

text \<open>\<open>readmod\<close>: reads on to the next line of the version, which it leaves in the packet, or to the end.\<close>

function readmod :: "wpacket \<Rightarrow> serr + (bool \<times> wpacket)" where
  "readmod pkt =
     (case getline pkt of
        Inl e \<Rightarrow> Inl e
      | Inr (None, pkt') \<Rightarrow>
          if p_q pkt' \<noteq> [] then Inl (Fatal ''premature eof (co5)'') else Inr (False, pkt')
      | Inr (Some l, pkt') \<Rightarrow>
          if deref l \<noteq> CTLCHAR then
            (if p_keep pkt' = YES then Inr (True, pkt'\<lparr>p_glnno := p_glnno pkt' + 1\<rparr>) else readmod pkt')
          else (case control pkt' (tl l) of Inl e \<Rightarrow> Inl e | Inr pkt'' \<Rightarrow> readmod pkt''))"
  by pat_completeness auto
termination
  by (relation "measure slen") (auto dest!: getline_slen simp: control_slen)

declare readmod.simps [simp del]

lemma readmod_slen: "readmod pkt = Inr (True, pkt') \<Longrightarrow> slen pkt' < slen pkt"
proof (induction pkt rule: readmod.induct)
  case (1 pkt)
  from 1(3) obtain l p where g: "getline pkt = Inr (Some l, p)"
    by (subst (asm) readmod.simps) (auto split: sum.splits option.splits if_splits)
  note less = getline_slen [OF g]
  show ?case
  proof (cases "deref l = CTLCHAR")
    case True
    with 1(3) g obtain p' where c: "control p (tl l) = Inr p'" "readmod p' = Inr (True, pkt')"
      by (subst (asm) readmod.simps) (auto split: sum.splits)
    with 1(2) [OF g refl refl _ c(1)] True less control_slen [OF c(1)] show ?thesis by simp
  next
    case False
    note no = this
    show ?thesis
    proof (cases "p_keep p = YES")
      case True
      with 1(3) g no have "pkt' = p\<lparr>p_glnno := p_glnno p + 1\<rparr>" by (subst (asm) readmod.simps) simp
      with less show ?thesis by (simp add: slen_def)
    next
      case keep: False
      with 1(3) g no have "readmod p = Inr (True, pkt')" by (subst (asm) readmod.simps) simp
      from 1(1) [OF g refl refl no keep this] less show ?thesis by simp
    qed
  qed
qed

text \<open>The loop \<open>while (readmod(&pkt)) fputs(line)\<close> that writes a version.\<close>

function get_lines :: "wpacket \<Rightarrow> serr + cstr list" where
  "get_lines pkt =
     (case readmod pkt of
        Inl e \<Rightarrow> Inl e
      | Inr (found, pkt') \<Rightarrow>
          if found then (case get_lines pkt' of Inl e \<Rightarrow> Inl e | Inr r \<Rightarrow> Inr (p_line pkt' # r))
          else Inr [])"
  by pat_completeness auto
termination
  by (relation "measure slen") (auto dest: readmod_slen)

declare get_lines.simps [simp del]

section \<open>What a weave means\<close>

text \<open>
  A weave is a list of text lines and control lines. While it is passed over, the open control
  lines are a finite map from serial numbers to \<open>True\<close> for an insertion and \<open>False\<close> for a
  deletion. With the deltas \<open>A\<close> applied, an insertion always matters and a deletion only when it
  is applied; a line belongs to the version when the newest open control line that matters is an
  applied insertion.
\<close>

datatype item = Text cstr | Ins nat | Del nat | End nat

definition print_item :: "item \<Rightarrow> cstr" where
  "print_item x =
     (case x of
        Text l \<Rightarrow> l
      | Ins n \<Rightarrow> [CTLCHAR, CHR ''I'', SPC] @ print_dec n @ [NL]
      | Del n \<Rightarrow> [CTLCHAR, CHR ''D'', SPC] @ print_dec n @ [NL]
      | End n \<Rightarrow> [CTLCHAR, CHR ''E'', SPC] @ print_dec n @ [NL])"

definition print_weave :: "item list \<Rightarrow> cstr" where
  "print_weave w = concat (map print_item w)"

definition item_ok :: "item \<Rightarrow> bool" where
  "item_ok x = (case x of Text l \<Rightarrow> is_line l \<and> deref l \<noteq> CTLCHAR | _ \<Rightarrow> True)"

type_synonym opens = "(nat \<times> bool) list"

definition visible :: "(nat \<Rightarrow> bool) \<Rightarrow> opens \<Rightarrow> bool" where
  "visible A O' \<longleftrightarrow> (\<exists>(n, b) \<in> set O'. b \<and> A n \<and> (\<forall>(m, c) \<in> set O'. (c \<or> A m) \<longrightarrow> m \<le> n))"

definition wopen :: "nat \<Rightarrow> nat \<Rightarrow> bool \<Rightarrow> opens \<Rightarrow> serr + (opens \<times> cstr list)" where
  "wopen M n b O' =
     (if 0 < n \<and> n \<le> M \<and> n \<notin> fst ` set O' then Inr ((n, b) # O', []) else Inl Fmterr)"

definition wclose :: "nat \<Rightarrow> nat \<Rightarrow> opens \<Rightarrow> serr + (opens \<times> cstr list)" where
  "wclose M n O' =
     (if 0 < n \<and> n \<le> M \<and> n \<in> fst ` set O' then Inr (filter (\<lambda>(m, _). m \<noteq> n) O', []) else Inl Fmterr)"

fun wstep :: "(nat \<Rightarrow> bool) \<Rightarrow> nat \<Rightarrow> opens \<Rightarrow> item \<Rightarrow> serr + (opens \<times> cstr list)" where
  "wstep A M O' (Text l) = Inr (O', if visible A O' then [l] else [])"
| "wstep A M O' (Ins n) = wopen M n True O'"
| "wstep A M O' (Del n) = wopen M n False O'"
| "wstep A M O' (End n) = wclose M n O'"

fun wrun :: "(nat \<Rightarrow> bool) \<Rightarrow> nat \<Rightarrow> opens \<Rightarrow> item list \<Rightarrow> serr + (opens \<times> cstr list)" where
  "wrun A M O' [] = Inr (O', [])"
| "wrun A M O' (x # w) =
     (case wstep A M O' x of
        Inl e \<Rightarrow> Inl e
      | Inr (O'', t) \<Rightarrow>
          (case wrun A M O'' w of Inl e \<Rightarrow> Inl e | Inr (O3, t') \<Rightarrow> Inr (O3, t @ t')))"

definition version :: "(nat \<Rightarrow> bool) \<Rightarrow> nat \<Rightarrow> item list \<Rightarrow> serr + cstr list" where
  "version A M w =
     (case wrun A M [] w of
        Inl e \<Rightarrow> Inl e
      | Inr (O', t) \<Rightarrow> if O' = [] then Inr t else Inl (Fatal ''premature eof (co5)''))"

section \<open>The queue represents the open control lines\<close>

definition keep_of :: "bool \<Rightarrow> bool \<Rightarrow> nat" where
  "keep_of applied ins = (if applied then (if ins then YES else NO) else if ins then NO else 0)"

definition qrel :: "(nat \<Rightarrow> bool) \<Rightarrow> queue list \<Rightarrow> opens \<Rightarrow> bool" where
  "qrel A qs O' \<longleftrightarrow>
     sorted_wrt (\<lambda>a b. q_sernum b < q_sernum a) qs \<and>
     set O' = (\<lambda>q. (q_sernum q, q_iord q = CHR ''I'')) ` set qs \<and>
     (\<forall>q \<in> set qs. q_keep q = keep_of (A (q_sernum q)) (q_iord q = CHR ''I''))"

lemma keep_of_simps [simp]:
  "keep_of a i = YES \<longleftrightarrow> a \<and> i" "keep_of a i = Suc 0 \<longleftrightarrow> a \<and> i" "keep_of a i = 0 \<longleftrightarrow> \<not> a \<and> \<not> i" "keep_of a i = NO \<longleftrightarrow> a \<noteq> i"
  by (auto simp: keep_of_def)

lemma qrel_Nil: "qrel A [] O' \<longleftrightarrow> O' = []" and qrel_empty: "qrel A qs O' \<Longrightarrow> qs = [] \<longleftrightarrow> O' = []"
  by (auto simp: qrel_def)

lemma qrel_fst: "qrel A qs O' \<Longrightarrow> fst ` set O' = q_sernum ` set qs"
  by (auto simp: qrel_def image_image)

text \<open>The first entry of the queue that has a keep value decides.\<close>

lemma visible_queue:
  assumes "qrel A qs O'"
  shows "visible A O' \<longleftrightarrow> (\<exists>q r. dropWhile (\<lambda>q. q_keep q = 0) qs = q # r \<and> q_keep q = YES)"
proof -
  let ?P = "\<lambda>q. q_keep q = 0"
  let ?D = "dropWhile ?P qs"
  have k: "q_keep q = keep_of (A (q_sernum q)) (q_iord q = CHR ''I'')" if "q \<in> set qs" for q
    using assms that by (simp add: qrel_def)
  have vis: "visible A O' \<longleftrightarrow> (\<exists>q \<in> set qs. q_keep q = YES \<and>
      (\<forall>p \<in> set qs. q_keep p \<noteq> 0 \<longrightarrow> q_sernum p \<le> q_sernum q))"
    using assms k by (auto simp: visible_def qrel_def)
  have split: "qs = takeWhile ?P qs @ ?D" by simp
  have tw: "q_keep q = 0" if "q \<in> set (takeWhile ?P qs)" for q
    using that by (rule set_takeWhileD [THEN conjunct2])
  show ?thesis
  proof (cases ?D)
    case Nil
    then have "\<forall>q \<in> set qs. q_keep q = 0" by (simp add: dropWhile_eq_Nil_conv)
    then show ?thesis unfolding vis Nil by auto
  next
    case (Cons q r)
    have "q_keep q \<noteq> 0" using hd_dropWhile [of ?P qs] Cons by force
    moreover have "sorted_wrt (\<lambda>a b. q_sernum b < q_sernum a) (takeWhile ?P qs @ q # r)"
      using assms split Cons by (simp add: qrel_def)
    then have lt: "q_sernum p < q_sernum q" if "p \<in> set r" for p
      using that by (simp add: sorted_wrt_append)
    have mem: "p \<in> set qs \<longleftrightarrow> p \<in> set (takeWhile ?P qs) \<or> p = q \<or> p \<in> set r" for p
      using arg_cong [OF split, of set] Cons by auto
    ultimately have a: "(\<exists>p \<in> set qs. q_keep p = YES \<and>
        (\<forall>p' \<in> set qs. q_keep p' \<noteq> 0 \<longrightarrow> q_sernum p' \<le> q_sernum p)) \<Longrightarrow> q_keep q = YES"
      using tw lt mem by (metis leD zero_neq_one)
    have "q_keep q = YES \<Longrightarrow> (\<exists>p \<in> set qs. q_keep p = YES \<and>
        (\<forall>p' \<in> set qs. q_keep p' \<noteq> 0 \<longrightarrow> q_sernum p' \<le> q_sernum p))"
      using tw lt mem by (metis less_imp_le_nat order_refl)
    with a show ?thesis unfolding vis Cons by auto
  qed
qed

lemma setkeep_keep:
  "p_keep (setkeep pkt) = YES \<longleftrightarrow>
     (\<exists>q r. dropWhile (\<lambda>q. q_keep q = 0) (p_q pkt) = q # r \<and> q_keep q = YES)"
proof (cases "dropWhile (\<lambda>q. q_keep q = 0) (p_q pkt)")
  case Nil
  show ?thesis unfolding setkeep_def Nil by simp
next
  case (Cons q r)
  show ?thesis unfolding setkeep_def Cons by (simp add: Let_def)
qed

lemma setkeep_p_q [simp]: "p_q (setkeep pkt) = p_q pkt"
proof -
  obtain k s where "setkeep pkt = pkt\<lparr>p_keep := k, p_inssid := s\<rparr>" using setkeep_frame by blast
  then show ?thesis by simp
qed

lemma sorted_split:
  fixes qs :: "queue list" and ser :: nat
  assumes "sorted_wrt (\<lambda>a b. q_sernum b < q_sernum a) qs"
  defines "prev \<equiv> takeWhile (\<lambda>q. \<not> q_sernum q \<le> ser) qs" and "cur \<equiv> dropWhile (\<lambda>q. \<not> q_sernum q \<le> ser) qs"
  shows "qs = prev @ cur" "\<forall>q \<in> set prev. ser < q_sernum q" "\<forall>q \<in> set cur. q_sernum q \<le> ser"
    "sorted_wrt (\<lambda>a b. q_sernum b < q_sernum a) prev" "sorted_wrt (\<lambda>a b. q_sernum b < q_sernum a) cur"
    "(cur \<noteq> [] \<and> q_sernum (hd cur) = ser) \<longleftrightarrow> ser \<in> q_sernum ` set qs"
proof -
  show q: "qs = prev @ cur" by (simp add: prev_def cur_def)
  with assms(1) show sp: "sorted_wrt (\<lambda>a b. q_sernum b < q_sernum a) prev"
    and sc: "sorted_wrt (\<lambda>a b. q_sernum b < q_sernum a) cur"
    by (metis sorted_wrt_append)+
  show p: "\<forall>q \<in> set prev. ser < q_sernum q" by (auto simp: prev_def dest: set_takeWhileD)
  have hd: "cur \<noteq> [] \<Longrightarrow> q_sernum (hd cur) \<le> ser"
    using hd_dropWhile [of "\<lambda>q. \<not> q_sernum q \<le> ser" qs] by (simp add: cur_def)
  with sc show c: "\<forall>q \<in> set cur. q_sernum q \<le> ser" by (cases cur) auto
  show "(cur \<noteq> [] \<and> q_sernum (hd cur) = ser) \<longleftrightarrow> ser \<in> q_sernum ` set qs"
    using p c sc hd by (subst q) (cases cur; fastforce)
qed

lemma qrel_insert:
  assumes "qrel A qs O'" "ser \<notin> q_sernum ` set qs" "q_sernum q = ser"
    and "q_keep q = keep_of (A ser) (q_iord q = CHR ''I'')"
  shows "qrel A (takeWhile (\<lambda>q. \<not> q_sernum q \<le> ser) qs @ q # dropWhile (\<lambda>q. \<not> q_sernum q \<le> ser) qs)
    ((ser, q_iord q = CHR ''I'') # O')"
proof -
  have st: "sorted_wrt (\<lambda>a b. q_sernum b < q_sernum a) qs" using assms(1) by (simp add: qrel_def)
  note S = sorted_split [OF st, of ser]
  let ?p = "takeWhile (\<lambda>q. \<not> q_sernum q \<le> ser) qs" and ?c = "dropWhile (\<lambda>q. \<not> q_sernum q \<le> ser) qs"
  have m: "set qs = set ?p \<union> set ?c" by (metis set_append takeWhile_dropWhile_id)
  have "\<forall>q \<in> set ?c. q_sernum q < ser"
    using S(3) assms(2) m by (metis UnI2 image_eqI le_neq_implies_less)
  then have "sorted_wrt (\<lambda>a b. q_sernum b < q_sernum a) (?p @ q # ?c)"
    using S(2,4,5) assms(3) by (auto simp: sorted_wrt_append intro: less_trans)
  then show ?thesis using assms m unfolding qrel_def by auto
qed

lemma qrel_remove:
  assumes "qrel A qs O'" "ser \<in> q_sernum ` set qs"
  obtains q r where "dropWhile (\<lambda>q. q_sernum q \<noteq> ser) qs = q # r"
    "qrel A (takeWhile (\<lambda>q. q_sernum q \<noteq> ser) qs @ r) (filter (\<lambda>(m, _). m \<noteq> ser) O')"
proof -
  let ?p = "takeWhile (\<lambda>q. q_sernum q \<noteq> ser) qs"
  obtain q r where d: "dropWhile (\<lambda>q. q_sernum q \<noteq> ser) qs = q # r"
    using assms(2) by (cases "dropWhile (\<lambda>q. q_sernum q \<noteq> ser) qs") (auto simp: dropWhile_eq_Nil_conv)
  have s: "qs = ?p @ q # r" by (metis d takeWhile_dropWhile_id)
  have q: "q_sernum q = ser" using hd_dropWhile [of "\<lambda>q. q_sernum q \<noteq> ser" qs] d by simp
  have st: "sorted_wrt (\<lambda>a b. q_sernum b < q_sernum a) (?p @ q # r)"
    using assms(1) s by (simp add: qrel_def)
  then have lt: "\<forall>x \<in> set ?p. ser < q_sernum x" "\<forall>x \<in> set r. q_sernum x < ser"
    and st': "sorted_wrt (\<lambda>a b. q_sernum b < q_sernum a) (?p @ r)"
    by (auto simp: sorted_wrt_append q)
  have mem: "set (?p @ r) = {x \<in> set qs. q_sernum x \<noteq> ser}"
    using lt q arg_cong [OF s, of set] by auto
  have "qrel A (?p @ r) (filter (\<lambda>(m, _). m \<noteq> ser) O')"
    using assms(1) st' mem unfolding qrel_def by auto
  with d that show thesis by blast
qed

section \<open>The reader implements the meaning of a weave\<close>

definition winv :: "(nat \<Rightarrow> bool) \<Rightarrow> nat \<Rightarrow> wpacket \<Rightarrow> opens \<Rightarrow> bool" where
  "winv A M pkt O' \<longleftrightarrow>
     qrel A (p_q pkt) O' \<and> (p_keep pkt = YES \<longleftrightarrow> visible A O') \<and> maxser pkt = M \<and>
     (\<forall>n. 0 < n \<and> n \<le> M \<longrightarrow> (a_code (p_apply pkt ! n) = APPLY \<longleftrightarrow> A n))"

lemma winv_frame:
  "winv A M pkt O' \<Longrightarrow> p_q pkt' = p_q pkt \<Longrightarrow> p_keep pkt' = p_keep pkt \<Longrightarrow> p_idel pkt' = p_idel pkt \<Longrightarrow>
   p_apply pkt' = p_apply pkt \<Longrightarrow> winv A M pkt' O'"
  by (simp add: winv_def maxser_def)

lemma winv_setkeep:
  assumes "qrel A (p_q pkt) O'" "maxser pkt = M"
    and "\<forall>n. 0 < n \<and> n \<le> M \<longrightarrow> (a_code (p_apply pkt ! n) = APPLY \<longleftrightarrow> A n)"
  shows "winv A M (setkeep pkt) O'"
proof -
  obtain k s where f: "setkeep pkt = pkt\<lparr>p_keep := k, p_inssid := s\<rparr>" using setkeep_frame by blast
  have "p_keep (setkeep pkt) = YES \<longleftrightarrow> visible A O'"
    unfolding setkeep_keep visible_queue [OF assms(1)] ..
  then show ?thesis using assms unfolding winv_def f by (simp add: maxser_def)
qed

text \<open>The result of a step of the reader against the step of the meaning.\<close>

definition crel :: "(nat \<Rightarrow> bool) \<Rightarrow> nat \<Rightarrow> serr + (opens \<times> cstr list) \<Rightarrow> serr + wpacket \<Rightarrow> bool" where
  "crel A M r c \<longleftrightarrow>
     (case r of
        Inl e \<Rightarrow> c = Inl e
      | Inr (O2, t) \<Rightarrow> t = [] \<and> (\<exists>pkt'. c = Inr pkt' \<and> winv A M pkt' O2))"

lemma addq_refines:
  assumes "winv A M pkt O'" "0 < n" "n \<le> M" "iord = (if b then CHR ''I'' else CHR ''D'')"
  shows "crel A M (wopen M n b O') (addq pkt n (keep_of (A n) b) iord u)"
proof -
  let ?qs = "p_q pkt"
  have q: "qrel A ?qs O'" using assms(1) by (simp add: winv_def)
  then have st: "sorted_wrt (\<lambda>a b. q_sernum b < q_sernum a) ?qs" by (simp add: qrel_def)
  note S = sorted_split(6) [OF st, of n]
  show ?thesis
  proof (cases "n \<in> fst ` set O'")
    case True
    then show ?thesis using assms S qrel_fst [OF q] by (simp add: wopen_def addq_def Let_def crel_def)
  next
    case False
    then have n: "n \<notin> q_sernum ` set ?qs" using qrel_fst [OF q] by simp
    let ?q = "\<lparr>q_sernum = n, q_keep = keep_of (A n) b, q_iord = iord, q_ixmsg = 0, q_user = u\<rparr>"
    define msg where "msg = (if p_ixuser pkt then chkix ?q (takeWhile (\<lambda>q. \<not> q_sernum q \<le> n) ?qs @
      ?q # dropWhile (\<lambda>q. \<not> q_sernum q \<le> n) ?qs) mod 256 else 0)"
    define pk where "pk = pkt\<lparr>p_q := takeWhile (\<lambda>q. \<not> q_sernum q \<le> n) ?qs @ ?q\<lparr>q_ixmsg := msg\<rparr> #
      dropWhile (\<lambda>q. \<not> q_sernum q \<le> n) ?qs, p_ixmsg := (if msg \<noteq> 0 then p_ixmsg pkt + 1 else p_ixmsg pkt)\<rparr>"
    have "addq pkt n (keep_of (A n) b) iord u = Inr (setkeep pk)"
      unfolding addq_def Let_def pk_def msg_def using n S by (simp only: if_False)
    moreover have "qrel A (p_q pk) ((n, b) # O')"
      using qrel_insert [OF q n, of "?q\<lparr>q_ixmsg := msg\<rparr>"] assms(4) by (simp add: pk_def split: if_splits)
    then have "winv A M (setkeep pk) ((n, b) # O')"
      using assms(1) by (intro winv_setkeep) (auto simp: pk_def winv_def maxser_def)
    moreover have "wopen M n b O' = Inr ((n, b) # O', [])" using False assms by (simp add: wopen_def)
    ultimately show ?thesis by (simp add: crel_def)
  qed
qed

lemma remq_refines:
  assumes "winv A M pkt O'" "0 < n" "n \<le> M"
  shows "crel A M (wclose M n O') (remq pkt n)"
proof -
  have q: "qrel A (p_q pkt) O'" using assms(1) by (simp add: winv_def)
  show ?thesis
  proof (cases "n \<in> fst ` set O'")
    case True
    then have n: "n \<in> q_sernum ` set (p_q pkt)" using qrel_fst [OF q] by simp
    obtain c r where d: "dropWhile (\<lambda>q. q_sernum q \<noteq> n) (p_q pkt) = c # r"
      and r: "qrel A (takeWhile (\<lambda>q. q_sernum q \<noteq> n) (p_q pkt) @ r) (filter (\<lambda>(m, _). m \<noteq> n) O')"
      using qrel_remove [OF q n] .
    define pk where "pk = pkt\<lparr>p_q := takeWhile (\<lambda>q. q_sernum q \<noteq> n) (p_q pkt) @ r,
      p_ixmsg := (if q_ixmsg c \<noteq> 0 then p_ixmsg pkt - 1 else p_ixmsg pkt)\<rparr>"
    have "remq pkt n = Inr (setkeep pk)" unfolding remq_def d Let_def pk_def by simp
    moreover have "winv A M (setkeep pk) (filter (\<lambda>(m, _). m \<noteq> n) O')"
      using assms(1) r by (intro winv_setkeep) (auto simp: pk_def winv_def maxser_def)
    ultimately show ?thesis using True assms by (simp add: wclose_def crel_def)
  next
    case False
    then have "dropWhile (\<lambda>q. q_sernum q \<noteq> n) (p_q pkt) = []"
      using qrel_fst [OF q] by (auto simp: dropWhile_eq_Nil_conv)
    then have "remq pkt n = Inl Fmterr" unfolding remq_def Let_def by (simp only: list.case)
    with False show ?thesis by (simp add: wclose_def crel_def)
  qed
qed

lemma keep_of_codes:
  "(if a then YES else NO) = keep_of True a" "(if a then NO else 0) = keep_of False a"
  by (simp_all add: keep_of_def)

lemma satoi_line: "satoi (NONBLANK (SPC # print_dec n @ [NL])) = ([NL], n)"
  using satoi_print [of "[NL]" n] by simp

lemma control_refines:
  assumes "winv A M pkt O'" "\<forall>l. x \<noteq> Text l"
  shows "crel A M (wstep A M O' x) (control pkt (tl (print_item x)))"
proof -
  have M: "maxser pkt = M" and A: "0 < n \<Longrightarrow> n \<le> M \<Longrightarrow> a_code (p_apply pkt ! n) = APPLY \<longleftrightarrow> A n" for n
    using assms(1) by (simp_all add: winv_def)
  have op: "crel A M (wopen M n b O') (control pkt ((if b then CHR ''I'' else CHR ''D'') # SPC # print_dec n @ [NL]))" for n b
  proof (cases "0 < n \<and> n \<le> M")
    case True
    have "control pkt ((if b then CHR ''I'' else CHR ''D'') # SPC # print_dec n @ [NL]) =
        addq pkt n (keep_of (A n) b) (if b then CHR ''I'' else CHR ''D'') (a_reason (p_apply pkt ! n) AND USER)"
      using A [of n] True satoi_line [of n] unfolding control_def Let_def
      by (auto simp: M keep_of_def simp del: NONBLANK_simps)
    then show ?thesis
      using addq_refines [OF assms(1) _ _ refl, of n b] True by (simp only:)
  next
    case False
    then show ?thesis
      using satoi_line [of n] by (auto simp: control_def Let_def M wopen_def crel_def simp del: NONBLANK_simps)
  qed
  have cl: "crel A M (wclose M n O') (control pkt (CHR ''E'' # SPC # print_dec n @ [NL]))" for n
  proof (cases "0 < n \<and> n \<le> M")
    case True
    have "control pkt (CHR ''E'' # SPC # print_dec n @ [NL]) = remq pkt n"
      using True satoi_line [of n] by (simp add: control_def Let_def M del: NONBLANK_simps)
    then show ?thesis using remq_refines [OF assms(1), of n] True by (simp only:)
  next
    case False
    then show ?thesis
      using satoi_line [of n] by (auto simp: control_def Let_def M wclose_def crel_def simp del: NONBLANK_simps)
  qed
  show ?thesis
    using op [where b = True] op [where b = False] cl assms(2)
    by (cases x) (simp_all add: print_item_def)
qed

text \<open>A packet that is about to read the weave \<open>w\<close>, with a checksum that will be right at the end.\<close>

definition reading :: "wpacket \<Rightarrow> item list \<Rightarrow> bool" where
  "reading pkt w \<longleftrightarrow> p_iop pkt = Some (print_weave w) \<and> p_chkeof pkt \<and>
     (do_chksum pkt \<longrightarrow> ((p_chash pkt + ssum (print_weave w)) XOR p_ihash pkt) AND 0xFFFF = 0)"

definition flushed :: "wpacket \<Rightarrow> wpacket" where
  "flushed pkt = (if p_wrttn pkt then pkt else putline None pkt)"

definition adv :: "wpacket \<Rightarrow> cstr \<Rightarrow> cstr \<Rightarrow> wpacket" where
  "adv pkt l s = (flushed pkt)\<lparr>p_iop := Some s, p_line := l, p_wrttn := False,
    p_slnno := p_slnno (flushed pkt) + 1, p_chash := p_chash (flushed pkt) + ssum l,
    p_uchash := p_uchash (flushed pkt) + usum l\<rparr>"

lemma flushed_simps [simp]:
  "p_q (flushed pkt) = p_q pkt" "p_keep (flushed pkt) = p_keep pkt" "p_idel (flushed pkt) = p_idel pkt"
  "p_apply (flushed pkt) = p_apply pkt" "p_iop (flushed pkt) = p_iop pkt" "p_chkeof (flushed pkt) = p_chkeof pkt"
  "do_chksum (flushed pkt) = do_chksum pkt" "p_chash (flushed pkt) = p_chash pkt"
  "p_uchash (flushed pkt) = p_uchash pkt" "p_ihash (flushed pkt) = p_ihash pkt"
  "p_upd (flushed pkt) = p_upd pkt" "p_glnno (flushed pkt) = p_glnno pkt" "p_reopen (flushed pkt) = p_reopen pkt"
  "p_slnno (flushed pkt) = p_slnno pkt" "p_data (flushed pkt) = p_data pkt"
  by (simp_all add: flushed_def putline_def Let_def)

lemma print_weave_Cons [simp]: "print_weave (x # w) = print_item x @ print_weave w"
  and print_weave_Nil [simp]: "print_weave [] = []"
  and print_weave_append [simp]: "print_weave (v @ w) = print_weave v @ print_weave w"
  by (simp_all add: print_weave_def)

lemma print_item_line: "item_ok x \<Longrightarrow> is_line (print_item x)"
  using is_line_snoc [of "[CTLCHAR, i, SPC] @ print_dec n" for i n]
  by (cases x) (simp_all add: item_ok_def print_item_def is_line_Cons is_line_snoc)

lemma print_item_ctl: "item_ok x \<Longrightarrow> deref (print_item x) \<noteq> CTLCHAR \<longleftrightarrow> (\<exists>l. x = Text l)"
  by (cases x) (simp_all add: item_ok_def print_item_def)

lemma getline_item:
  "reading pkt (x # w) \<Longrightarrow> item_ok x \<Longrightarrow>
   getline pkt = Inr (Some (print_item x), adv pkt (print_item x) (print_weave w))"
  by (subst getline_line) (auto simp: reading_def print_item_line adv_def flushed_def)

lemma reading_adv: "reading pkt (x # w) \<Longrightarrow> reading (adv pkt (print_item x) (print_weave w)) w"
  by (simp add: reading_def adv_def add.assoc)

lemma winv_adv: "winv A M pkt O' \<Longrightarrow> winv A M (adv pkt l s) O'"
  by (rule winv_frame) (simp_all add: adv_def)

lemma winv_glnno: "winv A M pkt O' \<Longrightarrow> winv A M (pkt\<lparr>p_glnno := n\<rparr>) O'"
  by (rule winv_frame) simp_all

lemma reading_control:
  assumes "control pkt p = Inr pkt'"
  shows "reading pkt' w \<longleftrightarrow> reading pkt w"
proof -
  obtain q i k s where "pkt' = pkt\<lparr>p_q := q, p_ixmsg := i, p_keep := k, p_inssid := s\<rparr>"
    using control_frame [OF assms] .
  then show ?thesis by (simp add: reading_def)
qed

lemma getline_end:
  assumes "reading pkt []"
  obtains pkt' where "getline pkt = Inr (None, pkt')" "p_q pkt' = p_q pkt" "p_upd pkt' = p_upd pkt"
    "Xiop pkt' = Xiop (flushed pkt)" "p_glnno pkt' = p_glnno pkt"
proof -
  have "\<not> corrupted (flushed pkt)" using assms by (auto simp: corrupted_def reading_def)
  moreover have "(if p_wrttn pkt then pkt else putline None pkt) = flushed pkt" by (simp add: flushed_def)
  ultimately have "getline pkt = Inr (None, if p_reopen pkt then
      (flushed pkt)\<lparr>p_iop := Some (p_data pkt), p_reopen := False, p_slnno := 0, p_ihash := 0,
         p_chash := 0, p_uchash := 0, p_nhash := 0, p_keep := 0, do_chksum := False\<rparr>
      else (flushed pkt)\<lparr>p_iop := None\<rparr>)"
    using assms unfolding getline_def by (simp add: reading_def line_loop_cut Let_def)
  with that show thesis by (cases "p_reopen pkt") simp_all
qed

lemma get_lines_text:
  assumes "getline pkt = Inr (Some l, p)" "deref l \<noteq> CTLCHAR" "p_line p = l"
  shows "get_lines pkt =
    (if p_keep p = YES then
       (case get_lines (p\<lparr>p_glnno := p_glnno p + 1\<rparr>) of Inl e \<Rightarrow> Inl e | Inr r \<Rightarrow> Inr (l # r))
     else get_lines p)"
  using assms
  by (cases "p_keep p = YES") (simp_all add: get_lines.simps [of pkt] readmod.simps [of pkt] get_lines.simps [of p]
      split: sum.split)

lemma get_lines_ctl:
  assumes "getline pkt = Inr (Some l, p)" "deref l = CTLCHAR"
  shows "get_lines pkt = (case control p (tl l) of Inl e \<Rightarrow> Inl e | Inr p' \<Rightarrow> get_lines p')"
  using assms
  by (cases "control p (tl l)") (simp_all add: get_lines.simps [of pkt] readmod.simps [of pkt] get_lines.simps)

lemma get_lines_wrun:
  assumes "winv A M pkt O'" "reading pkt w" "\<forall>x \<in> set w. item_ok x"
  shows "get_lines pkt =
    (case wrun A M O' w of
       Inl e \<Rightarrow> Inl e
     | Inr (O2, t) \<Rightarrow> if O2 = [] then Inr t else Inl (Fatal ''premature eof (co5)''))"
  using assms
proof (induction w arbitrary: pkt O')
  case Nil
  obtain p where "getline pkt = Inr (None, p)" "p_q p = p_q pkt" using getline_end [OF Nil(2)] .
  moreover have "p_q pkt = [] \<longleftrightarrow> O' = []" using Nil(1) by (auto simp: winv_def dest: qrel_empty)
  ultimately show ?case by (simp add: get_lines.simps [of pkt] readmod.simps [of pkt])
next
  case (Cons x w)
  let ?p = "adv pkt (print_item x) (print_weave w)"
  have ok: "item_ok x" "\<forall>x \<in> set w. item_ok x" using Cons(4) by auto
  note g = getline_item [OF Cons(3) ok(1)] and r = reading_adv [OF Cons(3)] and iv = winv_adv [OF Cons(2)]
  have pl: "p_line ?p = print_item x" by (simp add: adv_def)
  show ?case
  proof (cases "\<exists>l. x = Text l")
    case True
    then obtain l where x: "x = Text l" by blast
    have c: "deref (print_item x) \<noteq> CTLCHAR" using print_item_ctl ok(1) x by blast
    have v: "p_keep ?p = YES \<longleftrightarrow> visible A O'" using iv by (simp add: winv_def)
    have "reading (?p\<lparr>p_glnno := n\<rparr>) w" for n using r by (simp add: reading_def)
    with Cons(1) [OF winv_glnno [OF iv] _ ok(2)] Cons(1) [OF iv r ok(2)]
    show ?thesis
      unfolding get_lines_text [OF g c pl] v
      by (auto simp: x print_item_def split: sum.splits)
  next
    case False
    then have c: "deref (print_item x) = CTLCHAR" using print_item_ctl ok(1) by blast
    have rel: "crel A M (wstep A M O' x) (control ?p (tl (print_item x)))"
      using control_refines iv False by simp
    show ?thesis
    proof (cases "wstep A M O' x")
      case (Inl e)
      with rel show ?thesis unfolding get_lines_ctl [OF g c] by (simp add: crel_def)
    next
      case (Inr rt)
      then obtain O2 p' where p: "wstep A M O' x = Inr (O2, [])" "control ?p (tl (print_item x)) = Inr p'"
          "winv A M p' O2"
        using rel by (cases rt) (auto simp: crel_def)
      have "reading p' w" using reading_control [OF p(2)] r by simp
      from Cons(1) [OF p(3) this ok(2)] show ?thesis
        unfolding get_lines_ctl [OF g c] p by (simp add: p split: sum.splits prod.splits)
    qed
  qed
qed

text \<open>
  C4: The reader of a file implements the meaning of its weave. For a packet whose apply table
  represents the deltas \<open>A\<close> and that stands before the body of the file with an empty queue, the
  loop over \<open>readmod\<close> yields the version of \<open>A\<close>, and it fails with the same error wherever the
  weave is malformed: a control line out of range, one opened twice, one closed that is not
  open, one still open at the end.
\<close>

theorem readmod_extracts:
  assumes "maxser pkt = M" "\<forall>n. 0 < n \<and> n \<le> M \<longrightarrow> (a_code (p_apply pkt ! n) = APPLY \<longleftrightarrow> A n)"
    and "p_q pkt = []" "p_keep pkt \<noteq> YES" "reading pkt w" "\<forall>x \<in> set w. item_ok x"
  shows "get_lines pkt = version A M w"
proof -
  have "winv A M pkt []" using assms by (simp add: winv_def qrel_Nil visible_def)
  from get_lines_wrun [OF this assms(5,6)] show ?thesis by (simp add: version_def)
qed

text \<open>A file with three deltas, where the second is not applied.\<close>

definition weave_1 :: "item list" where
  "weave_1 = [Ins 1, Text (''one'' @ [NL]), Del 3, Text (''two'' @ [NL]), End 3, Ins 2, Text (''hidden'' @ [NL]), End 2,
     Ins 3, Text (''TWO'' @ [NL]), End 3, End 1]"

definition pkt_1 :: wpacket where
  "pkt_1 = \<lparr>p_reqsid = sid0, p_gotsid = sid0, p_idel = replicate 4 (idel0\<lparr>i_pred := 3\<rparr>), p_maxr = 1, p_data = [],
     p_iop = Some (print_weave weave_1), p_line = [], p_wrttn = True, p_upd = False, p_slnno = 0, p_ihash = 0,
     p_chash = 0, p_uchash = 0, p_nhash = 0, p_reopen = False, p_chkeof = True, do_chksum = False, p_keep = 0,
     p_user = True, Xcreate = False, Xiop = [],
     p_apply = [apply0, apply0\<lparr>a_code := APPLY\<rparr>, apply0\<lparr>a_code := NOAPPLY\<rparr>, apply0\<lparr>a_code := APPLY\<rparr>],
     p_q = [], p_ixmsg = 0, p_ixuser = False, p_cutoff = 0, p_inssid = sid0, p_glnno = 0\<rparr>"

lemma readmod_extracts_witness:
  "get_lines pkt_1 = Inr [''one'' @ [NL], ''TWO'' @ [NL]]"
proof -
  have "get_lines pkt_1 = version (\<lambda>n. n \<noteq> 2) 3 weave_1"
  proof (rule readmod_extracts)
    show "\<forall>n. 0 < n \<and> n \<le> 3 \<longrightarrow> (a_code (p_apply pkt_1 ! n) = APPLY \<longleftrightarrow> n \<noteq> 2)"
    proof (intro allI impI)
      fix n :: nat
      assume "0 < n \<and> n \<le> 3"
      then have "n = 1 \<or> n = 2 \<or> n = 3" by auto
      then show "a_code (p_apply pkt_1 ! n) = APPLY \<longleftrightarrow> n \<noteq> 2" by (auto simp: pkt_1_def)
    qed
  qed (auto simp: pkt_1_def maxser_def reading_def weave_1_def item_ok_def is_line_def)
  also have "\<dots> = Inr [''one'' @ [NL], ''TWO'' @ [NL]]" by code_simp
  finally show ?thesis .
qed

end
