(* ===== verification/SccsApply.thy ===== *)
theory SccsApply
  imports SccsWeave
begin

text \<open>
  Which deltas make up a version: the lists of included, excluded and ignored deltas that the
  user gives (\<open>doie.c\<close>, with the \<open>enter\<close> of \<open>get.c\<close> and of \<open>delta.c\<close>), and what the apply table
  holds when \<open>setup\<close> (\<open>setup.c\<close>) has passed over the deltas. When a list has several errors, the
  one reported first is not modelled: the list is read before its deltas are entered.
\<close>

section \<open>Lists given by the user\<close>

abbreviation IGNR :: "32 word" where "IGNR \<equiv> 0x40"
abbreviation INCLUSER :: "32 word" where "INCLUSER \<equiv> 0x21"
abbreviation EXCLUSER :: "32 word" where "EXCLUSER \<equiv> 0x22"
abbreviation IGNRUSER :: "32 word" where "IGNRUSER \<equiv> 0x60"

definition put_apply :: "nat \<Rightarrow> applyent \<Rightarrow> wpacket \<Rightarrow> wpacket" where
  "put_apply n ap pkt = pkt\<lparr>p_apply := (p_apply pkt)[n := ap]\<rparr>"

definition get_enter :: "char \<Rightarrow> nat \<Rightarrow> sid \<Rightarrow> wpacket \<Rightarrow> serr + wpacket" where
  "get_enter ch n sidp pkt =
     (if \<not> n < length (p_apply pkt) then Inl Wild
      else
        let ap = p_apply pkt ! n in
        if a_code ap = SX_EMPTY then
          Inr (put_apply n (if ch = CHR ''i'' then condset APPLY INCLUSER ap
                            else condset NOAPPLY EXCLUSER ap) pkt)
        else if a_code ap = APPLY then Inl (Fatal (sid_ba sidp @ '' already included (ge9)''))
        else if a_code ap = NOAPPLY then Inl (Fatal (sid_ba sidp @ '' already excluded (ge10)''))
        else Inl (Fatal ''internal error in get/enter() (ge11)''))"

definition delta_enter :: "char \<Rightarrow> nat \<Rightarrow> sid \<Rightarrow> wpacket \<Rightarrow> serr + wpacket" where
  "delta_enter ch n sidp pkt =
     (if \<not> n < length (p_apply pkt) then Inl Wild
      else if \<not> p_cutoff pkt > i_datetime (p_idel pkt ! n) then Inr pkt
      else
        let ap = p_apply pkt ! n in
        if a_code ap = SX_EMPTY then
          Inr (put_apply n
                (if ch = CHR ''i'' then condset APPLY INCLUSER ap
                 else if ch = CHR ''x'' then condset NOAPPLY EXCLUSER ap
                 else if ch = CHR ''g'' then condset SX_EMPTY IGNRUSER ap
                 else ap) pkt)
        else if a_code ap = APPLY then Inl (Fatal ''internal error in delta/enter() (de5)'')
        else if a_code ap = NOAPPLY then Inl (Fatal ''internal error in delta/enter() (de6)'')
        else Inl (Fatal ''internal error in delta/enter() (de7)''))"

type_synonym enter_fun = "char \<Rightarrow> nat \<Rightarrow> sid \<Rightarrow> wpacket \<Rightarrow> serr + wpacket"

fun enter_all :: "enter_fun \<Rightarrow> char \<Rightarrow> (nat \<times> sid) list \<Rightarrow> wpacket \<Rightarrow> serr + wpacket" where
  "enter_all enter ch [] pkt = Inr pkt"
| "enter_all enter ch ((n, sp) # es) pkt =
     (case enter ch n sp pkt of Inl e \<Rightarrow> Inl e | Inr pkt' \<Rightarrow> enter_all enter ch es pkt')"

definition do_list :: "enter_fun \<Rightarrow> char \<Rightarrow> cstr option \<Rightarrow> wpacket \<Rightarrow> serr + wpacket" where
  "do_list enter ch l pkt =
     (case l of
        None \<Rightarrow> Inr pkt
      | Some l \<Rightarrow> (case dolist pkt l of Inl e \<Rightarrow> Inl e | Inr es \<Rightarrow> enter_all enter ch es pkt))"

definition doie :: "enter_fun \<Rightarrow> cstr option \<Rightarrow> cstr option \<Rightarrow> cstr option \<Rightarrow> wpacket \<Rightarrow> serr + wpacket" where
  "doie enter ilist elist glist pkt =
     (case do_list enter (CHR ''i'') ilist pkt of
        Inl e \<Rightarrow> Inl e
      | Inr pkt \<Rightarrow>
          (case do_list enter (CHR ''x'') elist pkt of
             Inl e \<Rightarrow> Inl e
           | Inr pkt \<Rightarrow> do_list enter (CHR ''g'') glist pkt))"

text \<open>What an entered list does to the codes: a delta entered twice is an error in \<open>get\<close>.\<close>

definition user_code :: "char \<Rightarrow> nat" where
  "user_code ch = (if ch = CHR ''i'' then APPLY else NOAPPLY)"

lemma enter_all_get:
  assumes "\<forall>(n, s) \<in> set es. n < length (p_apply pkt) \<and> a_code (p_apply pkt ! n) = SX_EMPTY"
    and "distinct (map fst es)"
  shows "\<exists>pkt'. enter_all get_enter ch es pkt = Inr pkt' \<and> length (p_apply pkt') = length (p_apply pkt) \<and>
    (\<forall>n < length (p_apply pkt). a_code (p_apply pkt' ! n) =
       (if n \<in> fst ` set es then user_code ch else a_code (p_apply pkt ! n)))"
  using assms
proof (induction es arbitrary: pkt)
  case (Cons e es)
  obtain n s where e: "e = (n, s)" by (cases e)
  define p where "p = put_apply n (if ch = CHR ''i'' then condset APPLY INCLUSER (p_apply pkt ! n)
    else condset NOAPPLY EXCLUSER (p_apply pkt ! n)) pkt"
  have n: "n < length (p_apply pkt)" "a_code (p_apply pkt ! n) = SX_EMPTY" using Cons.prems(1) e by auto
  have s: "get_enter ch n s pkt = Inr p" using n by (simp add: get_enter_def p_def Let_def)
  have len: "length (p_apply p) = length (p_apply pkt)" by (simp add: p_def put_apply_def)
  have code: "a_code (p_apply p ! k) = (if k = n then user_code ch else a_code (p_apply pkt ! k))"
    if "k < length (p_apply pkt)" for k
    using n that by (auto simp: p_def put_apply_def condset_def user_code_def nth_list_update)
  have "k < length (p_apply p) \<and> a_code (p_apply p ! k) = SX_EMPTY" if "(k, s) \<in> set es" for k s
  proof -
    have "k < length (p_apply pkt)" "a_code (p_apply pkt ! k) = SX_EMPTY" "k \<noteq> n"
      using Cons.prems that by (force simp: e)+
    then show ?thesis using code [of k] len by simp
  qed
  then obtain p' where p': "enter_all get_enter ch es p = Inr p'" "length (p_apply p') = length (p_apply p)"
      "\<forall>k < length (p_apply p). a_code (p_apply p' ! k) =
         (if k \<in> fst ` set es then user_code ch else a_code (p_apply p ! k))"
    using Cons.IH [of p] Cons.prems(2) e by fastforce
  have "a_code (p_apply p' ! k) = (if k \<in> fst ` set (e # es) then user_code ch else a_code (p_apply pkt ! k))"
    if "k < length (p_apply pkt)" for k
    using p'(3) code [OF that] len that by (auto simp: e)
  then show ?case using s len p'(1,2) by (simp add: e)
qed simp

text \<open>
  The lists a user gives to \<open>get\<close> are entered into the apply table: every delta of the list
  gets the code of the list, all others keep theirs, and there is no error when the list names
  no delta twice and none that already has a code.
\<close>

theorem get_list_entered:
  assumes "dolist pkt l = Inr es"
    and "\<forall>(n, s) \<in> set es. n < length (p_apply pkt) \<and> a_code (p_apply pkt ! n) = SX_EMPTY"
    and "distinct (map fst es)"
  shows "\<exists>pkt'. do_list get_enter ch (Some l) pkt = Inr pkt' \<and>
    (\<forall>n < length (p_apply pkt). a_code (p_apply pkt' ! n) =
       (if n \<in> fst ` set es then (if ch = CHR ''i'' then APPLY else NOAPPLY) else a_code (p_apply pkt ! n)))"
  using enter_all_get [OF assms(2,3), of ch] assms(1) by (auto simp: do_list_def user_code_def)

text \<open>Three deltas of one release, the third made from the first with the second included.\<close>

definition tab_3 :: "idel list" where
  "tab_3 = [idel0\<lparr>i_pred := 3\<rparr>, idel0\<lparr>i_sid := \<lparr>s_rel = 1, s_lev = 1, s_br = 0, s_seq = 0\<rparr>, i_datetime := 10\<rparr>,
     idel0\<lparr>i_sid := \<lparr>s_rel = 1, s_lev = 1, s_br = 1, s_seq = 1\<rparr>, i_pred := 1, i_datetime := 20\<rparr>,
     \<lparr>i_sid = \<lparr>s_rel = 1, s_lev = 2, s_br = 0, s_seq = 0\<rparr>,
      i_ixg = [\<lparr>i_type = CHR ''i'', i_cnt = 1, i_ser = [2]\<rparr>], i_pred = 1, i_datetime = 30\<rparr>]"

definition pkt_3 :: wpacket where
  "pkt_3 = pkt_1\<lparr>p_idel := tab_3, p_apply := replicate 4 apply0, p_cutoff := 25, p_maxr := 1\<rparr>"

lemma get_list_entered_witness:
  "\<exists>pkt'. do_list get_enter (CHR ''x'') (Some ''1.1.1.1'') pkt_3 = Inr pkt' \<and> a_code (p_apply pkt' ! 2) = NOAPPLY"
proof -
  have l: "dolist pkt_3 ''1.1.1.1'' = Inr [(2, \<lparr>s_rel = 1, s_lev = 1, s_br = 1, s_seq = 1\<rparr>)]" by code_simp
  have n: "length (p_apply pkt_3) = 4" by (simp add: pkt_3_def)
  have "a_code (p_apply pkt_3 ! 2) = SX_EMPTY" by (simp add: pkt_3_def apply0_def)
  with get_list_entered [OF l, of "CHR ''x''"] n show ?thesis by auto
qed

section \<open>The apply table\<close>

text \<open>The line of predecessors of a delta.\<close>

function on_chain :: "idel list \<Rightarrow> nat \<Rightarrow> nat \<Rightarrow> bool" where
  "on_chain tab d n \<longleftrightarrow>
     d = n \<or> (if 0 < d \<and> i_pred (tab ! d) < d then on_chain tab (i_pred (tab ! d)) n else False)"
  by pat_completeness auto
termination
  by (relation "measure (\<lambda>(_, d, _). d)") auto

declare on_chain.simps [simp del]

definition listed :: "ixg list \<Rightarrow> nat \<Rightarrow> nat option" where
  "listed ixgs n =
     map_option (\<lambda>cur. user_code (i_type cur)) (List.find (\<lambda>cur. n \<in> set (i_ser cur)) ixgs)"

definition ixg_ok :: "nat \<Rightarrow> ixg \<Rightarrow> bool" where
  "ixg_ok N cur \<longleftrightarrow> i_type cur \<in> {CHR ''i'', CHR ''x'', CHR ''g''} \<and> length (i_ser cur) < 128 \<and>
     i_cnt cur = of_nat (length (i_ser cur)) \<and> (\<forall>k \<in> set (i_ser cur). k < N)"

lemma ixg_cnt:
  assumes "ixg_ok N cur"
  shows "\<not> sint (i_cnt cur) < 0" "take (unat (i_cnt cur)) (i_ser cur) = i_ser cur"
proof -
  have "sint (of_nat n :: 8 word) = int n" "unat (of_nat n :: 8 word) = n" if "n < 128" for n
    using that by (simp_all add: sint_eq unsigned_of_nat take_bit_nat_eq_self)
  with assms show "\<not> sint (i_cnt cur) < 0" "take (unat (i_cnt cur)) (i_ser cur) = i_ser cur"
    by (simp_all add: ixg_ok_def)
qed

lemma ixg_apply_codes:
  assumes "\<forall>k \<in> set ks. k < length ap" "code \<noteq> SX_EMPTY"
  shows "\<exists>ap'. ixg_apply ks code reason ap = Inr ap' \<and> length ap' = length ap \<and>
    (\<forall>n < length ap. a_inline (ap' ! n) = a_inline (ap ! n) \<and>
       a_code (ap' ! n) = (if a_code (ap ! n) \<noteq> SX_EMPTY then a_code (ap ! n)
                          else if n \<in> set ks then code else SX_EMPTY))"
  using assms
proof (induction ks arbitrary: ap)
  case (Cons k ks)
  define ap1 where "ap1 = ap[k := condset code reason (ap ! k)]"
  have len: "length ap1 = length ap" by (simp add: ap1_def)
  have c: "a_inline (ap1 ! n) = a_inline (ap ! n) \<and> a_code (ap1 ! n) =
      (if a_code (ap ! n) \<noteq> SX_EMPTY then a_code (ap ! n) else if n = k then code else SX_EMPTY)"
    if "n < length ap" for n
    using that Cons.prems by (auto simp: ap1_def condset_def nth_list_update)
  have "ixg_apply (k # ks) code reason ap = ixg_apply ks code reason ap1" using Cons.prems(1) by (simp add: ap1_def)
  moreover obtain ap' where "ixg_apply ks code reason ap1 = Inr ap'" "length ap' = length ap1"
      and ap': "\<forall>n < length ap1. a_inline (ap' ! n) = a_inline (ap1 ! n) \<and>
         a_code (ap' ! n) = (if a_code (ap1 ! n) \<noteq> SX_EMPTY then a_code (ap1 ! n)
                            else if n \<in> set ks then code else SX_EMPTY)"
    using Cons.IH [of ap1] Cons.prems len by auto
  moreover have "a_inline (ap' ! n) = a_inline (ap ! n) \<and>
       a_code (ap' ! n) = (if a_code (ap ! n) \<noteq> SX_EMPTY then a_code (ap ! n)
                          else if n \<in> set (k # ks) then code else SX_EMPTY)"
    if "n < length ap" for n
    using c [OF that] ap' that len Cons.prems(2) by (cases "n = k") simp_all
  ultimately show ?case using len by simp
qed simp

lemma ixgsetup_codes:
  assumes "\<forall>cur \<in> set ixgs. ixg_ok (length ap) cur"
  shows "\<exists>ap'. ixgsetup ixgs code reason ap = Inr ap' \<and> length ap' = length ap \<and>
    (\<forall>n < length ap. a_inline (ap' ! n) = a_inline (ap ! n) \<and>
       a_code (ap' ! n) = (if a_code (ap ! n) \<noteq> SX_EMPTY then a_code (ap ! n)
                          else case listed ixgs n of Some c \<Rightarrow> c | None \<Rightarrow> SX_EMPTY))"
  using assms
proof (induction ixgs arbitrary: ap code reason)
  case Nil
  then show ?case by (simp add: listed_def)
next
  case (Cons cur ixgs)
  have ok: "ixg_ok (length ap) cur" using Cons.prems by simp
  let ?c = "user_code (i_type cur)"
  define r :: "32 word" where "r = (if i_type cur = CHR ''i'' then INCL else EXCL)"
  have ks: "\<forall>k \<in> set (i_ser cur). k < length ap" "?c \<noteq> SX_EMPTY"
    using ok by (simp_all add: ixg_ok_def user_code_def)
  obtain ap1 where a: "ixg_apply (i_ser cur) ?c r ap = Inr ap1" "length ap1 = length ap"
      "\<forall>n < length ap. a_inline (ap1 ! n) = a_inline (ap ! n) \<and>
         a_code (ap1 ! n) = (if a_code (ap ! n) \<noteq> SX_EMPTY then a_code (ap ! n)
                            else if n \<in> set (i_ser cur) then ?c else SX_EMPTY)"
    using ixg_apply_codes [OF ks] by blast
  obtain ap2 where b: "ixgsetup ixgs ?c r ap1 = Inr ap2" "length ap2 = length ap1"
      "\<forall>n < length ap1. a_inline (ap2 ! n) = a_inline (ap1 ! n) \<and>
         a_code (ap2 ! n) = (if a_code (ap1 ! n) \<noteq> SX_EMPTY then a_code (ap1 ! n)
                            else case listed ixgs n of Some c \<Rightarrow> c | None \<Rightarrow> SX_EMPTY)"
    using Cons.IH [of ap1 ?c r] Cons.prems a(2) by auto
  have "ixgsetup (cur # ixgs) code reason ap = Inr ap2"
    using ok a(1) b(1) ixg_cnt [OF ok] by (auto simp: ixg_ok_def user_code_def r_def)
  moreover have "a_inline (ap2 ! n) = a_inline (ap ! n) \<and>
       a_code (ap2 ! n) = (if a_code (ap ! n) \<noteq> SX_EMPTY then a_code (ap ! n)
                          else case listed (cur # ixgs) n of Some c \<Rightarrow> c | None \<Rightarrow> SX_EMPTY)"
    if "n < length ap" for n
    using that a(2,3) b(3) ks(2) by (simp add: listed_def)
  ultimately show ?case using a(2) b(2) by simp
qed

text \<open>The conditions under which \<open>setup\<close> has nothing to complain about.\<close>

definition table_ok :: "idel list \<Rightarrow> nat \<Rightarrow> bool" where
  "table_ok tab N \<longleftrightarrow> (\<forall>n. 0 < n \<and> n < N \<longrightarrow>
     i_pred (tab ! n) < n \<and> (n \<noteq> 1 \<longrightarrow> i_pred (tab ! n) \<noteq> 0) \<and> (\<forall>cur \<in> set (i_ixg (tab ! n)). ixg_ok N cur))"

definition inl :: "wpacket \<Rightarrow> nat \<Rightarrow> nat \<Rightarrow> bool" where
  "inl pkt m n \<longleftrightarrow> (\<exists>d \<le> m. 0 < d \<and> a_inline (p_apply pkt ! d) \<and> on_chain (p_idel pkt) d n)"

text \<open>What decides the code of a delta: the user, the newest applied delta that lists it, its place
  on the line of the delta gotten, and the cutoff; \<open>F\<close> is the final code of newer deltas.\<close>

definition code_of :: "wpacket \<Rightarrow> (nat \<Rightarrow> nat) \<Rightarrow> nat \<Rightarrow> bool \<Rightarrow> nat \<Rightarrow> nat" where
  "code_of pkt F m onl n =
     (if a_code (p_apply pkt ! n) \<noteq> SX_EMPTY then a_code (p_apply pkt ! n)
      else case List.find (\<lambda>d. F d = APPLY \<and> listed (i_ixg (p_idel pkt ! d)) n \<noteq> None) (rev [n + 1..<m + 1]) of
          Some d \<Rightarrow> the (listed (i_ixg (p_idel pkt ! d)) n)
        | None \<Rightarrow> if onl \<and> i_datetime (p_idel pkt ! n) \<le> p_cutoff pkt then APPLY else NOAPPLY)"

text \<open>One turn of the loop.\<close>

definition turn_inline :: "wpacket \<Rightarrow> nat \<Rightarrow> applyent list" where
  "turn_inline pkt n =
     (if a_inline (p_apply pkt ! n)
      then (p_apply pkt)[i_pred (p_idel pkt ! n) := (p_apply pkt ! i_pred (p_idel pkt ! n))\<lparr>a_inline := True\<rparr>]
      else p_apply pkt)"

lemma setup_turn:
  assumes "Suc m < length (p_apply pkt)" "table_ok (p_idel pkt) (length (p_apply pkt))"
  shows "\<exists>fa pkt'. setup_loop (Suc m) first_app pkt = setup_loop m fa pkt' \<and>
    length (p_apply pkt') = length (p_apply pkt) \<and> p_idel pkt' = p_idel pkt \<and> p_cutoff pkt' = p_cutoff pkt \<and>
    (\<forall>n < length (p_apply pkt). a_inline (p_apply pkt' ! n) = a_inline (turn_inline pkt (Suc m) ! n)) \<and>
    a_code (p_apply pkt' ! Suc m) = code_of pkt F (Suc m) (a_inline (p_apply pkt ! Suc m)) (Suc m) \<and>
    (\<forall>n < length (p_apply pkt). n \<noteq> Suc m \<longrightarrow> a_code (p_apply pkt' ! n) =
       (if a_code (p_apply pkt ! n) \<noteq> SX_EMPTY then a_code (p_apply pkt ! n)
        else if a_code (p_apply pkt' ! Suc m) = APPLY \<and> listed (i_ixg (p_idel pkt ! Suc m)) n \<noteq> None
        then the (listed (i_ixg (p_idel pkt ! Suc m)) n) else SX_EMPTY))"
proof -
  let ?n = "Suc m" and ?ap = "p_apply pkt"
  let ?del = "p_idel pkt ! ?n"
  let ?inl = "a_inline (?ap ! ?n)"
  have ok: "i_pred ?del < ?n" "?n \<noteq> 1 \<longrightarrow> i_pred ?del \<noteq> 0" "\<forall>cur \<in> set (i_ixg ?del). ixg_ok (length ?ap) cur"
    using assms by (auto simp: table_ok_def)
  define late where "late \<longleftrightarrow> i_datetime ?del > p_cutoff pkt"
  define q where "q = (if ?inl \<and> \<not> late \<and> first_app then pkt\<lparr>p_gotsid := i_sid ?del\<rparr> else pkt)"
  define fa where "fa \<longleftrightarrow> first_app \<and> \<not> (?inl \<and> \<not> late)"
  define a1 where "a1 = turn_inline pkt ?n"
  define a2 where "a2 = a1[?n := (if ?inl then (if late then condset NOAPPLY CUTOFF (a1 ! ?n)
      else condset APPLY 0 (a1 ! ?n)) else condset NOAPPLY 0 (a1 ! ?n))]"
  have a1: "length a1 = length ?ap" "a_code (a1 ! k) = a_code (?ap ! k)" if "k < length ?ap" for k
    using that ok(1) assms(1)
    by (cases "k = i_pred ?del"; simp add: a1_def turn_inline_def)+
  have a2: "length a2 = length ?ap" "a_inline (a2 ! k) = a_inline (a1 ! k)"
      "k \<noteq> ?n \<Longrightarrow> a_code (a2 ! k) = a_code (?ap ! k)" if "k < length ?ap" for k
    using that a1 assms(1) by (auto simp: a2_def nth_list_update condset_def)
  have cn: "a_code (a2 ! ?n) = code_of pkt F ?n ?inl ?n"
    using a1 [OF assms(1)] assms(1) by (auto simp: a2_def code_of_def late_def condset_def)
  have step: "setup_loop ?n first_app pkt =
      (if a_code (a2 ! ?n) = APPLY then
         (case ixgsetup (i_ixg ?del) 0 0 a2 of
            Inl e \<Rightarrow> Inl e
          | Inr ap \<Rightarrow> setup_loop m fa (q\<lparr>p_apply := ap\<rparr>))
       else setup_loop m fa (q\<lparr>p_apply := a2\<rparr>))"
  proof -
    have g: "(?inl \<and> ?n \<noteq> 1 \<and> i_pred ?del = 0) = False" "(?inl \<and> \<not> i_pred ?del < length ?ap) = False"
      using ok assms(1) by auto
    show ?thesis
      unfolding setup_loop.simps(2) Let_def g if_False a1_def [unfolded turn_inline_def, symmetric]
        late_def [symmetric]
      by (cases ?inl; cases late; cases first_app) (simp_all add: a2_def q_def fa_def cong: sum.case_cong)
  qed
  have q: "p_idel q = p_idel pkt" "p_cutoff q = p_cutoff pkt" by (simp_all add: q_def)
  show ?thesis
  proof (cases "a_code (a2 ! ?n) = APPLY")
    case True
    have "length a2 = length ?ap" using a2(1) assms(1) by blast
    then obtain ap where ap: "ixgsetup (i_ixg ?del) 0 0 a2 = Inr ap" "length ap = length ?ap"
        "\<forall>n < length ?ap. a_inline (ap ! n) = a_inline (a2 ! n) \<and>
           a_code (ap ! n) = (if a_code (a2 ! n) \<noteq> SX_EMPTY then a_code (a2 ! n)
                              else case listed (i_ixg ?del) n of Some c \<Rightarrow> c | None \<Rightarrow> SX_EMPTY)"
      using ixgsetup_codes [of "i_ixg ?del" a2 0 0] ok(3) by auto
    have cn': "a_code (ap ! ?n) = APPLY" using ap(3) assms(1) True by auto
    show ?thesis
    proof (intro exI conjI)
      show "setup_loop ?n first_app pkt = setup_loop m fa (q\<lparr>p_apply := ap\<rparr>)"
        using step True ap(1) by simp
      show "\<forall>n < length ?ap. n \<noteq> ?n \<longrightarrow> a_code (p_apply (q\<lparr>p_apply := ap\<rparr>) ! n) =
         (if a_code (?ap ! n) \<noteq> SX_EMPTY then a_code (?ap ! n)
          else if a_code (p_apply (q\<lparr>p_apply := ap\<rparr>) ! ?n) = APPLY \<and> listed (i_ixg ?del) n \<noteq> None
          then the (listed (i_ixg ?del) n) else SX_EMPTY)"
        using ap(3) a2 cn' by (auto split: option.split)
    qed (use ap(2,3) a2(2) q cn cn' True a1_def in auto)
  next
    case False
    show ?thesis
    proof (intro exI conjI)
      show "setup_loop ?n first_app pkt = setup_loop m fa (q\<lparr>p_apply := a2\<rparr>)"
        using step False by simp
    qed (use a2 a2(1) [OF assms(1)] q cn False a1_def in auto)
  qed
qed

lemma on_chain_le: "on_chain tab d n \<Longrightarrow> n \<le> d"
  by (induction tab d n rule: on_chain.induct) (subst (asm) (2) on_chain.simps, auto split: if_splits)

lemma on_chain_self [simp]: "on_chain tab d d"
  by (subst on_chain.simps) simp

lemma on_chain_step:
  "i_pred (tab ! Suc m) < Suc m \<Longrightarrow> n \<noteq> Suc m \<Longrightarrow> on_chain tab (Suc m) n \<longleftrightarrow> on_chain tab (i_pred (tab ! Suc m)) n"
  by (subst on_chain.simps) simp

lemma inl_self: "0 < m \<Longrightarrow> inl pkt m m \<longleftrightarrow> a_inline (p_apply pkt ! m)"
  unfolding inl_def by (metis le_antisym on_chain_le on_chain_self order_refl)

lemma inl_turn:
  assumes "Suc m < length (p_apply pkt)" "i_pred (p_idel pkt ! Suc m) < Suc m" "p_idel pkt' = p_idel pkt"
    and "\<forall>n < length (p_apply pkt). a_inline (p_apply pkt' ! n) = a_inline (turn_inline pkt (Suc m) ! n)"
    and "0 < n" "n \<le> m"
  shows "inl pkt' m n \<longleftrightarrow> inl pkt (Suc m) n"
proof -
  let ?p = "i_pred (p_idel pkt ! Suc m)"
  have i: "a_inline (p_apply pkt' ! d) \<longleftrightarrow>
      a_inline (p_apply pkt ! d) \<or> a_inline (p_apply pkt ! Suc m) \<and> d = ?p" if "d \<le> m" for d
    using assms(1,2,4) that by (auto simp: turn_inline_def nth_list_update)
  have s: "on_chain (p_idel pkt) (Suc m) n \<longleftrightarrow> on_chain (p_idel pkt) ?p n"
    using assms(2,6) by (intro on_chain_step) auto
  have z: "\<not> on_chain (p_idel pkt) 0 n" using assms(5) on_chain_le by fastforce
  show ?thesis
  proof
    assume "inl pkt' m n"
    then obtain d where d: "d \<le> m" "0 < d" "a_inline (p_apply pkt' ! d)" "on_chain (p_idel pkt) d n"
      by (auto simp: inl_def assms(3))
    show "inl pkt (Suc m) n"
    proof (cases "a_inline (p_apply pkt ! d)")
      case True
      with d show ?thesis unfolding inl_def by (intro exI [of _ d]) simp
    next
      case False
      with d i s show ?thesis unfolding inl_def by (intro exI [of _ "Suc m"]) auto
    qed
  next
    assume "inl pkt (Suc m) n"
    then obtain d where d: "d \<le> Suc m" "0 < d" "a_inline (p_apply pkt ! d)" "on_chain (p_idel pkt) d n"
      by (auto simp: inl_def)
    show "inl pkt' m n"
    proof (cases "d = Suc m")
      case True
      with d s have c: "on_chain (p_idel pkt) ?p n" by simp
      with z have "0 < ?p" by (cases "?p = 0") (auto simp del: One_nat_def)
      with c d i True assms(2) show ?thesis unfolding inl_def assms(3) by (intro exI [of _ ?p]) auto
    next
      case False
      with d i show ?thesis unfolding inl_def assms(3) by (intro exI [of _ d]) auto
    qed
  qed
qed

lemma listed_code: "listed ixgs n = Some c \<Longrightarrow> c \<noteq> SX_EMPTY"
  by (auto simp: listed_def user_code_def)

lemma setup_loop_codes:
  assumes "m < length (p_apply pkt)" "table_ok (p_idel pkt) (length (p_apply pkt))"
  shows "\<exists>pkt'. setup_loop m first_app pkt = Inr pkt' \<and>
    (\<forall>n < length (p_apply pkt). a_code (p_apply pkt ! n) \<noteq> SX_EMPTY \<longrightarrow>
       a_code (p_apply pkt' ! n) = a_code (p_apply pkt ! n)) \<and>
    (\<forall>n. 0 < n \<and> n \<le> m \<longrightarrow> a_code (p_apply pkt' ! n) =
       code_of pkt (\<lambda>d. a_code (p_apply pkt' ! d)) m (inl pkt m n) n)"
  using assms
proof (induction m arbitrary: first_app pkt)
  case 0
  then show ?case by simp
next
  case (Suc m)
  let ?ap = "p_apply pkt"
  have pred: "i_pred (p_idel pkt ! Suc m) < Suc m" using Suc.prems by (simp add: table_ok_def)
  obtain fa p1 where p1: "setup_loop (Suc m) first_app pkt = setup_loop m fa p1"
      "length (p_apply p1) = length ?ap" "p_idel p1 = p_idel pkt" "p_cutoff p1 = p_cutoff pkt"
      "\<forall>n < length ?ap. a_inline (p_apply p1 ! n) = a_inline (turn_inline pkt (Suc m) ! n)"
    and own: "a_code (p_apply p1 ! Suc m) = code_of pkt (\<lambda>_. 0) (Suc m) (a_inline (?ap ! Suc m)) (Suc m)"
    and others: "\<forall>n < length ?ap. n \<noteq> Suc m \<longrightarrow> a_code (p_apply p1 ! n) =
       (if a_code (?ap ! n) \<noteq> SX_EMPTY then a_code (?ap ! n)
        else if a_code (p_apply p1 ! Suc m) = APPLY \<and> listed (i_ixg (p_idel pkt ! Suc m)) n \<noteq> None
        then the (listed (i_ixg (p_idel pkt ! Suc m)) n) else SX_EMPTY)"
    using setup_turn [OF Suc.prems, of first_app "\<lambda>_. 0"] by blast
  obtain p2 where p2: "setup_loop m fa p1 = Inr p2"
      "\<forall>n < length ?ap. a_code (p_apply p1 ! n) \<noteq> SX_EMPTY \<longrightarrow> a_code (p_apply p2 ! n) = a_code (p_apply p1 ! n)"
      "\<forall>n. 0 < n \<and> n \<le> m \<longrightarrow> a_code (p_apply p2 ! n) =
         code_of p1 (\<lambda>d. a_code (p_apply p2 ! d)) m (inl p1 m n) n"
    using Suc.IH [of p1 fa] Suc.prems p1(2,3) by auto
  have dec: "a_code (p_apply p1 ! Suc m) \<noteq> SX_EMPTY" using own by (simp add: code_of_def)
  then have F: "a_code (p_apply p2 ! Suc m) = a_code (p_apply p1 ! Suc m)" using p2(2) Suc.prems by blast
  have "a_code (p_apply p2 ! n) = a_code (?ap ! n)" if "n < length ?ap" "a_code (?ap ! n) \<noteq> SX_EMPTY" for n
  proof (cases "n = Suc m")
    case True
    with own F that show ?thesis by (simp add: code_of_def)
  next
    case False
    with others that have "a_code (p_apply p1 ! n) = a_code (?ap ! n)" by simp
    with p2(2) that show ?thesis by simp
  qed
  moreover have "a_code (p_apply p2 ! n) =
      code_of pkt (\<lambda>d. a_code (p_apply p2 ! d)) (Suc m) (inl pkt (Suc m) n) n" if n: "0 < n" "n \<le> Suc m" for n
  proof (cases "n = Suc m")
    case True
    with own F inl_self [of "Suc m" pkt] show ?thesis by (simp add: code_of_def)
  next
    case False
    then have nm: "n \<le> m" "n < length ?ap" using n Suc.prems(1) by auto
    have up: "rev [n + 1..<Suc m + 1] = Suc m # rev [n + 1..<m + 1]" using nm by simp
    have i: "inl p1 m n = inl pkt (Suc m) n"
      using inl_turn [OF Suc.prems(1) pred p1(3,5) n(1) nm(1)] .
    have o: "a_code (p_apply p1 ! n) =
       (if a_code (?ap ! n) \<noteq> SX_EMPTY then a_code (?ap ! n)
        else if a_code (p_apply p2 ! Suc m) = APPLY \<and> listed (i_ixg (p_idel pkt ! Suc m)) n \<noteq> None
        then the (listed (i_ixg (p_idel pkt ! Suc m)) n) else SX_EMPTY)"
      using others nm(2) False F by simp
    have c: "a_code (p_apply p2 ! n) = code_of p1 (\<lambda>d. a_code (p_apply p2 ! d)) m (inl pkt (Suc m) n) n"
      using p2(3) n(1) nm(1) i by simp
    show ?thesis
      unfolding c unfolding code_of_def up o p1(3,4)
      using listed_code [of "i_ixg (p_idel pkt ! Suc m)" n] by (auto split: option.split)
  qed
  ultimately show ?case using p1(1) p2(1) by (intro exI [of _ p2]) simp
qed

text \<open>
  C17: \<open>setup\<close> decides which deltas make up the version of a given delta: a delta that the user
  listed keeps the user's choice; otherwise the newest applied delta that includes, excludes or
  ignores it decides; otherwise it is applied when it is on the line of predecessors of the delta
  gotten and not later than the cutoff. On a well-formed table it decides this for every delta.
\<close>

theorem setup_codes:
  assumes "length (p_apply pkt) = maxser pkt + 1" "table_ok (p_idel pkt) (maxser pkt + 1)"
    and "0 < serial" "serial \<le> maxser pkt" "\<forall>n \<le> maxser pkt. \<not> a_inline (p_apply pkt ! n)"
  shows "\<exists>pkt'. setup_pkt serial pkt = Inr pkt' \<and>
    (\<forall>n. 0 < n \<and> n \<le> maxser pkt \<longrightarrow> a_code (p_apply pkt' ! n) =
       (if a_code (p_apply pkt ! n) \<noteq> SX_EMPTY then a_code (p_apply pkt ! n)
        else case List.find (\<lambda>d. a_code (p_apply pkt' ! d) = APPLY \<and> listed (i_ixg (p_idel pkt ! d)) n \<noteq> None)
            (rev [n + 1..<maxser pkt + 1]) of
          Some d \<Rightarrow> the (listed (i_ixg (p_idel pkt ! d)) n)
        | None \<Rightarrow> if on_chain (p_idel pkt) serial n \<and> i_datetime (p_idel pkt ! n) \<le> p_cutoff pkt
            then APPLY else NOAPPLY))"
proof -
  define q where "q = pkt\<lparr>p_apply := (p_apply pkt)[serial := (p_apply pkt ! serial)\<lparr>a_inline := True\<rparr>]\<rparr>"
  let ?M = "maxser pkt"
  have q: "p_idel q = p_idel pkt" "p_cutoff q = p_cutoff pkt" "length (p_apply q) = ?M + 1"
    using assms(1) by (simp_all add: q_def)
  have code: "a_code (p_apply q ! n) = a_code (p_apply pkt ! n)"
    and inline: "a_inline (p_apply q ! n) \<longleftrightarrow> n = serial" if "n \<le> ?M" for n
    using that assms(1,4,5) by (auto simp: q_def nth_list_update)
  have il: "inl q ?M n \<longleftrightarrow> on_chain (p_idel pkt) serial n" for n
    using assms(3,4) inline by (auto simp: inl_def q(1))
  obtain p' where p': "setup_loop ?M True q = Inr p'"
      "\<forall>n. 0 < n \<and> n \<le> ?M \<longrightarrow> a_code (p_apply p' ! n) =
         code_of q (\<lambda>d. a_code (p_apply p' ! d)) ?M (inl q ?M n) n"
    using setup_loop_codes [of ?M q True] assms(2) q by auto
  have "setup_pkt serial pkt = Inr p'" using p'(1) assms(1,4) by (simp add: setup_pkt_def q_def)
  moreover have "a_code (p_apply p' ! n) =
      (if a_code (p_apply pkt ! n) \<noteq> SX_EMPTY then a_code (p_apply pkt ! n)
       else case List.find (\<lambda>d. a_code (p_apply p' ! d) = APPLY \<and> listed (i_ixg (p_idel pkt ! d)) n \<noteq> None)
            (rev [n + 1..<?M + 1]) of
          Some d \<Rightarrow> the (listed (i_ixg (p_idel pkt ! d)) n)
        | None \<Rightarrow> if on_chain (p_idel pkt) serial n \<and> i_datetime (p_idel pkt ! n) \<le> p_cutoff pkt
            then APPLY else NOAPPLY)" if "0 < n \<and> n \<le> ?M" for n
    using p'(2) [rule_format, OF that] that unfolding code_of_def il q(1,2) by (simp only: code)
  ultimately show ?thesis by blast
qed

lemma setup_codes_witness:
  "\<exists>pkt'. setup_pkt 3 (pkt_3\<lparr>p_cutoff := 40\<rparr>) = Inr pkt' \<and> a_code (p_apply pkt' ! 3) = APPLY \<and>
    a_code (p_apply pkt' ! 2) = APPLY"
proof -
  let ?p = "pkt_3\<lparr>p_cutoff := 40\<rparr>"
  have M: "maxser ?p = 3" by code_simp
  have i: "\<not> a_inline (p_apply ?p ! n)" "a_code (p_apply ?p ! n) = SX_EMPTY" if "n \<le> 3" for n
    using that by (simp_all add: pkt_3_def apply0_def)
  have "table_ok (p_idel ?p) (maxser ?p + 1)"
    unfolding table_ok_def M
  proof (intro allI impI)
    fix n :: nat
    assume "0 < n \<and> n < 3 + 1"
    then have "n = 1 \<or> n = 2 \<or> n = 3" by auto
    then show "i_pred (p_idel ?p ! n) < n \<and> (n \<noteq> 1 \<longrightarrow> i_pred (p_idel ?p ! n) \<noteq> 0) \<and>
        (\<forall>cur \<in> set (i_ixg (p_idel ?p ! n)). ixg_ok (3 + 1) cur)"
      by (elim disjE) (simp_all add: pkt_3_def tab_3_def idel0_def ixg_ok_def)
  qed
  moreover have "length (p_apply ?p) = maxser ?p + 1" unfolding M by (simp add: pkt_3_def)
  ultimately obtain p' where p': "setup_pkt 3 ?p = Inr p'"
      "\<forall>n. 0 < n \<and> n \<le> maxser ?p \<longrightarrow> a_code (p_apply p' ! n) =
       (if a_code (p_apply ?p ! n) \<noteq> SX_EMPTY then a_code (p_apply ?p ! n)
        else case List.find (\<lambda>d. a_code (p_apply p' ! d) = APPLY \<and> listed (i_ixg (p_idel ?p ! d)) n \<noteq> None)
            (rev [n + 1..<maxser ?p + 1]) of
          Some d \<Rightarrow> the (listed (i_ixg (p_idel ?p ! d)) n)
        | None \<Rightarrow> if on_chain (p_idel ?p) 3 n \<and> i_datetime (p_idel ?p ! n) \<le> p_cutoff ?p
            then APPLY else NOAPPLY)"
    using setup_codes [of ?p 3] i M by auto
  have d: "i_datetime (p_idel ?p ! 3) = 30" "p_cutoff ?p = 40" by (simp_all add: pkt_3_def tab_3_def)
  have l: "listed (i_ixg (p_idel pkt_3 ! 3)) 2 = Some APPLY"
    by (simp add: pkt_3_def tab_3_def listed_def user_code_def)
  have three: "a_code (p_apply p' ! 3) = APPLY"
    using p'(2) [rule_format, of 3] i(2) [of 3] d M by simp
  have up: "rev [2 + 1..<3 + 1] = [3 :: nat]" by code_simp
  have "a_code (p_apply p' ! 2) = APPLY"
    using p'(2) [rule_format, of 2] i(2) [of 2] unfolding M up by (simp add: l three)
  with p'(1) three show ?thesis by blast
qed

end
