(* ===== verification/SccsDelta.thy ===== *)
theory SccsDelta
  imports SccsWeave
begin

text \<open>
  The editing of the weave by \<open>delta.c\<close>: the output of \<open>diff\<close> between the gotten version and
  the new one is read hunk by hunk (\<open>getdiff\<close>, \<open>linerange\<close>, \<open>skipline\<close>, \<open>rddiff\<close>) and turned
  into control lines that are written between the lines of the old weave (\<open>insert\<close>, \<open>delete\<close>,
  \<open>after\<close>, \<open>before\<close>). \<open>Diffin\<close> is the list of bytes still to be read from the pipe; \<open>BUFSIZ\<close> is
  the value of the C library's header.
\<close>

section \<open>Reading the differences\<close>

definition BUFSIZ :: nat where "BUFSIZ = 8192"

lemma BUFSIZ_pos: "BUFSIZ - 1 \<noteq> 0" "2 \<le> BUFSIZ - 1"
  by (simp_all add: BUFSIZ_def)

definition rddiff :: "cstr \<Rightarrow> cstr option \<times> cstr" where
  "rddiff diffin =
     (if diffin = [] then (None, []) else let (s, r) = fgets (BUFSIZ - 1) diffin in (Some s, r))"

lemma rddiff_shorter: "rddiff d = (Some s, r) \<Longrightarrow> length r < length d"
  using fgets_shorter [of "BUFSIZ - 1" d] BUFSIZ_pos
  by (auto simp: rddiff_def split: if_splits prod.splits)

definition linerange :: "cstr \<Rightarrow> cstr \<times> nat \<times> nat" where
  "linerange cp =
     (let (cp, low) = satoi cp in
      if deref cp = CHR '','' then (let (cp, high) = satoi (tl cp) in (cp, low, high))
      else (cp, low, low))"

text \<open>The inner loop of \<open>skipline\<close>; at the end of the pipe it looks at the character before the
  empty buffer.\<close>

function skip_one :: "cstr \<Rightarrow> serr + cstr" where
  "skip_one d =
     (case rddiff d of
        (None, r) \<Rightarrow> Inl Wild
      | (Some s, r) \<Rightarrow> if last s \<noteq> NL then skip_one r else Inr r)"
  by pat_completeness auto
termination
  by (relation "measure length") (auto dest: rddiff_shorter [OF sym])

declare skip_one.simps [simp del]

fun skip_lines :: "nat \<Rightarrow> cstr \<Rightarrow> serr + cstr" where
  "skip_lines 0 d = Inr d"
| "skip_lines (Suc n) d = (case skip_one d of Inl e \<Rightarrow> Inl e | Inr r \<Rightarrow> skip_lines n r)"

text \<open>A negative count does not end before the pipe does.\<close>

definition skipline :: "int \<Rightarrow> cstr \<Rightarrow> serr + cstr" where
  "skipline num d = (if num < 0 then Inl Wild else skip_lines (nat num) d)"

text \<open>\<open>chg_num\<close> and \<open>chg_ln\<close> are the static variables of \<open>getdiff\<close>. The result is the number of
  lines, the type, the line number and what is left.\<close>

record gdiff =
  diffin :: cstr
  chg_num :: int
  chg_ln :: int
  g_type :: char
  g_linenum :: int

definition getdiff :: "gdiff \<Rightarrow> serr + (int \<times> gdiff)" where
  "getdiff g =
     (case rddiff (diffin g) of
        (None, r) \<Rightarrow> Inr (0, g\<lparr>diffin := r\<rparr>)
      | (Some line, r) \<Rightarrow>
          let g = g\<lparr>diffin := r\<rparr> in
          if deref line = CHR ''-'' then
            Inr (chg_num g, g\<lparr>g_type := CHR ''I'', g_linenum := chg_ln g\<rparr>)
          else
            let (p, low, high) = linerange line; g = g\<lparr>g_linenum := int low\<rparr>; c = deref p;
                n = int high - int low + 1 in
            if c = CHR ''d'' then
              (case skipline n r of
                 Inl e \<Rightarrow> Inl e
               | Inr r \<Rightarrow> Inr (n, g\<lparr>g_type := CHR ''D'', diffin := r\<rparr>))
            else if c = CHR ''a'' then
              let (q, low', high') = linerange (tl p)
              in Inr (int high' - int low' + 1, g\<lparr>g_type := CHR ''I''\<rparr>)
            else if c = CHR ''c'' then
              let (q, low', high') = linerange (tl p) in
              (case skipline n r of
                 Inl e \<Rightarrow> Inl e
               | Inr r \<Rightarrow> Inr (n, g\<lparr>g_type := CHR ''D'', diffin := r, chg_ln := int low,
                                   chg_num := int high' - int low' + 1\<rparr>))
            else Inr (0, g))"

section \<open>Editing the weave\<close>

text \<open>\<open>before\<close> reads until line \<open>n\<close> of the old version is in the packet.\<close>

function before :: "int \<Rightarrow> wpacket \<Rightarrow> serr + wpacket" where
  "before n pkt =
     (if int (p_glnno pkt) < n then
        (case readmod pkt of
           Inl e \<Rightarrow> Inl e
         | Inr (found, pkt') \<Rightarrow> if found then before n pkt' else Inr pkt')
      else Inr pkt)"
  by pat_completeness auto
termination
  by (relation "measure (\<lambda>(_, pkt). slen pkt)") (auto dest: readmod_slen)

declare before.simps [simp del]

text \<open>The loop of \<open>after\<close>: behind a last line without newline it reads from a closed file.\<close>

function finish_line :: "wpacket \<Rightarrow> serr + wpacket" where
  "finish_line pkt =
     (if last (p_line pkt) \<noteq> NL then
        (case getline pkt of
           Inl e \<Rightarrow> Inl e
         | Inr (None, pkt') \<Rightarrow> Inl Wild
         | Inr (Some l, pkt') \<Rightarrow> finish_line pkt')
      else Inr (putline None pkt))"
  by pat_completeness auto
termination
  by (relation "measure slen") (auto dest!: getline_slen)

declare finish_line.simps [simp del]

definition after :: "int \<Rightarrow> wpacket \<Rightarrow> serr + wpacket" where
  "after n pkt =
     (case before n pkt of
        Inl e \<Rightarrow> Inl e
      | Inr pkt \<Rightarrow> if int (p_glnno pkt) = n then finish_line pkt else Inr pkt)"

definition ctl_line :: "char \<Rightarrow> nat \<Rightarrow> cstr" where
  "ctl_line c ser = [CTLCHAR, c, SPC] @ print_dec ser @ [NL]"

text \<open>One line of the new text, which may come in several reads; \<open>first\<close> strips the \<open>> \<close>.\<close>

function copy_line :: "bool \<Rightarrow> cstr \<Rightarrow> wpacket \<Rightarrow> serr + (cstr \<times> wpacket)" where
  "copy_line first d pkt =
     (case rddiff d of
        (None, r) \<Rightarrow> Inl (Fatal ''Cannot read the diffs file (de19)'')
      | (Some s, r) \<Rightarrow>
          let pkt = putline (Some (if first then drop 2 s else s)) pkt
          in if last s = NL then Inr (r, pkt) else copy_line False r pkt)"
  by pat_completeness auto
termination
  by (relation "measure (\<lambda>(_, d, _). length d)") (auto dest: rddiff_shorter [OF sym])

declare copy_line.simps [simp del]

fun copy_lines :: "nat \<Rightarrow> cstr \<Rightarrow> wpacket \<Rightarrow> serr + (cstr \<times> wpacket)" where
  "copy_lines 0 d pkt = Inr (d, pkt)"
| "copy_lines (Suc n) d pkt =
     (case copy_line True d pkt of Inl e \<Rightarrow> Inl e | Inr (r, pkt) \<Rightarrow> copy_lines n r pkt)"

text \<open>\<open>insert\<close> and \<open>delete\<close>; a negative number of lines reads to the end of the pipe.\<close>

definition delta_insert :: "int \<Rightarrow> int \<Rightarrow> nat \<Rightarrow> cstr \<Rightarrow> wpacket \<Rightarrow> serr + (cstr \<times> wpacket)" where
  "delta_insert linenum n ser d pkt =
     (case after linenum pkt of
        Inl e \<Rightarrow> Inl e
      | Inr pkt \<Rightarrow>
          if n < 0 then Inl (Fatal ''Cannot read the diffs file (de19)'')
          else
            (case copy_lines (nat n) d (putline (Some (ctl_line (CHR ''I'') ser)) pkt) of
               Inl e \<Rightarrow> Inl e
             | Inr (r, pkt) \<Rightarrow> Inr (r, putline (Some (ctl_line (CHR ''E'') ser)) pkt)))"

definition delta_delete :: "int \<Rightarrow> int \<Rightarrow> nat \<Rightarrow> wpacket \<Rightarrow> serr + wpacket" where
  "delta_delete linenum n ser pkt =
     (case before linenum pkt of
        Inl e \<Rightarrow> Inl e
      | Inr pkt \<Rightarrow>
          (case after (linenum + n - 1) (putline (Some (ctl_line (CHR ''D'') ser)) pkt) of
             Inl e \<Rightarrow> Inl e
           | Inr pkt \<Rightarrow> Inr (putline (Some (ctl_line (CHR ''E'') ser)) pkt)))"

lemma skip_one_shorter: "skip_one d = Inr r \<Longrightarrow> length r < length d"
proof (induction d rule: skip_one.induct)
  case (1 d)
  from 1(2) obtain s r' where s: "rddiff d = (Some s, r')"
    by (auto simp: skip_one.simps [of d] split: prod.splits option.splits)
  note sh = rddiff_shorter [OF s]
  show ?case
  proof (cases "last s = NL")
    case True
    with 1(2) s sh show ?thesis by (simp add: skip_one.simps [of d])
  next
    case False
    with 1(2) s have "skip_one r' = Inr r" by (simp add: skip_one.simps [of d])
    from 1(1) [OF s [symmetric] refl False this] sh show ?thesis by simp
  qed
qed

lemma skip_lines_le: "skip_lines n d = Inr r \<Longrightarrow> length r \<le> length d"
  by (induction n d rule: skip_lines.induct)
     (auto split: sum.splits dest!: skip_one_shorter intro: order_trans less_imp_le)

lemma getdiff_shorter:
  assumes "getdiff g = Inr (n, g')" "n \<noteq> 0"
  shows "length (diffin g') < length (diffin g)"
proof -
  obtain line r where l: "rddiff (diffin g) = (Some line, r)"
    using assms by (cases "rddiff (diffin g)") (auto simp: getdiff_def split: option.splits)
  note sh = rddiff_shorter [OF l]
  have le: "skipline k r = Inr r' \<Longrightarrow> length r' \<le> length r" for k r'
    by (auto simp: skipline_def split: if_splits dest: skip_lines_le)
  show ?thesis
    using assms l sh
    by (auto simp: getdiff_def Let_def split: if_splits prod.splits sum.splits dest!: le)
qed

lemma copy_line_shorter: "copy_line first d pkt = Inr (r, pkt') \<Longrightarrow> length r < length d"
proof (induction first d pkt rule: copy_line.induct)
  case (1 first d pkt)
  from 1(2) obtain s r' where s: "rddiff d = (Some s, r')"
    by (auto simp: copy_line.simps [of first d] split: prod.splits option.splits)
  note sh = rddiff_shorter [OF s]
  show ?case
  proof (cases "last s = NL")
    case True
    with 1(2) s sh show ?thesis by (simp add: copy_line.simps [of first d] Let_def)
  next
    case False
    with 1(2) s have "copy_line False r' (putline (Some (if first then drop 2 s else s)) pkt) = Inr (r, pkt')"
      by (simp add: copy_line.simps [of first d] Let_def)
    from 1(1) [OF s [symmetric] refl refl False this] sh show ?thesis by simp
  qed
qed

lemma copy_lines_le: "copy_lines n d pkt = Inr (r, pkt') \<Longrightarrow> length r \<le> length d"
proof (induction n d pkt rule: copy_lines.induct)
  case (2 n d pkt)
  then obtain d1 p1 where c: "copy_line True d pkt = Inr (d1, p1)"
    by (auto split: sum.splits)
  from 2(2) c have "copy_lines n d1 p1 = Inr (r, pkt')" by simp
  from 2(1) [OF c refl this] copy_line_shorter [OF c] show ?case by simp
qed simp

text \<open>The loop over the differences, with the counts it keeps.\<close>

function diff_loop :: "nat \<Rightarrow> gdiff \<Rightarrow> wpacket \<Rightarrow> int \<Rightarrow> int \<Rightarrow> serr + (wpacket \<times> int \<times> int)" where
  "diff_loop newser g pkt inserted deleted =
     (case getdiff g of
        Inl e \<Rightarrow> Inl e
      | Inr (n, g') \<Rightarrow>
          if n = 0 then Inr (pkt, inserted, deleted)
          else if g_type g' = CHR ''I'' then
            (case delta_insert (g_linenum g') n newser (diffin g') pkt of
               Inl e \<Rightarrow> Inl e
             | Inr (r, pkt') \<Rightarrow> diff_loop newser (g'\<lparr>diffin := r\<rparr>) pkt' (inserted + n) deleted)
          else
            (case delta_delete (g_linenum g') n newser pkt of
               Inl e \<Rightarrow> Inl e
             | Inr pkt' \<Rightarrow> diff_loop newser g' pkt' inserted (deleted + n)))"
  by pat_completeness auto
termination
proof (relation "measure (\<lambda>(_, g, _). length (diffin g))", goal_cases)
  case (2 newser g pkt ins del b n g' b' r pkt')
  then have "length (diffin g') < length (diffin g)" using getdiff_shorter by metis
  moreover have "length r \<le> length (diffin g')"
    using 2 by (auto simp: delta_insert_def split: sum.splits prod.splits if_splits dest!: copy_lines_le)
  ultimately show ?case by simp
next
  case (3 newser g pkt ins del b n g' pkt')
  then show ?case using getdiff_shorter by (metis in_measure prod.case)
qed simp

declare diff_loop.simps [simp del]

text \<open>\<open>while (readmod(&gpkt)) ;\<close>\<close>

function drain :: "wpacket \<Rightarrow> serr + wpacket" where
  "drain pkt =
     (case readmod pkt of
        Inl e \<Rightarrow> Inl e
      | Inr (found, pkt') \<Rightarrow> if found then drain pkt' else Inr pkt')"
  by pat_completeness auto
termination
  by (relation "measure slen") (auto dest: readmod_slen)

declare drain.simps [simp del]

definition edit_body :: "nat \<Rightarrow> cstr \<Rightarrow> wpacket \<Rightarrow> serr + (wpacket \<times> int \<times> int)" where
  "edit_body newser d pkt =
     (case diff_loop newser \<lparr>diffin = d, chg_num = 0, chg_ln = 0, g_type = NUL, g_linenum = 0\<rparr> pkt 0 0 of
        Inl e \<Rightarrow> Inl e
      | Inr (pkt, inserted, deleted) \<Rightarrow>
          if p_iop pkt \<noteq> None then
            (case drain pkt of Inl e \<Rightarrow> Inl e | Inr pkt \<Rightarrow> Inr (pkt, inserted, deleted))
          else Inr (pkt, inserted, deleted))"

section \<open>New control lines in a weave\<close>

definition opens_ok :: "nat \<Rightarrow> opens \<Rightarrow> bool" where
  "opens_ok M O' \<longleftrightarrow> (\<forall>(n, b) \<in> set O'. 0 < n \<and> n \<le> M)"

lemma opens_ok_Nil [simp]: "opens_ok M []"
  by (simp add: opens_ok_def)

lemma opens_ok_step: "wstep C M O' x = Inr (O2, t) \<Longrightarrow> opens_ok M O' \<Longrightarrow> opens_ok M O2"
  by (cases x) (auto simp: opens_ok_def wopen_def wclose_def split: if_splits)

lemma wrun_Cons_Inr:
  "wrun C M O' (x # w) = Inr (O2, t) \<longleftrightarrow>
     (\<exists>O1 t1 t2. wstep C M O' x = Inr (O1, t1) \<and> wrun C M O1 w = Inr (O2, t2) \<and> t = t1 @ t2)"
  by (auto split: sum.splits prod.splits)

lemma wrun_append_Inr:
  "wrun C M O' (v @ w) = Inr (O2, t) \<longleftrightarrow>
     (\<exists>O1 t1 t2. wrun C M O' v = Inr (O1, t1) \<and> wrun C M O1 w = Inr (O2, t2) \<and> t = t1 @ t2)"
proof (induction v arbitrary: O' t)
  case (Cons x v)
  show ?case unfolding append_Cons wrun_Cons_Inr Cons.IH by (auto 4 3)
qed auto

lemma opens_ok_run: "wrun C M O' w = Inr (O2, t) \<Longrightarrow> opens_ok M O' \<Longrightarrow> opens_ok M O2"
proof (induction w arbitrary: O' t)
  case (Cons x w)
  then show ?case unfolding wrun_Cons_Inr by (blast dest: opens_ok_step)
qed simp

lemma wrun_mono: "wrun C M O' w = Inr r \<Longrightarrow> M \<le> m \<Longrightarrow> wrun C m O' w = Inr r"
proof (induction w arbitrary: O' r)
  case (Cons x w)
  obtain O2 t where r: "r = (O2, t)" by (cases r)
  have st: "wstep C M O' x = Inr q \<Longrightarrow> wstep C m O' x = Inr q" for q
    using Cons(3) by (cases x) (auto simp: wopen_def wclose_def split: if_splits)
  show ?case using Cons unfolding r wrun_Cons_Inr by (blast intro: st)
qed simp

text \<open>The open control lines together with an open deletion of a newer delta.\<close>

definition with_open :: "nat \<Rightarrow> bool \<Rightarrow> opens \<Rightarrow> opens \<Rightarrow> bool" where
  "with_open m b O' Om \<longleftrightarrow> filter (\<lambda>(n, _). n \<noteq> m) Om = O' \<and> set Om = insert (m, b) (set O')"

lemma with_open_Cons: "opens_ok M O' \<Longrightarrow> M < m \<Longrightarrow> with_open m b O' ((m, b) # O')"
  by (auto simp: with_open_def opens_ok_def filter_id_conv)

lemma opens_ok_less: "opens_ok M O' \<Longrightarrow> M < m \<Longrightarrow> p \<in> set O' \<Longrightarrow> fst p < m"
  by (force simp: opens_ok_def)

lemma visible_alt:
  "visible C O' \<longleftrightarrow> (\<exists>p \<in> set O'. snd p \<and> C (fst p) \<and>
     (\<forall>q \<in> set O'. (snd q \<or> C (fst q)) \<longrightarrow> fst q \<le> fst p))"
  by (simp add: visible_def split_beta)

lemma visible_with_del:
  assumes "with_open m False O' Om" "opens_ok M O'" "M < m"
  shows "visible C Om \<longleftrightarrow> \<not> C m \<and> visible C O'"
proof -
  have s: "set Om = insert (m, False) (set O')" using assms(1) by (simp add: with_open_def)
  have lt: "\<And>p. p \<in> set O' \<Longrightarrow> fst p < m" using opens_ok_less assms(2,3) by blast
  show ?thesis
  proof (cases "C m")
    case True
    then show ?thesis using lt by (auto simp: visible_alt s dest: leD)
  next
    case False
    then show ?thesis by (simp add: visible_alt s)
  qed
qed

lemma visible_with_ins:
  assumes "opens_ok M O'" "M < m"
  shows "visible C ((m, True) # O') \<longleftrightarrow> C m"
proof -
  have lt: "\<And>p. p \<in> set O' \<Longrightarrow> fst p < m" using opens_ok_less assms by blast
  show ?thesis
  proof (cases "C m")
    case True
    then show ?thesis using lt by (auto simp: visible_alt less_imp_le)
  next
    case False
    then show ?thesis using lt by (auto simp: visible_alt dest: leD)
  qed
qed

lemma wopen_with_del:
  assumes "with_open m False O' Om" "M < m" "wopen M k b O' = Inr (O2, t)"
  shows "t = [] \<and> (\<exists>Om2. wopen m k b Om = Inr (Om2, []) \<and> with_open m False O2 Om2)"
proof -
  have k: "0 < k" "k \<le> M" "k \<notin> fst ` set O'" "O2 = (k, b) # O'" "t = []"
    using assms(3) by (auto simp: wopen_def split: if_splits)
  then have "k \<notin> fst ` set Om" using assms(1,2) by (auto simp: with_open_def)
  then have "wopen m k b Om = Inr ((k, b) # Om, [])" using k(1,2) assms(2) by (simp add: wopen_def)
  moreover have "with_open m False O2 ((k, b) # Om)" using assms(1,2) k by (auto simp: with_open_def)
  ultimately show ?thesis using k(5) by blast
qed

lemma filter_swap: "filter P (filter Q xs) = filter Q (filter P xs)"
  by (induction xs) auto

lemma wclose_with_del:
  assumes "with_open m False O' Om" "M < m" "wclose M k O' = Inr (O2, t)"
  shows "t = [] \<and> (\<exists>Om2. wclose m k Om = Inr (Om2, []) \<and> with_open m False O2 Om2)"
proof -
  have k: "0 < k" "k \<le> M" "k \<in> fst ` set O'" "O2 = filter (\<lambda>(n, _). n \<noteq> k) O'" "t = []"
    using assms(3) by (auto simp: wclose_def split: if_splits)
  let ?Om = "filter (\<lambda>(n, _). n \<noteq> k) Om"
  have o: "filter (\<lambda>(n, _). n \<noteq> m) Om = O'" "set Om = insert (m, False) (set O')"
    using assms(1) by (simp_all add: with_open_def)
  have "wclose m k Om = Inr (?Om, [])"
    using k(1-3) assms(2) by (simp add: wclose_def o(2))
  moreover have "filter (\<lambda>(n, _). n \<noteq> m) ?Om = O2"
    by (metis filter_swap k(4) o(1))
  moreover have "m \<noteq> k" using k(2) assms(2) by simp
  then have "set ?Om = insert (m, False) (set O2)"
    unfolding k(4) set_filter o(2) by blast
  ultimately have "wclose m k Om = Inr (?Om, [])" "with_open m False O2 ?Om"
    by (simp_all add: with_open_def)
  with k(5) show ?thesis by blast
qed

lemma wstep_with_del:
  assumes "with_open m False O' Om" "opens_ok M O'" "M < m" "wstep C M O' x = Inr (O2, t)"
  shows "\<exists>Om2. wstep C m Om x = Inr (Om2, if C m then [] else t) \<and> with_open m False O2 Om2"
proof (cases x)
  case (Text l)
  then show ?thesis using assms visible_with_del [OF assms(1-3), of C] by auto
next
  case (Ins k)
  with wopen_with_del [OF assms(1,3), of k True] assms(4) show ?thesis by auto
next
  case (Del k)
  with wopen_with_del [OF assms(1,3), of k False] assms(4) show ?thesis by auto
next
  case (End k)
  with wclose_with_del [OF assms(1,3), of k] assms(4) show ?thesis by auto
qed

lemma wrun_with_del:
  assumes "with_open m False O' Om" "opens_ok M O'" "M < m" "wrun C M O' X = Inr (O2, t)"
  shows "\<exists>Om2. wrun C m Om X = Inr (Om2, if C m then [] else t) \<and> with_open m False O2 Om2"
  using assms
proof (induction X arbitrary: O' Om t)
  case (Cons x X)
  then obtain O1 t1 t2 where s: "wstep C M O' x = Inr (O1, t1)" "wrun C M O1 X = Inr (O2, t2)" "t = t1 @ t2"
    unfolding wrun_Cons_Inr by blast
  obtain Om1 where o: "wstep C m Om x = Inr (Om1, if C m then [] else t1)" "with_open m False O1 Om1"
    using wstep_with_del [OF Cons(2-4) s(1)] by blast
  obtain Om2 where "wrun C m Om1 X = Inr (Om2, if C m then [] else t2)" "with_open m False O2 Om2"
    using Cons(1) [OF o(2) opens_ok_step [OF s(1) Cons(3)] Cons(4) s(2)] by blast
  with o s(3) show ?case by (auto simp del: wstep.simps)
qed auto

text \<open>A deletion by the new delta hides the lines from its versions and from no other.\<close>

lemma wrun_del_block:
  assumes "opens_ok M O'" "M < m" "wrun C M O' X = Inr (O2, t)"
  shows "wrun C m O' (Del m # X @ [End m]) = Inr (O2, if C m then [] else t)"
proof -
  have m: "m \<notin> fst ` set O'" "0 < m" using assms(1,2) by (auto simp: opens_ok_def)
  obtain Om2 where o: "wrun C m ((m, False) # O') X = Inr (Om2, if C m then [] else t)"
      "with_open m False O2 Om2"
    using wrun_with_del [OF with_open_Cons [OF assms(1,2)] assms] by blast
  have "wrun C m Om2 [End m] = Inr (O2, [])"
    using o(2) m by (auto simp: wclose_def with_open_def)
  with o(1) m show ?thesis
    unfolding wrun_Cons_Inr wrun_append_Inr by (auto simp: wopen_def simp del: wrun.simps)
qed

lemma wrun_texts: "wrun C M O' (map Text ls) = Inr (O', if visible C O' then ls else [])"
  by (induction ls) auto

text \<open>An insertion by the new delta adds the lines to its versions and to no other.\<close>

lemma wrun_ins_block:
  assumes "opens_ok M O'" "M < m"
  shows "wrun C m O' (Ins m # map Text ls @ [End m]) = Inr (O', if C m then ls else [])"
proof -
  have m: "m \<notin> fst ` set O'" "0 < m" using assms by (auto simp: opens_ok_def)
  have "filter (\<lambda>(n, _). n \<noteq> m) O' = O'" using assms by (auto simp: filter_id_conv opens_ok_def)
  then have "wrun C m ((m, True) # O') [End m] = Inr (O', [])" using m by (simp add: wclose_def)
  with m visible_with_ins [OF assms, of C] show ?thesis
    unfolding wrun_Cons_Inr wrun_append_Inr
    by (auto simp: wopen_def wrun_texts simp del: wrun.simps)
qed

section \<open>Reading on in the old weave\<close>

definition writing :: "wpacket \<Rightarrow> bool" where
  "writing pkt \<longleftrightarrow> p_upd pkt \<and> Xcreate pkt"

text \<open>The x-file once the current line is written.\<close>

definition written :: "wpacket \<Rightarrow> cstr" where
  "written pkt = Xiop pkt @ (if p_wrttn pkt then [] else p_line pkt)"

lemma written_flushed: "writing pkt \<Longrightarrow> Xiop (flushed pkt) = written pkt"
  and writing_flushed: "writing pkt \<Longrightarrow> Xcreate (flushed pkt)"
  by (simp_all add: writing_def written_def flushed_def putline_def)

lemma written_adv: "writing pkt \<Longrightarrow> written (adv pkt l s) = written pkt @ l"
  and Xiop_adv: "writing pkt \<Longrightarrow> Xiop (adv pkt l s) = written pkt"
  and writing_adv: "writing pkt \<Longrightarrow> writing (adv pkt l s)"
  and glnno_adv: "p_glnno (adv pkt l s) = p_glnno pkt"
  and line_adv: "p_line (adv pkt l s) = l" "\<not> p_wrttn (adv pkt l s)"
  using written_flushed [of pkt] writing_flushed [of pkt]
  by (simp_all add: adv_def writing_def written_def)

lemma control_written:
  assumes "control pkt p = Inr pkt'"
  shows "written pkt' = written pkt" "writing pkt' \<longleftrightarrow> writing pkt" "p_glnno pkt' = p_glnno pkt"
proof -
  obtain q i k s where "pkt' = pkt\<lparr>p_q := q, p_ixmsg := i, p_keep := k, p_inssid := s\<rparr>"
    using control_frame [OF assms] .
  then show "written pkt' = written pkt" "writing pkt' \<longleftrightarrow> writing pkt" "p_glnno pkt' = p_glnno pkt"
    by (simp_all add: written_def writing_def)
qed

lemma readmod_next:
  assumes "winv A M pkt O'" "reading pkt (pre @ Text l # R)" "\<forall>x \<in> set (pre @ [Text l]). item_ok x"
    and "wrun A M O' pre = Inr (O1, [])" "visible A O1" "writing pkt"
  shows "\<exists>pkt'. readmod pkt = Inr (True, pkt') \<and> winv A M pkt' O1 \<and> reading pkt' R \<and> writing pkt' \<and>
    p_line pkt' = l \<and> \<not> p_wrttn pkt' \<and> p_glnno pkt' = p_glnno pkt + 1 \<and>
    Xiop pkt' = written pkt @ print_weave pre"
  using assms
proof (induction pre arbitrary: pkt O')
  case Nil
  let ?p = "adv pkt l (print_weave R)"
  have r: "reading pkt (Text l # R)" and ok: "item_ok (Text l)" and O1: "O1 = O'" using Nil by simp_all
  note g = getline_item [OF r ok] and rd = reading_adv [OF r]
  have pi: "print_item (Text l) = l" by (simp add: print_item_def)
  note iv = winv_adv [OF Nil(1), of l "print_weave R"]
  have "deref l \<noteq> CTLCHAR" using ok by (simp add: item_ok_def)
  moreover have "p_keep ?p = YES" using iv Nil(5) O1 by (simp add: winv_def)
  ultimately have "readmod pkt = Inr (True, ?p\<lparr>p_glnno := p_glnno ?p + 1\<rparr>)"
    using g by (simp add: readmod.simps [of pkt] pi)
  then show ?case
    using winv_glnno [OF iv, of "p_glnno ?p + 1"] rd written_adv [OF Nil(6)] Xiop_adv [OF Nil(6)]
      writing_adv [OF Nil(6)] line_adv glnno_adv O1
    by (simp add: pi writing_def reading_def)
next
  case (Cons x pre)
  let ?p = "adv pkt (print_item x) (print_weave (pre @ Text l # R))"
  have r: "reading pkt (x # (pre @ Text l # R))" and ok: "item_ok x"
    and ok': "\<forall>x \<in> set (pre @ [Text l]). item_ok x" using Cons.prems by simp_all
  note g = getline_item [OF r ok] and rd = reading_adv [OF r] and iv = winv_adv [OF Cons.prems(1)]
  obtain O2 where s: "wstep A M O' x = Inr (O2, [])" "wrun A M O2 pre = Inr (O1, [])"
    using Cons.prems(4) unfolding wrun_Cons_Inr by auto
  show ?case
  proof (cases "\<exists>l. x = Text l")
    case True
    then obtain l' where x: "x = Text l'" by blast
    then have nv: "\<not> visible A O'" "O2 = O'" using s(1) by (auto split: if_splits)
    then have "p_keep ?p \<noteq> YES" using iv by (simp add: winv_def)
    moreover have "deref (print_item x) \<noteq> CTLCHAR" using print_item_ctl ok x by blast
    ultimately have "readmod pkt = readmod ?p"
      using g by (simp add: readmod.simps [of pkt])
    moreover have "print_item x = l'" by (simp add: x print_item_def)
    ultimately show ?thesis
      using Cons.IH [OF iv rd ok' s(2) [unfolded nv(2)] Cons.prems(5) writing_adv [OF Cons.prems(6)]]
        written_adv [OF Cons.prems(6)] by (simp add: glnno_adv)
  next
    case False
    then have c: "deref (print_item x) = CTLCHAR" using print_item_ctl ok by blast
    have "crel A M (wstep A M O' x) (control ?p (tl (print_item x)))"
      using control_refines iv False by simp
    then obtain p' where p: "control ?p (tl (print_item x)) = Inr p'" "winv A M p' O2"
      using s(1) by (auto simp: crel_def)
    have "readmod pkt = readmod p'" using g c p by (simp add: readmod.simps [of pkt])
    then show ?thesis
      using Cons.IH [OF p(2) _ ok' s(2) Cons.prems(5)] reading_control [OF p(1)] control_written [OF p(1)] rd
        written_adv [OF Cons.prems(6)] writing_adv [OF Cons.prems(6)] by (simp add: glnno_adv)
  qed
qed

text \<open>A run over \<open>k\<close> lines of the version, as pairs of what is passed over and a line.\<close>

fun seq_ok :: "(nat \<Rightarrow> bool) \<Rightarrow> nat \<Rightarrow> opens \<Rightarrow> (item list \<times> cstr) list \<Rightarrow> opens \<Rightarrow> bool" where
  "seq_ok A M O' [] O2 \<longleftrightarrow> O2 = O'"
| "seq_ok A M O' ((pre, l) # ps) O2 \<longleftrightarrow>
     (\<exists>O1. wrun A M O' pre = Inr (O1, []) \<and> visible A O1 \<and> seq_ok A M O1 ps O2)"

definition items :: "(item list \<times> cstr) list \<Rightarrow> item list" where
  "items ps = concat (map (\<lambda>(pre, l). pre @ [Text l]) ps)"

lemma items_simps [simp]: "items [] = []" "items ((pre, l) # ps) = pre @ Text l # items ps"
  "items (ps @ qs) = items ps @ items qs"
  by (simp_all add: items_def)

lemma before_reads:
  assumes "winv A M pkt O'" "reading pkt (items ps @ R)" "\<forall>x \<in> set (items ps). item_ok x"
    and "seq_ok A M O' ps O1" "writing pkt" "n = int (p_glnno pkt) + int (length ps)"
  shows "\<exists>pkt'. before n pkt = Inr pkt' \<and> winv A M pkt' O1 \<and> reading pkt' R \<and> writing pkt' \<and>
    int (p_glnno pkt') = n \<and> written pkt' = written pkt @ print_weave (items ps) \<and>
    (if ps = [] then pkt' = pkt else p_line pkt' = snd (last ps) \<and> \<not> p_wrttn pkt')"
  using assms
proof (induction ps arbitrary: pkt O')
  case Nil
  then show ?case by (simp add: before.simps)
next
  case (Cons a ps)
  obtain pre l where a: "a = (pre, l)" by (cases a)
  obtain O2 where s: "wrun A M O' pre = Inr (O2, [])" "visible A O2" "seq_ok A M O2 ps O1"
    using Cons.prems(4) unfolding a by auto
  obtain p where p: "readmod pkt = Inr (True, p)" "winv A M p O2" "reading p (items ps @ R)" "writing p"
      "p_line p = l" "\<not> p_wrttn p" "p_glnno p = p_glnno pkt + 1" "Xiop p = written pkt @ print_weave pre"
    using readmod_next [OF Cons.prems(1) _ _ s(1,2) Cons.prems(5), of l "items ps @ R"] Cons.prems(2,3)
    by (auto simp: a)
  have n: "n = int (p_glnno p) + int (length ps)" using Cons.prems(6) p(7) by simp
  obtain p' where p': "before n p = Inr p'" "winv A M p' O1" "reading p' R" "writing p'" "int (p_glnno p') = n"
      "written p' = written p @ print_weave (items ps)"
      "if ps = [] then p' = p else p_line p' = snd (last ps) \<and> \<not> p_wrttn p'"
    using Cons.IH [OF p(2,3) _ s(3) p(4) n] Cons.prems(3) by (auto simp: a)
  have "before n pkt = before n p"
    unfolding before.simps [of n pkt] using p(1) Cons.prems(6) by simp
  moreover have "written p = written pkt @ print_weave (pre @ [Text l])"
    using p(5,6,8) by (simp add: written_def print_item_def)
  ultimately show ?case using p' p(5,6) by (auto simp: a print_item_def)
qed

lemma split_visible:
  assumes "wrun A M O' w = Inr (O2, l # t)"
  shows "\<exists>pre R O1. w = pre @ Text l # R \<and> wrun A M O' pre = Inr (O1, []) \<and> visible A O1 \<and>
    wrun A M O1 R = Inr (O2, t)"
  using assms
proof (induction w arbitrary: O')
  case (Cons x w)
  obtain O1 t1 t2 where s: "wstep A M O' x = Inr (O1, t1)" "wrun A M O1 w = Inr (O2, t2)" "l # t = t1 @ t2"
    using Cons.prems unfolding wrun_Cons_Inr by blast
  show ?case
  proof (cases t1)
    case Nil
    with s obtain pre R O3 where "w = pre @ Text l # R" "wrun A M O1 pre = Inr (O3, [])" "visible A O3"
        "wrun A M O3 R = Inr (O2, t)"
      using Cons.IH [of O1] by auto
    moreover have "wrun A M O' (x # pre) = Inr (O3, [])"
      using s(1) Nil calculation(2) unfolding wrun_Cons_Inr by blast
    ultimately show ?thesis by (metis append_Cons)
  next
    case (Cons a t3)
    then have x: "x = Text l" "visible A O'" "O1 = O'" "t2 = t"
      using s(1,3) by (cases x; auto simp: wopen_def wclose_def split: if_splits)+
    then show ?thesis using s(2) by (metis append_Nil wrun.simps(1))
  qed
qed simp

lemma split_lines:
  assumes "wrun A M O' w = Inr (O2, t)" "k \<le> length t"
  shows "\<exists>ps R O1. w = items ps @ R \<and> length ps = k \<and> seq_ok A M O' ps O1 \<and>
    wrun A M O' (items ps) = Inr (O1, take k t) \<and> wrun A M O1 R = Inr (O2, drop k t)"
  using assms
proof (induction k arbitrary: O' w t)
  case 0
  then have "w = items [] @ w \<and> length ([] :: (item list \<times> cstr) list) = 0 \<and> seq_ok A M O' [] O' \<and>
      wrun A M O' (items []) = Inr (O', take 0 t) \<and> wrun A M O' w = Inr (O2, drop 0 t)"
    by simp
  then show ?case by blast
next
  case (Suc k)
  then obtain l t' where t: "t = l # t'" by (cases t) auto
  obtain pre R O1 where s: "w = pre @ Text l # R" "wrun A M O' pre = Inr (O1, [])" "visible A O1"
      "wrun A M O1 R = Inr (O2, t')"
    using split_visible Suc.prems(1) unfolding t by blast
  obtain ps R' O3 where r: "R = items ps @ R'" "length ps = k" "seq_ok A M O1 ps O3"
      "wrun A M O1 (items ps) = Inr (O3, take k t')" "wrun A M O3 R' = Inr (O2, drop k t')"
    using Suc.IH [OF s(4)] Suc.prems(2) t by auto
  have "wrun A M O' (items ((pre, l) # ps)) = Inr (O3, take (Suc k) t)"
    using s(2,3) r(4) by (simp add: t wrun_append_Inr)
  then show ?case
    using s r by (intro exI [of _ "(pre, l) # ps"] exI [of _ R'] exI [of _ O3]) (auto simp: t)
qed

section \<open>Edits of a weave\<close>

text \<open>
  The part \<open>X\<close> of the old weave with the lines \<open>told\<close> has been replaced by \<open>W\<close>: the versions with
  the new delta \<open>m\<close> get the lines \<open>tnew\<close>, all others keep theirs.
\<close>

definition edited :: "(nat \<Rightarrow> bool) \<Rightarrow> nat \<Rightarrow> nat \<Rightarrow> opens \<Rightarrow> item list \<Rightarrow> cstr list \<Rightarrow> opens \<Rightarrow>
    item list \<Rightarrow> cstr list \<Rightarrow> bool" where
  "edited A M m O' X told O1 W tnew \<longleftrightarrow>
     wrun A M O' X = Inr (O1, told) \<and> wrun A m O' W = Inr (O1, tnew) \<and> (\<forall>x \<in> set W. item_ok x) \<and>
     (\<forall>C t. \<not> C m \<longrightarrow> wrun C M O' X = Inr (O1, t) \<longrightarrow> wrun C m O' W = Inr (O1, t))"

lemma wrun_opens: "wrun A M O' X = Inr (O1, t) \<Longrightarrow> \<exists>t'. wrun C M O' X = Inr (O1, t')"
proof (induction X arbitrary: O' t)
  case (Cons x X)
  have "wstep A M O' x = Inr (O2, s) \<Longrightarrow> \<exists>s'. wstep C M O' x = Inr (O2, s')" for O2 s
    by (cases x) auto
  with Cons show ?case unfolding wrun_Cons_Inr by blast
qed auto

lemma edited_append:
  assumes "edited A M m O' X t1 O1 W s1" "edited A M m O1 Y t2 O2 V s2"
  shows "edited A M m O' (X @ Y) (t1 @ t2) O2 (W @ V) (s1 @ s2)"
proof -
  have "wrun C m O' (W @ V) = Inr (O2, t)" if c: "\<not> C m" "wrun C M O' (X @ Y) = Inr (O2, t)" for C t
  proof -
    obtain O3 t3 t4 where x: "wrun C M O' X = Inr (O3, t3)" "wrun C M O3 Y = Inr (O2, t4)" "t = t3 @ t4"
      using c(2) unfolding wrun_append_Inr by blast
    moreover have "O3 = O1" using wrun_opens [of A M O' X O1 t1 C] assms(1) x(1) by (auto simp: edited_def)
    ultimately show ?thesis using assms c(1) unfolding edited_def wrun_append_Inr by blast
  qed
  then show ?thesis using assms unfolding edited_def wrun_append_Inr by auto
qed

lemma edited_plain:
  "wrun A M O' X = Inr (O1, t) \<Longrightarrow> M < m \<Longrightarrow> \<forall>x \<in> set X. item_ok x \<Longrightarrow> edited A M m O' X t O1 X t"
  by (auto simp: edited_def intro: wrun_mono)

lemma edited_del:
  "wrun A M O' X = Inr (O1, t) \<Longrightarrow> M < m \<Longrightarrow> \<forall>x \<in> set X. item_ok x \<Longrightarrow> opens_ok M O' \<Longrightarrow> A m \<Longrightarrow>
   edited A M m O' X t O1 (Del m # X @ [End m]) []"
  using wrun_del_block [of M O' m _ X O1] by (auto simp: edited_def item_ok_def simp del: wrun.simps)

lemma edited_ins:
  "M < m \<Longrightarrow> \<forall>l \<in> set ls. is_line l \<and> deref l \<noteq> CTLCHAR \<Longrightarrow> opens_ok M O' \<Longrightarrow> A m \<Longrightarrow>
   edited A M m O' [] [] O' (Ins m # map Text ls @ [End m]) ls"
  using wrun_ins_block [of M O' m _ ls]
  by (auto simp: edited_def item_ok_def wrun.simps(1) simp del: wrun.simps(2))

section \<open>The output of diff\<close>

text \<open>A difference is a list of hunks: lines kept, lines deleted, lines inserted.\<close>

type_synonym hunk = "nat \<times> nat \<times> cstr list"

fun apply_hunks :: "hunk list \<Rightarrow> cstr list \<Rightarrow> cstr list" where
  "apply_hunks [] old = old"
| "apply_hunks ((k, d, ls) # hs) old = take k old @ ls @ apply_hunks hs (drop (k + d) old)"

fun hunks_ok :: "hunk list \<Rightarrow> cstr list \<Rightarrow> bool" where
  "hunks_ok [] old \<longleftrightarrow> True"
| "hunks_ok ((k, d, ls) # hs) old \<longleftrightarrow>
     k + d \<le> length old \<and> (d \<noteq> 0 \<or> ls \<noteq> []) \<and> (\<forall>l \<in> set ls. is_line l \<and> deref l \<noteq> CTLCHAR) \<and>
     hunks_ok hs (drop (k + d) old)"

definition print_range :: "nat \<Rightarrow> nat \<Rightarrow> cstr" where
  "print_range lo hi = print_dec lo @ (if lo = hi then [] else CHR '','' # print_dec hi)"

definition marked :: "char \<Rightarrow> cstr list \<Rightarrow> cstr" where
  "marked c ls = concat (map (\<lambda>l. c # SPC # l) ls)"

text \<open>A hunk in the format of \<open>diff\<close>, after \<open>i\<close> old and \<open>j\<close> new lines; \<open>dl\<close> are the deleted lines.\<close>

definition print_hunk :: "nat \<Rightarrow> nat \<Rightarrow> cstr list \<Rightarrow> cstr list \<Rightarrow> cstr" where
  "print_hunk i j dl ls =
     (if dl = [] then print_dec i @ ''a'' @ print_range (j + 1) (j + length ls) @ [NL] @ marked (CHR ''>'') ls
      else if ls = [] then
        print_range (i + 1) (i + length dl) @ ''d'' @ print_dec j @ [NL] @ marked (CHR ''<'') dl
      else print_range (i + 1) (i + length dl) @ ''c'' @ print_range (j + 1) (j + length ls) @ [NL] @
        marked (CHR ''<'') dl @ ''---'' @ [NL] @ marked (CHR ''>'') ls)"

fun print_diff :: "nat \<Rightarrow> nat \<Rightarrow> hunk list \<Rightarrow> cstr list \<Rightarrow> cstr" where
  "print_diff i j [] old = []"
| "print_diff i j ((k, d, ls) # hs) old =
     print_hunk (i + k) (j + k) (take d (drop k old)) ls @
     print_diff (i + k + d) (j + k + length ls) hs (drop (k + d) old)"

lemma is_line_drop: "is_line l \<Longrightarrow> k < length l \<Longrightarrow> is_line (drop k l)"
proof (induction l arbitrary: k)
  case (Cons c l)
  then show ?case by (cases k) (auto simp: is_line_Cons split: if_splits)
qed simp

lemma is_line_take:
  assumes "is_line l" "0 < k"
  shows "last (take k l) = NL \<longleftrightarrow> length l \<le> k"
proof (cases "length l \<le> k")
  case True
  then show ?thesis using assms(1) by (simp add: is_line_def)
next
  case False
  have l: "l = butlast l @ [NL]" "NL \<notin> set (butlast l)"
    using is_line_butlast [OF assms(1)] assms(1) by (simp_all add: is_line_def)
  have k: "k \<le> length (butlast l)" using False by simp
  then have "take k l = take k (butlast l)" by (metis l(1) take_append append_Nil2 diff_is_0_eq take_0)
  moreover have "take k (butlast l) \<noteq> []" using assms(2) k by (metis le_zero_eq length_0_conv less_irrefl take_eq_Nil)
  then have "last (take k (butlast l)) \<in> set (butlast l)"
    by (meson in_set_takeD last_in_set)
  ultimately show ?thesis using l(2) False by auto
qed

lemma rddiff_line: "is_line l \<Longrightarrow> rddiff (l @ r) = (Some (take (BUFSIZ - 1) l), drop (BUFSIZ - 1) l @ r)"
  using fgets_line [of l "BUFSIZ - 1" r] by (auto simp: rddiff_def is_line_def)

lemma skip_one_line: "is_line l \<Longrightarrow> skip_one (l @ r) = Inr r"
proof (induction "length l" arbitrary: l rule: less_induct)
  case less
  show ?case
  proof (cases "length l \<le> BUFSIZ - 1")
    case True
    then show ?thesis
      using less(2) is_line_take [of l "BUFSIZ - 1"] BUFSIZ_pos
      by (subst skip_one.simps) (simp add: rddiff_line)
  next
    case False
    then have "skip_one (drop (BUFSIZ - 1) l @ r) = Inr r"
      using less(1) [of "drop (BUFSIZ - 1) l"] is_line_drop [OF less(2)] BUFSIZ_pos by simp
    then show ?thesis
      using less(2) False is_line_take [of l "BUFSIZ - 1"] BUFSIZ_pos
      by (subst skip_one.simps) (simp add: rddiff_line)
  qed
qed

lemma marked_Cons: "marked c (l # ls) = (c # SPC # l) @ marked c ls"
  by (simp add: marked_def)

lemma skip_marked:
  "\<forall>l \<in> set ls. is_line l \<Longrightarrow> c \<noteq> NL \<Longrightarrow> skip_lines (length ls) (marked c ls @ r) = Inr r"
proof (induction ls)
  case (Cons l ls)
  then have "skip_one ((c # SPC # l) @ (marked c ls @ r)) = Inr (marked c ls @ r)"
    by (intro skip_one_line) (simp add: is_line_Cons)
  with Cons show ?case by (simp add: marked_Cons)
qed (simp add: marked_def)

lemma linerange_print:
  "\<not> numeric c \<Longrightarrow> c \<noteq> CHR '','' \<Longrightarrow> linerange (print_range lo hi @ c # t) = (c # t, lo, hi)"
  by (simp add: linerange_def print_range_def Let_def)

lemma linerange_single:
  "\<not> numeric c \<Longrightarrow> c \<noteq> CHR '','' \<Longrightarrow> linerange (print_dec lo @ c # t) = (c # t, lo, lo)"
  using linerange_print [of c lo lo t] by (simp add: print_range_def)

lemma range_NL [simp]: "NL \<notin> set (print_range lo hi)"
  by (simp add: print_range_def)

lemma length_dec_10: "n < 10 ^ 10 \<Longrightarrow> length (print_dec n) \<le> 10"
  by (rule length_print_dec) simp_all

lemma length_range: "lo < 10 ^ 10 \<Longrightarrow> hi < 10 ^ 10 \<Longrightarrow> length (print_range lo hi) \<le> 21"
  using length_dec_10 [of lo] length_dec_10 [of hi] by (simp add: print_range_def del: power_numeral)

lemma rddiff_short:
  assumes "NL \<notin> set l" "length l < 100"
  shows "rddiff (l @ NL # r) = (Some (l @ [NL]), r)"
  using rddiff_line [of "l @ [NL]" r] assms is_line_snoc [OF assms(1)] by (simp add: BUFSIZ_def)

lemma deref_dec: "deref (print_dec n @ t) \<noteq> CHR ''-''"
  using print_dec_numeric [of "hd (print_dec n)" n] by (cases "print_dec n") auto

lemma deref_range: "deref (print_range lo hi @ t) \<noteq> CHR ''-''"
  using deref_dec by (simp add: print_range_def)

lemma letters_not_numeric [simp]:
  "\<not> numeric (CHR ''a'')" "\<not> numeric (CHR ''c'')" "\<not> numeric (CHR ''d'')"
  by (simp_all add: numeric_def ord_def)

lemma getdiff_append:
  assumes "diffin g = print_hunk i j [] ls @ r" "ls \<noteq> []" "i < 10 ^ 10" "j + length ls < 10 ^ 10"
  shows "\<exists>g'. getdiff g = Inr (int (length ls), g') \<and> g_type g' = CHR ''I'' \<and> g_linenum g' = int i \<and>
    diffin g' = marked (CHR ''>'') ls @ r"
proof -
  let ?l = "print_dec i @ ''a'' @ print_range (j + 1) (j + length ls)"
  have j: "j + 1 < 10 ^ 10" using assms(2,4) by (cases ls) auto
  have "rddiff (?l @ NL # (marked (CHR ''>'') ls @ r)) = (Some (?l @ [NL]), marked (CHR ''>'') ls @ r)"
    using length_dec_10 [OF assms(3)] length_range [OF j assms(4)] by (intro rddiff_short) auto
  then have rd: "rddiff (diffin g) = (Some (?l @ [NL]), marked (CHR ''>'') ls @ r)"
    by (simp add: assms(1) print_hunk_def)
  have "linerange (print_dec i @ CHR ''a'' # print_range (j + 1) (j + length ls) @ [NL]) =
      (CHR ''a'' # print_range (j + 1) (j + length ls) @ [NL], i, i)"
    by (rule linerange_single) simp_all
  moreover have "linerange (print_range (j + 1) (j + length ls) @ [NL]) = ([NL], j + 1, j + length ls)"
    by (rule linerange_print) simp_all
  ultimately show ?thesis
    using rd deref_dec [of i] by (simp add: getdiff_def Let_def)
qed

lemma getdiff_delete:
  assumes "diffin g = print_hunk i j dl [] @ r" "dl \<noteq> []" "i + length dl < 10 ^ 10" "j < 10 ^ 10"
    and "\<forall>l \<in> set dl. is_line l"
  shows "\<exists>g'. getdiff g = Inr (int (length dl), g') \<and> g_type g' = CHR ''D'' \<and> g_linenum g' = int (i + 1) \<and>
    diffin g' = r"
proof -
  let ?l = "print_range (i + 1) (i + length dl) @ ''d'' @ print_dec j"
  have i: "i + 1 < 10 ^ 10" using assms(2,3) by (cases dl) auto
  have "rddiff (?l @ NL # (marked (CHR ''<'') dl @ r)) = (Some (?l @ [NL]), marked (CHR ''<'') dl @ r)"
    using length_dec_10 [OF assms(4)] length_range [OF i assms(3)] by (intro rddiff_short) auto
  then have rd: "rddiff (diffin g) = (Some (?l @ [NL]), marked (CHR ''<'') dl @ r)"
    using assms(2) by (simp add: assms(1) print_hunk_def)
  have "linerange (print_range (i + 1) (i + length dl) @ CHR ''d'' # print_dec j @ [NL]) =
      (CHR ''d'' # print_dec j @ [NL], i + 1, i + length dl)"
    by (rule linerange_print) simp_all
  then show ?thesis
    using rd deref_range skip_marked [OF assms(5), of "CHR ''<''" r]
    by (simp add: getdiff_def Let_def skipline_def)
qed

lemma getdiff_change:
  assumes "diffin g = print_hunk i j dl ls @ r" "dl \<noteq> []" "ls \<noteq> []" "i + length dl < 10 ^ 10"
    and "j + length ls < 10 ^ 10" "\<forall>l \<in> set dl. is_line l"
  shows "\<exists>g'. getdiff g = Inr (int (length dl), g') \<and> g_type g' = CHR ''D'' \<and> g_linenum g' = int (i + 1) \<and>
    diffin g' = ''---'' @ NL # marked (CHR ''>'') ls @ r \<and> chg_ln g' = int (i + 1) \<and> chg_num g' = int (length ls)"
proof -
  let ?l = "print_range (i + 1) (i + length dl) @ ''c'' @ print_range (j + 1) (j + length ls)"
  let ?r = "marked (CHR ''<'') dl @ ''---'' @ NL # marked (CHR ''>'') ls @ r"
  have i: "i + 1 < 10 ^ 10" "j + 1 < 10 ^ 10" using assms(2-5) by (cases dl; cases ls; auto)+
  have "rddiff (?l @ NL # ?r) = (Some (?l @ [NL]), ?r)"
    using length_range [OF i(1) assms(4)] length_range [OF i(2) assms(5)] by (intro rddiff_short) auto
  then have rd: "rddiff (diffin g) = (Some (?l @ [NL]), ?r)"
    using assms(2,3) by (simp add: assms(1) print_hunk_def)
  have "linerange (print_range (i + 1) (i + length dl) @ CHR ''c'' # print_range (j + 1) (j + length ls) @ [NL]) =
      (CHR ''c'' # print_range (j + 1) (j + length ls) @ [NL], i + 1, i + length dl)"
    by (rule linerange_print) simp_all
  moreover have "linerange (print_range (j + 1) (j + length ls) @ [NL]) = ([NL], j + 1, j + length ls)"
    by (rule linerange_print) simp_all
  ultimately show ?thesis
    using rd deref_range skip_marked [OF assms(6), of "CHR ''<''" "''---'' @ NL # marked (CHR ''>'') ls @ r"]
    by (simp add: getdiff_def Let_def skipline_def)
qed

lemma getdiff_separator:
  assumes "diffin g = ''---'' @ NL # r"
  shows "\<exists>g'. getdiff g = Inr (chg_num g, g') \<and> g_type g' = CHR ''I'' \<and> g_linenum g' = chg_ln g \<and> diffin g' = r"
  using rddiff_short [of "''---''" r] by (simp add: getdiff_def assms Let_def)

section \<open>Inserting and deleting\<close>

text \<open>A packet behind line \<open>i\<close> of the old version, with everything read so far written.\<close>

definition behind :: "(nat \<Rightarrow> bool) \<Rightarrow> nat \<Rightarrow> wpacket \<Rightarrow> opens \<Rightarrow> item list \<Rightarrow> nat \<Rightarrow> bool" where
  "behind A M pkt O' R i \<longleftrightarrow> winv A M pkt O' \<and> reading pkt R \<and> writing pkt \<and> p_wrttn pkt \<and>
     last (p_line pkt) = NL \<and> p_glnno pkt = i"

lemma putline_frame:
  assumes "writing pkt"
  shows "winv A M (putline l pkt) O' \<longleftrightarrow> winv A M pkt O'" "reading (putline l pkt) R \<longleftrightarrow> reading pkt R"
    "writing (putline l pkt)" "p_line (putline l pkt) = p_line pkt" "p_glnno (putline l pkt) = p_glnno pkt"
  using assms
  by (cases l; auto simp: putline_def writing_def winv_def maxser_def reading_def)+

lemma putline_Some_out:
  assumes "writing pkt"
  shows "Xiop (putline (Some l) pkt) = Xiop pkt @ l" "p_wrttn (putline (Some l) pkt) \<longleftrightarrow> p_wrttn pkt"
  using assms by (simp_all add: writing_def)

lemma putline_None_out:
  assumes "writing pkt"
  shows "Xiop (putline None pkt) = written pkt" "p_wrttn (putline None pkt)"
  using assms by (simp_all add: putline_def writing_def written_def)

lemma behind_put:
  assumes "behind A M pkt O' R i"
  shows "behind A M (putline (Some l) pkt) O' R i \<and> Xiop (putline (Some l) pkt) = Xiop pkt @ l"
proof -
  have w: "writing pkt" using assms by (simp add: behind_def)
  show ?thesis
    using assms putline_frame [OF w, where l = "Some l"] putline_Some_out [OF w, of l]
    by (simp add: behind_def)
qed

lemma seq_ok_wrun: "seq_ok A M O' ps O1 \<Longrightarrow> wrun A M O' (items ps) = Inr (O1, map snd ps)"
proof (induction ps arbitrary: O')
  case (Cons a ps)
  obtain pre l where a: "a = (pre, l)" by (cases a)
  obtain O2 where "wrun A M O' pre = Inr (O2, [])" "visible A O2" "seq_ok A M O2 ps O1"
    using Cons.prems unfolding a by auto
  with Cons.IH [of O2] show ?case by (simp add: a wrun_append_Inr)
qed simp

lemma after_here:
  assumes "behind A M pkt O' R i" "n \<le> int i"
  shows "\<exists>pkt'. after n pkt = Inr pkt' \<and> behind A M pkt' O' R i \<and> Xiop pkt' = Xiop pkt"
proof -
  have "before n pkt = Inr pkt" using assms by (simp add: before.simps behind_def)
  moreover have "finish_line pkt = Inr pkt"
    using assms putline_none [of pkt] by (simp add: finish_line.simps behind_def writing_def)
  ultimately show ?thesis using assms by (simp add: after_def behind_def)
qed

lemma finish_written:
  assumes "winv A M p O'" "reading p R" "writing p" "last (p_line p) = NL" "p_glnno p = i"
  shows "\<exists>pkt'. finish_line p = Inr pkt' \<and> behind A M pkt' O' R i \<and> Xiop pkt' = written p"
  using assms putline_frame [OF assms(3), where l = None] putline_None_out [OF assms(3)]
  by (simp add: finish_line.simps behind_def)

lemma last_item_line:
  assumes "\<forall>x \<in> set (items ps). item_ok x" "ps \<noteq> []"
  shows "last (snd (last ps)) = NL"
proof -
  obtain qs pre l where "ps = qs @ [(pre, l)]" using assms(2) by (metis append_butlast_last_id surj_pair)
  then show ?thesis using assms(1) by (auto simp: item_ok_def is_line_def)
qed

lemma after_reads:
  assumes "winv A M pkt O'" "reading pkt (items ps @ R)" "\<forall>x \<in> set (items ps). item_ok x"
    and "seq_ok A M O' ps O1" "writing pkt" "last (p_line pkt) = NL"
    and "n = int (p_glnno pkt) + int (length ps)"
  shows "\<exists>pkt'. after n pkt = Inr pkt' \<and> behind A M pkt' O1 R (p_glnno pkt + length ps) \<and>
    Xiop pkt' = written pkt @ print_weave (items ps)"
proof -
  obtain p where p: "before n pkt = Inr p" "winv A M p O1" "reading p R" "writing p" "int (p_glnno p) = n"
      "written p = written pkt @ print_weave (items ps)"
      "if ps = [] then p = pkt else p_line p = snd (last ps) \<and> \<not> p_wrttn p"
    using before_reads [OF assms(1-5,7)] by blast
  have "last (p_line p) = NL"
    using p(7) assms(6) last_item_line [OF assms(3)] by (cases "ps = []") auto
  moreover have "p_glnno p = p_glnno pkt + length ps" using p(5) assms(7) by simp
  ultimately obtain pkt' where "finish_line p = Inr pkt'" "behind A M pkt' O1 R (p_glnno pkt + length ps)"
      "Xiop pkt' = written p"
    using finish_written [OF p(2-4)] by blast
  with p show ?thesis by (simp add: after_def)
qed

lemma copy_line_spec:
  assumes "behind A M pkt O' R i" "is_line l" "first \<Longrightarrow> 2 \<le> length l"
  shows "\<exists>pkt'. copy_line first (l @ r) pkt = Inr (r, pkt') \<and> behind A M pkt' O' R i \<and>
    Xiop pkt' = Xiop pkt @ (if first then drop 2 l else l)"
  using assms
proof (induction "length l" arbitrary: l pkt first rule: less_induct)
  case less
  let ?K = "BUFSIZ - 1"
  let ?s = "if first then drop 2 (take ?K l) else take ?K l"
  let ?p = "putline (Some ?s) pkt"
  have b: "behind A M ?p O' R i" "Xiop ?p = Xiop pkt @ ?s" using behind_put [OF less(2), of ?s] by blast+
  have k: "0 < ?K" "2 \<le> ?K" using BUFSIZ_pos by simp_all
  show ?case
  proof (cases "length l \<le> ?K")
    case True
    then have "?s = (if first then drop 2 l else l)" "last l = NL" using less(3) by (simp_all add: is_line_def)
    moreover have "copy_line first (l @ r) pkt = Inr (r, ?p)"
      using less(3) True calculation(2) by (simp add: copy_line.simps [of first] rddiff_line)
    ultimately show ?thesis using b by (simp only:) blast
  next
    case False
    let ?l = "drop ?K l"
    have "length ?l < length l" "is_line ?l" using False k is_line_drop [OF less(3)] by auto
    from less(1) [OF this(1) b(1) this(2), of False]
    obtain pkt' where c: "copy_line False (?l @ r) ?p = Inr (r, pkt')" "behind A M pkt' O' R i"
        "Xiop pkt' = Xiop ?p @ ?l"
      by auto
    have "copy_line first (l @ r) pkt = copy_line False (?l @ r) ?p"
      using less(3) False is_line_take [OF less(3) k(1)]
      by (simp add: copy_line.simps [of first] rddiff_line)
    moreover have sl: "?s @ ?l = (if first then drop 2 l else l)"
      using k(2) False drop_append [of 2 "take ?K l" ?l] by (cases first) simp_all
    have "Xiop pkt' = Xiop pkt @ (?s @ ?l)" unfolding c(3) b(2) by simp
    ultimately show ?thesis unfolding sl using c(1,2) by (intro exI [of _ pkt'] conjI) (simp_all only:)
  qed
qed

lemma copy_marked:
  assumes "behind A M pkt O' R i" "\<forall>l \<in> set ls. is_line l"
  shows "\<exists>pkt'. copy_lines (length ls) (marked (CHR ''>'') ls @ r) pkt = Inr (r, pkt') \<and>
    behind A M pkt' O' R i \<and> Xiop pkt' = Xiop pkt @ concat ls"
  using assms
proof (induction ls arbitrary: pkt)
  case Nil
  then show ?case by (simp add: marked_def)
next
  case (Cons l ls)
  have l: "is_line (CHR ''>'' # SPC # l)" "2 \<le> length (CHR ''>'' # SPC # l)"
    using Cons.prems(2) by (simp_all add: is_line_Cons)
  obtain p where p: "copy_line True ((CHR ''>'' # SPC # l) @ (marked (CHR ''>'') ls @ r)) pkt =
        Inr (marked (CHR ''>'') ls @ r, p)" "behind A M p O' R i" "Xiop p = Xiop pkt @ l"
    using copy_line_spec [OF Cons.prems(1) l(1), of True "marked (CHR ''>'') ls @ r"] l(2) by auto
  obtain p' where "copy_lines (length ls) (marked (CHR ''>'') ls @ r) p = Inr (r, p')" "behind A M p' O' R i"
      "Xiop p' = Xiop p @ concat ls"
    using Cons.IH [OF p(2)] Cons.prems(2) by auto
  with p show ?case by (simp add: marked_Cons)
qed

definition ins_block :: "nat \<Rightarrow> cstr list \<Rightarrow> item list" where
  "ins_block m ls = Ins m # map Text ls @ [End m]"

definition del_block :: "nat \<Rightarrow> item list \<Rightarrow> item list" where
  "del_block m X = Del m # X @ [End m]"

lemma print_blocks:
  "print_weave (ins_block m ls) = ctl_line (CHR ''I'') m @ concat ls @ ctl_line (CHR ''E'') m"
  "print_weave (del_block m X) = ctl_line (CHR ''D'') m @ print_weave X @ ctl_line (CHR ''E'') m"
proof -
  have "print_weave (map Text ls) = concat ls"
    by (induction ls) (simp_all add: print_item_def)
  then show "print_weave (ins_block m ls) = ctl_line (CHR ''I'') m @ concat ls @ ctl_line (CHR ''E'') m"
    "print_weave (del_block m X) = ctl_line (CHR ''D'') m @ print_weave X @ ctl_line (CHR ''E'') m"
    by (simp_all add: ins_block_def del_block_def print_item_def ctl_line_def)
qed

lemma insert_tail:
  assumes "after n pkt = Inr p" "behind A M p O' R i" "\<forall>l \<in> set ls. is_line l"
  shows "\<exists>pkt'. delta_insert n (int (length ls)) m (marked (CHR ''>'') ls @ r) pkt = Inr (r, pkt') \<and>
    behind A M pkt' O' R i \<and> Xiop pkt' = Xiop p @ print_weave (ins_block m ls)"
proof -
  let ?p = "putline (Some (ctl_line (CHR ''I'') m)) p"
  have b: "behind A M ?p O' R i" "Xiop ?p = Xiop p @ ctl_line (CHR ''I'') m"
    using behind_put [OF assms(2)] by blast+
  obtain q where q: "copy_lines (length ls) (marked (CHR ''>'') ls @ r) ?p = Inr (r, q)" "behind A M q O' R i"
      "Xiop q = Xiop ?p @ concat ls"
    using copy_marked [OF b(1) assms(3)] by blast
  have e: "behind A M (putline (Some (ctl_line (CHR ''E'') m)) q) O' R i"
    "Xiop (putline (Some (ctl_line (CHR ''E'') m)) q) = Xiop q @ ctl_line (CHR ''E'') m"
    using behind_put [OF q(2)] by blast+
  have "delta_insert n (int (length ls)) m (marked (CHR ''>'') ls @ r) pkt =
      Inr (r, putline (Some (ctl_line (CHR ''E'') m)) q)"
    using assms(1) q(1) by (simp add: delta_insert_def)
  with e b q show ?thesis by (simp add: print_blocks)
qed

lemma behind_start:
  assumes "behind A M pkt O' R i"
  shows "winv A M pkt O'" "reading pkt R" "writing pkt" "last (p_line pkt) = NL" "p_glnno pkt = i"
    "written pkt = Xiop pkt"
  using assms by (simp_all add: behind_def written_def)

lemma insert_spec:
  assumes "behind A M pkt O' (items ps @ R) i" "\<forall>x \<in> set (items ps). item_ok x" "seq_ok A M O' ps O1"
    and "\<forall>l \<in> set ls. is_line l"
  shows "\<exists>pkt'. delta_insert (int (i + length ps)) (int (length ls)) m (marked (CHR ''>'') ls @ r) pkt =
      Inr (r, pkt') \<and> behind A M pkt' O1 R (i + length ps) \<and>
    Xiop pkt' = Xiop pkt @ print_weave (items ps @ ins_block m ls)"
proof -
  note s = behind_start [OF assms(1)]
  obtain p where p: "after (int (i + length ps)) pkt = Inr p" "behind A M p O1 R (i + length ps)"
      "Xiop p = Xiop pkt @ print_weave (items ps)"
    using after_reads [OF s(1,2) assms(2,3) s(3,4), of "int (i + length ps)"] s(5,6) by auto
  show ?thesis using insert_tail [OF p(1,2) assms(4), of m r] p(3) by auto
qed

lemma insert_here_spec:
  assumes "behind A M pkt O' R i" "n \<le> int i" "\<forall>l \<in> set ls. is_line l"
  shows "\<exists>pkt'. delta_insert n (int (length ls)) m (marked (CHR ''>'') ls @ r) pkt = Inr (r, pkt') \<and>
    behind A M pkt' O' R i \<and> Xiop pkt' = Xiop pkt @ print_weave (ins_block m ls)"
proof -
  obtain p where p: "after n pkt = Inr p" "behind A M p O' R i" "Xiop p = Xiop pkt"
    using after_here [OF assms(1,2)] by blast
  show ?thesis using insert_tail [OF p(1,2) assms(3), of m r] p(3) by auto
qed

lemma delete_spec:
  assumes "behind A M pkt O' (items (ps @ (pre, l) # qs) @ R) i"
    and "\<forall>x \<in> set (items (ps @ (pre, l) # qs)). item_ok x"
    and "seq_ok A M O' (ps @ [(pre, l)]) O1" "seq_ok A M O1 qs O2"
  shows "\<exists>pkt'. delta_delete (int (i + length ps + 1)) (int (length qs) + 1) m pkt = Inr pkt' \<and>
    behind A M pkt' O2 R (i + length ps + 1 + length qs) \<and>
    Xiop pkt' = Xiop pkt @ print_weave (items ps @ pre @ del_block m (Text l # items qs))"
proof -
  note s = behind_start [OF assms(1)]
  let ?b = "ps @ [(pre, l)]"
  have r: "reading pkt (items ?b @ (items qs @ R))" using s(2) by simp
  have ok: "\<forall>x \<in> set (items ?b). item_ok x" "\<forall>x \<in> set (items qs). item_ok x" using assms(2) by auto
  obtain p where p: "before (int (i + length ps + 1)) pkt = Inr p" "winv A M p O1" "reading p (items qs @ R)"
      "writing p" "int (p_glnno p) = int (i + length ps + 1)" "written p = Xiop pkt @ print_weave (items ?b)"
      "p_line p = l" "\<not> p_wrttn p"
    using before_reads [OF s(1) r ok(1) assms(3) s(3), of "int (i + length ps + 1)"] s(5,6) by auto
  let ?d = "putline (Some (ctl_line (CHR ''D'') m)) p"
  have out: "Xiop p = Xiop pkt @ print_weave (items ps @ pre)"
    using p(6-8) by (simp add: written_def print_item_def)
  have nl: "last l = NL" using ok(1) by (simp add: item_ok_def is_line_def)
  have wd: "written ?d = Xiop p @ ctl_line (CHR ''D'') m @ l"
    using putline_Some_out [OF p(4)] putline_frame(4) [OF p(4)] p(7,8) by (simp add: written_def)
  note f = putline_frame [OF p(4), where l = "Some (ctl_line (CHR ''D'') m)"]
  have g: "p_glnno ?d = i + length ps + 1" using f(5) p(5) by simp
  have "int (i + length ps + 1) + (int (length qs) + 1) - 1 = int (p_glnno ?d) + int (length qs)"
    using g by simp
  note n = this
  have "winv A M ?d O1" "reading ?d (items qs @ R)" "last (p_line ?d) = NL"
    using p(2,3,7) f(1,2,4) nl by simp_all
  from after_reads [OF this(1,2) ok(2) assms(4) f(3) this(3) n]
  obtain q where q: "after (int (i + length ps + 1) + (int (length qs) + 1) - 1) ?d = Inr q"
      "behind A M q O2 R (p_glnno ?d + length qs)" "Xiop q = written ?d @ print_weave (items qs)"
    by blast
  let ?e = "putline (Some (ctl_line (CHR ''E'') m)) q"
  have e: "behind A M ?e O2 R (i + length ps + 1 + length qs)" "Xiop ?e = Xiop q @ ctl_line (CHR ''E'') m"
    using behind_put [OF q(2)] g by auto
  have "delta_delete (int (i + length ps + 1)) (int (length qs) + 1) m pkt = Inr ?e"
    unfolding delta_delete_def using p(1) q(1) by simp
  with e q(3) wd out show ?thesis by (simp add: print_blocks print_item_def)
qed

lemma loop_insert:
  assumes "getdiff g = Inr (n, g')" "n \<noteq> 0" "g_type g' = CHR ''I''"
    and "delta_insert (g_linenum g') n m (diffin g') pkt = Inr (r, pkt')"
  shows "diff_loop m g pkt ins del = diff_loop m (g'\<lparr>diffin := r\<rparr>) pkt' (ins + n) del"
  using assms by (simp add: diff_loop.simps [of m g])

lemma loop_delete:
  assumes "getdiff g = Inr (n, g')" "n \<noteq> 0" "g_type g' = CHR ''D''"
    and "delta_delete (g_linenum g') n m pkt = Inr pkt'"
  shows "diff_loop m g pkt ins del = diff_loop m g' pkt' ins (del + n)"
  using assms by (simp add: diff_loop.simps [of m g])

lemma edited_ins_block:
  "M < m \<Longrightarrow> \<forall>l \<in> set ls. is_line l \<and> deref l \<noteq> CTLCHAR \<Longrightarrow> opens_ok M O' \<Longrightarrow> A m \<Longrightarrow>
   edited A M m O' [] [] O' (ins_block m ls) ls"
  unfolding ins_block_def by (rule edited_ins)

lemma edited_del_block:
  "wrun A M O' X = Inr (O1, t) \<Longrightarrow> M < m \<Longrightarrow> \<forall>x \<in> set X. item_ok x \<Longrightarrow> opens_ok M O' \<Longrightarrow> A m \<Longrightarrow>
   edited A M m O' X t O1 (del_block m X) []"
  unfolding del_block_def by (rule edited_del)

text \<open>The state behind a hunk.\<close>

definition hunk_done :: "(nat \<Rightarrow> bool) \<Rightarrow> nat \<Rightarrow> nat \<Rightarrow> wpacket \<Rightarrow> opens \<Rightarrow> item list \<Rightarrow> nat \<Rightarrow> cstr list \<Rightarrow>
    opens \<Rightarrow> hunk \<Rightarrow> wpacket \<Rightarrow> bool" where
  "hunk_done A M m pkt O' w i old O2 h pkt' \<longleftrightarrow>
     (\<exists>X R W O1. w = X @ R \<and> (case h of (k, d, ls) \<Rightarrow>
        wrun A M O1 R = Inr (O2, drop (k + d) old) \<and> behind A M pkt' O1 R (i + k + d) \<and>
        Xiop pkt' = Xiop pkt @ print_weave W \<and>
        edited A M m O' X (take (k + d) old) O1 W (take k old @ ls)))"

lemma hunk_append:
  assumes "behind A M pkt O' w i" "wrun A M O' w = Inr (O2, old)" "\<forall>x \<in> set w. item_ok x"
    and "opens_ok M O'" "M < m" "A m" "k \<le> length old" "ls \<noteq> []"
    and "\<forall>l \<in> set ls. is_line l \<and> deref l \<noteq> CTLCHAR" "i + k < 10 ^ 10" "j + length ls < 10 ^ 10"
    and "diffin g = print_hunk (i + k) j [] ls @ r"
  shows "\<exists>pkt' g'. diff_loop m g pkt ins del = diff_loop m g' pkt' (ins + int (length ls)) del \<and>
    diffin g' = r \<and> hunk_done A M m pkt O' w i old O2 (k, 0, ls) pkt'"
proof -
  obtain ps R O1 where s: "w = items ps @ R" "length ps = k" "seq_ok A M O' ps O1"
      "wrun A M O' (items ps) = Inr (O1, take k old)" "wrun A M O1 R = Inr (O2, drop k old)"
    using split_lines [OF assms(2,7)] by blast
  have ok: "\<forall>x \<in> set (items ps). item_ok x" "\<forall>l \<in> set ls. is_line l" using assms(3,9) s(1) by auto
  obtain g' where g: "getdiff g = Inr (int (length ls), g')" "g_type g' = CHR ''I''" "g_linenum g' = int (i + k)"
      "diffin g' = marked (CHR ''>'') ls @ r"
    using getdiff_append [OF assms(12,8,10,11)] by blast
  obtain pkt' where p: "delta_insert (int (i + k)) (int (length ls)) m (marked (CHR ''>'') ls @ r) pkt = Inr (r, pkt')"
      "behind A M pkt' O1 R (i + k)" "Xiop pkt' = Xiop pkt @ print_weave (items ps @ ins_block m ls)"
    using insert_spec [OF assms(1) [unfolded s(1)] ok(1) s(3) ok(2), of m r] s(2) by auto
  have n: "int (length ls) \<noteq> 0" using assms(8) by simp
  have "delta_insert (g_linenum g') (int (length ls)) m (diffin g') pkt = Inr (r, pkt')"
    unfolding g(3,4) by (rule p(1))
  note loop = loop_insert [OF g(1) n g(2) this, of ins del]
  have "edited A M m O' (items ps @ []) (take k old @ []) O1 (items ps @ ins_block m ls) (take k old @ ls)"
    by (rule edited_append [OF edited_plain [OF s(4) assms(5) ok(1)]
          edited_ins_block [where O' = O1 and A = A, OF assms(5,9) opens_ok_run [OF s(4) assms(4)] assms(6)]])
  then have "hunk_done A M m pkt O' w i old O2 (k, 0, ls) pkt'"
    unfolding hunk_done_def prod.case using s(1,5) p(2,3)
    by (intro exI [of _ "items ps"] exI [of _ R] exI [of _ "items ps @ ins_block m ls"] exI [of _ O1]) simp
  with loop show ?thesis by (intro exI [of _ pkt'] exI [of _ "g'\<lparr>diffin := r\<rparr>"]) simp
qed

text \<open>The deletion of a hunk, and what follows it.\<close>

lemma hunk_cut:
  assumes "behind A M pkt O' w i" "wrun A M O' w = Inr (O2, old)" "\<forall>x \<in> set w. item_ok x"
    and "opens_ok M O'" "M < m" "A m" "k + d \<le> length old" "d \<noteq> 0"
  shows "\<exists>pkt'. delta_delete (int (i + k + 1)) (int d) m pkt = Inr pkt' \<and>
    hunk_done A M m pkt O' w i old O2 (k, d, []) pkt'"
proof -
  obtain ps R1 O1 where s: "w = items ps @ R1" "length ps = k" "seq_ok A M O' ps O1"
      "wrun A M O' (items ps) = Inr (O1, take k old)" "wrun A M O1 R1 = Inr (O2, drop k old)"
    using split_lines [OF assms(2), of k] assms(7) by auto
  obtain l t where t: "drop k old = l # t" using assms(7,8) by (cases "drop k old") auto
  obtain pre R2 O3 where v: "R1 = pre @ Text l # R2" "wrun A M O1 pre = Inr (O3, [])" "visible A O3"
      "wrun A M O3 R2 = Inr (O2, t)"
    using split_visible [OF s(5) [unfolded t]] by blast
  have "length t = length old - k - 1" using arg_cong [OF t, of length] by simp
  then have "d - 1 \<le> length t" using assms(7,8) by simp
  then obtain qs R O4 where q: "R2 = items qs @ R" "length qs = d - 1" "seq_ok A M O3 qs O4"
      "wrun A M O3 (items qs) = Inr (O4, take (d - 1) t)" "wrun A M O4 R = Inr (O2, drop (d - 1) t)"
    using split_lines [OF v(4)] by blast
  have sq: "seq_ok A M O' (ps @ [(pre, l)]) O3"
    using s(3) v(2,3) by (induction ps arbitrary: O') auto
  have w: "w = items (ps @ (pre, l) # qs) @ R" using s(1) v(1) q(1) by simp
  have ok: "\<forall>x \<in> set (items (ps @ (pre, l) # qs)). item_ok x" using assms(3) w by auto
  have n: "int (i + length ps + 1) = int (i + k + 1)" "int (length qs) + 1 = int d"
    using s(2) q(2) assms(8) by simp_all
  obtain pkt' where p: "delta_delete (int (i + k + 1)) (int d) m pkt = Inr pkt'"
      "behind A M pkt' O4 R (i + length ps + 1 + length qs)"
      "Xiop pkt' = Xiop pkt @ print_weave (items ps @ pre @ del_block m (Text l # items qs))"
    using delete_spec [OF assms(1) [unfolded w] ok sq q(3), of m] unfolding n by blast
  have b: "behind A M pkt' O4 R (i + k + d)"
    using p(2) s(2) q(2) assms(8) by simp
  have o: "opens_ok M O3" using opens_ok_run [OF v(2)] opens_ok_run [OF s(4) assms(4)] by blast
  have plain: "wrun A M O' (items ps @ pre) = Inr (O3, take k old)"
    using s(4) v(2) by (simp add: wrun_append_Inr)
  have del: "wrun A M O3 (Text l # items qs) = Inr (O4, l # take (d - 1) t)"
    using q(4) v(3) by simp
  have tk: "take k old @ l # take (d - 1) t = take (k + d) old"
    using t assms(8) by (simp add: take_add take_Cons')
  have dr: "drop (k + d) old = drop (d - 1) t"
    using t assms(8) by (metis add.commute drop_drop drop_Cons')
  have "edited A M m O' ((items ps @ pre) @ Text l # items qs) (take k old @ l # take (d - 1) t) O4
      ((items ps @ pre) @ del_block m (Text l # items qs)) (take k old @ [])"
    using ok by (intro edited_append [OF edited_plain [OF plain assms(5)]
          edited_del_block [OF del assms(5) _ o assms(6)]]) auto
  then have "hunk_done A M m pkt O' w i old O2 (k, d, []) pkt'"
    unfolding hunk_done_def prod.case using w q(5) b p(3) tk dr
    by (intro exI [of _ "(items ps @ pre) @ Text l # items qs"] exI [of _ R]
        exI [of _ "(items ps @ pre) @ del_block m (Text l # items qs)"] exI [of _ O4]) simp
  with p(1) show ?thesis by blast
qed

lemma wrun_lines:
  "wrun A M O' w = Inr (O2, t) \<Longrightarrow> \<forall>x \<in> set w. item_ok x \<Longrightarrow> \<forall>l \<in> set t. is_line l"
proof (induction w arbitrary: O' t)
  case (Cons x w)
  obtain O1 t1 t2 where s: "wstep A M O' x = Inr (O1, t1)" "wrun A M O1 w = Inr (O2, t2)" "t = t1 @ t2"
    using Cons.prems(1) unfolding wrun_Cons_Inr by blast
  have "\<forall>l \<in> set t1. is_line l"
    using s(1) Cons.prems(2) by (cases x) (auto simp: item_ok_def wopen_def wclose_def split: if_splits)
  with Cons.IH [OF s(2)] Cons.prems(2) s(3) show ?case by auto
qed simp

lemma hunk_done_insert:
  assumes "hunk_done A M m pkt O' w i old O2 (k, d, []) p" "opens_ok M O'" "M < m" "A m"
    and "\<forall>l \<in> set ls. is_line l \<and> deref l \<noteq> CTLCHAR" "n \<le> int (i + k + d)"
  shows "\<exists>pkt'. delta_insert n (int (length ls)) m (marked (CHR ''>'') ls @ r) p = Inr (r, pkt') \<and>
    hunk_done A M m pkt O' w i old O2 (k, d, ls) pkt'"
proof -
  obtain X R W O1 where h: "w = X @ R" "wrun A M O1 R = Inr (O2, drop (k + d) old)"
      "behind A M p O1 R (i + k + d)" "Xiop p = Xiop pkt @ print_weave W"
      "edited A M m O' X (take (k + d) old) O1 W (take k old)"
    using assms(1) by (auto simp: hunk_done_def)
  have ls: "\<forall>l \<in> set ls. is_line l" using assms(5) by simp
  obtain pkt' where p: "delta_insert n (int (length ls)) m (marked (CHR ''>'') ls @ r) p = Inr (r, pkt')"
      "behind A M pkt' O1 R (i + k + d)" "Xiop pkt' = Xiop p @ print_weave (ins_block m ls)"
    using insert_here_spec [OF h(3) assms(6) ls] by blast
  have "opens_ok M O1" using h(5) opens_ok_run assms(2) by (auto simp: edited_def)
  note e = edited_append [OF h(5) edited_ins_block [where O' = O1 and A = A, OF assms(3,5) this assms(4)]]
  have "hunk_done A M m pkt O' w i old O2 (k, d, ls) pkt'"
    unfolding hunk_done_def prod.case using h(1,2,4) p(2,3) e
    by (intro exI [of _ X] exI [of _ R] exI [of _ "W @ ins_block m ls"] exI [of _ O1]) simp
  with p(1) show ?thesis by blast
qed

lemma hunk_step:
  assumes "behind A M pkt O' w i" "wrun A M O' w = Inr (O2, old)" "\<forall>x \<in> set w. item_ok x"
    and "opens_ok M O'" "M < m" "A m" "k + d \<le> length old" "d \<noteq> 0 \<or> ls \<noteq> []"
    and "\<forall>l \<in> set ls. is_line l \<and> deref l \<noteq> CTLCHAR" "i + length old < 10 ^ 10" "j + length ls < 10 ^ 10"
    and "diffin g = print_hunk (i + k) j (take d (drop k old)) ls @ r"
  shows "\<exists>pkt' g'. diff_loop m g pkt ins del = diff_loop m g' pkt' (ins + int (length ls)) (del + int d) \<and>
    diffin g' = r \<and> hunk_done A M m pkt O' w i old O2 (k, d, ls) pkt'"
proof (cases "d = 0")
  case True
  then show ?thesis
    using hunk_append [OF assms(1-6) _ _ assms(9) _ assms(11), of k g r ins del] assms(7,8,10,12) by auto
next
  case False
  let ?dl = "take d (drop k old)"
  have dl: "length ?dl = d" "?dl \<noteq> []" "\<forall>l \<in> set ?dl. is_line l"
    using False assms(7) wrun_lines [OF assms(2,3)] by (auto dest: in_set_takeD in_set_dropD)
  have b: "i + k + length ?dl < 10 ^ 10" "j < 10 ^ 10" using assms(7,10,11) dl(1) by simp_all
  have n: "int (length ?dl) = int d" "int d \<noteq> 0" using dl(1) False by simp_all
  obtain p where p: "delta_delete (int (i + k + 1)) (int d) m pkt = Inr p"
      "hunk_done A M m pkt O' w i old O2 (k, d, []) p"
    using hunk_cut [OF assms(1-7) False] by blast
  show ?thesis
  proof (cases "ls = []")
    case True
    obtain g' where g: "getdiff g = Inr (int d, g')" "g_type g' = CHR ''D''" "g_linenum g' = int (i + k + 1)"
        "diffin g' = r"
      using getdiff_delete [OF assms(12) [unfolded True] dl(2) b dl(3)] n(1) by auto
    have "delta_delete (g_linenum g') (int d) m pkt = Inr p" unfolding g(3) by (rule p(1))
    from loop_delete [OF g(1) n(2) g(2) this] g(4) p(2) True show ?thesis by auto
  next
    case ls: False
    obtain g' where g: "getdiff g = Inr (int d, g')" "g_type g' = CHR ''D''" "g_linenum g' = int (i + k + 1)"
        "diffin g' = ''---'' @ NL # marked (CHR ''>'') ls @ r" "chg_ln g' = int (i + k + 1)"
        "chg_num g' = int (length ls)"
      using getdiff_change [OF assms(12) dl(2) ls b(1) assms(11) dl(3)] n(1) by auto
    have "delta_delete (g_linenum g') (int d) m pkt = Inr p" unfolding g(3) by (rule p(1))
    note l1 = loop_delete [OF g(1) n(2) g(2) this, of ins del]
    obtain h where h: "getdiff g' = Inr (int (length ls), h)" "g_type h = CHR ''I''"
        "g_linenum h = int (i + k + 1)" "diffin h = marked (CHR ''>'') ls @ r"
      using getdiff_separator [OF g(4)] g(5,6) by auto
    have "int (i + k + 1) \<le> int (i + k + d)" using False by simp
    from hunk_done_insert [OF p(2) assms(4-6,9) this]
    obtain pkt' where q: "delta_insert (int (i + k + 1)) (int (length ls)) m (marked (CHR ''>'') ls @ r) p = Inr (r, pkt')"
        "hunk_done A M m pkt O' w i old O2 (k, d, ls) pkt'"
      by blast
    have "delta_insert (g_linenum h) (int (length ls)) m (diffin h) p = Inr (r, pkt')"
      unfolding h(3,4) by (rule q(1))
    moreover have "int (length ls) \<noteq> 0" using ls by simp
    ultimately have "diff_loop m g' p ins (del + int d) =
        diff_loop m (h\<lparr>diffin := r\<rparr>) pkt' (ins + int (length ls)) (del + int d)"
      using loop_insert [OF h(1) _ h(2)] by blast
    with l1 q(2) show ?thesis by (intro exI [of _ pkt'] exI [of _ "h\<lparr>diffin := r\<rparr>"]) simp
  qed
qed

definition inserted_by :: "hunk list \<Rightarrow> int" where
  "inserted_by hs = sum_list (map (\<lambda>(k, d, ls). int (length ls)) hs)"

definition deleted_by :: "hunk list \<Rightarrow> int" where
  "deleted_by hs = sum_list (map (\<lambda>(k, d, ls). int d) hs)"

lemma diff_loop_spec:
  assumes "behind A M pkt O' w i" "wrun A M O' w = Inr (O2, old)" "\<forall>x \<in> set w. item_ok x"
    and "opens_ok M O'" "M < m" "A m" "hunks_ok hs old"
    and "i + length old < 10 ^ 10" "j + length (apply_hunks hs old) < 10 ^ 10"
    and "diffin g = print_diff i j hs old"
  shows "\<exists>pkt' X R W O1 told tnew t n.
    diff_loop m g pkt ins del = Inr (pkt', ins + inserted_by hs, del + deleted_by hs) \<and>
    w = X @ R \<and> behind A M pkt' O1 R n \<and> Xiop pkt' = Xiop pkt @ print_weave W \<and>
    edited A M m O' X told O1 W tnew \<and> wrun A M O1 R = Inr (O2, t) \<and>
    old = told @ t \<and> apply_hunks hs old = tnew @ t"
  using assms
proof (induction hs arbitrary: pkt O' w i j old g ins del)
  case Nil
  have "getdiff g = Inr (0, g\<lparr>diffin := []\<rparr>)" using Nil(10) by (simp add: getdiff_def rddiff_def)
  then have "diff_loop m g pkt ins del = Inr (pkt, ins, del)" by (simp add: diff_loop.simps [of m g])
  moreover have "edited A M m O' [] [] O' [] []" by (simp add: edited_def)
  ultimately show ?case
    using Nil(1,2)
    by (intro exI [of _ pkt] exI [of _ "[]"] exI [of _ w] exI [of _ O'] exI [of _ old] exI [of _ i])
      (simp add: inserted_by_def deleted_by_def)
next
  case (Cons h hs)
  obtain k d ls where h: "h = (k, d, ls)" by (cases h)
  have ok: "k + d \<le> length old" "d \<noteq> 0 \<or> ls \<noteq> []" "\<forall>l \<in> set ls. is_line l \<and> deref l \<noteq> CTLCHAR"
      "hunks_ok hs (drop (k + d) old)"
    using Cons.prems(7) unfolding h by auto
  let ?r = "print_diff (i + k + d) (j + k + length ls) hs (drop (k + d) old)"
  have j: "j + k + length ls + length (apply_hunks hs (drop (k + d) old)) < 10 ^ 10"
    using Cons.prems(9) ok(1) unfolding h by simp
  then have j': "j + k + length ls < 10 ^ 10" by simp
  have g: "diffin g = print_hunk (i + k) (j + k) (take d (drop k old)) ls @ ?r"
    using Cons.prems(10) unfolding h by simp
  obtain p g' where s: "diff_loop m g pkt ins del = diff_loop m g' p (ins + int (length ls)) (del + int d)"
      "diffin g' = ?r" "hunk_done A M m pkt O' w i old O2 (k, d, ls) p"
    using hunk_step [OF Cons.prems(1-6) ok(1-3) Cons.prems(8) _ g, of ins del] j' by auto
  obtain X R W O1 where d: "w = X @ R" "wrun A M O1 R = Inr (O2, drop (k + d) old)"
      "behind A M p O1 R (i + k + d)" "Xiop p = Xiop pkt @ print_weave W"
      "edited A M m O' X (take (k + d) old) O1 W (take k old @ ls)"
    using s(3) by (auto simp: hunk_done_def)
  have o: "opens_ok M O1" using d(5) opens_ok_run Cons.prems(4) by (auto simp: edited_def)
  have R: "\<forall>x \<in> set R. item_ok x" and i: "i + k + d + length (drop (k + d) old) < 10 ^ 10"
    using Cons.prems(3,8) d(1) ok(1) by auto
  obtain pkt' X2 R2 W2 O3 told tnew t n where e:
      "diff_loop m g' p (ins + int (length ls)) (del + int d) =
        Inr (pkt', ins + int (length ls) + inserted_by hs, del + int d + deleted_by hs)"
      "R = X2 @ R2" "behind A M pkt' O3 R2 n" "Xiop pkt' = Xiop p @ print_weave W2"
      "edited A M m O1 X2 told O3 W2 tnew" "wrun A M O3 R2 = Inr (O2, t)"
      "drop (k + d) old = told @ t" "apply_hunks hs (drop (k + d) old) = tnew @ t"
    using Cons.IH [OF d(3,2) R o Cons.prems(5,6) ok(4) i j s(2)] by blast
  have "old = (take (k + d) old @ told) @ t" using e(7) by (metis append.assoc append_take_drop_id)
  with e s(1) d edited_append [OF d(5) e(5)] show ?case
    unfolding h
    by (intro exI [of _ pkt'] exI [of _ "X @ X2"] exI [of _ R2] exI [of _ "W @ W2"] exI [of _ O3]
        exI [of _ "take (k + d) old @ told"] exI [of _ "(take k old @ ls) @ tnew"] exI [of _ t] exI [of _ n])
      (simp add: inserted_by_def deleted_by_def)
qed

section \<open>The rest of the weave\<close>

lemma getline_control:
  assumes "getline pkt = Inr (Some l, p)" "deref l = CTLCHAR" "control p (tl l) = Inr p'"
  shows "readmod pkt = readmod p'"
  using assms by (simp add: readmod.simps [of pkt])

lemma readmod_end:
  assumes "winv A M pkt O'" "reading pkt R" "\<forall>x \<in> set R. item_ok x" "wrun A M O' R = Inr ([], [])" "writing pkt"
  shows "\<exists>pkt'. readmod pkt = Inr (False, pkt') \<and> Xiop pkt' = written pkt @ print_weave R"
  using assms
proof (induction R arbitrary: pkt O')
  case Nil
  obtain p where p: "getline pkt = Inr (None, p)" "p_q p = p_q pkt" "Xiop p = Xiop (flushed pkt)"
    using getline_end [OF Nil(2)] .
  moreover have "p_q pkt = []" using Nil(1,4) by (auto simp: winv_def dest: qrel_empty)
  ultimately show ?case using written_flushed [OF Nil(5)] by (simp add: readmod.simps [of pkt])
next
  case (Cons x R)
  let ?p = "adv pkt (print_item x) (print_weave R)"
  have ok: "item_ok x" "\<forall>x \<in> set R. item_ok x" using Cons.prems(3) by auto
  note g = getline_item [OF Cons.prems(2) ok(1)] and rd = reading_adv [OF Cons.prems(2)]
    and iv = winv_adv [OF Cons.prems(1)]
  obtain O2 where s: "wstep A M O' x = Inr (O2, [])" "wrun A M O2 R = Inr ([], [])"
    using Cons.prems(4) unfolding wrun_Cons_Inr by auto
  note wr = written_adv [OF Cons.prems(5)] writing_adv [OF Cons.prems(5)]
  show ?case
  proof (cases "\<exists>l. x = Text l")
    case True
    then have nv: "\<not> visible A O'" "O2 = O'" using s(1) by (auto split: if_splits)
    then have "p_keep ?p \<noteq> YES" using iv by (simp add: winv_def)
    moreover have "deref (print_item x) \<noteq> CTLCHAR" using print_item_ctl ok(1) True by blast
    ultimately have "readmod pkt = readmod ?p" using g by (simp add: readmod.simps [of pkt])
    then show ?thesis
      using Cons.IH [OF iv rd ok(2) s(2) [unfolded nv(2)] wr(2)] wr(1) by simp
  next
    case False
    then have c: "deref (print_item x) = CTLCHAR" using print_item_ctl ok(1) by blast
    have "crel A M (wstep A M O' x) (control ?p (tl (print_item x)))"
      using control_refines iv False by simp
    then obtain p' where p: "control ?p (tl (print_item x)) = Inr p'" "winv A M p' O2"
      using s(1) by (auto simp: crel_def)
    then show ?thesis
      using Cons.IH [OF p(2) _ ok(2) s(2)] reading_control [OF p(1)] control_written [OF p(1)] rd wr
        getline_control [OF g c p(1)] by simp
  qed
qed

lemma drain_spec:
  assumes "winv A M pkt O'" "reading pkt R" "\<forall>x \<in> set R. item_ok x" "wrun A M O' R = Inr ([], t)" "writing pkt"
  shows "\<exists>pkt'. drain pkt = Inr pkt' \<and> Xiop pkt' = written pkt @ print_weave R"
  using assms
proof (induction t arbitrary: pkt O' R)
  case Nil
  then show ?case using readmod_end [OF Nil] by (auto simp: drain.simps [of pkt])
next
  case (Cons l t)
  obtain pre R' O1 where s: "R = pre @ Text l # R'" "wrun A M O' pre = Inr (O1, [])" "visible A O1"
      "wrun A M O1 R' = Inr ([], t)"
    using split_visible [OF Cons.prems(4)] by blast
  have ok: "\<forall>x \<in> set (pre @ [Text l]). item_ok x" "\<forall>x \<in> set R'. item_ok x" using Cons.prems(3) s(1) by auto
  obtain p where p: "readmod pkt = Inr (True, p)" "winv A M p O1" "reading p R'" "writing p" "p_line p = l"
      "\<not> p_wrttn p" "Xiop p = written pkt @ print_weave pre"
    using readmod_next [OF Cons.prems(1) Cons.prems(2) [unfolded s(1)] ok(1) s(2,3) Cons.prems(5)] by blast
  obtain p' where "drain p = Inr p'" "Xiop p' = written p @ print_weave R'"
    using Cons.IH [OF p(2,3) ok(2) s(4) p(4)] by blast
  then show ?case
    using p s(1) by (simp add: drain.simps [of pkt] written_def print_item_def)
qed

text \<open>The packet at the start of the body.\<close>

definition at_body :: "(nat \<Rightarrow> bool) \<Rightarrow> nat \<Rightarrow> item list \<Rightarrow> wpacket \<Rightarrow> bool" where
  "at_body A M w pkt \<longleftrightarrow> maxser pkt = M \<and>
     (\<forall>n. 0 < n \<and> n \<le> M \<longrightarrow> (a_code (p_apply pkt ! n) = APPLY \<longleftrightarrow> A n)) \<and>
     p_q pkt = [] \<and> p_keep pkt \<noteq> YES \<and> reading pkt w"

lemma at_body_winv: "at_body A M w pkt \<Longrightarrow> winv A M pkt []"
  by (simp add: at_body_def winv_def qrel_Nil visible_def)

lemma edit_body_spec:
  assumes "at_body A M w pkt" "p_upd pkt" "Xcreate pkt" "p_wrttn pkt" "last (p_line pkt) = NL" "p_glnno pkt = 0"
    and "\<forall>x \<in> set w. item_ok x" "version A M w = Inr old" "M < m" "A m" "hunks_ok hs old"
    and "length old < 10 ^ 10" "length (apply_hunks hs old) < 10 ^ 10"
  shows "\<exists>pkt' W. edit_body m (print_diff 0 0 hs old) pkt = Inr (pkt', inserted_by hs, deleted_by hs) \<and>
    Xiop pkt' = Xiop pkt @ print_weave W \<and> version A m W = Inr (apply_hunks hs old) \<and>
    (\<forall>x \<in> set W. item_ok x) \<and>
    (\<forall>C t. \<not> C m \<longrightarrow> version C M w = Inr t \<longrightarrow> version C m W = Inr t)"
proof -
  let ?g = "\<lparr>diffin = print_diff 0 0 hs old, chg_num = 0, chg_ln = 0, g_type = NUL, g_linenum = 0\<rparr>"
  have b: "behind A M pkt [] w 0"
    using assms(1-6) at_body_winv [OF assms(1)] by (simp add: behind_def writing_def at_body_def)
  have v: "wrun A M [] w = Inr ([], old)"
    using assms(8) by (auto simp: version_def split: sum.splits prod.splits if_splits)
  obtain p X R W O1 told tnew t n where l:
      "diff_loop m ?g pkt 0 0 = Inr (p, inserted_by hs, deleted_by hs)"
      "w = X @ R" "behind A M p O1 R n" "Xiop p = Xiop pkt @ print_weave W"
      "edited A M m [] X told O1 W tnew" "wrun A M O1 R = Inr ([], t)"
      "old = told @ t" "apply_hunks hs old = tnew @ t"
    using diff_loop_spec [OF b v assms(7) opens_ok_Nil assms(9-11), of 0 ?g 0 0] assms(12,13) by auto
  have R: "\<forall>x \<in> set R. item_ok x" using assms(7) l(2) by simp
  obtain p' where d: "drain p = Inr p'" "Xiop p' = Xiop p @ print_weave R"
    using drain_spec [OF behind_start(1,2) [OF l(3)] R l(6) behind_start(3) [OF l(3)]] behind_start(6) [OF l(3)]
    by auto
  have "p_iop p \<noteq> None" using behind_start(2) [OF l(3)] by (simp add: reading_def)
  then have e: "edit_body m (print_diff 0 0 hs old) pkt = Inr (p', inserted_by hs, deleted_by hs)"
    using l(1) d(1) by (simp add: edit_body_def)
  have ed: "edited A M m [] w old [] (W @ R) (apply_hunks hs old)"
    using edited_append [OF l(5) edited_plain [OF l(6) assms(9) R]] l(2,7,8) by simp
  have "version C m (W @ R) = Inr t" if "\<not> C m" "version C M w = Inr t" for C t
    using ed that unfolding edited_def version_def
    by (auto split: sum.splits prod.splits if_splits)
  moreover have "version A m (W @ R) = Inr (apply_hunks hs old)" "\<forall>x \<in> set (W @ R). item_ok x"
    using ed by (auto simp: edited_def version_def)
  ultimately show ?thesis
    using e d(2) l(4) by (intro exI [of _ p'] exI [of _ "W @ R"]) simp
qed

text \<open>
  C3: A delta adds the new version and keeps every old one. Given the weave of a file, the text
  \<open>old\<close> of the gotten version and the output of \<open>diff\<close> from it to the new text, the editing pass
  of \<open>delta\<close> ends, counts the inserted and deleted lines, and writes a weave from which the
  deltas applied for the gotten version, with the new one, extract the new text, while every
  set of deltas without the new one extracts what it extracted before.
\<close>

theorem delta_weaves:
  assumes "at_body A M w pkt" "p_upd pkt" "Xcreate pkt" "p_wrttn pkt" "last (p_line pkt) = NL" "p_glnno pkt = 0"
    and "\<forall>x \<in> set w. item_ok x" "version A M w = Inr old" "M < m" "A m" "hunks_ok hs old"
    and "length old < 10 ^ 10" "length (apply_hunks hs old) < 10 ^ 10"
  shows "\<exists>pkt' W. edit_body m (print_diff 0 0 hs old) pkt = Inr (pkt', inserted_by hs, deleted_by hs) \<and>
    Xiop pkt' = Xiop pkt @ print_weave W \<and> version A m W = Inr (apply_hunks hs old) \<and>
    (\<forall>x \<in> set W. item_ok x) \<and>
    (\<forall>C t. \<not> C m \<longrightarrow> version C M w = Inr t \<longrightarrow> version C m W = Inr t)"
  by (rule edit_body_spec [OF assms])

definition weave_2 :: "item list" where
  "weave_2 = [Ins 1, Text (''one'' @ [NL]), Text (''two'' @ [NL]), End 1]"

definition pkt_2 :: wpacket where
  "pkt_2 = pkt_1\<lparr>p_idel := replicate 4 (idel0\<lparr>i_pred := 1\<rparr>), p_iop := Some (print_weave weave_2), p_line := [NL],
     p_upd := True, Xcreate := True\<rparr>"

lemma weave_2_facts:
  "at_body (\<lambda>n. True) 1 weave_2 pkt_2" "\<forall>x \<in> set weave_2. item_ok x"
  "version (\<lambda>n. True) 1 weave_2 = Inr [''one'' @ [NL], ''two'' @ [NL]]"
  "hunks_ok [(1, 1, [''TWO'' @ [NL]])] [''one'' @ [NL], ''two'' @ [NL]]"
proof -
  have "n = 1" if "0 < n \<and> n \<le> 1" for n :: nat using that by simp
  then show "at_body (\<lambda>n. True) 1 weave_2 pkt_2"
    by (auto simp: at_body_def pkt_2_def pkt_1_def maxser_def reading_def)
  show "version (\<lambda>n. True) 1 weave_2 = Inr [''one'' @ [NL], ''two'' @ [NL]]" by code_simp
qed (simp_all add: weave_2_def item_ok_def is_line_def)

lemma pkt_2_facts:
  "p_upd pkt_2" "Xcreate pkt_2" "p_wrttn pkt_2" "last (p_line pkt_2) = NL" "p_glnno pkt_2 = 0" "Xiop pkt_2 = []"
  "length [''one'' @ [NL], ''two'' @ [NL]] < 10 ^ 10"
  "length (apply_hunks [(1, 1, [''TWO'' @ [NL]])] [''one'' @ [NL], ''two'' @ [NL]]) < 10 ^ 10"
  "inserted_by [(1, 1, [''TWO'' @ [NL]])] = 1" "deleted_by [(1, 1, [''TWO'' @ [NL]])] = 1"
  by (simp_all add: pkt_2_def pkt_1_def inserted_by_def deleted_by_def)

lemma delta_weaves_witness:
  "\<exists>pkt' W. edit_body 2 (print_diff 0 0 [(1, 1, [''TWO'' @ [NL]])] [''one'' @ [NL], ''two'' @ [NL]]) pkt_2 =
      Inr (pkt', 1, 1) \<and> Xiop pkt' = print_weave W \<and>
    version (\<lambda>n. True) 2 W = Inr [''one'' @ [NL], ''TWO'' @ [NL]] \<and>
    version (\<lambda>n. n \<noteq> 2) 2 W = Inr [''one'' @ [NL], ''two'' @ [NL]]"
proof -
  let ?old = "[''one'' @ [NL], ''two'' @ [NL]]" and ?hs = "[(1, 1, [''TWO'' @ [NL]])] :: hunk list"
  from delta_weaves [OF weave_2_facts(1) pkt_2_facts(1-5) weave_2_facts(2,3) _ _ weave_2_facts(4) pkt_2_facts(7,8), of 2]
  obtain pkt' W where "edit_body 2 (print_diff 0 0 ?hs ?old) pkt_2 = Inr (pkt', inserted_by ?hs, deleted_by ?hs)"
      "Xiop pkt' = Xiop pkt_2 @ print_weave W" "version (\<lambda>n. True) 2 W = Inr (apply_hunks ?hs ?old)"
      "\<forall>C t. \<not> C 2 \<longrightarrow> version C 1 weave_2 = Inr t \<longrightarrow> version C 2 W = Inr t"
    by auto
  moreover have "version (\<lambda>n. n \<noteq> 2) 1 weave_2 = Inr ?old" by code_simp
  ultimately show ?thesis
    unfolding pkt_2_facts by (intro exI [of _ pkt'] exI [of _ W]) simp
qed

text \<open>
  C1: What delta checks in, get checks out. A get that opens the file which the editing pass has
  written, with the deltas of the gotten version and the new one applied, prints exactly the
  new text; one with any other deltas but the new one prints what it printed from the old file.
\<close>

theorem get_after_delta:
  assumes "at_body A M w pkt" "p_upd pkt" "Xcreate pkt" "p_wrttn pkt" "last (p_line pkt) = NL" "p_glnno pkt = 0"
    and "\<forall>x \<in> set w. item_ok x" "version A M w = Inr old" "M < m" "A m" "hunks_ok hs old"
    and "length old < 10 ^ 10" "length (apply_hunks hs old) < 10 ^ 10"
  shows "\<exists>pkt' W. edit_body m (print_diff 0 0 hs old) pkt = Inr (pkt', inserted_by hs, deleted_by hs) \<and>
    Xiop pkt' = Xiop pkt @ print_weave W \<and>
    (\<forall>q. at_body A m W q \<longrightarrow> get_lines q = Inr (apply_hunks hs old)) \<and>
    (\<forall>C q q0 t. \<not> C m \<longrightarrow> at_body C M w q0 \<longrightarrow> get_lines q0 = Inr t \<longrightarrow> at_body C m W q \<longrightarrow> get_lines q = Inr t)"
proof -
  obtain pkt' W where W: "edit_body m (print_diff 0 0 hs old) pkt = Inr (pkt', inserted_by hs, deleted_by hs)"
      "Xiop pkt' = Xiop pkt @ print_weave W" "version A m W = Inr (apply_hunks hs old)"
      "\<forall>x \<in> set W. item_ok x" "\<forall>C t. \<not> C m \<longrightarrow> version C M w = Inr t \<longrightarrow> version C m W = Inr t"
    using edit_body_spec [OF assms] by blast
  have get: "get_lines q = version C N v" if "at_body C N v q" "\<forall>x \<in> set v. item_ok x" for C N v q
    using get_lines_wrun [OF at_body_winv [OF that(1)] _ that(2)] that(1)
    by (simp add: at_body_def version_def)
  show ?thesis
    using W get [OF _ W(4)] get [OF _ assms(7)] by (intro exI [of _ pkt'] exI [of _ W]) auto
qed

lemma get_after_delta_witness:
  "\<exists>pkt' W. edit_body 2 (print_diff 0 0 [(1, 1, [''TWO'' @ [NL]])] [''one'' @ [NL], ''two'' @ [NL]]) pkt_2 =
      Inr (pkt', 1, 1) \<and> Xiop pkt' = print_weave W \<and>
    (\<forall>q. at_body (\<lambda>n. True) 2 W q \<longrightarrow> get_lines q = Inr [''one'' @ [NL], ''TWO'' @ [NL]])"
proof -
  let ?old = "[''one'' @ [NL], ''two'' @ [NL]]" and ?hs = "[(1, 1, [''TWO'' @ [NL]])] :: hunk list"
  from get_after_delta [OF weave_2_facts(1) pkt_2_facts(1-5) weave_2_facts(2,3) _ _ weave_2_facts(4) pkt_2_facts(7,8), of 2]
  obtain pkt' W where "edit_body 2 (print_diff 0 0 ?hs ?old) pkt_2 = Inr (pkt', inserted_by ?hs, deleted_by ?hs)"
      "Xiop pkt' = Xiop pkt_2 @ print_weave W"
      "\<forall>q. at_body (\<lambda>n. True) 2 W q \<longrightarrow> get_lines q = Inr (apply_hunks ?hs ?old)"
    by auto
  then show ?thesis unfolding pkt_2_facts by (intro exI [of _ pkt'] exI [of _ W]) simp
qed

section \<open>The check of the new text\<close>

text \<open>\<open>fgetchk\<close>: every chunk read must not start with the control character and hold no NUL, and the
  file must end in a newline; \<open>nline\<close> is for the message.\<close>

definition illegal :: "cstr \<Rightarrow> nat \<Rightarrow> serr" where
  "illegal fname nline = Fatal (''file '' @ [CHR 0x27] @ fname @ [CHR 0x27] @
     '' contains illegal data on line '' @ print_dec nline @ '' (de14)'')"

function fgetchk_loop :: "cstr \<Rightarrow> nat \<Rightarrow> char \<Rightarrow> cstr \<Rightarrow> serr + unit" where
  "fgetchk_loop fname nline lastchar s =
     (if s = [] then
        (if lastchar \<noteq> NL then Inl (Fatal (''No newline at end of file '' @ [CHR 0x27] @ fname @ [CHR 0x27] @ '' (de18)''))
         else Inr ())
      else
        let (line, r) = fgets (BUFSIZ - 1) s; nline' = (if last line = NL then nline + 1 else nline) in
        if deref line = CTLCHAR then Inl (illegal fname (nline + 1))
        else if NUL \<in> set line then Inl (illegal fname nline')
        else fgetchk_loop fname nline' (last line) r)"
  by pat_completeness auto
termination
  by (relation "measure (\<lambda>(_, _, _, s). length s)")
    (auto dest: fgets_shorter [OF sym BUFSIZ_pos(1)] simp del: One_nat_def)

declare fgetchk_loop.simps [simp del]

definition fgetchk :: "cstr \<Rightarrow> cstr \<Rightarrow> serr + unit" where
  "fgetchk fname content = fgetchk_loop fname 0 NL content"

lemma fgets_append: "fgets k s = (buf, r) \<Longrightarrow> s = buf @ r"
proof -
  have "fst (fgets k s) @ snd (fgets k s) = s"
    by (induction k s rule: fgets.induct) (auto simp: split_beta)
  then show "fgets k s = (buf, r) \<Longrightarrow> s = buf @ r" by auto
qed

lemma fgets_inner_NL: "fgets k s = (buf, r) \<Longrightarrow> NL \<notin> set (butlast buf)"
proof -
  have "NL \<notin> set (butlast (fst (fgets k s)))"
    by (induction k s rule: fgets.induct) (auto simp: split_beta)
  then show "fgets k s = (buf, r) \<Longrightarrow> NL \<notin> set (butlast buf)" by auto
qed

text \<open>Lines that are accepted: the state is the part of the current line already passed.\<close>

lemma fgetchk_loop_lines:
  assumes "fgetchk_loop fname n c s = Inr ()" "c = NL \<longleftrightarrow> pre = []" "NL \<notin> set pre"
    and "NUL \<notin> set pre" "deref pre \<noteq> CTLCHAR"
  shows "\<exists>ls. pre @ s = concat ls \<and> (\<forall>l \<in> set ls. is_line l \<and> deref l \<noteq> CTLCHAR \<and> NUL \<notin> set l)"
  using assms
proof (induction fname n c s arbitrary: pre rule: fgetchk_loop.induct)
  case (1 fname n c s)
  show ?case
  proof (cases "s = []")
    case True
    with 1(2) have "c = NL" by (simp add: fgetchk_loop.simps [of fname n c "[]"] split: if_splits)
    with 1(3) have "pre = []" by simp
    with True show ?thesis by (intro exI [of _ "[]"]) simp
  next
    case False
    obtain line r where f: "fgets (BUFSIZ - 1) s = (line, r)" by (cases "fgets (BUFSIZ - 1) s")
    have ne: "line \<noteq> []" using fgets_empty [of "BUFSIZ - 1" s r] f False BUFSIZ_pos(1) by auto
    note s = fgets_append [OF f] and inner = fgets_inner_NL [OF f]
    have c: "deref line \<noteq> CTLCHAR" "NUL \<notin> set line"
        "fgetchk_loop fname (if last line = NL then n + 1 else n) (last line) r = Inr ()"
      using 1(2) False f by (auto simp: fgetchk_loop.simps [of fname n c s] Let_def split: if_splits)
    have d: "deref (pre @ line) \<noteq> CTLCHAR" using 1(6) c(1) by (cases pre) auto
    note IH = 1(1) [OF False f [symmetric] refl refl c(1,2) c(3)]
    show ?thesis
    proof (cases "last line = NL")
      case True
      obtain ls where ls: "r = concat ls" "\<forall>l \<in> set ls. is_line l \<and> deref l \<noteq> CTLCHAR \<and> NUL \<notin> set l"
        using IH [of "[]"] True by auto
      have "is_line (pre @ line)"
        using 1(4) inner True ne by (simp add: is_line_def butlast_append)
      then show ?thesis
        using ls s d 1(5) c(2) by (intro exI [of _ "(pre @ line) # ls"]) simp
    next
      case no: False
      have "NL \<notin> set line" using inner no ne by (metis Un_iff append_butlast_last_id empty_iff
          empty_set in_set_conv_nth list.set_intros set_ConsD set_append)
      then have "\<exists>ls. (pre @ line) @ r = concat ls \<and>
          (\<forall>l \<in> set ls. is_line l \<and> deref l \<noteq> CTLCHAR \<and> NUL \<notin> set l)"
        using no ne 1(4,5) c(2) d by (intro IH) auto
      then show ?thesis using s by simp
    qed
  qed
qed

text \<open>
  What \<open>fgetchk\<close> lets pass can be woven: a text it accepts is a sequence of complete lines, none
  of which starts with the control character or holds a NUL.
\<close>

theorem fgetchk_lines:
  assumes "fgetchk fname content = Inr ()"
  shows "\<exists>ls. content = concat ls \<and> (\<forall>l \<in> set ls. is_line l \<and> deref l \<noteq> CTLCHAR \<and> NUL \<notin> set l)"
  using fgetchk_loop_lines [of fname 0 NL content "[]"] assms by (simp add: fgetchk_def)

lemma fgetchk_lines_witness:
  "\<exists>ls. ''a'' @ [NL, NL] = concat ls \<and> (\<forall>l \<in> set ls. is_line l \<and> deref l \<noteq> CTLCHAR \<and> NUL \<notin> set l)"
proof (rule fgetchk_lines [of "''g''"])
  show "fgetchk ''g'' (''a'' @ [NL, NL]) = Inr ()"
  proof -
    have "rddiff (''a'' @ [NL, NL]) = (Some (''a'' @ [NL]), [NL])" "rddiff [NL] = (Some [NL], [])"
      using rddiff_short [of "''a''" "[NL]"] rddiff_short [of "[]" "[]"] by simp_all
    then have "fgets (BUFSIZ - 1) (''a'' @ [NL, NL]) = (''a'' @ [NL], [NL])" "fgets (BUFSIZ - 1) [NL] = ([NL], [])"
      by (simp_all add: rddiff_def split: prod.splits)
    then show ?thesis by (simp add: fgetchk_def fgetchk_loop.simps)
  qed
qed

end
