(* ===== verification/Codec.thy ===== *)
theory Codec
  imports SccsStream
begin

text \<open>
  The printable form of binary files: \<open>encode.c\<close> of SCCS, which stores a binary file as text
  lines in the weave, and \<open>uuencode.c\<close> and \<open>uudecode.c\<close> of the BNU commands. Both cut three
  bytes into four groups of six bits; the locale \<open>sixbit\<close> states what the character codes must
  do, and proves once that the groups give the bytes back. A \<open>char\<close> is signed and promoted to an
  \<open>int\<close>, \<open>>>\<close> is arithmetic, and \<open>putc\<close> keeps the low eight bits. The buffer of the encoders is
  part of their state, as the last group reads what an earlier line or nobody has left there.
\<close>

unbundle bit_operations_syntax

section \<open>Groups of six bits\<close>

definition putc :: "32 word \<Rightarrow> char" where
  "putc w = chr (unat (w AND 0xFF))"

text \<open>The four values of a group of three bytes.\<close>

definition six1 :: "char \<Rightarrow> 32 word" where
  "six1 a = signed_drop_bit 2 (signed_char a)"

definition six2 :: "char \<Rightarrow> char \<Rightarrow> 32 word" where
  "six2 a b = (push_bit 4 (signed_char a) AND 0x30) OR (signed_drop_bit 4 (signed_char b) AND 0xF)"

definition six3 :: "char \<Rightarrow> char \<Rightarrow> 32 word" where
  "six3 b c = (push_bit 2 (signed_char b) AND 0x3C) OR (signed_drop_bit 6 (signed_char c) AND 3)"

definition six4 :: "char \<Rightarrow> 32 word" where
  "six4 c = signed_char c AND 0x3F"

text \<open>The three bytes of four values.\<close>

definition byte1 :: "32 word \<Rightarrow> 32 word \<Rightarrow> char" where
  "byte1 u v = putc (push_bit 2 u OR signed_drop_bit 4 v)"

definition byte2 :: "32 word \<Rightarrow> 32 word \<Rightarrow> char" where
  "byte2 v w = putc (push_bit 4 v OR signed_drop_bit 2 w)"

definition byte3 :: "32 word \<Rightarrow> 32 word \<Rightarrow> char" where
  "byte3 w x = putc (push_bit 6 w OR x)"

lemma and_low: "(w :: 32 word) AND 0xFF = take_bit 8 w" "w AND 0x3F = take_bit 6 w"
  using take_bit_eq_mask [of 8 w] take_bit_eq_mask [of 6 w] by (simp_all add: mask_eq_exp_minus_1)

lemma putc_of_nat: "n < 256 \<Longrightarrow> putc (of_nat n) = chr n"
  by (simp add: putc_def and_low unsigned_take_bit_eq unsigned_of_nat take_bit_nat_eq_self)

lemma low6_of_nat: "n < 64 \<Longrightarrow> of_nat n AND 0x3F = (of_nat n :: 32 word)"
  by (simp only: and_low take_bit_word_eq_self unsigned_of_nat) (simp add: take_bit_of_nat take_bit_nat_eq_self)

lemma low6_cases: obtains n where "n < 64" "(v :: 32 word) AND 0x3F = of_nat n"
proof -
  have "unat (v AND 0x3F) = take_bit 6 (unat v)" by (simp only: and_low unsigned_take_bit_eq)
  then have "unat (v AND 0x3F) < 64" using take_bit_nat_less_exp [of 6 "unat v"] by simp
  with that [of "unat (v AND 0x3F)"] show thesis by (simp only: of_nat_unat ucast_id)
qed

lemma low6_bit: "bit (0x3F :: 32 word) n \<longleftrightarrow> n < 6"
  using bit_mask_iff [of 6 n, where 'a = "32 word"] by (auto simp: mask_eq_exp_minus_1)

lemma low8_bit: "bit (0xFF :: 32 word) n \<longleftrightarrow> n < 8"
  using bit_mask_iff [of 8 n, where 'a = "32 word"] by (auto simp: mask_eq_exp_minus_1)

lemma low4_bit: "bit (0xF :: 32 word) n \<longleftrightarrow> n < 4"
  using bit_mask_iff [of 4 n, where 'a = "32 word"] by (auto simp: mask_eq_exp_minus_1)

lemma low2_bit: "bit (3 :: 32 word) n \<longleftrightarrow> n < 2"
  using bit_mask_iff [of 2 n, where 'a = "32 word"] by (auto simp: mask_eq_exp_minus_1)

lemma mid_bits:
  "bit (0x30 :: 32 word) n \<longleftrightarrow> n = 4 \<or> n = 5"
  "bit (0x3C :: 32 word) n \<longleftrightarrow> n = 2 \<or> n = 3 \<or> n = 4 \<or> n = 5"
proof -
  have "(0x30 :: 32 word) = push_bit 4 3" "(0x3C :: 32 word) = push_bit 2 0xF" by simp_all
  then show "bit (0x30 :: 32 word) n \<longleftrightarrow> n = 4 \<or> n = 5"
      "bit (0x3C :: 32 word) n \<longleftrightarrow> n = 2 \<or> n = 3 \<or> n = 4 \<or> n = 5"
    by (auto simp only: bit_push_bit_iff low2_bit low4_bit) auto
qed

lemma bit_signed_char: "n < 8 \<Longrightarrow> bit (signed_char c) n \<longleftrightarrow> bit (ord c) n"
  by (simp add: signed_char_def bit_simps)

lemma putc_eqI:
  assumes "\<And>n. n < 8 \<Longrightarrow> bit w n \<longleftrightarrow> bit (ord c) n"
  shows "putc w = c"
proof -
  have "unat (w AND 0xFF) = ord c"
  proof (rule bit_eqI)
    fix n
    have "\<not> bit (ord c) n" if "\<not> n < 8"
    proof -
      have "(256 :: nat) \<le> 2 ^ n" using that power_increasing [of 8 n "2 :: nat"] by simp
      then have "ord c div 2 ^ n = 0" using ord_less [of c] by (intro div_less) linarith
      then show ?thesis by (simp add: bit_nat_def)
    qed
    with assms show "bit (unat (w AND 0xFF)) n \<longleftrightarrow> bit (ord c) n"
      unfolding bit_unsigned_iff bit_and_iff low8_bit by auto
  qed
  then show ?thesis by (simp add: putc_def)
qed

lemmas six_defs = six1_def six2_def six3_def six4_def
lemmas six_bits = low6_bit low8_bit low4_bit low2_bit mid_bits bit_signed_char

lemma less8: "n < 8 \<Longrightarrow> n = 0 \<or> n = 1 \<or> n = 2 \<or> n = 3 \<or> n = 4 \<or> n = 5 \<or> n = 6 \<or> n = (7 :: nat)"
  by auto

lemma byte1_six: "byte1 (six1 a AND 0x3F) (six2 a b AND 0x3F) = a"
  and byte2_six: "byte2 (six2 a b AND 0x3F) (six3 b c AND 0x3F) = b"
  and byte3_six: "byte3 (six3 b c AND 0x3F) (six4 c AND 0x3F) = c"
  unfolding byte1_def byte2_def byte3_def
  by (rule putc_eqI; drule less8; elim disjE;
      simp add: six_defs bit_simps six_bits del: push_bit_numeral)+

text \<open>What a character code for six bits must do, and what it gives: \<open>quad\<close> is the coded group.\<close>

locale sixbit =
  fixes enc :: "32 word \<Rightarrow> char" and dec :: "char \<Rightarrow> 32 word"
  assumes dec_enc: "dec (enc v) = v AND 0x3F"
    and enc_plain: "enc v \<noteq> NL" "enc v \<noteq> NUL" "enc v \<noteq> CTLCHAR"
begin

definition quad :: "char \<Rightarrow> char \<Rightarrow> char \<Rightarrow> cstr" where
  "quad a b c = [enc (six1 a), enc (six2 a b), enc (six3 b c), enc (six4 c)]"

lemma quad_bytes:
  "byte1 (dec (enc (six1 a))) (dec (enc (six2 a b))) = a"
  "byte2 (dec (enc (six2 a b))) (dec (enc (six3 b c))) = b"
  "byte3 (dec (enc (six3 b c))) (dec (enc (six4 c))) = c"
  unfolding dec_enc by (rule byte1_six byte2_six byte3_six)+

lemma quad_length [simp]: "length (quad a b c) = 4"
  by (simp add: quad_def)

lemma quad_plain: "x \<in> set (quad a b c) \<Longrightarrow> x \<noteq> NL \<and> x \<noteq> NUL \<and> x \<noteq> CTLCHAR"
  by (auto simp: quad_def enc_plain)

lemma dec_count: "n < 64 \<Longrightarrow> unat (dec (enc (of_nat n))) = n"
  by (simp add: dec_enc low6_of_nat unsigned_of_nat take_bit_nat_eq_self)

end

section \<open>The encoding of SCCS\<close>

definition ENC :: "32 word \<Rightarrow> char" where
  "ENC c = putc ((c AND 0x3F) + 32)"

definition DEC :: "char \<Rightarrow> 32 word" where
  "DEC c = (signed_char c - 32) AND 0x3F"

definition e_outdec :: "cstr \<Rightarrow> cstr" where
  "e_outdec p = [ENC (six1 (p ! 0)), ENC (six2 (p ! 0) (p ! 1)), ENC (six3 (p ! 1) (p ! 2)), ENC (six4 (p ! 2))]"

text \<open>The \<open>for\<close> loop over the groups of a line: \<open>n\<close> bytes from \<open>p\<close> on.\<close>

fun e_groups :: "cstr \<Rightarrow> nat \<Rightarrow> cstr" where
  "e_groups p n = (if n = 0 then [] else e_outdec p @ e_groups (drop 3 p) (n - 3))"

declare e_groups.simps [simp del]

text \<open>\<open>fr\<close> fills the buffer with up to \<open>cnt\<close> bytes and says how many.\<close>

definition fr :: "cstr \<Rightarrow> cstr \<Rightarrow> nat \<Rightarrow> nat \<times> cstr \<times> cstr" where
  "fr infile buf cnt =
     (let n = length (take cnt infile) in (n, take n infile @ drop n buf, drop n infile))"

function encode :: "cstr \<Rightarrow> cstr \<Rightarrow> cstr" where
  "encode infile buf =
     (let (n, buf, rest) = fr infile buf 45;
          line = ENC (of_nat n) # e_groups buf n @ [NL]
      in if n = 0 then line else line @ encode rest buf)"
  by pat_completeness auto
termination
  by (relation "measure (\<lambda>(s, _). length s)") (auto simp: fr_def Let_def)

declare encode.simps [simp del]

definition d_outdec :: "cstr \<Rightarrow> nat \<Rightarrow> serr + cstr" where
  "d_outdec p n =
     (if length p < 3 then Inl Wild
      else
        let c1 = byte1 (DEC (p ! 0)) (DEC (p ! 1));
            c2 = byte2 (DEC (p ! 1)) (DEC (p ! 2));
            c3 = byte3 (DEC (p ! 2)) (DEC (deref (drop 3 p)))
        in Inr ((if n \<ge> 1 then [c1] else []) @ (if n \<ge> 2 then [c2] else []) @ (if n \<ge> 3 then [c3] else [])))"

fun d_groups :: "cstr \<Rightarrow> nat \<Rightarrow> serr + cstr" where
  "d_groups bp n =
     (if n = 0 then Inr []
      else (case d_outdec bp n of
              Inl e \<Rightarrow> Inl e
            | Inr t \<Rightarrow>
                if n \<le> 3 then Inr t
                else if length bp < 4 then Inl Wild
                else (case d_groups (drop 4 bp) (n - 3) of Inl e \<Rightarrow> Inl e | Inr r \<Rightarrow> Inr (t @ r))))"

declare d_groups.simps [simp del]

definition decode :: "cstr \<Rightarrow> serr + cstr" where
  "decode istr = d_groups (tl istr) (unat (DEC (deref istr)))"

text \<open>The loop \<open>while (readmod(&gpkt)) decode(line)\<close> of \<open>get\<close> over the lines of the version.\<close>

fun decode_lines :: "cstr list \<Rightarrow> serr + cstr" where
  "decode_lines [] = Inr []"
| "decode_lines (l # ls) =
     (case decode l of
        Inl e \<Rightarrow> Inl e
      | Inr t \<Rightarrow> (case decode_lines ls of Inl e \<Rightarrow> Inl e | Inr r \<Rightarrow> Inr (t @ r)))"

lemma ENC_char:
  obtains n where "n < 64" "v AND 0x3F = of_nat n" "ENC v = chr (n + 32)"
proof -
  obtain n where n: "n < 64" "v AND 0x3F = of_nat n" by (rule low6_cases)
  then have "ENC v = chr (n + 32)" using putc_of_nat [of "n + 32"] by (simp add: ENC_def)
  with n that show thesis by blast
qed

lemma DEC_char: "n < 64 \<Longrightarrow> DEC (chr (n + 32)) = of_nat n"
  using scast_char [of "n + 32"] low6_of_nat [of n] by (simp add: DEC_def signed_char_def)

lemma chr_ne: "n < 256 \<Longrightarrow> ord c \<noteq> n \<Longrightarrow> chr n \<noteq> c"
  by (metis ord_chr)

interpretation sccs: sixbit ENC DEC
proof
  fix v
  obtain n where n: "n < 64" "v AND 0x3F = of_nat n" "ENC v = chr (n + 32)" by (rule ENC_char)
  then show "DEC (ENC v) = v AND 0x3F" by (simp add: DEC_char)
  have "ord NL = 10" "ord NUL = 0" "ord CTLCHAR = 1" by (simp_all add: ord_def)
  then show "ENC v \<noteq> NL" "ENC v \<noteq> NUL" "ENC v \<noteq> CTLCHAR"
    using n chr_ne [of "n + 32"] by simp_all
qed

lemma e_outdec_quad: "e_outdec p = sccs.quad (p ! 0) (p ! 1) (p ! 2)"
  by (simp add: e_outdec_def sccs.quad_def)

lemma d_outdec_quad:
  "d_outdec (sccs.quad a b c @ r) n = Inr (take (min n 3) [a, b, c])"
  using sccs.quad_bytes [of a b] sccs.quad_bytes [of b c]
  by (auto simp: d_outdec_def sccs.quad_def Let_def min_def numeral_2_eq_2 numeral_3_eq_3 take_Cons' Suc_le_eq
      split: if_splits)

lemma take3: "3 \<le> length p \<Longrightarrow> take 3 p = [p ! 0, p ! 1, p ! 2]"
  by (cases p; cases "tl p"; cases "tl (tl p)") auto

lemma e_groups_0 [simp]: "e_groups p 0 = []"
  by (simp add: e_groups.simps)

lemma d_groups_e_groups:
  assumes "0 < n" "n + 2 \<le> length p"
  shows "d_groups (e_groups p n @ r) n = Inr (take n p)"
  using assms
proof (induction p n rule: e_groups.induct)
  case (1 p n)
  have e: "e_groups p n = sccs.quad (p ! 0) (p ! 1) (p ! 2) @ e_groups (drop 3 p) (n - 3)"
    using 1(2) by (simp add: e_groups.simps [of p n] e_outdec_quad)
  have t: "take (min n 3) [p ! 0, p ! 1, p ! 2] = take (min n 3) p"
  proof -
    have "3 \<le> length p" using 1(2,3) by linarith
    note t3 = take3 [OF this]
    show ?thesis unfolding t3 [symmetric] by (simp add: min_def)
  qed
  show ?case
  proof (cases "n \<le> 3")
    case True
    then show ?thesis
      using 1(2) t by (simp add: d_groups.simps [of _ n] e d_outdec_quad min_def)
  next
    case False
    then have "d_groups (e_groups (drop 3 p) (n - 3) @ r) (n - 3) = Inr (take (n - 3) (drop 3 p))"
      using 1 by auto
    moreover have "take 3 p @ take (n - 3) (drop 3 p) = take n p"
      using False take_add [of 3 "n - 3" p] by simp
    ultimately show ?thesis
      using 1(2) t False by (simp add: d_groups.simps [of _ n] e d_outdec_quad min_def)
  qed
qed

lemma e_groups_plain: "x \<in> set (e_groups p n) \<Longrightarrow> x \<noteq> NL \<and> x \<noteq> NUL \<and> x \<noteq> CTLCHAR"
proof (induction p n rule: e_groups.induct)
  case (1 p n)
  then show ?case
    using sccs.quad_plain [of x] by (cases "n = 0") (auto simp: e_groups.simps [of p n] e_outdec_quad)
qed

lemma encode_lines:
  assumes "47 \<le> length buf"
  shows "\<exists>ls. encode s buf = concat ls \<and> (\<forall>l \<in> set ls. is_line l \<and> deref l \<noteq> CTLCHAR \<and> NUL \<notin> set l) \<and>
    decode_lines ls = Inr s"
  using assms
proof (induction s buf rule: encode.induct)
  case (1 s buf)
  define n where "n = length (take 45 s)"
  define buf' where "buf' = take n s @ drop n buf"
  define line where "line = ENC (of_nat n) # e_groups buf' n @ [NL]"
  have n: "n \<le> 45" "n \<le> length s" and len: "length buf' = length buf"
    using 1(2) by (simp_all add: n_def buf'_def min_def split: if_splits)
  have fr: "fr s buf 45 = (n, buf', drop n s)" by (simp add: fr_def n_def buf'_def Let_def)
  have l: "is_line line \<and> deref line \<noteq> CTLCHAR \<and> NUL \<notin> set line"
    using e_groups_plain [of _ buf' n] sccs.enc_plain [of "of_nat n"]
    by (auto simp: line_def is_line_def)
  have d: "decode line = Inr (take n s)"
  proof (cases "n = 0")
    case True
    then show ?thesis using sccs.dec_count [of n] by (simp add: decode_def line_def d_groups.simps)
  next
    case False
    have "take n buf' = take n s" using n by (simp add: buf'_def)
    then show ?thesis
      using False n len 1(2) sccs.dec_count [of n] d_groups_e_groups [of n buf' "[NL]"]
      by (simp add: decode_def line_def)
  qed
  show ?case
  proof (cases "n = 0")
    case True
    then show ?thesis
      using l d n fr by (intro exI [of _ "[line]"]) (auto simp: encode.simps [of s buf] encode.simps [of "[]" buf] line_def n_def)
  next
    case False
    then obtain ls where ls: "encode (drop n s) buf' = concat ls"
        "\<forall>l \<in> set ls. is_line l \<and> deref l \<noteq> CTLCHAR \<and> NUL \<notin> set l" "decode_lines ls = Inr (drop n s)"
      using 1(1) [OF fr [symmetric] refl refl refl] 1(2) len by auto
    have "encode s buf = line @ encode (drop n s) buf'"
      using False by (simp add: encode.simps [of s buf] fr line_def)
    then show ?thesis using ls l d by (intro exI [of _ "line # ls"]) auto
  qed
qed

text \<open>
  C8: The text form of a binary file is what SCCS can store and gives the file back: whatever
  the buffer of the encoder held before, the output of \<open>encode\<close> is a sequence of lines without
  NUL that do not start with the control character, and decoding them one by one, as \<open>get\<close>
  does, yields every byte of the file.
\<close>

theorem encode_roundtrip:
  assumes "length buf = 80"
  shows "\<exists>ls. encode s buf = concat ls \<and> (\<forall>l \<in> set ls. is_line l \<and> deref l \<noteq> CTLCHAR \<and> NUL \<notin> set l) \<and>
    decode_lines ls = Inr s"
  using encode_lines [of buf s] assms by simp

lemma encode_roundtrip_witness:
  "\<exists>ls. encode ''any bytes'' (replicate 80 NUL) = concat ls \<and>
    (\<forall>l \<in> set ls. is_line l \<and> deref l \<noteq> CTLCHAR \<and> NUL \<notin> set l) \<and> decode_lines ls = Inr ''any bytes''"
  by (rule encode_roundtrip) simp

section \<open>uuencode\<close>

definition uu_ENC :: "32 word \<Rightarrow> char" where
  "uu_ENC c = (if c \<noteq> 0 then putc ((c AND 0x3F) + 32) else CHR 0x60)"

fun uu_groups :: "cstr \<Rightarrow> nat \<Rightarrow> cstr" where
  "uu_groups p n =
     (if n = 0 then []
      else [uu_ENC (six1 (p ! 0)), uu_ENC (six2 (p ! 0) (p ! 1)), uu_ENC (six3 (p ! 1) (p ! 2)), uu_ENC (six4 (p ! 2))] @
           uu_groups (drop 3 p) (n - 3))"

declare uu_groups.simps [simp del]

text \<open>\<open>encode\<close> of \<open>uuencode.c\<close>; \<open>fread\<close> fills the buffer as \<open>fr\<close> does. Writing does not fail.\<close>

function uu_encode :: "cstr \<Rightarrow> cstr \<Rightarrow> cstr" where
  "uu_encode infile buf =
     (let (n, buf, rest) = fr infile buf 45
      in if n = 0 then [uu_ENC 0, NL]
         else uu_ENC (of_nat n) # uu_groups buf n @ NL # uu_encode rest buf)"
  by pat_completeness auto
termination
  by (relation "measure (\<lambda>(s, _). length s)") (auto simp: fr_def Let_def)

declare uu_encode.simps [simp del]

fun print_oct :: "nat \<Rightarrow> cstr" where
  "print_oct n = (if n < 8 then [digit_char n] else print_oct (n div 8) @ [digit_char (n mod 8)])"

declare print_oct.simps [simp del]

text \<open>The mode is that of the input file, \<open>st\<close>, or the default under the mask \<open>um\<close>.\<close>

definition uuencode :: "32 word option \<Rightarrow> 32 word \<Rightarrow> cstr \<Rightarrow> cstr \<Rightarrow> cstr \<Rightarrow> cstr" where
  "uuencode st um remote infile buf =
     (let mode = (case st of Some m \<Rightarrow> m AND 0x1FF | None \<Rightarrow> 0x1B6 AND NOT um) in
      ''begin '' @ print_oct (unat mode) @ SPC # remote @ NL # uu_encode infile buf @ ''end'' @ [NL])"

section \<open>uudecode\<close>

text \<open>The buffer of \<open>decode\<close> is the list of its \<open>MAXPATHLEN\<close> characters, \<open>bufstr\<close> the string in it.\<close>

definition bufstr :: "cstr \<Rightarrow> cstr" where
  "bufstr buf = takeWhile (\<lambda>c. c \<noteq> NUL) buf"

definition put_str :: "cstr \<Rightarrow> cstr \<Rightarrow> cstr" where
  "put_str l buf = l @ NUL # drop (length l + 1) buf"

definition uu_fgets :: "cstr \<Rightarrow> cstr \<Rightarrow> (cstr \<times> cstr) option" where
  "uu_fgets buf s =
     (if s = [] then None else let (l, r) = fgets (length buf - 1) s in Some (put_str l buf, r))"

definition c_space :: "char \<Rightarrow> bool" where
  "c_space c \<longleftrightarrow> c \<in> {SPC, TAB, NL, CHR 0x0B, CHR 0x0C, CHR 0x0D}"

definition octal :: "char \<Rightarrow> bool" where
  "octal c \<longleftrightarrow> ord (CHR ''0'') \<le> ord c \<and> ord c \<le> ord (CHR ''7'')"

text \<open>\<open>sscanf(buf, "begin %o %s", &mode, buf)\<close> on a line that starts with \<open>begin\<close>: a field that is
  missing leaves its variable alone. The value of a number is taken modulo \<open>2 ^ 32\<close>.\<close>

definition scan_begin :: "cstr \<Rightarrow> 32 word option \<times> cstr option" where
  "scan_begin s =
     (let s = dropWhile c_space (drop 6 s);
          (neg, s) = (if deref s = CHR ''-'' then (True, tl s)
                      else if deref s = CHR ''+'' then (False, tl s) else (False, s));
          ds = takeWhile octal s;
          v = of_nat (foldl (\<lambda>a c. a * 8 + digit_val c) 0 ds);
          name = takeWhile (\<lambda>c. \<not> c_space c) (dropWhile c_space (dropWhile octal s))
      in if ds = [] then (None, None)
         else (Some (if neg then - v else v), if name = [] then None else Some name))"

function find_begin :: "cstr \<Rightarrow> cstr \<Rightarrow> (cstr \<times> cstr) option" where
  "find_begin buf s =
     (case uu_fgets buf s of
        None \<Rightarrow> None
      | Some (buf', r) \<Rightarrow>
          if take 6 (bufstr buf') = ''begin '' then Some (buf', r)
          else if length r < length s then find_begin buf' r else None)"
  by pat_completeness auto
termination
  by (relation "measure (\<lambda>(_, s). length s)") auto

declare find_begin.simps [simp del]

text \<open>The form \<open>~user/file\<close>; \<open>pw\<close> gives the home directory of a user.\<close>

definition expand_user :: "(cstr \<Rightarrow> cstr option) \<Rightarrow> cstr \<Rightarrow> cstr option" where
  "expand_user pw buf =
     (if hd buf \<noteq> CHR ''~'' then Some buf
      else
        let str = bufstr buf; user = takeWhile (\<lambda>c. c \<noteq> CHR ''/'') str; p = dropWhile (\<lambda>c. c \<noteq> CHR ''/'') str in
        if p = [] then None
        else (case pw (tl user) of
                None \<Rightarrow> None
              | Some dir \<Rightarrow>
                  if length dir + length (tl p) + 2 > length buf then None
                  else Some (put_str (dir @ CHR ''/'' # tl p) (buf[length user := NUL]))))"

text \<open>A line of data.\<close>

fun uu_line :: "cstr \<Rightarrow> nat \<Rightarrow> cstr" where
  "uu_line p n =
     (if n = 0 then []
      else
        (if n \<ge> 3 then
           [byte1 (DEC (p ! 0)) (DEC (p ! 1)), byte2 (DEC (p ! 1)) (DEC (p ! 2)), byte3 (DEC (p ! 2)) (DEC (p ! 3))]
         else (if n \<ge> 1 then [byte1 (DEC (p ! 0)) (DEC (p ! 1))] else []) @
              (if n \<ge> 2 then [byte2 (DEC (p ! 1)) (DEC (p ! 2))] else [])) @
        uu_line (drop 4 p) (n - 3))"

declare uu_line.simps [simp del]

text \<open>The loop over the data lines: the bytes written, and what is left when it ended in order.\<close>

function uu_body :: "cstr \<Rightarrow> cstr \<Rightarrow> cstr \<times> (cstr \<times> cstr) option" where
  "uu_body buf s =
     (case uu_fgets buf s of
        None \<Rightarrow> ([], None)
      | Some (buf', r) \<Rightarrow>
          let n = unat (DEC (hd buf')) in
          if n = 0 then ([], Some (buf', r))
          else if length r < length s then (let (t, e) = uu_body buf' r in (uu_line (tl buf') n @ t, e))
          else ([], None))"
  by pat_completeness auto
termination
  by (relation "measure (\<lambda>(_, s). length s)") auto

declare uu_body.simps [simp del]

definition uu_decode ::
  "(cstr \<Rightarrow> cstr option) \<Rightarrow> (cstr \<Rightarrow> bool) \<Rightarrow> 32 word \<Rightarrow> cstr \<Rightarrow> cstr \<Rightarrow> nat \<times> (cstr \<times> 32 word \<times> cstr) option" where
  "uu_decode pw can_create mode0 buf infile =
     (case find_begin buf infile of
        None \<Rightarrow> (1, None)
      | Some (buf, r) \<Rightarrow>
          let (m, name) = scan_begin (bufstr buf);
              mode = (case m of Some m \<Rightarrow> m | None \<Rightarrow> mode0);
              buf = (case name of Some n \<Rightarrow> put_str n buf | None \<Rightarrow> buf) in
          case expand_user pw buf of
            None \<Rightarrow> (1, None)
          | Some buf \<Rightarrow>
              let path = bufstr buf in
              if \<not> can_create path then (1, None)
              else
                (case uu_body buf r of
                   (t, None) \<Rightarrow> (1, Some (path, mode AND 0x1B6, t))
                 | (t, Some (buf, r)) \<Rightarrow>
                     (case uu_fgets buf r of
                        Some (buf, _) \<Rightarrow> (if bufstr buf = ''end'' @ [NL] then 0 else 1, Some (path, mode AND 0x1B6, t))
                      | None \<Rightarrow> (1, Some (path, mode AND 0x1B6, t)))))"

section \<open>What uuencode writes uudecode reads\<close>

interpretation uu: sixbit uu_ENC DEC
proof
  fix v
  have e: "ENC v = putc ((v AND 0x3F) + 32)" by (simp add: ENC_def)
  have "DEC (CHR 0x60) = 0" by code_simp
  then show "DEC (uu_ENC v) = v AND 0x3F"
    using sccs.dec_enc [of v] by (auto simp: uu_ENC_def e)
  show "uu_ENC v \<noteq> NL" "uu_ENC v \<noteq> NUL" "uu_ENC v \<noteq> CTLCHAR"
    using sccs.enc_plain [of v] by (auto simp: uu_ENC_def e)
qed

lemma uu_groups_quad:
  "0 < n \<Longrightarrow> uu_groups p n = uu.quad (p ! 0) (p ! 1) (p ! 2) @ uu_groups (drop 3 p) (n - 3)"
  by (simp add: uu_groups.simps [of p n] uu.quad_def)

lemma uu_groups_0 [simp]: "uu_groups p 0 = []" and uu_line_0 [simp]: "uu_line p 0 = []"
  by (simp_all add: uu_groups.simps uu_line.simps)

lemma uu_line_quad:
  "0 < n \<Longrightarrow> uu_line (uu.quad a b c @ r) n = take (min n 3) [a, b, c] @ uu_line r (n - 3)"
  using uu.quad_bytes [of a b] uu.quad_bytes [of b c]
  by (auto simp: uu_line.simps [of _ n] uu.quad_def min_def numeral_2_eq_2 numeral_3_eq_3 take_Cons' Suc_le_eq
      split: if_splits)

lemma uu_line_groups: "n + 2 \<le> length p \<Longrightarrow> uu_line (uu_groups p n @ r) n = take n p"
proof (induction p n rule: uu_groups.induct)
  case (1 p n)
  show ?case
  proof (cases "n = 0")
    case False
    then have "3 \<le> length p" using 1(2) by linarith
    note t3 = take3 [OF this]
    have t: "take (min n 3) [p ! 0, p ! 1, p ! 2] = take (min n 3) p"
      unfolding t3 [symmetric] by (simp add: min_def)
    have "take (min n 3) p @ take (n - 3) (drop 3 p) = take n p"
      using take_add [of 3 "n - 3" p] by (cases "n \<le> 3") (simp_all add: min_def)
    moreover have "uu_line (uu_groups (drop 3 p) (n - 3) @ r) (n - 3) = take (n - 3) (drop 3 p)"
      using False 1 by (cases "n \<le> 3") auto
    ultimately show ?thesis using False t by (simp add: uu_groups_quad uu_line_quad)
  qed simp
qed

lemma uu_groups_length: "3 * length (uu_groups p n) \<le> 4 * (n + 2)"
proof (induction p n rule: uu_groups.induct)
  case (1 p n)
  show ?case
  proof (cases "n = 0")
    case False
    with 1 have "3 * length (uu_groups (drop 3 p) (n - 3)) \<le> 4 * (n - 3 + 2)" by blast
    moreover have "length (uu_groups p n) = 4 + length (uu_groups (drop 3 p) (n - 3))"
      using False by (simp add: uu_groups_quad)
    ultimately show ?thesis using False by (cases "n \<le> 3") auto
  qed simp
qed

lemma uu_groups_plain: "x \<in> set (uu_groups p n) \<Longrightarrow> x \<noteq> NL \<and> x \<noteq> NUL"
proof (induction p n rule: uu_groups.induct)
  case (1 p n)
  then show ?case using uu.quad_plain [of x] by (cases "n = 0") (auto simp: uu_groups_quad)
qed

lemma fgets_NL: "NL \<notin> set l \<Longrightarrow> length l < k \<Longrightarrow> fgets k (l @ NL # r) = (l @ [NL], r)"
  using fgets_line [of "l @ [NL]" k r] by (simp add: is_line_def)

lemma uu_fgets_line:
  "NL \<notin> set l \<Longrightarrow> length l + 1 < length buf \<Longrightarrow> uu_fgets buf (l @ NL # r) = Some (put_str (l @ [NL]) buf, r)"
  by (simp add: uu_fgets_def fgets_NL)

lemma put_str_length [simp]: "length l < length buf \<Longrightarrow> length (put_str l buf) = length buf"
  by (simp add: put_str_def)

lemma bufstr_put [simp]: "NUL \<notin> set l \<Longrightarrow> bufstr (put_str l buf) = l"
  by (simp add: bufstr_def put_str_def takeWhile_append)

lemma uu_body_encode:
  assumes "47 \<le> length ebuf" "64 < length buf"
  shows "\<exists>buf'. uu_body buf (uu_encode s ebuf @ r) = (s, Some (buf', r)) \<and> length buf' = length buf"
  using assms
proof (induction s ebuf arbitrary: buf rule: uu_encode.induct)
  case (1 s ebuf)
  define n where "n = length (take 45 s)"
  define eb where "eb = take n s @ drop n ebuf"
  have n: "n \<le> 45" "n \<le> length s" and len: "length eb = length ebuf"
    using 1(2) by (simp_all add: n_def eb_def min_def split: if_splits)
  have fr: "fr s ebuf 45 = (n, eb, drop n s)" by (simp add: fr_def n_def eb_def Let_def)
  define l where "l = uu_ENC (of_nat n) # uu_groups eb n"
  have "length (uu_groups eb n) \<le> 62" using uu_groups_length [of eb n] n(1) by presburger
  then have "NL \<notin> set l" "length l + 1 < length buf"
    using uu_groups_plain [of _ eb n] uu.enc_plain [of "of_nat n"] 1(3) by (auto simp: l_def)
  then have g: "uu_fgets buf (l @ NL # t) = Some (put_str (l @ [NL]) buf, t)"
      and sz: "length (put_str (l @ [NL]) buf) = length buf" for t
    using uu_fgets_line by simp_all
  have c: "unat (DEC (hd (put_str (l @ [NL]) buf))) = n"
    using uu.dec_count [of n] n(1) by (simp add: l_def put_str_def)
  show ?case
  proof (cases "n = 0")
    case True
    then have "s = []" by (cases s) (simp_all add: n_def)
    moreover have "uu_encode s ebuf @ r = l @ NL # r" using True by (simp add: uu_encode.simps [of s] fr l_def)
    ultimately show ?thesis using True c g sz by (simp add: uu_body.simps [of buf])
  next
    case False
    obtain buf' where b: "uu_body (put_str (l @ [NL]) buf) (uu_encode (drop n s) eb @ r) = (drop n s, Some (buf', r))"
        "length buf' = length buf"
      using 1(1) [OF fr [symmetric] refl refl False, of "put_str (l @ [NL]) buf"] 1(2,3) len sz by auto
    have "take n eb = take n s" using n by (simp add: eb_def)
    then have t: "uu_line (tl (put_str (l @ [NL]) buf)) n = take n s"
      using uu_line_groups [of n eb] n(1) len 1(2) by (simp add: l_def put_str_def)
    have "uu_encode s ebuf @ r = l @ NL # uu_encode (drop n s) eb @ r"
      using False by (simp add: uu_encode.simps [of s] fr l_def)
    then show ?thesis using False c b t g by (simp add: uu_body.simps [of buf])
  qed
qed

lemma octal_digit: "d < 8 \<Longrightarrow> octal (digit_char d)"
  by (simp add: octal_def digit_char_def ord_def [of "CHR ''7''"])

lemma print_oct_octal: "c \<in> set (print_oct n) \<Longrightarrow> octal c"
proof (induction n rule: print_oct.induct)
  case (1 n)
  then show ?case by (cases "n < 8") (auto simp: print_oct.simps [of n] octal_digit)
qed

lemma print_oct_val: "foldl (\<lambda>a c. a * 8 + digit_val c) 0 (print_oct n) = n"
proof (induction n rule: print_oct.induct)
  case (1 n)
  then show ?case by (cases "n < 8") (auto simp: print_oct.simps [of n])
qed

lemma print_oct_nonempty [simp]: "print_oct n \<noteq> []"
  by (simp add: print_oct.simps)

lemma octal_plain: "octal c \<Longrightarrow> \<not> c_space c \<and> c \<noteq> NUL \<and> c \<noteq> NL \<and> c \<noteq> CHR ''-'' \<and> c \<noteq> CHR ''+''"
  by (auto simp: octal_def c_space_def ord_def)

lemma takeWhile_run: "\<forall>c \<in> set xs. P c \<Longrightarrow> ys = [] \<or> \<not> P (hd ys) \<Longrightarrow> takeWhile P (xs @ ys) = xs"
  and dropWhile_run: "\<forall>c \<in> set xs. P c \<Longrightarrow> ys = [] \<or> \<not> P (hd ys) \<Longrightarrow> dropWhile P (xs @ ys) = ys"
  by (cases ys; simp add: takeWhile_append dropWhile_append)+

lemma scan_begin_print:
  assumes "name \<noteq> []" "\<forall>c \<in> set name. \<not> c_space c"
  shows "scan_begin (''begin '' @ print_oct n @ SPC # name @ [NL]) = (Some (of_nat n), Some name)"
proof -
  obtain d t where o: "print_oct n = d # t" by (cases "print_oct n") auto
  have d: "octal d" "\<forall>c \<in> set (d # t). octal c" using print_oct_octal [of _ n] o by auto
  have sp: "c_space SPC" "\<not> octal SPC" "c_space NL" by (simp_all add: c_space_def octal_def ord_def)
  have h: "\<not> c_space (hd name)" using assms by simp
  have "dropWhile c_space (drop 6 (''begin '' @ print_oct n @ SPC # name @ [NL])) = print_oct n @ SPC # name @ [NL]"
    using octal_plain [OF d(1)] by (simp add: o)
  moreover have "deref (print_oct n @ SPC # name @ [NL]) = d" by (simp add: o)
  moreover have "takeWhile octal (print_oct n @ SPC # name @ [NL]) = print_oct n"
      "dropWhile octal (print_oct n @ SPC # name @ [NL]) = SPC # name @ [NL]"
    using d(2) sp by (auto simp: o intro!: takeWhile_run dropWhile_run simp del: append_Cons simp flip: o)
  moreover have "dropWhile c_space (SPC # name @ [NL]) = name @ [NL]"
    using sp h assms(1) by (cases name) auto
  moreover have "takeWhile (\<lambda>c. \<not> c_space c) (name @ [NL]) = name"
    using assms(2) sp(3) by (intro takeWhile_run) auto
  ultimately show ?thesis
    using octal_plain [OF d(1)] assms(1) by (simp add: scan_begin_def print_oct_val)
qed

text \<open>
  C9: A file sent with \<open>uuencode\<close> arrives: \<open>uudecode\<close> creates the remote file under its name with
  the mode of the original, less what \<open>0666\<close> masks, and with the same bytes. The name holds no
  white space and no leading tilde and fits the buffer; what the buffers of both programs held
  before does not matter.
\<close>

theorem uuencode_roundtrip:
  assumes "length ebuf = 80" "64 < length buf" "remote \<noteq> []" "\<forall>c \<in> set remote. \<not> c_space c \<and> c \<noteq> NUL"
    and "hd remote \<noteq> CHR ''~''" "can_create remote"
    and "mode = (case st of Some m \<Rightarrow> m AND 0x1FF | None \<Rightarrow> 0x1B6 AND NOT um)"
    and "length (print_oct (unat mode)) + length remote + 8 < length buf"
  shows "uu_decode pw can_create mode0 buf (uuencode st um remote s ebuf) = (0, Some (remote, mode AND 0x1B6, s))"
proof -
  define l where "l = ''begin '' @ print_oct (unat mode) @ SPC # remote"
  have l: "NL \<notin> set l" "NUL \<notin> set l" "length l + 1 < length buf"
    using print_oct_octal [of _ "unat mode"] octal_plain assms(4,8) by (auto simp: l_def c_space_def)
  define b1 where "b1 = put_str (l @ [NL]) buf"
  have b1: "bufstr b1 = l @ [NL]" "length b1 = length buf" using l by (simp_all add: b1_def)
  have f: "find_begin buf (l @ NL # t) = Some (b1, t)" for t
  proof -
    have "take 6 (bufstr b1) = ''begin ''" unfolding b1(1) by (simp add: l_def)
    then show ?thesis using uu_fgets_line [OF l(1,3), of t] by (simp add: find_begin.simps [of buf] flip: b1_def)
  qed
  have sc: "scan_begin (bufstr b1) = (Some mode, Some remote)"
    using scan_begin_print [of remote "unat mode"] assms(3,4) by (simp add: b1(1) l_def)
  define b2 where "b2 = put_str remote b1"
  have b2: "bufstr b2 = remote" "length b2 = length buf" "hd b2 = hd remote"
  proof -
    have "NUL \<notin> set remote" "length remote < length b1" using assms(4,8) b1(2) by auto
    then show "bufstr b2 = remote" "length b2 = length buf" using b1(2) by (simp_all add: b2_def)
    show "hd b2 = hd remote" using assms(3) by (cases remote) (simp_all add: b2_def put_str_def)
  qed
  obtain b3 where b3: "uu_body b2 (uu_encode s ebuf @ ''end'' @ [NL]) = (s, Some (b3, ''end'' @ [NL]))"
      "length b3 = length buf"
    using uu_body_encode [of ebuf b2 s "''end'' @ [NL]"] assms(1,2) b2(2) by auto
  have e: "uu_fgets b3 (''end'' @ [NL]) = Some (put_str (''end'' @ [NL]) b3, [])"
    using uu_fgets_line [of "''end''" b3 "[]"] b3(2) assms(2) by simp
  have u: "uuencode st um remote s ebuf = l @ NL # uu_encode s ebuf @ ''end'' @ [NL]"
    unfolding uuencode_def Let_def assms(7) [symmetric] l_def by simp
  have x: "expand_user pw b2 = Some b2" using b2(3) assms(5) by (simp add: expand_user_def)
  have z: "bufstr (put_str (''end'' @ [NL]) b3) = ''end'' @ [NL]" by simp
  show ?thesis
    unfolding u uu_decode_def f option.case prod.case sc Let_def b2_def [symmetric] x b2(1) b3(1) e z
    using assms(6) by simp
qed

lemma uuencode_roundtrip_witness:
  "uu_decode (\<lambda>_. None) (\<lambda>p. p = ''copy'') 0 (replicate 1024 NUL)
      (uuencode (Some 0x1A4) 0 ''copy'' ''some bytes'' (replicate 80 NUL)) =
    (0, Some (''copy'', 0x1A4, ''some bytes''))"
proof -
  have "print_oct (unat (0x1A4 AND 0x1FF :: 32 word)) = ''644''" by code_simp
  moreover have "0x1A4 AND 0x1FF AND 0x1B6 = (0x1A4 :: 32 word)" by code_simp
  ultimately show ?thesis
    using uuencode_roundtrip [where ebuf = "replicate 80 NUL" and buf = "replicate 1024 NUL" and remote = "''copy''"
        and can_create = "\<lambda>p. p = ''copy''" and mode = "0x1A4 AND 0x1FF" and st = "Some 0x1A4" and um = 0]
    by (simp add: c_space_def)
qed

end
