(* ===== verification/Pk.thy ===== *)
theory Pk
  imports Prelude
begin

text \<open>
  The packet driver of the BNU commands, \<open>cmd/bnu/pk0.c\<close> and \<open>pk1.c\<close> with \<open>pk.h\<close> and
  \<open>pkdefs.c\<close>: a sliding window of at most seven packets in each direction over a serial line.
  The line is the list of what is still to arrive, bytes and alarms of the timer, and the list
  of the bytes written; the end of the input is a hangup. \<open>pkfail\<close> does not return: it is the
  error \<open>PkFail\<close>, and \<open>PkWild\<close> is an access outside an array. An input buffer is a number
  into \<open>p_bufs\<close>, an output buffer its contents. Writing does not fail and memory does not run
  out; \<open>p_obusy\<close>, which keeps \<open>pkxstart\<close> from calling \<open>pkoutput\<close> again, is the absence of that
  call. Counters nobody reads (\<open>p_nout\<close>, \<open>p_timer\<close>) are left out.
\<close>

unbundle bit_operations_syntax

section \<open>The state of a line\<close>

datatype event = Byte char | Alarm

datatype pkerr = PkFail | PkWild

record pack =
  p_state :: "16 word"
  p_rsize :: nat
  p_xsize :: nat
  p_lpsize :: nat
  p_rwindow :: nat
  p_swindow :: nat
  p_msg :: "8 word"
  p_rmsg :: "8 word"
  p_ps :: nat
  p_pr :: nat
  p_rpr :: nat
  p_nxtps :: nat
  p_pscopy :: nat
  p_xcount :: int
  p_rcount :: int
  p_imap :: "8 word"
  p_os :: "8 word list"
  p_ob :: "cstr list"
  p_osum :: "16 word list"
  p_is :: "8 word list"
  p_ib :: "nat list"
  p_isum :: "16 word list"
  p_ipool :: "nat list"
  p_bufs :: "cstr list"
  p_rptr :: nat
  Connodata :: nat
  Ntimeout :: nat
  line_in :: "event list"
  line_out :: cstr

abbreviation "INITa \<equiv> (1 :: 16 word)"
abbreviation "INITb \<equiv> (2 :: 16 word)"
abbreviation "INITab \<equiv> (3 :: 16 word)"
abbreviation "LIVE \<equiv> (0x8 :: 16 word)"
abbreviation "RXMIT \<equiv> (0x10 :: 16 word)"
abbreviation "DRAINO \<equiv> (0x100 :: 16 word)"
abbreviation "WAITO \<equiv> (0x200 :: 16 word)"
abbreviation "DOWN \<equiv> (0x400 :: 16 word)"
abbreviation "RCLOSE \<equiv> (0x800 :: 16 word)"
abbreviation "BADFRAME \<equiv> (0x2000 :: 16 word)"

abbreviation "B_NULL \<equiv> (0 :: 8 word)"
abbreviation "B_READY \<equiv> (1 :: 8 word)"
abbreviation "B_SENT \<equiv> (2 :: 8 word)"
abbreviation "B_RESID \<equiv> (0x8 :: 8 word)"
abbreviation "B_COPY \<equiv> (0x10 :: 8 word)"
abbreviation "B_MARK \<equiv> (0x20 :: 8 word)"
abbreviation "B_SHORT \<equiv> (0x40 :: 8 word)"

abbreviation "CLOSE \<equiv> (1 :: nat)"
abbreviation "RJ \<equiv> (2 :: nat)"
abbreviation "RR \<equiv> (4 :: nat)"
abbreviation "INITC \<equiv> (5 :: nat)"
abbreviation "INITB \<equiv> (6 :: nat)"
abbreviation "INITA \<equiv> (7 :: nat)"

abbreviation "M_CLOSE \<equiv> (2 :: 8 word)"
abbreviation "M_RJ \<equiv> (4 :: 8 word)"
abbreviation "M_RR \<equiv> (0x10 :: 8 word)"
abbreviation "M_INITC \<equiv> (0x20 :: 8 word)"
abbreviation "M_INITB \<equiv> (0x40 :: 8 word)"
abbreviation "M_INITA \<equiv> (0x80 :: 8 word)"

abbreviation "CHECK \<equiv> (0xAAAA :: 16 word)"
abbreviation "SYN \<equiv> CHR 0x10"
abbreviation "HDRSIZ \<equiv> (6 :: nat)"

definition next_seq :: "nat \<Rightarrow> nat" where
  "next_seq x = (x + 1) mod 8"

definition mask8 :: "nat \<Rightarrow> 8 word" where
  "mask8 x = push_bit x 1"

definition pksizes :: "nat list" where
  "pksizes = [1, 32, 64, 128, 256, 512, 1024, 2048, 4096, 1]"

text \<open>Bytes as characters.\<close>

definition byte_of :: "char \<Rightarrow> 8 word" where
  "byte_of c = of_nat (ord c)"

definition char_of8 :: "8 word \<Rightarrow> char" where
  "char_of8 w = chr (unat w)"

section \<open>Sums and sizes\<close>

text \<open>The loop of \<open>chksum\<close>, which reads at least one byte.\<close>

fun chk_loop :: "16 word \<Rightarrow> 16 word \<Rightarrow> int \<Rightarrow> cstr \<Rightarrow> 16 word" where
  "chk_loop h x n [] = h"
| "chk_loop h x n (c # s) =
     (let h = (if sint h < 0 then push_bit 1 h + 1 else push_bit 1 h);
          t = h;
          h = h + of_nat (ord c);
          x = x + (h XOR of_int n);
          h = (if h \<le> t then h XOR x else h)
      in if n - 1 > 0 then chk_loop h x (n - 1) s else h)"

definition chksum :: "cstr \<Rightarrow> nat \<Rightarrow> 16 word" where
  "chksum s n = chk_loop (- 1) 0 (int n) s"

fun halvings :: "nat \<Rightarrow> nat" where
  "halvings n = (if n div 2 = 0 then 0 else halvings (n div 2) + 1)"

declare halvings.simps [simp del]

definition pksize :: "nat \<Rightarrow> nat" where
  "pksize n = halvings (n div 32)"

section \<open>Output\<close>

text \<open>\<open>pkxstart\<close>: the header, and for a data packet the buffer. \<open>None\<close> is a control packet.\<close>

definition header :: "8 word \<Rightarrow> 16 word \<Rightarrow> 8 word \<Rightarrow> cstr" where
  "header k checkword cntl =
     (let lo = ucast checkword; hi = ucast (drop_bit 8 checkword)
      in SYN # map char_of8 [k, lo, hi, cntl, ((k XOR lo) XOR hi) XOR cntl])"

definition pkxstart :: "pack \<Rightarrow> 8 word \<Rightarrow> nat option \<Rightarrow> pkerr + pack" where
  "pkxstart pk cntl seq =
     (case seq of
        None \<Rightarrow> Inr (pk\<lparr>line_out := line_out pk @ header 9 (CHECK - scast cntl) cntl\<rparr>)
      | Some x \<Rightarrow>
          if length (p_ob pk ! x) < p_xsize pk then Inl PkWild
          else Inr (pk\<lparr>line_out := line_out pk @
                         header (of_nat (p_lpsize pk)) (CHECK - (p_osum pk ! x XOR ucast cntl)) cntl @
                         take (p_xsize pk) (p_ob pk ! x),
                       Connodata := 0\<rparr>))"

text \<open>The number of the lowest bit of the message byte.\<close>

definition low_bit :: "8 word \<Rightarrow> nat" where
  "low_bit w = length (takeWhile (\<lambda>i. \<not> bit w i) [0..<8])"

definition cntl_byte :: "pack \<Rightarrow> nat \<Rightarrow> 8 word" where
  "cntl_byte pk i =
     of_nat (8 * i + (if i = RJ \<or> i = RR then p_pr pk
                      else if i = INITB then pksize (p_rsize pk)
                      else if i = INITC \<or> i = INITA then p_rwindow pk else 0))"

definition pkoutput :: "pack \<Rightarrow> pkerr + pack" where
  "pkoutput pk =
     (let pk = (if p_state pk AND RXMIT \<noteq> 0 then pk\<lparr>p_nxtps := next_seq (p_rpr pk)\<rparr> else pk);
          x = p_nxtps pk;
          bstate = p_os pk ! x in
      if p_msg pk \<noteq> 0 \<and> (p_msg pk AND NOT M_RR \<noteq> 0 \<or> bstate AND B_READY = 0) then
        let i = low_bit (p_msg pk)
        in pkxstart (pk\<lparr>p_msg := p_msg pk AND NOT (mask8 i)\<rparr>) (cntl_byte pk i) None
      else if p_state pk AND DOWN \<noteq> 0 then Inr pk
      else if bstate AND (B_READY OR B_SENT) \<noteq> 0 then
        let cntl = of_nat (0x80 + p_pr pk + 8 * x) OR (if bstate AND B_SHORT \<noteq> 0 then 0x40 else 0) in
        (case pkxstart (pk\<lparr>p_nxtps := next_seq x\<rparr>) cntl (Some x) of
           Inl e \<Rightarrow> Inl e
         | Inr pk \<Rightarrow> Inr (pk\<lparr>p_os := (p_os pk)[x := bstate OR B_SENT], p_state := p_state pk AND NOT RXMIT\<rparr>))
      else Inr (pk\<lparr>p_state := (if p_xcount pk \<noteq> 0 then p_state pk OR WAITO else p_state pk AND NOT WAITO)\<rparr>))"

text \<open>\<open>pksack\<close> frees the packets up to \<open>p_rpr\<close>; the loop makes \<open>p_rpr - p_ps\<close> turns modulo 8.\<close>

fun sack_loop :: "nat \<Rightarrow> nat \<Rightarrow> pack \<Rightarrow> pack" where
  "sack_loop 0 x pk = pk"
| "sack_loop (Suc k) x pk =
     (let x = next_seq x in
      sack_loop k x
        (if p_os pk ! x AND B_SENT \<noteq> 0
         then pk\<lparr>Connodata := 0, p_os := (p_os pk)[x := B_NULL], p_state := p_state pk AND NOT WAITO,
                 p_xcount := p_xcount pk - 1, p_ps := x\<rparr>
         else pk))"

definition pksack :: "pack \<Rightarrow> pack" where
  "pksack pk = sack_loop ((p_rpr pk + 8 - p_ps pk) mod 8) (p_ps pk) pk"

section \<open>Input\<close>

text \<open>A control message.\<close>

definition pkcntl :: "8 word \<Rightarrow> pack \<Rightarrow> pkerr + pack" where
  "pkcntl c pk =
     (let val = unat (c AND 7); cntl = unat (drop_bit 3 c AND 7);
          finish = (\<lambda>pk. if p_msg pk \<noteq> 0 then pkoutput pk else Inr pk) in
      if c AND 0xC0 \<noteq> 0 then Inr pk
      else if cntl = INITB then
        let pk = pk\<lparr>p_xsize := pksizes ! (val + 1), p_lpsize := val + 1\<rparr> in
        if p_state pk AND LIVE \<noteq> 0 then finish (pk\<lparr>p_msg := p_msg pk OR M_INITC\<rparr>)
        else
          let pk = pk\<lparr>p_state := p_state pk OR INITb\<rparr> in
          if p_state pk AND INITa = 0 then finish pk
          else finish (pk\<lparr>p_rmsg := p_rmsg pk AND NOT M_INITA, p_msg := p_msg pk OR M_INITC\<rparr>)
      else if cntl = INITC then
        let pk = (if p_state pk AND INITab = INITab
                  then pk\<lparr>p_state := LIVE, p_rmsg := p_rmsg pk AND NOT M_INITB\<rparr>
                  else pk\<lparr>p_msg := p_msg pk OR M_INITB\<rparr>)
        in finish (if val \<noteq> 0 then pk\<lparr>p_swindow := val\<rparr> else pk)
      else if cntl = INITA then
        finish (if val \<noteq> 0
                then pk\<lparr>p_state := p_state pk OR INITa, p_msg := p_msg pk OR M_INITB,
                        p_rmsg := p_rmsg pk OR M_INITB, p_swindow := val\<rparr>
                else pk)
      else if cntl = RJ then
        finish (pksack (pk\<lparr>p_state := p_state pk OR RXMIT, p_msg := p_msg pk OR M_RR, p_rpr := val\<rparr>))
      else if cntl = RR then finish (pksack (pk\<lparr>p_rpr := val\<rparr>))
      else if cntl = CLOSE then Inr (pk\<lparr>p_state := DOWN + RCLOSE\<rparr>)
      else finish pk)"

text \<open>Reading bytes from the line: \<open>None\<close> in the result is an alarm.\<close>

fun get_bytes :: "nat \<Rightarrow> event list \<Rightarrow> pkerr + (cstr option \<times> event list)" where
  "get_bytes 0 es = Inr (Some [], es)"
| "get_bytes (Suc n) [] = Inl PkFail"
| "get_bytes (Suc n) (Alarm # es) = Inr (None, es)"
| "get_bytes (Suc n) (Byte c # es) =
     (case get_bytes n es of
        Inl e \<Rightarrow> Inl e
      | Inr (b, es) \<Rightarrow> Inr (map_option (\<lambda>s. c # s) b, es))"

definition pkcget :: "nat \<Rightarrow> pack \<Rightarrow> pkerr + (cstr option \<times> pack)" where
  "pkcget n pk =
     (case get_bytes n (line_in pk) of
        Inl e \<Rightarrow> Inl e
      | Inr (None, es) \<Rightarrow> Inr (None, pk\<lparr>line_in := es, Ntimeout := Ntimeout pk + 1\<rparr>)
      | Inr (Some s, es) \<Rightarrow> Inr (Some s, pk\<lparr>line_in := es\<rparr>))"

definition free_ib :: "nat \<Rightarrow> pack \<Rightarrow> pack" where
  "free_ib x pk = pk\<lparr>p_ipool := p_ib pk ! x # p_ipool pk, p_is := (p_is pk)[x := 0]\<rparr>"

text \<open>A data packet in the buffer \<open>bp\<close> goes to a free slot, or back to the pool.\<close>

definition pkdata :: "8 word \<Rightarrow> 16 word \<Rightarrow> nat \<Rightarrow> pack \<Rightarrow> pkerr + pack" where
  "pkdata c h bp pk =
     (if p_state pk AND DRAINO \<noteq> 0 \<or> p_state pk AND LIVE = 0 then
        (case pkoutput (pk\<lparr>p_msg := p_msg pk OR p_rmsg pk\<rparr>) of
           Inl e \<Rightarrow> Inl e
         | Inr pk \<Rightarrow> Inr (pk\<lparr>p_ipool := bp # p_ipool pk\<rparr>))
      else
        (case List.find (\<lambda>x. p_is pk ! x = 0) (map (\<lambda>i. (p_pr pk + 8 - i) mod 8) [0..<7]) of
           None \<Rightarrow> Inr (pk\<lparr>p_ipool := bp # p_ipool pk\<rparr>)
         | Some x \<Rightarrow>
             Inr (pk\<lparr>p_imap := p_imap pk OR mask8 x, p_is := (p_is pk)[x := c],
                     p_isum := (p_isum pk)[x := h], p_ib := (p_ib pk)[x := bp]\<rparr>)))"

text \<open>The search for \<open>SYN\<close> and the rest of the header; \<open>None\<close> asks for a retransmission.\<close>

lemma get_bytes_shorter:
  "get_bytes n es = Inr (b, es') \<Longrightarrow> length es' \<le> length es \<and> (n \<noteq> 0 \<longrightarrow> length es' < length es)"
  by (induction n es arbitrary: b es' rule: get_bytes.induct) (fastforce split: sum.splits)+

lemma pkcget_shorter:
  assumes "pkcget n pk = Inr (b, pk')"
  shows "length (line_in pk') \<le> length (line_in pk)" "n \<noteq> 0 \<Longrightarrow> length (line_in pk') < length (line_in pk)"
  using assms get_bytes_shorter [of n "line_in pk"]
  by (auto simp: pkcget_def split: sum.splits option.splits)

function get_header :: "nat \<Rightarrow> pack \<Rightarrow> pkerr + (cstr option \<times> pack)" where
  "get_header noise pk =
     (case pkcget HDRSIZ pk of
        Inl e \<Rightarrow> Inl e
      | Inr (None, pk') \<Rightarrow> Inr (None, pk')
      | Inr (Some p, pk') \<Rightarrow>
          let pp = dropWhile (\<lambda>c. c \<noteq> SYN) p in
          if pp \<noteq> [] then
            (case pkcget (HDRSIZ - length pp) pk' of
               Inl e \<Rightarrow> Inl e
             | Inr (None, pk') \<Rightarrow> Inr (None, pk')
             | Inr (Some q, pk') \<Rightarrow> Inr (Some (pp @ q), pk'))
          else if noise + HDRSIZ > 3 * p_rsize pk' then Inr (None, pk')
          else get_header (noise + HDRSIZ) pk')"
  by pat_completeness auto
termination
  by (relation "measure (\<lambda>(_, pk). length (line_in pk))") (auto dest!: pkcget_shorter(2))

declare get_header.simps [simp del]

definition retransmit :: "pack \<Rightarrow> pkerr + pack" where
  "retransmit pk =
     (let m = p_msg pk OR p_rmsg pk; m = (if m = 0 then M_RR else m)
      in pkoutput (pk\<lparr>p_msg := m, p_state := (if p_state pk AND LIVE = LIVE then p_state pk OR RXMIT
                                              else p_state pk)\<rparr>))"

text \<open>What \<open>pkgetpack\<close> does with a header; \<open>Inr (False, _)\<close> is the jump to \<open>retransmit\<close>.\<close>

definition take_header :: "cstr \<Rightarrow> pack \<Rightarrow> pkerr + (bool \<times> pack)" where
  "take_header p pk =
     (let pk = pk\<lparr>Connodata := Connodata pk + 1\<rparr>;
          k = byte_of (p ! 1); lo = byte_of (p ! 2); hi = byte_of (p ! 3);
          cntl = byte_of (p ! 4); ccntl = byte_of (p ! 5);
          h = (ucast lo OR push_bit 8 (ucast hi) :: 16 word) in
      if ((k XOR lo) XOR hi) XOR cntl \<noteq> ccntl then Inr (True, pk)
      else if k = 9 then
        (if h + scast cntl = CHECK
         then (case pkcntl cntl pk of Inl e \<Rightarrow> Inl e | Inr pk \<Rightarrow> Inr (True, pk))
         else Inr (True, pk\<lparr>p_state := p_state pk OR BADFRAME\<rparr>))
      else if k \<noteq> 0 \<and> (sint k < 0 \<or> sint k > 9) then Inl PkWild
      else if k \<noteq> 0 \<and> pksizes ! unat k \<noteq> p_rsize pk then Inr (True, pk)
      else
        let pk = pksack (pk\<lparr>p_rpr := unat (cntl AND 7)\<rparr>) in
        (case p_ipool pk of
           [] \<Rightarrow> Inr (True, pk)
         | bp # rest \<Rightarrow>
             (case pkcget (p_rsize pk) (pk\<lparr>p_ipool := rest\<rparr>) of
                Inl e \<Rightarrow> Inl e
              | Inr (None, pk) \<Rightarrow> Inr (False, pk)
              | Inr (Some d, pk) \<Rightarrow>
                  (case pkdata cntl h bp (pk\<lparr>p_bufs := (p_bufs pk)[bp := d]\<rparr>) of
                     Inl e \<Rightarrow> Inl e
                   | Inr pk \<Rightarrow> Inr (True, pk\<lparr>Ntimeout := 0\<rparr>)))))"

fun getpack_tries :: "nat \<Rightarrow> pack \<Rightarrow> pkerr + pack" where
  "getpack_tries 0 pk = Inl PkFail"
| "getpack_tries (Suc tries) pk =
     (case get_header 0 pk of
        Inl e \<Rightarrow> Inl e
      | Inr (None, pk) \<Rightarrow>
          (case retransmit pk of Inl e \<Rightarrow> Inl e | Inr pk \<Rightarrow> getpack_tries tries pk)
      | Inr (Some p, pk) \<Rightarrow>
          (case take_header p pk of
             Inl e \<Rightarrow> Inl e
           | Inr (True, pk) \<Rightarrow> Inr pk
           | Inr (False, pk) \<Rightarrow>
               (case retransmit pk of Inl e \<Rightarrow> Inl e | Inr pk \<Rightarrow> getpack_tries tries pk)))"

definition pkgetpack :: "pack \<Rightarrow> pkerr + pack" where
  "pkgetpack pk =
     (if p_state pk AND DOWN \<noteq> 0 \<or> Connodata pk > 20 \<or> Ntimeout pk > 50 then Inl PkFail
      else getpack_tries 10 pk)"

text \<open>No operation but reading touches the input.\<close>

lemma pkxstart_line_in: "pkxstart pk c x = Inr pk' \<Longrightarrow> line_in pk' = line_in pk"
  by (auto simp: pkxstart_def split: option.splits if_splits)

lemma pkoutput_line_in: "pkoutput pk = Inr pk' \<Longrightarrow> line_in pk' = line_in pk"
  by (auto simp: pkoutput_def Let_def split: if_splits sum.splits dest!: pkxstart_line_in)

lemma sack_loop_line_in [simp]: "line_in (sack_loop k x pk) = line_in pk"
  by (induction k x pk rule: sack_loop.induct) (simp_all add: Let_def)

lemma pksack_line_in [simp]: "line_in (pksack pk) = line_in pk"
  by (simp add: pksack_def)

lemma pkcntl_line_in: "pkcntl c pk = Inr pk' \<Longrightarrow> line_in pk' = line_in pk"
  by (auto simp: pkcntl_def Let_def split: if_splits dest!: pkoutput_line_in)

lemma pkdata_line_in: "pkdata c h bp pk = Inr pk' \<Longrightarrow> line_in pk' = line_in pk"
  by (auto simp: pkdata_def split: if_splits sum.splits option.splits dest!: pkoutput_line_in)

lemma retransmit_line_in: "retransmit pk = Inr pk' \<Longrightarrow> line_in pk' = line_in pk"
  by (auto simp: retransmit_def Let_def dest!: pkoutput_line_in)

lemma get_header_cases:
  assumes "get_header noise pk = Inr (b, pk')"
  obtains (alarm) "pkcget HDRSIZ pk = Inr (None, pk')" "b = None"
  | (part) p pk1 pp where "pkcget HDRSIZ pk = Inr (Some p, pk1)" "pp = dropWhile (\<lambda>c. c \<noteq> SYN) p" "pp \<noteq> []"
      "pkcget (HDRSIZ - length pp) pk1 = Inr (None, pk')" "b = None"
  | (full) p pk1 pp q where "pkcget HDRSIZ pk = Inr (Some p, pk1)" "pp = dropWhile (\<lambda>c. c \<noteq> SYN) p" "pp \<noteq> []"
      "pkcget (HDRSIZ - length pp) pk1 = Inr (Some q, pk')" "b = Some (pp @ q)"
  | (noise) p where "pkcget HDRSIZ pk = Inr (Some p, pk')" "b = None"
  | (more) p pk1 where "pkcget HDRSIZ pk = Inr (Some p, pk1)" "dropWhile (\<lambda>c. c \<noteq> SYN) p = []"
      "\<not> noise + HDRSIZ > 3 * p_rsize pk1" "get_header (noise + HDRSIZ) pk1 = Inr (b, pk')"
  using assms unfolding get_header.simps [of noise pk] Let_def
  by (auto split: sum.splits option.splits if_splits simp del: dropWhile_eq_Nil_conv)

lemma get_header_shorter: "get_header noise pk = Inr (b, pk') \<Longrightarrow> length (line_in pk') < length (line_in pk)"
proof (induction noise pk rule: get_header.induct)
  case (1 noise pk)
  from 1(2) show ?case
  proof (cases rule: get_header_cases)
    case (more p pk1)
    have "length (line_in pk') < length (line_in pk1)"
      by (rule 1(1) [OF more(1) refl refl refl]) (use more(2-4) in auto)
    then show ?thesis using pkcget_shorter(2) [OF more(1)] by simp
  qed (use pkcget_shorter in fastforce)+
qed

lemma take_header_shorter: "take_header p pk = Inr (b, pk') \<Longrightarrow> length (line_in pk') \<le> length (line_in pk)"
  unfolding take_header_def Let_def
  by (auto split: if_splits sum.splits option.splits list.splits dest!: pkcntl_line_in pkcget_shorter(1) pkdata_line_in)

lemma getpack_tries_shorter:
  "getpack_tries t pk = Inr pk' \<Longrightarrow> length (line_in pk') < length (line_in pk)"
proof (induction t pk rule: getpack_tries.induct)
  case (2 tries pk)
  from 2(3) obtain b p where h: "get_header 0 pk = Inr (b, p)" by (auto split: sum.splits)
  note sh = get_header_shorter [OF h]
  show ?case
  proof (cases b)
    case None
    with 2(3) h obtain q where "retransmit p = Inr q" "getpack_tries tries q = Inr pk'" by (auto split: sum.splits)
    with 2(1) [OF h _ None] sh None show ?thesis by (fastforce dest: retransmit_line_in)
  next
    case (Some d)
    with 2(3) h obtain c q where t: "take_header d p = Inr (c, q)" by (auto split: sum.splits)
    show ?thesis
    proof (cases c)
      case True
      with 2(3) h t Some sh take_header_shorter [OF t] show ?thesis by auto
    next
      case False
      with 2(3) h t Some obtain q' where "retransmit q = Inr q'" "getpack_tries tries q' = Inr pk'"
        by (auto split: sum.splits)
      with 2(2) [OF h refl Some t refl] sh take_header_shorter [OF t] False show ?thesis
        by (fastforce dest: retransmit_line_in)
    qed
  qed
qed simp

lemma pkgetpack_shorter: "pkgetpack pk = Inr pk' \<Longrightarrow> length (line_in pk') < length (line_in pk)"
  by (auto simp: pkgetpack_def split: if_splits dest: getpack_tries_shorter)

section \<open>Receiving\<close>

text \<open>The wait for input in \<open>pkaccept\<close>.\<close>

function pk_wait :: "pack \<Rightarrow> pkerr + pack" where
  "pk_wait pk =
     (if p_imap pk \<noteq> 0 \<or> p_rcount pk \<noteq> 0 then Inr pk
      else (case pkgetpack pk of Inl e \<Rightarrow> Inl e | Inr pk' \<Rightarrow> pk_wait pk'))"
  by pat_completeness auto
termination
  by (relation "measure (\<lambda>pk. length (line_in pk))") (auto dest: pkgetpack_shorter)

declare pk_wait.simps [simp del]

text \<open>The window as a bit map: \<open>t = (~(-1<<w)) <<x; m = t; m |= t>>8\<close>.\<close>

definition window :: "nat \<Rightarrow> nat \<Rightarrow> 8 word" where
  "window w x =
     (let t = push_bit x (NOT (push_bit w (- 1))) :: 32 word
      in ucast t OR ucast (signed_drop_bit 8 t))"

text \<open>The length bytes of a short packet: how many bytes are missing, as an \<open>int\<close>.\<close>

definition short_cc :: "cstr \<Rightarrow> 32 word" where
  "short_cc buf =
     (let cc = ucast (byte_of (buf ! 0)) :: 32 word in
      if cc AND 0x80 \<noteq> 0 then (cc AND 0x7F) OR push_bit 7 (scast (byte_of (buf ! 1))) else cc)"

text \<open>One newly received buffer in slot \<open>x\<close>; the counts \<open>bad\<close> and \<open>skip\<close> go along.\<close>

definition mark_slot :: "8 word \<Rightarrow> nat \<Rightarrow> pack \<times> nat \<times> nat \<Rightarrow> pack \<times> nat \<times> nat" where
  "mark_slot m x = (\<lambda>(pk, bad, skip).
     let cntl = p_is pk ! x in
     if cntl AND 0x80 = 0 then (free_ib x pk, bad + 1, skip)
     else
       let pk = pk\<lparr>p_is := (p_is pk)[x := NOT (B_COPY OR B_MARK)]\<rparr>;
           h = (chksum (p_bufs pk ! (p_ib pk ! x)) (p_rsize pk) XOR ucast cntl) + p_isum pk ! x;
           seq = unat (drop_bit 3 cntl AND 7) in
       if h \<noteq> CHECK then (free_ib x pk, bad + 1, skip)
       else if m AND mask8 seq = 0 \<or> p_is pk ! seq AND (B_COPY OR B_MARK) \<noteq> 0 then
         (free_ib x (pk\<lparr>p_msg := p_msg pk OR M_RR\<rparr>), bad, skip + 1)
       else
         let pk = (if x \<noteq> seq
                   then pk\<lparr>p_ib := (p_ib pk)[x := p_ib pk ! seq, seq := p_ib pk ! x],
                           p_is := (p_is pk)[x := p_is pk ! seq]\<rparr>
                   else pk);
             short = (cntl AND B_SHORT \<noteq> 0);
             cc = (if short then short_cc (p_bufs pk ! (p_ib pk ! seq)) else 0)
         in (pk\<lparr>p_is := (p_is pk)[seq := (if short then B_MARK + B_SHORT else B_MARK)],
                p_isum := (p_isum pk)[seq := ucast (of_nat (p_rsize pk) - cc)]\<rparr>, bad, skip))"

fun mark_slots :: "8 word \<Rightarrow> 8 word \<Rightarrow> nat list \<Rightarrow> pack \<times> nat \<times> nat \<Rightarrow> pack \<times> nat \<times> nat" where
  "mark_slots imask m [] st = st"
| "mark_slots imask m (x # xs) st =
     mark_slots imask m xs (if imask AND mask8 x = 0 then st else mark_slot m x st)"

text \<open>The second scan, in the order of the sequence numbers of the window; \<open>gap\<close> is \<open>t \<ge> 0\<close>.\<close>

definition mark_copy :: "nat \<Rightarrow> pack \<Rightarrow> pack" where
  "mark_copy x pk =
     pk\<lparr>p_is := (p_is pk)[x := (if p_is pk ! x AND B_MARK \<noteq> 0 then p_is pk ! x OR B_COPY else p_is pk ! x)]\<rparr>"

fun copy_slots :: "nat list \<Rightarrow> bool \<Rightarrow> nat \<Rightarrow> nat \<Rightarrow> pack \<Rightarrow> nat \<times> nat \<times> pack" where
  "copy_slots [] gap accept skip pk = (accept, skip, pk)"
| "copy_slots (x # xs) gap accept skip pk =
     (let pk = mark_copy x pk in
      if p_is pk ! x AND B_COPY \<noteq> 0 then
        (if gap then copy_slots xs gap accept (skip + 1) (free_ib x pk)
         else copy_slots xs gap (accept + 1) skip pk)
      else copy_slots xs True accept skip pk)"

text \<open>\<open>pkaccept\<close>. The second scan stops at the end of the window, which \<open>p_rwindow < 8\<close> assures.\<close>

definition pkaccept :: "pack \<Rightarrow> pkerr + (nat \<times> pack)" where
  "pkaccept pk0 =
     (case pk_wait pk0 of
        Inl e \<Rightarrow> Inl e
      | Inr pk \<Rightarrow>
          let m = window (p_rwindow pk) (next_seq (p_pr pk0));
              (pk, bad, skip) = mark_slots (p_imap pk) m [0..<8] (pk\<lparr>p_imap := 0\<rparr>, 0, 0);
              xs = takeWhile (\<lambda>x. m AND mask8 x \<noteq> 0) (map (\<lambda>i. (p_pr pk + 1 + i) mod 8) [0..<8]);
              (accept, skip, pk) = copy_slots xs False 0 skip pk;
              msg = p_msg pk OR (if bad \<noteq> 0 then M_RJ else 0) OR (if skip \<noteq> 0 then M_RR else 0)
          in Inr (accept, pk\<lparr>p_msg := msg, p_rcount := int accept\<rparr>))"

lemma free_ib_simps [simp]:
  "line_in (free_ib x pk) = line_in pk" "p_imap (free_ib x pk) = p_imap pk"
  "p_pr (free_ib x pk) = p_pr pk" "p_rsize (free_ib x pk) = p_rsize pk"
  "p_bufs (free_ib x pk) = p_bufs pk" "p_ib (free_ib x pk) = p_ib pk"
  by (simp_all add: free_ib_def)

lemma mark_slot_frame [simp]:
  "line_in (fst (mark_slot m x st)) = line_in (fst st)" "p_imap (fst (mark_slot m x st)) = p_imap (fst st)"
  "p_pr (fst (mark_slot m x st)) = p_pr (fst st)" "p_rsize (fst (mark_slot m x st)) = p_rsize (fst st)"
  "p_bufs (fst (mark_slot m x st)) = p_bufs (fst st)"
  by (cases st; simp add: mark_slot_def Let_def)+

lemma mark_slots_frame [simp]:
  "line_in (fst (mark_slots imask m xs st)) = line_in (fst st)"
  "p_imap (fst (mark_slots imask m xs st)) = p_imap (fst st)"
  "p_pr (fst (mark_slots imask m xs st)) = p_pr (fst st)"
  "p_rsize (fst (mark_slots imask m xs st)) = p_rsize (fst st)"
  "p_bufs (fst (mark_slots imask m xs st)) = p_bufs (fst st)"
  by (induction imask m xs st rule: mark_slots.induct) simp_all

lemma mark_copy_frame [simp]:
  "line_in (mark_copy x pk) = line_in pk" "p_imap (mark_copy x pk) = p_imap pk"
  "p_bufs (mark_copy x pk) = p_bufs pk" "p_pr (mark_copy x pk) = p_pr pk"
  by (simp_all add: mark_copy_def)

lemma copy_slots_frame [simp]:
  "line_in (snd (snd (copy_slots xs gap a k pk))) = line_in pk"
  "p_imap (snd (snd (copy_slots xs gap a k pk))) = p_imap pk"
  "p_bufs (snd (snd (copy_slots xs gap a k pk))) = p_bufs pk"
  "p_pr (snd (snd (copy_slots xs gap a k pk))) = p_pr pk"
  by (induction xs gap a k pk rule: copy_slots.induct) (simp_all add: Let_def)

lemma pk_wait_shorter:
  "pk_wait pk = Inr pk' \<Longrightarrow> length (line_in pk') \<le> length (line_in pk) \<and>
     (p_imap pk = 0 \<longrightarrow> p_rcount pk = 0 \<longrightarrow> length (line_in pk') < length (line_in pk))"
proof (induction pk rule: pk_wait.induct)
  case (1 pk)
  show ?case
  proof (cases "p_imap pk \<noteq> 0 \<or> p_rcount pk \<noteq> 0")
    case True
    with 1(2) show ?thesis by (auto simp: pk_wait.simps [of pk])
  next
    case False
    with 1(2) obtain p where p: "pkgetpack pk = Inr p" "pk_wait p = Inr pk'"
      by (auto simp: pk_wait.simps [of pk] split: sum.splits)
    with 1(1) [OF False p] pkgetpack_shorter [OF p(1)] show ?thesis by simp
  qed
qed

lemma pkaccept_form:
  assumes "pkaccept pk0 = Inr (n, pk')"
  obtains pk m pk1 bad skip xs skip' pk2 msg where "pk_wait pk0 = Inr pk"
    "m = window (p_rwindow pk) (next_seq (p_pr pk0))"
    "mark_slots (p_imap pk) m [0..<8] (pk\<lparr>p_imap := 0\<rparr>, 0, 0) = (pk1, bad, skip)"
    "xs = takeWhile (\<lambda>x. m AND mask8 x \<noteq> 0) (map (\<lambda>i. (p_pr pk1 + 1 + i) mod 8) [0..<8])"
    "copy_slots xs False 0 skip pk1 = (n, skip', pk2)"
    "pk' = pk2\<lparr>p_msg := msg, p_rcount := int n\<rparr>"
  using assms by (auto simp: pkaccept_def Let_def split: sum.splits prod.splits)

lemma pkaccept_shorter:
  assumes "pkaccept pk = Inr (n, pk')"
  shows "length (line_in pk') \<le> length (line_in pk)" "p_imap pk' = 0" "p_rcount pk' = int n"
    "p_imap pk = 0 \<Longrightarrow> p_rcount pk = 0 \<Longrightarrow> length (line_in pk') < length (line_in pk)"
proof -
  obtain p m pk1 bad skip xs skip' pk2 msg where f: "pk_wait pk = Inr p"
      "mark_slots (p_imap p) m [0..<8] (p\<lparr>p_imap := 0\<rparr>, 0, 0) = (pk1, bad, skip)"
      "copy_slots xs False 0 skip pk1 = (n, skip', pk2)" "pk' = pk2\<lparr>p_msg := msg, p_rcount := int n\<rparr>"
    using pkaccept_form [OF assms] by metis
  have "line_in pk1 = line_in p" "p_imap pk1 = 0"
    using mark_slots_frame(1,2) [of "p_imap p" m "[0..<8]" "(p\<lparr>p_imap := 0\<rparr>, 0, 0)"] f(2) by simp_all
  then have "line_in pk' = line_in p" "p_imap pk' = 0" "p_rcount pk' = int n"
    using copy_slots_frame(1,2) [of xs False 0 skip pk1] f(3,4) by simp_all
  with pk_wait_shorter [OF f(1)] show "length (line_in pk') \<le> length (line_in pk)" "p_imap pk' = 0"
    "p_rcount pk' = int n"
    "p_imap pk = 0 \<Longrightarrow> p_rcount pk = 0 \<Longrightarrow> length (line_in pk') < length (line_in pk)" by auto
qed

text \<open>The loop \<open>while (pkaccept() == 0)\<close> of \<open>pkread\<close>.\<close>

function accept_loop :: "pack \<Rightarrow> pkerr + pack" where
  "accept_loop pk =
     (case pkaccept pk of
        Inl e \<Rightarrow> Inl e
      | Inr (n, pk') \<Rightarrow> if n = 0 then accept_loop pk' else Inr pk')"
  by pat_completeness auto
termination
proof (relation "measure (\<lambda>pk. 2 * length (line_in pk) + (if p_imap pk \<noteq> 0 \<or> p_rcount pk \<noteq> 0 then 1 else 0))", goal_cases)
  case (2 pk x n pk')
  then show ?case using pkaccept_shorter [of pk n pk'] by auto
qed simp

declare accept_loop.simps [simp del]

text \<open>The loop of \<open>pkread\<close>; \<open>xfr\<close> says whether a packet has been read.\<close>

function read_loop :: "nat \<Rightarrow> bool \<Rightarrow> pack \<Rightarrow> pkerr + (cstr \<times> pack)" where
  "read_loop icount xfr pk =
     (if icount = 0 then Inr ([], pk)
      else
        let x = next_seq (p_pr pk); is = p_is pk ! x; cc = min (sint (p_isum pk ! x)) (int icount);
            buf = p_bufs pk ! (p_ib pk ! x);
            cp = (if is AND B_RESID \<noteq> 0 then p_rptr pk
                  else if is AND B_SHORT \<noteq> 0 then (if byte_of (buf ! 0) AND 0x80 \<noteq> 0 then 2 else 1) else 0) in
        if is AND B_COPY = 0 then Inr ([], pk)
        else if cc = 0 \<and> xfr then Inr ([], pk)
        else if cc < 0 \<or> cc > 0 \<and> cp + nat cc > length buf then Inl PkWild
        else
          let data = take (nat cc) (drop cp buf);
              left = p_isum pk ! x - of_int cc;
              pk = pk\<lparr>p_isum := (p_isum pk)[x := left]\<rparr>;
              pk = (if left = 0
                    then (free_ib x pk)\<lparr>p_pr := x, p_rcount := p_rcount pk - 1, p_msg := p_msg pk OR M_RR\<rparr>
                    else pk\<lparr>p_rptr := cp + nat cc, p_is := (p_is pk)[x := is OR B_RESID]\<rparr>) in
          if cc \<le> 0 then Inr (data, pk)
          else (case read_loop (icount - nat cc) True pk of
                  Inl e \<Rightarrow> Inl e
                | Inr (d, pk) \<Rightarrow> Inr (data @ d, pk)))"
  by pat_completeness auto
termination
  by (relation "measure (\<lambda>(n, _). n)") auto

declare read_loop.simps [simp del]

definition pkread :: "nat \<Rightarrow> pack \<Rightarrow> pkerr + (cstr \<times> pack)" where
  "pkread icount pk =
     (case accept_loop pk of
        Inl e \<Rightarrow> Inl e
      | Inr pk \<Rightarrow>
          (case read_loop icount False (pk\<lparr>Connodata := 0\<rparr>) of
             Inl e \<Rightarrow> Inl e
           | Inr (d, pk) \<Rightarrow> (case pkoutput pk of Inl e \<Rightarrow> Inl e | Inr pk \<Rightarrow> Inr (d, pk))))"

section \<open>Sending\<close>

text \<open>The two waits of \<open>pkwrite\<close>: for room in the window and for the slot.\<close>

function room_wait :: "pack \<Rightarrow> pkerr + pack" where
  "room_wait pk =
     (if p_xcount pk \<ge> int (p_swindow pk) then
        (case pkoutput pk of
           Inl e \<Rightarrow> Inl e
         | Inr pk' \<Rightarrow> (case pkgetpack pk' of Inl e \<Rightarrow> Inl e | Inr pk'' \<Rightarrow> room_wait pk''))
      else Inr pk)"
  by pat_completeness auto
termination
  by (relation "measure (\<lambda>pk. length (line_in pk))") (auto dest!: pkgetpack_shorter pkoutput_line_in)

declare room_wait.simps [simp del]

function slot_wait :: "nat \<Rightarrow> pack \<Rightarrow> pkerr + pack" where
  "slot_wait x pk =
     (if p_os pk ! x \<noteq> B_NULL then
        (case pkgetpack pk of Inl e \<Rightarrow> Inl e | Inr pk' \<Rightarrow> slot_wait x pk')
      else Inr pk)"
  by pat_completeness auto
termination
  by (relation "measure (\<lambda>(_, pk). length (line_in pk))") (auto dest!: pkgetpack_shorter)

declare slot_wait.simps [simp del]

text \<open>A new output buffer: \<open>mal n\<close> is what \<open>malloc\<close> leaves in a block of \<open>n\<close> characters.\<close>

definition out_buffer :: "(nat \<Rightarrow> cstr) \<Rightarrow> nat \<Rightarrow> cstr \<Rightarrow> cstr" where
  "out_buffer mal xsize ibuf =
     (let cc = min (length ibuf) xsize; fc = xsize - cc;
          head = (if length ibuf < xsize
                  then (if fc > 127 then [chr (fc mod 128 + 128), chr (fc div 128)] else [chr fc])
                  else [])
      in head @ take cc ibuf @ drop (length head + cc) (mal xsize))"

definition write_packet :: "(nat \<Rightarrow> cstr) \<Rightarrow> cstr \<Rightarrow> pack \<Rightarrow> pkerr + pack" where
  "write_packet mal ibuf pk =
     (case room_wait pk of
        Inl e \<Rightarrow> Inl e
      | Inr pk \<Rightarrow>
          let x = next_seq (p_pscopy pk) in
          case slot_wait x pk of
            Inl e \<Rightarrow> Inl e
          | Inr pk \<Rightarrow>
              let buf = out_buffer mal (p_xsize pk) ibuf;
                  partial = (if length ibuf < p_xsize pk then B_SHORT else 0)
              in pkoutput (pk\<lparr>p_pscopy := x, p_xcount := p_xcount pk + 1, p_ob := (p_ob pk)[x := buf],
                              p_osum := (p_osum pk)[x := chksum buf (p_xsize pk)],
                              p_os := (p_os pk)[x := B_READY + partial]\<rparr>))"

text \<open>The loop over the data. A packet size of 0, which \<open>pksizes\<close> does not hold, would make it endless.\<close>

function write_loop :: "(nat \<Rightarrow> cstr) \<Rightarrow> cstr \<Rightarrow> pack \<Rightarrow> pkerr + pack" where
  "write_loop mal ibuf pk =
     (case write_packet mal ibuf pk of
        Inl e \<Rightarrow> Inl e
      | Inr pk' \<Rightarrow>
          let rest = drop (p_xsize pk') ibuf in
          if rest = [] then Inr pk'
          else if length rest < length ibuf then write_loop mal rest pk' else Inl PkFail)"
  by pat_completeness auto
termination
  by (relation "measure (\<lambda>(_, s, _). length s)") auto

declare write_loop.simps [simp del]

text \<open>\<open>!pk->p_state&LIVE\<close> is \<open>(!pk->p_state)&LIVE\<close>.\<close>

definition c_not :: "16 word \<Rightarrow> 16 word" where
  "c_not w = (if w = 0 then 1 else 0)"

definition pkwrite :: "(nat \<Rightarrow> cstr) \<Rightarrow> cstr \<Rightarrow> pack \<Rightarrow> pkerr + (int \<times> pack)" where
  "pkwrite mal ibuf pk =
     (if p_state pk AND DOWN \<noteq> 0 \<or> c_not (p_state pk) AND LIVE \<noteq> 0 then Inr (- 1, pk)
      else (case write_loop mal ibuf pk of Inl e \<Rightarrow> Inl e | Inr pk \<Rightarrow> Inr (int (length ibuf), pk)))"

section \<open>Opening and closing\<close>

definition pkreset :: "pack \<Rightarrow> pack" where
  "pkreset pk = pk\<lparr>p_ps := 0, p_pr := 0, p_rpr := 0, p_nxtps := 1\<rparr>"

text \<open>The windows and packet size of the protocol string after \<open>sscanf\<close>, when it has options.\<close>

definition clamp_windows :: "int \<Rightarrow> nat" where
  "clamp_windows w = (if w < 1 then 7 else if w > 7 then 7 else nat w)"

definition clamp_size :: "int \<Rightarrow> nat" where
  "clamp_size n = (if n < 32 then 64 else if n > 4096 then 64 else nat n)"

definition pk_params :: "bool \<Rightarrow> (int \<times> int) option \<Rightarrow> int \<Rightarrow> nat \<times> int" where
  "pk_params proto_g opt packsize =
     (let (w, n) = (case opt of Some (w, n) \<Rightarrow> (clamp_windows w, int (clamp_size n)) | None \<Rightarrow> (7, packsize))
      in (w, if proto_g \<and> n > 128 then 128 else n))"

definition new_pack :: "nat \<Rightarrow> nat \<Rightarrow> event list \<Rightarrow> pack" where
  "new_pack windows psize input =
     \<lparr>p_state = 0, p_rsize = psize, p_xsize = psize, p_lpsize = 0, p_rwindow = windows, p_swindow = windows,
      p_msg = M_INITA, p_rmsg = M_INITA, p_ps = 0, p_pr = 0, p_rpr = 0, p_nxtps = 0, p_pscopy = 0,
      p_xcount = 0, p_rcount = 0, p_imap = 0, p_os = replicate 8 0, p_ob = replicate 8 [],
      p_osum = replicate 8 0, p_is = replicate 8 0, p_ib = replicate 8 0, p_isum = replicate 8 0,
      p_ipool = rev [0..<windows], p_bufs = replicate windows [], p_rptr = 0, Connodata = 0, Ntimeout = 0,
      line_in = input, line_out = []\<rparr>"

text \<open>The initial synchronization: at most \<open>PKMAXSTMSG\<close> packets.\<close>

fun sync_loop :: "nat \<Rightarrow> pack \<Rightarrow> pkerr + pack option" where
  "sync_loop 0 pk = Inr None"
| "sync_loop (Suc i) pk =
     (case pkgetpack pk of
        Inl e \<Rightarrow> Inl e
      | Inr pk \<Rightarrow> if p_state pk AND LIVE \<noteq> 0 then Inr (Some pk) else sync_loop i pk)"

definition pkopen :: "nat \<Rightarrow> nat \<Rightarrow> event list \<Rightarrow> pkerr + pack option" where
  "pkopen windows psize input =
     (case pkoutput (new_pack windows psize input) of
        Inl e \<Rightarrow> Inl e
      | Inr pk \<Rightarrow>
          (case sync_loop 40 pk of
             Inl e \<Rightarrow> Inl e
           | Inr None \<Rightarrow> Inr None
           | Inr (Some pk) \<Rightarrow> Inr (Some (pkreset pk))))"

text \<open>\<open>pkclose\<close>: \<open>flush_loop\<close> and \<open>bye_loop\<close> send what is left; the result has the input buffers
  that are freed, for the check against the window.\<close>

fun flush_loop :: "nat \<Rightarrow> pack \<Rightarrow> pkerr + pack" where
  "flush_loop 0 pk = Inr pk"
| "flush_loop (Suc i) pk =
     (if p_xcount pk \<noteq> 0 \<and> p_state pk AND LIVE \<noteq> 0 \<and> p_state pk AND (RCLOSE + DOWN) = 0
      then (case pkoutput pk of Inl e \<Rightarrow> Inl e | Inr pk \<Rightarrow> flush_loop i pk)
      else Inr pk)"

fun bye_loop :: "nat \<Rightarrow> pack \<Rightarrow> pkerr + pack" where
  "bye_loop 0 pk = Inr pk"
| "bye_loop (Suc i) pk =
     (if p_state pk AND RCLOSE = 0
      then (case pkoutput (pk\<lparr>p_msg := M_CLOSE\<rparr>) of Inl e \<Rightarrow> Inl e | Inr pk \<Rightarrow> bye_loop i pk)
      else Inr pk)"

definition used_slots :: "pack \<Rightarrow> nat list" where
  "used_slots pk = filter (\<lambda>x. p_is pk ! x \<noteq> B_NULL) [0..<8]"

definition pkclose :: "pack \<Rightarrow> pkerr + (pack \<times> nat list)" where
  "pkclose pk =
     (case flush_loop 2 (pk\<lparr>p_state := p_state pk OR DRAINO\<rparr>) of
        Inl e \<Rightarrow> Inl e
      | Inr pk \<Rightarrow>
          (case bye_loop 2 (pk\<lparr>p_state := p_state pk OR DOWN\<rparr>) of
             Inl e \<Rightarrow> Inl e
           | Inr pk \<Rightarrow> Inr (pk, map (\<lambda>x. p_ib pk ! x) (used_slots pk) @ p_ipool pk)))"

end
