(* ===== verification/PkSafe.thy ===== *)
theory PkSafe
  imports Pk
begin

text \<open>
  What the packet driver keeps in order: every input buffer is in the pool or in one slot, and the
  count of active output buffers is the number of slots in use, at most the seven of the largest
  window. The operations of a client are the step relation \<open>pk_step\<close>; \<open>pk_reachable\<close> are the
  states that opening, reading and writing lead to.
\<close>

section \<open>The two halves of the state\<close>

definition rx :: "pack \<Rightarrow> 8 word list \<times> nat list \<times> 16 word list \<times> nat list \<times> cstr list \<times> 8 word" where
  "rx pk = (p_is pk, p_ib pk, p_isum pk, p_ipool pk, p_bufs pk, p_imap pk)"

definition tx :: "pack \<Rightarrow> 8 word list \<times> int \<times> nat \<times> nat \<times> nat \<times> nat" where
  "tx pk = (p_os pk, p_xcount pk, p_ps pk, p_rpr pk, p_pscopy pk, p_swindow pk)"

lemmas frame_defs = rx_def tx_def

text \<open>\<open>owned P pk\<close> are the slots that hold a buffer; those in \<open>P\<close> are marked in the map of new input.\<close>

definition owned :: "nat set \<Rightarrow> pack \<Rightarrow> nat set" where
  "owned P pk = {x. x < 8 \<and> (p_is pk ! x \<noteq> 0 \<or> x \<in> P)}"

definition bufs_ok :: "nat set \<Rightarrow> pack \<Rightarrow> bool" where
  "bufs_ok P pk \<longleftrightarrow>
     length (p_is pk) = 8 \<and> length (p_ib pk) = 8 \<and> length (p_isum pk) = 8 \<and>
     inj_on (\<lambda>x. p_ib pk ! x) (owned P pk) \<and> distinct (p_ipool pk) \<and>
     (\<forall>x \<in> owned P pk. p_ib pk ! x \<notin> set (p_ipool pk) \<and> p_ib pk ! x < length (p_bufs pk)) \<and>
     (\<forall>b \<in> set (p_ipool pk). b < length (p_bufs pk))"

definition pending :: "pack \<Rightarrow> nat set" where
  "pending pk = {x. bit (p_imap pk) x}"

definition count_used :: "8 word list \<Rightarrow> int" where
  "count_used os = int (length (filter (\<lambda>w. w \<noteq> 0) os))"

definition tx_ok :: "pack \<Rightarrow> bool" where
  "tx_ok pk \<longleftrightarrow> length (p_os pk) = 8 \<and> p_ps pk < 8 \<and> p_rpr pk < 8 \<and> p_nxtps pk < 8 \<and> p_pscopy pk < 8 \<and>
     p_swindow pk \<le> 7 \<and> p_xcount pk = count_used (p_os pk) \<and> p_xcount pk \<le> 7"

lemma next_seq_less [simp]: "next_seq x < 8"
  by (simp add: next_seq_def)

lemma count_used_simps [simp]:
  "count_used [] = 0" "count_used (w # os) = (if w \<noteq> 0 then 1 else 0) + count_used os"
  by (simp_all add: count_used_def)

lemma count_used_set:
  "x < length os \<Longrightarrow> count_used (os[x := w]) =
     count_used os + (if w \<noteq> 0 then 1 else 0) - (if os ! x \<noteq> 0 then 1 else 0)"
proof (induction os arbitrary: x)
  case (Cons a os)
  then show ?case by (cases x) auto
qed simp

section \<open>Output keeps the receiving half\<close>

lemma pkxstart_frame: "pkxstart pk c s = Inr pk' \<Longrightarrow> rx pk' = rx pk \<and> tx pk' = tx pk \<and> p_nxtps pk' = p_nxtps pk \<and>
    p_pr pk' = p_pr pk \<and> p_rsize pk' = p_rsize pk \<and> p_xsize pk' = p_xsize pk \<and> p_rwindow pk' = p_rwindow pk"
  by (auto simp: pkxstart_def frame_defs split: option.splits if_splits)

lemma pkoutput_cases:
  assumes "pkoutput pk = Inr pk'"
  obtains (same) s n m l c where
      "pk' = pk\<lparr>p_state := s, p_nxtps := n, p_msg := m, line_out := l, Connodata := c\<rparr>"
      "n = p_nxtps pk \<or> n = next_seq (p_rpr pk)"
  | (sent) s x l c where
      "pk' = pk\<lparr>p_state := s, p_nxtps := next_seq x, line_out := l, Connodata := c,
                p_os := (p_os pk)[x := p_os pk ! x OR B_SENT]\<rparr>"
      "p_os pk ! x AND (B_READY OR B_SENT) \<noteq> 0" "x = p_nxtps pk \<or> x = next_seq (p_rpr pk)"
proof -
  define p where "p = (if p_state pk AND RXMIT \<noteq> 0 then pk\<lparr>p_nxtps := next_seq (p_rpr pk)\<rparr> else pk)"
  define n where "n = (if p_state pk AND RXMIT \<noteq> 0 then next_seq (p_rpr pk) else p_nxtps pk)"
  have p: "p = pk\<lparr>p_nxtps := n\<rparr>" by (simp add: p_def n_def)
  have n: "n = p_nxtps pk \<or> n = next_seq (p_rpr pk)" by (simp add: n_def)
  let ?x = "p_nxtps p" and ?b = "p_os p ! p_nxtps p"
  note o = assms [unfolded pkoutput_def Let_def p_def [symmetric]]
  consider (msg) "p_msg p \<noteq> 0 \<and> (p_msg p AND NOT M_RR \<noteq> 0 \<or> ?b AND B_READY = 0)"
    | (data) "\<not> (p_msg p \<noteq> 0 \<and> (p_msg p AND NOT M_RR \<noteq> 0 \<or> ?b AND B_READY = 0))" "p_state p AND DOWN = 0"
        "?b AND (B_READY OR B_SENT) \<noteq> 0"
    | (none) "\<not> (p_msg p \<noteq> 0 \<and> (p_msg p AND NOT M_RR \<noteq> 0 \<or> ?b AND B_READY = 0))"
        "p_state p AND DOWN \<noteq> 0 \<or> ?b AND (B_READY OR B_SENT) = 0"
    by blast
  then show thesis
  proof cases
    case msg
    with o have "pk' = p\<lparr>p_msg := p_msg p AND NOT (mask8 (low_bit (p_msg p))),
        line_out := line_out p @ header 9 (CHECK - scast (cntl_byte p (low_bit (p_msg p)))) (cntl_byte p (low_bit (p_msg p)))\<rparr>"
      by (simp add: pkxstart_def)
    with same [where s = "p_state pk" and n = n and c = "Connodata pk"] n show thesis by (simp add: p)
  next
    case data
    then obtain q where q: "pk' = q\<lparr>p_os := (p_os q)[?x := ?b OR B_SENT], p_state := p_state q AND NOT RXMIT\<rparr>"
        "pkxstart (p\<lparr>p_nxtps := next_seq ?x\<rparr>)
           (of_nat (0x80 + p_pr p + 8 * ?x) OR (if ?b AND B_SHORT \<noteq> 0 then 0x40 else 0)) (Some ?x) = Inr q"
      using o by (simp only: if_True if_False) (auto split: sum.splits)
    from q(2) obtain l where "q = p\<lparr>p_nxtps := next_seq ?x, line_out := l, Connodata := 0\<rparr>"
      by (auto simp: pkxstart_def split: if_splits)
    with q(1) sent [where s = "p_state p AND NOT RXMIT" and x = n and l = l and c = 0] n data(3) show thesis by (simp add: p)
  next
    case none
    then have "pk' = p\<lparr>p_state := p_state pk'\<rparr>" using o by (auto split: if_splits)
    then obtain s where "pk' = p\<lparr>p_state := s\<rparr>" ..
    with same [where s = s and n = n and m = "p_msg pk" and l = "line_out pk" and c = "Connodata pk"] n show thesis by (simp add: p)
  qed
qed

lemma pkoutput_rx: "pkoutput pk = Inr pk' \<Longrightarrow> rx pk' = rx pk"
  by (erule pkoutput_cases) (simp_all add: rx_def)

lemma or_sent: "(w :: 8 word) AND (B_READY OR B_SENT) \<noteq> 0 \<Longrightarrow> w \<noteq> 0 \<and> w OR B_SENT \<noteq> 0"
proof
  show "w OR B_SENT \<noteq> 0"
  proof
    assume "w OR B_SENT = 0"
    then have "bit (w OR B_SENT) 1 = bit (0 :: 8 word) 1" by simp
    then show False by (simp add: bit_or_iff bit_1_0)
  qed
qed auto

lemma pkoutput_tx:
  assumes "pkoutput pk = Inr pk'" "tx_ok pk"
  shows "tx_ok pk'"
  using assms(1)
proof (cases rule: pkoutput_cases)
  case (same s n m l c)
  with assms(2) show ?thesis by (auto simp: tx_ok_def)
next
  case (sent s x l c)
  then have "x < 8" using assms(2) by (auto simp: tx_ok_def)
  with sent or_sent [OF sent(2)] assms(2) show ?thesis by (simp add: tx_ok_def count_used_set)
qed

section \<open>Acknowledgements and control messages\<close>

lemma sack_loop_rx [simp]: "rx (sack_loop k x pk) = rx pk"
  by (induction k x pk rule: sack_loop.induct) (simp_all add: Let_def rx_def)

lemma pksack_rx [simp]: "rx (pksack pk) = rx pk"
  by (simp add: pksack_def)

lemma sent_used: "(w :: 8 word) AND B_SENT \<noteq> 0 \<Longrightarrow> w \<noteq> 0"
  by auto

lemma sack_loop_tx: "tx_ok pk \<Longrightarrow> tx_ok (sack_loop k x pk)"
proof (induction k x pk rule: sack_loop.induct)
  case (2 k x pk)
  let ?x = "next_seq x"
  have "tx_ok (pk\<lparr>Connodata := 0, p_os := (p_os pk)[?x := B_NULL], p_state := p_state pk AND NOT WAITO,
      p_xcount := p_xcount pk - 1, p_ps := ?x\<rparr>)" if "p_os pk ! ?x AND B_SENT \<noteq> 0"
    using 2(2) sent_used [OF that] by (simp add: tx_ok_def count_used_set)
  with 2 show ?case by (simp add: Let_def)
qed simp

lemma pksack_tx: "tx_ok pk \<Longrightarrow> tx_ok (pksack pk)"
  by (simp add: pksack_def sack_loop_tx)

lemma low3: "unat ((c :: 8 word) AND 7) < 8"
proof -
  have "c AND 7 = take_bit 3 c" using take_bit_eq_mask [of 3 c] by (simp add: mask_eq_exp_minus_1)
  then show ?thesis using take_bit_nat_less_exp [of 3 "unat c"] by (simp add: unsigned_take_bit_eq)
qed

lemma tx_ok_irrelevant [simp]:
  "tx_ok (pk\<lparr>p_state := s\<rparr>) = tx_ok pk" "tx_ok (pk\<lparr>p_msg := m\<rparr>) = tx_ok pk" "tx_ok (pk\<lparr>p_rmsg := m\<rparr>) = tx_ok pk"
  "tx_ok (pk\<lparr>p_xsize := n\<rparr>) = tx_ok pk" "tx_ok (pk\<lparr>p_lpsize := n\<rparr>) = tx_ok pk"
  "tx_ok (pk\<lparr>Connodata := n\<rparr>) = tx_ok pk" "tx_ok (pk\<lparr>Ntimeout := n\<rparr>) = tx_ok pk"
  "tx_ok (pk\<lparr>line_in := es\<rparr>) = tx_ok pk" "tx_ok (pk\<lparr>p_ipool := l\<rparr>) = tx_ok pk"
  "tx_ok (pk\<lparr>p_bufs := bs\<rparr>) = tx_ok pk" "tx_ok (pk\<lparr>p_is := is\<rparr>) = tx_ok pk" "tx_ok (pk\<lparr>p_ib := l\<rparr>) = tx_ok pk"
  "tx_ok (pk\<lparr>p_isum := hs\<rparr>) = tx_ok pk" "tx_ok (pk\<lparr>p_imap := m8\<rparr>) = tx_ok pk"
  "tx_ok (pk\<lparr>p_rcount := i\<rparr>) = tx_ok pk" "tx_ok (pk\<lparr>p_pr := n\<rparr>) = tx_ok pk" "tx_ok (pk\<lparr>p_rptr := n\<rparr>) = tx_ok pk"
  by (simp_all add: tx_ok_def)

lemma tx_ok_set [simp]:
  "tx_ok pk \<Longrightarrow> n < 8 \<Longrightarrow> tx_ok (pk\<lparr>p_rpr := n\<rparr>)" "tx_ok pk \<Longrightarrow> n < 8 \<Longrightarrow> tx_ok (pk\<lparr>p_swindow := n\<rparr>)"
  by (simp_all add: tx_ok_def)

lemma rx_irrelevant [simp]:
  "rx (pk\<lparr>p_state := s\<rparr>) = rx pk" "rx (pk\<lparr>p_msg := m\<rparr>) = rx pk" "rx (pk\<lparr>p_rmsg := m\<rparr>) = rx pk"
  "rx (pk\<lparr>p_xsize := n\<rparr>) = rx pk" "rx (pk\<lparr>p_lpsize := n\<rparr>) = rx pk" "rx (pk\<lparr>p_rpr := n\<rparr>) = rx pk"
  "rx (pk\<lparr>p_swindow := n\<rparr>) = rx pk" "rx (pk\<lparr>Connodata := n\<rparr>) = rx pk" "rx (pk\<lparr>Ntimeout := n\<rparr>) = rx pk"
  "rx (pk\<lparr>line_in := es\<rparr>) = rx pk" "rx (pk\<lparr>p_pscopy := n\<rparr>) = rx pk" "rx (pk\<lparr>p_xcount := i\<rparr>) = rx pk"
  "rx (pk\<lparr>p_ob := bs\<rparr>) = rx pk" "rx (pk\<lparr>p_osum := hs\<rparr>) = rx pk" "rx (pk\<lparr>p_os := is\<rparr>) = rx pk"
  "rx (pk\<lparr>p_rcount := i\<rparr>) = rx pk" "rx (pk\<lparr>p_pr := n\<rparr>) = rx pk" "rx (pk\<lparr>p_rptr := n\<rparr>) = rx pk"
  by (simp_all add: rx_def)

text \<open>A control message ends in \<open>pkoutput\<close> or leaves the line as it is, in a state that differs from
  the one before in the transmitting half only.\<close>

lemma pkcntl_rx: "pkcntl c pk = Inr pk' \<Longrightarrow> rx pk' = rx pk"
  unfolding pkcntl_def Let_def by (auto split: if_splits dest!: pkoutput_rx)

lemma pkcntl_tx:
  assumes "pkcntl c pk = Inr pk'" "tx_ok pk"
  shows "tx_ok pk'"
  using assms low3 [of c] unfolding pkcntl_def Let_def
  by (auto split: if_splits dest!: pkoutput_tx intro!: pksack_tx)

lemma retransmit_rx: "retransmit pk = Inr pk' \<Longrightarrow> rx pk' = rx pk"
  unfolding retransmit_def Let_def by (auto dest!: pkoutput_rx)

lemma retransmit_tx: "retransmit pk = Inr pk' \<Longrightarrow> tx_ok pk \<Longrightarrow> tx_ok pk'"
  unfolding retransmit_def Let_def by (auto dest!: pkoutput_tx)

section \<open>The input buffers\<close>

lemma bufs_ok_rx: "rx pk' = rx pk \<Longrightarrow> bufs_ok P pk' = bufs_ok P pk"
  and pending_rx: "rx pk' = rx pk \<Longrightarrow> pending pk' = pending pk"
  by (simp_all add: rx_def bufs_ok_def owned_def pending_def)

lemma owned_mono: "Q \<subseteq> P \<Longrightarrow> owned Q pk \<subseteq> owned P pk"
  by (auto simp: owned_def)

lemma bufs_ok_mono: "bufs_ok P pk \<Longrightarrow> Q \<subseteq> P \<Longrightarrow> bufs_ok Q pk"
  using owned_mono [of Q P pk] by (auto simp: bufs_ok_def inj_on_def subset_eq)

lemma owned_less: "x \<in> owned P pk \<Longrightarrow> x < 8"
  by (simp add: owned_def)

lemma free_ib_ok:
  assumes "bufs_ok P pk" "x \<in> owned P pk"
  shows "bufs_ok (P - {x}) (free_ib x pk)"
proof -
  have o: "owned (P - {x}) (free_ib x pk) = owned P pk - {x}"
    using assms by (auto simp: owned_def free_ib_def bufs_ok_def nth_list_update)
  show ?thesis
    using assms unfolding bufs_ok_def o by (auto simp: free_ib_def inj_on_def dest: owned_less)
qed

lemma bufs_ok_subset:
  assumes "bufs_ok P pk" "owned Q pk' \<subseteq> owned P pk" "p_ib pk' = p_ib pk" "p_ipool pk' = p_ipool pk"
    and "p_bufs pk' = p_bufs pk" "length (p_is pk') = 8" "length (p_isum pk') = 8"
  shows "bufs_ok Q pk'"
  using assms inj_on_subset [of "\<lambda>x. p_ib pk ! x" "owned P pk" "owned Q pk'"]
  by (simp add: bufs_ok_def subset_eq)

lemma bufs_ok_is:
  assumes "bufs_ok P pk" "x \<in> owned P pk"
  shows "bufs_ok P (pk\<lparr>p_is := (p_is pk)[x := w]\<rparr>)"
proof -
  have "owned P (pk\<lparr>p_is := (p_is pk)[x := w]\<rparr>) \<subseteq> owned P pk"
    using assms by (auto simp: owned_def bufs_ok_def nth_list_update split: if_splits)
  with assms show ?thesis by (intro bufs_ok_subset [OF assms(1)]) (simp_all add: bufs_ok_def)
qed

lemma bufs_ok_irrelevant [simp]:
  "bufs_ok P (pk\<lparr>p_msg := m\<rparr>) = bufs_ok P pk" "bufs_ok P (pk\<lparr>p_rcount := i\<rparr>) = bufs_ok P pk"
  "bufs_ok P (pk\<lparr>p_imap := m\<rparr>) = bufs_ok P pk" "bufs_ok P (pk\<lparr>p_pr := n\<rparr>) = bufs_ok P pk"
  "bufs_ok P (pk\<lparr>p_rptr := n\<rparr>) = bufs_ok P pk" "bufs_ok P (pk\<lparr>Connodata := n\<rparr>) = bufs_ok P pk"
  "bufs_ok P (pk\<lparr>p_isum := (p_isum pk)[x := h]\<rparr>) = bufs_ok P pk"
  by (simp_all add: bufs_ok_def owned_def)

text \<open>Exchanging the buffers of two slots, where the first is in use.\<close>

lemma bufs_ok_swap:
  assumes "bufs_ok P pk" "x \<in> owned P pk" "y < 8" "x \<noteq> y" "w \<noteq> 0"
  shows "bufs_ok (P - {x}) (pk\<lparr>p_ib := (p_ib pk)[x := p_ib pk ! y, y := p_ib pk ! x],
    p_is := (p_is pk)[x := p_is pk ! y, y := w]\<rparr>)" (is "bufs_ok _ ?pk")
proof -
  have len: "length (p_is pk) = 8" "length (p_ib pk) = 8" "x < 8"
    using assms(1,2) by (simp_all add: bufs_ok_def owned_def)
  define f where "f z = (if z = x then y else if z = y then x else z)" for z
  have nth: "p_ib ?pk ! z = p_ib pk ! f z" if "z < 8" for z
    using that len assms(3,4) by (auto simp: f_def nth_list_update)
  have own: "f z \<in> owned P pk" if "z \<in> owned (P - {x}) ?pk" for z
    using that len assms(2-4) by (auto simp: owned_def f_def nth_list_update split: if_splits)
  have inj: "f z = f z' \<Longrightarrow> z = z'" for z z' by (auto simp: f_def split: if_splits)
  have "inj_on (\<lambda>z. p_ib ?pk ! z) (owned (P - {x}) ?pk)"
  proof (rule inj_onI)
    fix z z'
    assume a: "z \<in> owned (P - {x}) ?pk" "z' \<in> owned (P - {x}) ?pk" "p_ib ?pk ! z = p_ib ?pk ! z'"
    then have "p_ib pk ! f z = p_ib pk ! f z'" using nth owned_less by metis
    with own a assms(1) show "z = z'" by (metis (no_types, lifting) bufs_ok_def inj inj_on_def)
  qed
  moreover have "p_ib ?pk ! z \<notin> set (p_ipool pk) \<and> p_ib ?pk ! z < length (p_bufs pk)"
    if "z \<in> owned (P - {x}) ?pk" for z
    using own [OF that] nth [OF owned_less [OF that]] assms(1) unfolding bufs_ok_def by metis
  ultimately show ?thesis using assms(1) unfolding bufs_ok_def by simp
qed

lemma mark_slot_ok:
  assumes "bufs_ok P (fst st)" "x \<in> P" "x < 8"
  shows "bufs_ok (P - {x}) (fst (mark_slot m x st))"
proof -
  obtain pk bad skip where st: "st = (pk, bad, skip)" by (cases st)
  have own: "x \<in> owned P pk" using assms(2,3) by (simp add: owned_def)
  have ok: "bufs_ok P pk" using assms(1) st by simp
  define cntl where "cntl = p_is pk ! x"
  define p where "p = pk\<lparr>p_is := (p_is pk)[x := NOT (B_COPY OR B_MARK)]\<rparr>"
  have p: "bufs_ok P p" "x \<in> owned P p"
    using bufs_ok_is [OF ok own] assms(2,3) by (simp_all add: p_def owned_def)
  define seq where "seq = unat (drop_bit 3 cntl AND 7)"
  have seq: "seq < 8" by (simp add: seq_def low3)
  define good where "good \<longleftrightarrow> (chksum (p_bufs p ! (p_ib p ! x)) (p_rsize p) XOR ucast cntl) + p_isum p ! x = CHECK \<and>
      \<not> (m AND mask8 seq = 0 \<or> p_is p ! seq AND (B_COPY OR B_MARK) \<noteq> 0)"
  show ?thesis
  proof (cases "cntl AND 0x80 = 0")
    case True
    then have "fst (mark_slot m x st) = free_ib x pk" by (simp add: mark_slot_def st Let_def cntl_def)
    then show ?thesis using free_ib_ok [OF ok own] by simp
  next
    case live: False
    show ?thesis
    proof (cases good)
      case False
      have "fst (mark_slot m x st) = free_ib x p \<or> fst (mark_slot m x st) = free_ib x (p\<lparr>p_msg := p_msg p OR M_RR\<rparr>)"
        using live False unfolding mark_slot_def st prod.case Let_def cntl_def [symmetric] p_def [symmetric] seq_def [symmetric]
        by (auto simp: good_def)
      moreover have "x \<in> owned P (p\<lparr>p_msg := w\<rparr>)" for w using assms(2,3) by (simp add: owned_def)
      ultimately show ?thesis using free_ib_ok [of P] p by (metis bufs_ok_irrelevant(1))
    next
      case True
      define w :: "8 word" where "w = (if cntl AND B_SHORT \<noteq> 0 then B_MARK + B_SHORT else B_MARK)"
      have w: "w \<noteq> 0" by (simp add: w_def)
      define q where "q = (if x \<noteq> seq then p\<lparr>p_ib := (p_ib p)[x := p_ib p ! seq, seq := p_ib p ! x],
          p_is := (p_is p)[x := p_is p ! seq]\<rparr> else p)"
      have "\<exists>h. fst (mark_slot m x st) = q\<lparr>p_is := (p_is q)[seq := w], p_isum := (p_isum q)[seq := h]\<rparr>"
        using live True unfolding mark_slot_def st prod.case Let_def cntl_def [symmetric] p_def [symmetric] seq_def [symmetric]
        by (auto simp: good_def q_def w_def)
      then obtain h where h: "fst (mark_slot m x st) = q\<lparr>p_is := (p_is q)[seq := w], p_isum := (p_isum q)[seq := h]\<rparr>" ..
      have "bufs_ok (P - {x}) (q\<lparr>p_is := (p_is q)[seq := w]\<rparr>)"
      proof (cases "x = seq")
        case True
        then show ?thesis
          using bufs_ok_is [OF p(1), of x w] p(2) bufs_ok_mono [of P _ "P - {x}"] by (auto simp: q_def)
      next
        case False
        then show ?thesis using bufs_ok_swap [OF p seq False w] by (simp add: q_def)
      qed
      then show ?thesis
        unfolding h using bufs_ok_irrelevant(7) [of "P - {x}" "q\<lparr>p_is := (p_is q)[seq := w]\<rparr>" seq h] by simp
    qed
  qed
qed

lemma mask8_bit: "x < 8 \<Longrightarrow> m AND mask8 x = 0 \<longleftrightarrow> \<not> bit m x"
proof -
  assume x: "x < 8"
  have "bit (m AND mask8 x) n \<longleftrightarrow> n = x \<and> bit m x" for n
    unfolding mask8_def bit_and_iff bit_push_bit_iff bit_1_iff using x by auto
  then have b: "bit (m AND mask8 x) n \<longleftrightarrow> n = x \<and> bit m x" for n .
  show ?thesis
  proof
    assume "m AND mask8 x = 0"
    then show "\<not> bit m x" using b [of x] by simp
  next
    assume "\<not> bit m x"
    then show "m AND mask8 x = 0" using b by (intro bit_eqI) simp
  qed
qed

lemma mark_slots_ok:
  assumes "bufs_ok P (fst st)" "distinct xs" "\<forall>x \<in> set xs. x < 8 \<and> (imask AND mask8 x \<noteq> 0 \<longrightarrow> x \<in> P)"
  shows "bufs_ok (P - set xs) (fst (mark_slots imask m xs st))"
  using assms
proof (induction imask m xs st arbitrary: P rule: mark_slots.induct)
  case (2 imask m x xs st)
  show ?case
  proof (cases "imask AND mask8 x = 0")
    case True
    with 2(1) [of "P - {x}"] 2(2-4) bufs_ok_mono [of P "fst st" "P - {x}"] show ?thesis
      by (auto simp: Diff_insert2 [symmetric] insert_commute)
  next
    case False
    with 2(2,4) have "bufs_ok (P - {x}) (fst (mark_slot m x st))" by (intro mark_slot_ok) auto
    with 2(1) [of "P - {x}"] 2(3,4) False show ?thesis by (auto simp: Diff_insert2 [symmetric])
  qed
qed simp

lemma copy_slots_ok:
  assumes "bufs_ok {} pk" "\<forall>x \<in> set xs. x < 8"
  shows "bufs_ok {} (snd (snd (copy_slots xs gap a k pk)))"
  using assms
proof (induction xs gap a k pk rule: copy_slots.induct)
  case (2 x xs gap a k pk)
  let ?p = "mark_copy x pk"
  have len: "length (p_is pk) = 8" "x < 8" using 2(4,5) by (simp_all add: bufs_ok_def)
  have p: "bufs_ok {} ?p"
  proof (cases "p_is pk ! x AND B_MARK \<noteq> 0")
    case True
    then have "p_is pk ! x \<noteq> 0" by (intro notI) simp
    then have "x \<in> owned {} pk" using len by (simp add: owned_def)
    then show ?thesis using bufs_ok_is [OF 2(4)] by (simp add: mark_copy_def)
  next
    case False
    with 2(4) show ?thesis by (simp add: mark_copy_def)
  qed
  have f: "bufs_ok {} (free_ib x ?p)" if "p_is ?p ! x AND B_COPY \<noteq> 0"
  proof -
    have "p_is ?p ! x \<noteq> 0" using that by (intro notI) simp
    then show ?thesis using free_ib_ok [OF p, of x] len by (simp add: owned_def)
  qed
  show ?case using 2(1-3) [OF refl] 2(5) p f by (simp add: Let_def)
qed simp

lemma free_ib_sending [simp]:
  "p_os (free_ib x pk) = p_os (pk)"
  "p_xcount (free_ib x pk) = p_xcount (pk)"
  "p_ps (free_ib x pk) = p_ps (pk)"
  "p_rpr (free_ib x pk) = p_rpr (pk)"
  "p_pscopy (free_ib x pk) = p_pscopy (pk)"
  "p_swindow (free_ib x pk) = p_swindow (pk)"
  "p_nxtps (free_ib x pk) = p_nxtps (pk)"
  by (simp_all add: free_ib_def)

lemma mark_slot_sending [simp]:
  "p_os (fst (mark_slot m x st)) = p_os (fst st)"
  "p_xcount (fst (mark_slot m x st)) = p_xcount (fst st)"
  "p_ps (fst (mark_slot m x st)) = p_ps (fst st)"
  "p_rpr (fst (mark_slot m x st)) = p_rpr (fst st)"
  "p_pscopy (fst (mark_slot m x st)) = p_pscopy (fst st)"
  "p_swindow (fst (mark_slot m x st)) = p_swindow (fst st)"
  "p_nxtps (fst (mark_slot m x st)) = p_nxtps (fst st)"
  by (cases st; simp add: mark_slot_def Let_def)+

lemma mark_slots_sending [simp]:
  "p_os (fst (mark_slots imask m xs st)) = p_os (fst st)"
  "p_xcount (fst (mark_slots imask m xs st)) = p_xcount (fst st)"
  "p_ps (fst (mark_slots imask m xs st)) = p_ps (fst st)"
  "p_rpr (fst (mark_slots imask m xs st)) = p_rpr (fst st)"
  "p_pscopy (fst (mark_slots imask m xs st)) = p_pscopy (fst st)"
  "p_swindow (fst (mark_slots imask m xs st)) = p_swindow (fst st)"
  "p_nxtps (fst (mark_slots imask m xs st)) = p_nxtps (fst st)"
  by (induction imask m xs st rule: mark_slots.induct) simp_all

lemma mark_copy_sending [simp]:
  "p_os (mark_copy x pk) = p_os (pk)"
  "p_xcount (mark_copy x pk) = p_xcount (pk)"
  "p_ps (mark_copy x pk) = p_ps (pk)"
  "p_rpr (mark_copy x pk) = p_rpr (pk)"
  "p_pscopy (mark_copy x pk) = p_pscopy (pk)"
  "p_swindow (mark_copy x pk) = p_swindow (pk)"
  "p_nxtps (mark_copy x pk) = p_nxtps (pk)"
  by (simp_all add: mark_copy_def)

lemma copy_slots_sending [simp]:
  "p_os (snd (snd (copy_slots xs gap a k pk))) = p_os (pk)"
  "p_xcount (snd (snd (copy_slots xs gap a k pk))) = p_xcount (pk)"
  "p_ps (snd (snd (copy_slots xs gap a k pk))) = p_ps (pk)"
  "p_rpr (snd (snd (copy_slots xs gap a k pk))) = p_rpr (pk)"
  "p_pscopy (snd (snd (copy_slots xs gap a k pk))) = p_pscopy (pk)"
  "p_swindow (snd (snd (copy_slots xs gap a k pk))) = p_swindow (pk)"
  "p_nxtps (snd (snd (copy_slots xs gap a k pk))) = p_nxtps (pk)"
  by (induction xs gap a k pk rule: copy_slots.induct) (simp_all add: Let_def)

lemma mark_slots_tx [simp]: "tx_ok (fst (mark_slots imask m xs st)) = tx_ok (fst st)"
  and copy_slots_tx [simp]: "tx_ok (snd (snd (copy_slots xs gap a k pk))) = tx_ok pk"
  and free_ib_tx [simp]: "tx_ok (free_ib x pk) = tx_ok pk"
  by (simp_all add: tx_ok_def)

section \<open>Every operation keeps the order\<close>

definition pk_ok :: "pack \<Rightarrow> bool" where
  "pk_ok pk \<longleftrightarrow> bufs_ok (pending pk) pk \<and> tx_ok pk"

lemma pk_ok_rx: "rx pk' = rx pk \<Longrightarrow> tx_ok pk' \<Longrightarrow> pk_ok pk \<Longrightarrow> pk_ok pk'"
  unfolding pk_ok_def by (metis bufs_ok_rx pending_rx)

lemma pkoutput_ok: "pkoutput pk = Inr pk' \<Longrightarrow> pk_ok pk \<Longrightarrow> pk_ok pk'"
  by (metis pk_ok_def pk_ok_rx pkoutput_rx pkoutput_tx)

lemma retransmit_ok: "retransmit pk = Inr pk' \<Longrightarrow> pk_ok pk \<Longrightarrow> pk_ok pk'"
  by (metis pk_ok_def pk_ok_rx retransmit_rx retransmit_tx)

lemma pkcntl_ok: "pkcntl c pk = Inr pk' \<Longrightarrow> pk_ok pk \<Longrightarrow> pk_ok pk'"
  by (metis pk_ok_def pk_ok_rx pkcntl_rx pkcntl_tx)

lemma pk_ok_irrelevant [simp]:
  "pk_ok (pk\<lparr>p_state := s\<rparr>) = pk_ok pk" "pk_ok (pk\<lparr>p_msg := m\<rparr>) = pk_ok pk"
  "pk_ok (pk\<lparr>Connodata := n\<rparr>) = pk_ok pk" "pk_ok (pk\<lparr>Ntimeout := n\<rparr>) = pk_ok pk"
  "pk_ok (pk\<lparr>line_in := es\<rparr>) = pk_ok pk" "pk_ok (pk\<lparr>p_rcount := i\<rparr>) = pk_ok pk"
  by (simp_all add: pk_ok_def bufs_ok_def owned_def pending_def)

lemma pkcget_ok: "pkcget n pk = Inr (b, pk') \<Longrightarrow> pk_ok pk' = pk_ok pk"
  by (auto simp: pkcget_def split: sum.splits option.splits)

lemma get_header_ok: "get_header noise pk = Inr (b, pk') \<Longrightarrow> pk_ok pk' = pk_ok pk"
proof (induction noise pk rule: get_header.induct)
  case (1 noise pk)
  from 1(2) show ?case
  proof (cases rule: get_header_cases)
    case (more p pk1)
    have "pk_ok pk' = pk_ok pk1"
      by (rule 1(1) [OF more(1) refl refl refl]) (use more(2-4) in auto)
    then show ?thesis using pkcget_ok [OF more(1)] by simp
  qed (use pkcget_ok in fastforce)+
qed

lemma pkdata_ok:
  assumes "pkdata c h bp pk = Inr pk'" "pk_ok pk" "bp < length (p_bufs pk)" "bp \<notin> set (p_ipool pk)"
    and "\<forall>x \<in> owned (pending pk) pk. p_ib pk ! x \<noteq> bp"
  shows "pk_ok pk'"
proof -
  have pool_back: "pk_ok (q\<lparr>p_ipool := bp # p_ipool q\<rparr>)" if "rx q = rx pk" "pk_ok q" for q
  proof -
    have "p_ipool q = p_ipool pk" "p_is q = p_is pk" "p_ib q = p_ib pk" "p_bufs q = p_bufs pk" "p_imap q = p_imap pk"
      using that(1) by (simp_all add: rx_def)
    with that(2) assms(3-5) show ?thesis by (auto simp: pk_ok_def bufs_ok_def owned_def pending_def)
  qed
  show ?thesis
  proof (cases "p_state pk AND DRAINO \<noteq> 0 \<or> p_state pk AND LIVE = 0")
    case True
    then obtain q where q: "pkoutput (pk\<lparr>p_msg := p_msg pk OR p_rmsg pk\<rparr>) = Inr q" "pk' = q\<lparr>p_ipool := bp # p_ipool q\<rparr>"
      using assms(1) by (auto simp: pkdata_def split: sum.splits)
    have "pk_ok q" "rx q = rx pk" using pkoutput_ok [OF q(1)] pkoutput_rx [OF q(1)] assms(2) by simp_all
    then show ?thesis using pool_back q(2) by simp
  next
    case live: False
    show ?thesis
    proof (cases "List.find (\<lambda>x. p_is pk ! x = 0) (map (\<lambda>i. (p_pr pk + 8 - i) mod 8) [0..<7])")
      case None
      then show ?thesis using live assms(1,2) pool_back [of pk] by (auto simp: pkdata_def)
    next
      case (Some x)
      then have "x \<in> set (map (\<lambda>i. (p_pr pk + 8 - i) mod 8) [0..<7])"
        by (auto simp: find_Some_iff)
      then have x: "x < 8" by auto
      have pk': "pk' = pk\<lparr>p_imap := p_imap pk OR mask8 x, p_is := (p_is pk)[x := c],
          p_isum := (p_isum pk)[x := h], p_ib := (p_ib pk)[x := bp]\<rparr>"
        using live Some assms(1) by (auto simp: pkdata_def)
      have ok: "bufs_ok (pending pk) pk" "tx_ok pk" using assms(2) by (simp_all add: pk_ok_def)
      then have len: "length (p_is pk) = 8" "length (p_ib pk) = 8" by (simp_all add: bufs_ok_def)
      have pend: "pending pk' = insert x (pending pk)"
        using x by (auto simp: pk' pending_def mask8_def bit_or_iff bit_push_bit_iff bit_1_iff simp del: push_bit_of_1)
      have own: "owned (pending pk') pk' \<subseteq> insert x (owned (pending pk) pk)"
        using len x by (auto simp: pk' pend [unfolded pk'] owned_def nth_list_update split: if_splits)
      have nth: "p_ib pk' ! y = (if y = x then bp else p_ib pk ! y)" for y using len x by (simp add: pk')
      have "inj_on (\<lambda>y. p_ib pk' ! y) (insert x (owned (pending pk) pk))"
        using ok(1) assms(5) unfolding nth bufs_ok_def by (auto simp: inj_on_def)
      then have "inj_on (\<lambda>y. p_ib pk' ! y) (owned (pending pk') pk')" using own inj_on_subset by blast
      moreover have "p_ib pk' ! y \<notin> set (p_ipool pk) \<and> p_ib pk' ! y < length (p_bufs pk)"
        if "y \<in> owned (pending pk') pk'" for y
        using ok(1) own that assms(3,4) unfolding nth bufs_ok_def by auto
      ultimately have "bufs_ok (pending pk') pk'"
        using ok(1) unfolding bufs_ok_def by (simp add: pk')
      then show ?thesis using ok(2) by (simp add: pk_ok_def pk')
    qed
  qed
qed

lemma take_header_ok:
  assumes "take_header p pk = Inr (b, pk')" "pk_ok pk"
  shows "pk_ok pk'"
proof -
  define q where "q = pk\<lparr>Connodata := Connodata pk + 1\<rparr>"
  define cntl where "cntl = byte_of (p ! 4)"
  define q1 where "q1 = pksack (q\<lparr>p_rpr := unat (cntl AND 7)\<rparr>)"
  have q: "pk_ok q" using assms(2) by (simp add: q_def)
  have q1: "pk_ok q1"
  proof -
    have "tx_ok (q\<lparr>p_rpr := unat (cntl AND 7)\<rparr>)" using q low3 [of cntl] by (simp add: pk_ok_def)
    then have "tx_ok q1" by (simp add: q1_def pksack_tx)
    moreover have "rx q1 = rx q" by (simp add: q1_def)
    ultimately show ?thesis using pk_ok_rx q by blast
  qed
  have data: "pk_ok r" if d: "p_ipool q1 = bp # rest" "pkcget n (q1\<lparr>p_ipool := rest\<rparr>) = Inr (x, q2)"
      "pkdata cntl h bp (q2\<lparr>p_bufs := (p_bufs q2)[bp := d]\<rparr>) = Inr r" for bp rest n x q2 h d r
  proof -
    have "q2 = q1\<lparr>p_ipool := rest, line_in := line_in q2, Ntimeout := Ntimeout q2\<rparr>"
      using d(2) by (auto simp: pkcget_def split: sum.splits option.splits)
    then obtain es nt where q2: "q2 = q1\<lparr>p_ipool := rest, line_in := es, Ntimeout := nt\<rparr>" by blast
    let ?d = "q2\<lparr>p_bufs := (p_bufs q2)[bp := d]\<rparr>"
    have "pk_ok ?d" "bp < length (p_bufs ?d)" "bp \<notin> set (p_ipool ?d)"
        "\<forall>x \<in> owned (pending ?d) ?d. p_ib ?d ! x \<noteq> bp"
      using q1 d(1) by (auto simp: q2 pk_ok_def bufs_ok_def owned_def pending_def)
    then show ?thesis by (rule pkdata_ok [OF d(3)])
  qed
  have rest: "pk_ok q2" if "p_ipool q1 = bp # rest" "pkcget n (q1\<lparr>p_ipool := rest\<rparr>) = Inr (x, q2)" for bp rest n x q2
    using pkcget_ok [OF that(2)] q1 that(1) by (simp add: pk_ok_def bufs_ok_def owned_def pending_def)
  show ?thesis
    using assms(1) q q1 unfolding take_header_def Let_def q_def [symmetric] cntl_def [symmetric] q1_def [symmetric]
    by (auto split: if_splits sum.splits option.splits list.splits dest: pkcntl_ok) (erule (1) rest | erule (2) data)+
qed

lemma getpack_tries_ok: "getpack_tries t pk = Inr pk' \<Longrightarrow> pk_ok pk \<Longrightarrow> pk_ok pk'"
proof (induction t pk rule: getpack_tries.induct)
  case (2 tries pk)
  from 2(3) obtain b p where h: "get_header 0 pk = Inr (b, p)" by (auto split: sum.splits)
  then have p: "pk_ok p" using get_header_ok 2(4) by blast
  show ?case
  proof (cases b)
    case None
    with 2(3) h obtain q where "retransmit p = Inr q" "getpack_tries tries q = Inr pk'" by (auto split: sum.splits)
    with 2(1) [OF h _ None] p None retransmit_ok show ?thesis by blast
  next
    case (Some d)
    with 2(3) h obtain c q where t: "take_header d p = Inr (c, q)" by (auto split: sum.splits)
    note q = take_header_ok [OF t p]
    show ?thesis
    proof (cases c)
      case True
      with 2(3) h t Some q show ?thesis by auto
    next
      case False
      with 2(3) h t Some obtain q' where "retransmit q = Inr q'" "getpack_tries tries q' = Inr pk'"
        by (auto split: sum.splits)
      with 2(2) [OF h refl Some t refl] q False retransmit_ok show ?thesis by blast
    qed
  qed
qed simp

lemma pkgetpack_ok: "pkgetpack pk = Inr pk' \<Longrightarrow> pk_ok pk \<Longrightarrow> pk_ok pk'"
  by (auto simp: pkgetpack_def split: if_splits dest: getpack_tries_ok)

lemma pk_wait_ok: "pk_wait pk = Inr pk' \<Longrightarrow> pk_ok pk \<Longrightarrow> pk_ok pk'"
proof (induction pk rule: pk_wait.induct)
  case (1 pk)
  show ?case
  proof (cases "p_imap pk \<noteq> 0 \<or> p_rcount pk \<noteq> 0")
    case True
    with 1(2,3) show ?thesis by (auto simp: pk_wait.simps [of pk])
  next
    case False
    with 1(2) obtain p where p: "pkgetpack pk = Inr p" "pk_wait p = Inr pk'"
      by (auto simp: pk_wait.simps [of pk] split: sum.splits)
    with 1(1) [OF False p] pkgetpack_ok 1(3) show ?thesis by blast
  qed
qed

lemma pkaccept_ok:
  assumes "pkaccept pk = Inr (n, pk')" "pk_ok pk"
  shows "pk_ok pk'" "pending pk' = {}"
proof -
  obtain p m pk1 bad skip xs skip' pk2 msg where f: "pk_wait pk = Inr p"
      "mark_slots (p_imap p) m [0..<8] (p\<lparr>p_imap := 0\<rparr>, 0, 0) = (pk1, bad, skip)"
      "xs = takeWhile (\<lambda>x. m AND mask8 x \<noteq> 0) (map (\<lambda>i. (p_pr pk1 + 1 + i) mod 8) [0..<8])"
      "copy_slots xs False 0 skip pk1 = (n, skip', pk2)" "pk' = pk2\<lparr>p_msg := msg, p_rcount := int n\<rparr>"
    using pkaccept_form [OF assms(1)] by metis
  have p: "bufs_ok (pending p) p" "tx_ok p" using pk_wait_ok [OF f(1) assms(2)] by (simp_all add: pk_ok_def)
  have "bufs_ok (pending p - set [0..<8]) (fst (mark_slots (p_imap p) m [0..<8] (p\<lparr>p_imap := 0\<rparr>, 0, 0)))"
    by (rule mark_slots_ok) (use p(1) mask8_bit in \<open>auto simp: pending_def\<close>)
  then have "bufs_ok {} pk1" unfolding f(2) using bufs_ok_mono by (metis empty_subsetI fst_conv)
  moreover have "\<forall>x \<in> set xs. x < 8" using f(3) by (auto dest!: set_takeWhileD)
  ultimately have "bufs_ok {} pk2" using copy_slots_ok [of pk1 xs False 0 skip] f(4) by simp
  moreover have "tx_ok pk2"
    using copy_slots_tx [of xs False 0 skip pk1] mark_slots_tx [of "p_imap p" m "[0..<8]" "(p\<lparr>p_imap := 0\<rparr>, 0, 0)"]
      f(2,4) p(2) by simp
  moreover show pend: "pending pk' = {}" using pkaccept_shorter(2) [OF assms(1)] by (simp add: pending_def)
  ultimately show "pk_ok pk'" using f(5) pend unfolding pk_ok_def pend by simp
qed

lemma accept_loop_ok: "accept_loop pk = Inr pk' \<Longrightarrow> pk_ok pk \<Longrightarrow> pk_ok pk' \<and> pending pk' = {}"
proof (induction pk rule: accept_loop.induct)
  case (1 pk)
  from 1(2) obtain n p where p: "pkaccept pk = Inr (n, p)" by (subst (asm) accept_loop.simps) (auto split: sum.splits)
  show ?case
  proof (cases "n = 0")
    case True
    with 1(2) p have "accept_loop p = Inr pk'" by (subst (asm) accept_loop.simps) simp
    with 1(1) [OF p refl True] pkaccept_ok(1) [OF p 1(3)] show ?thesis by blast
  next
    case False
    with 1(2) p have "pk' = p" by (subst (asm) accept_loop.simps) simp
    with pkaccept_ok [OF p 1(3)] show ?thesis by simp
  qed
qed

lemma pk_ok_more [simp]:
  "pk_ok (pk\<lparr>p_pr := n\<rparr>) = pk_ok pk" "pk_ok (pk\<lparr>p_rptr := n\<rparr>) = pk_ok pk"
  "pk_ok (pk\<lparr>p_isum := (p_isum pk)[x := h]\<rparr>) = pk_ok pk"
  by (simp_all add: pk_ok_def bufs_ok_def owned_def pending_def)

lemma read_loop_ok:
  "read_loop n xfr pk = Inr (d, pk') \<Longrightarrow> pk_ok pk \<Longrightarrow> pending pk = {} \<Longrightarrow> pk_ok pk'"
proof (induction n xfr pk arbitrary: d rule: read_loop.induct)
  case (1 n xfr pk)
  let ?x = "next_seq (p_pr pk)"
  define cc where "cc = min (sint (p_isum pk ! ?x)) (int n)"
  define bs where "bs = p_is pk ! ?x"
  define cp where "cp = (if bs AND B_RESID \<noteq> 0 then p_rptr pk
      else if bs AND B_SHORT \<noteq> 0 then (if byte_of (p_bufs pk ! (p_ib pk ! ?x) ! 0) AND 0x80 \<noteq> 0 then 2 else 1) else 0)"
  define left where "left = p_isum pk ! ?x - of_int cc"
  define p where "p = pk\<lparr>p_isum := (p_isum pk)[?x := left]\<rparr>"
  define q where "q = (if left = 0 then (free_ib ?x p)\<lparr>p_pr := ?x, p_rcount := p_rcount p - 1, p_msg := p_msg p OR M_RR\<rparr>
      else p\<lparr>p_rptr := cp + nat cc, p_is := (p_is p)[?x := bs OR B_RESID]\<rparr>)"
  note rl = read_loop.simps [of n xfr pk, unfolded Let_def, folded cc_def bs_def, folded cp_def left_def, folded p_def, folded q_def]
  have len: "length (p_is pk) = 8" using 1(3) by (simp add: pk_ok_def bufs_ok_def)
  have q: "pk_ok q \<and> pending q = {}" if "bs AND B_COPY \<noteq> 0"
  proof -
    have "bs \<noteq> 0" using that by (intro notI) simp
    then have own: "?x \<in> owned (pending p) p" by (simp add: owned_def bs_def p_def)
    have p: "pk_ok p" "pending p = {}" using 1(3,4) by (simp_all add: p_def pending_def)
    show ?thesis
    proof (cases "left = 0")
      case True
      have "bufs_ok (pending p) (free_ib ?x p)"
        using free_ib_ok [of "pending p" p, OF _ own] p by (simp add: pk_ok_def)
      then have "pk_ok (free_ib ?x p)" using p by (simp add: pk_ok_def pending_def)
      with True p show ?thesis by (simp add: q_def pending_def)
    next
      case False
      have "pk_ok (p\<lparr>p_is := (p_is p)[?x := bs OR B_RESID]\<rparr>)"
        using p bufs_ok_is [OF _ own] by (simp add: pk_ok_def pending_def)
      with False p show ?thesis by (simp add: q_def pending_def pk_ok_def bufs_ok_def owned_def)
    qed
  qed
  show ?case
  proof (cases "n = 0 \<or> bs AND B_COPY = 0 \<or> cc = 0 \<and> xfr")
    case True
    with 1(2,3) show ?thesis unfolding rl by (auto split: if_splits)
  next
    case go: False
    then have ok: "\<not> (cc < 0 \<or> cc > 0 \<and> cp + nat cc > length (p_bufs pk ! (p_ib pk ! ?x)))"
      using 1(2) unfolding rl by (auto split: if_splits)
    show ?thesis
    proof (cases "cc \<le> 0")
      case True
      with go ok 1(2) q show ?thesis unfolding rl by (auto split: if_splits)
    next
      case False
      with go ok 1(2) obtain d' where r: "read_loop (n - nat cc) True q = Inr (d', pk')"
        unfolding rl by (auto split: if_splits sum.splits)
      have "pk_ok pk'"
        using 1(1) [of ?x bs cc "p_bufs pk ! (p_ib pk ! ?x)" cp "take (nat cc) (drop cp (p_bufs pk ! (p_ib pk ! ?x)))" left p q d']
          go ok False r q
        by (auto simp: cc_def bs_def cp_def left_def p_def q_def)
      then show ?thesis .
    qed
  qed
qed

lemma pkread_ok:
  assumes "pkread n pk = Inr (d, pk')" "pk_ok pk"
  shows "pk_ok pk'"
proof -
  obtain p q where "accept_loop pk = Inr p" "read_loop n False (p\<lparr>Connodata := 0\<rparr>) = Inr (d, q)" "pkoutput q = Inr pk'"
    using assms(1) by (auto simp: pkread_def split: sum.splits)
  moreover from this(1) assms(2) have "pk_ok p" "pending p = {}" using accept_loop_ok by blast+
  moreover from this have "pending (p\<lparr>Connodata := 0\<rparr>) = {}" by (simp add: pending_def)
  ultimately show ?thesis using read_loop_ok [of n False "p\<lparr>Connodata := 0\<rparr>" d q] pkoutput_ok by simp
qed

section \<open>Waiting sends nothing new\<close>

lemma pkoutput_xcount: "pkoutput pk = Inr pk' \<Longrightarrow> p_xcount pk' = p_xcount pk"
  by (erule pkoutput_cases) simp_all

lemma sack_loop_xcount: "p_xcount (sack_loop k x pk) \<le> p_xcount pk"
proof (induction k x pk rule: sack_loop.induct)
  case (2 k x pk)
  have "p_xcount (if p_os pk ! next_seq x AND B_SENT \<noteq> 0
      then pk\<lparr>Connodata := 0, p_os := (p_os pk)[next_seq x := B_NULL], p_state := p_state pk AND NOT WAITO,
              p_xcount := p_xcount pk - 1, p_ps := next_seq x\<rparr>
      else pk) \<le> p_xcount pk" by simp
  with 2 [OF refl] show ?case by (simp only: sack_loop.simps Let_def)
qed simp

lemma pksack_xcount [simp]: "p_xcount (pksack pk) \<le> p_xcount pk"
  by (simp add: pksack_def sack_loop_xcount)

lemma pkcntl_xcount: "pkcntl c pk = Inr pk' \<Longrightarrow> p_xcount pk' \<le> p_xcount pk"
  using pksack_xcount [of "pk\<lparr>p_rpr := unat (c AND 7)\<rparr>"]
    pksack_xcount [of "pk\<lparr>p_state := p_state pk OR RXMIT, p_msg := p_msg pk OR M_RR, p_rpr := unat (c AND 7)\<rparr>"]
  unfolding pkcntl_def Let_def by (auto split: if_splits dest!: pkoutput_xcount)

lemma pkcget_xcount: "pkcget n pk = Inr (b, pk') \<Longrightarrow> p_xcount pk' = p_xcount pk"
  by (auto simp: pkcget_def split: sum.splits option.splits)

lemma get_header_xcount: "get_header noise pk = Inr (b, pk') \<Longrightarrow> p_xcount pk' = p_xcount pk"
proof (induction noise pk rule: get_header.induct)
  case (1 noise pk)
  from 1(2) show ?case
  proof (cases rule: get_header_cases)
    case (more p pk1)
    have "p_xcount pk' = p_xcount pk1"
      by (rule 1(1) [OF more(1) refl refl refl]) (use more(2-4) in auto)
    then show ?thesis using pkcget_xcount [OF more(1)] by simp
  qed (use pkcget_xcount in fastforce)+
qed

lemma retransmit_xcount: "retransmit pk = Inr pk' \<Longrightarrow> p_xcount pk' = p_xcount pk"
  unfolding retransmit_def Let_def by (auto dest!: pkoutput_xcount)

lemma pkdata_xcount: "pkdata c h bp pk = Inr pk' \<Longrightarrow> p_xcount pk' = p_xcount pk"
  by (auto simp: pkdata_def split: if_splits sum.splits option.splits dest!: pkoutput_xcount)

lemma take_header_xcount: "take_header p pk = Inr (b, pk') \<Longrightarrow> p_xcount pk' \<le> p_xcount pk"
  using pksack_xcount [of "pk\<lparr>Connodata := Connodata pk + 1, p_rpr := unat (byte_of (p ! 4) AND 7)\<rparr>"]
  unfolding take_header_def Let_def
  by (auto split: if_splits sum.splits option.splits list.splits
      dest!: pkcntl_xcount pkcget_xcount pkdata_xcount)

lemma getpack_tries_xcount: "getpack_tries t pk = Inr pk' \<Longrightarrow> p_xcount pk' \<le> p_xcount pk"
proof (induction t pk rule: getpack_tries.induct)
  case (2 tries pk)
  from 2(3) obtain b p where h: "get_header 0 pk = Inr (b, p)" by (auto split: sum.splits)
  note p = get_header_xcount [OF h]
  show ?case
  proof (cases b)
    case None
    with 2(3) h obtain q where "retransmit p = Inr q" "getpack_tries tries q = Inr pk'" by (auto split: sum.splits)
    with 2(1) [OF h _ None] p None retransmit_xcount show ?thesis by fastforce
  next
    case (Some d)
    with 2(3) h obtain c q where t: "take_header d p = Inr (c, q)" by (auto split: sum.splits)
    note q = take_header_xcount [OF t]
    show ?thesis
    proof (cases c)
      case True
      with 2(3) h t Some p q show ?thesis by auto
    next
      case False
      with 2(3) h t Some obtain q' where "retransmit q = Inr q'" "getpack_tries tries q' = Inr pk'"
        by (auto split: sum.splits)
      with 2(2) [OF h refl Some t refl] p q False retransmit_xcount show ?thesis by fastforce
    qed
  qed
qed simp

lemma pkgetpack_xcount: "pkgetpack pk = Inr pk' \<Longrightarrow> p_xcount pk' \<le> p_xcount pk"
  by (auto simp: pkgetpack_def split: if_splits dest: getpack_tries_xcount)

section \<open>Writing\<close>

lemma room_wait_ok: "room_wait pk = Inr pk' \<Longrightarrow> pk_ok pk \<Longrightarrow> pk_ok pk' \<and> p_xcount pk' < int (p_swindow pk')"
proof (induction pk rule: room_wait.induct)
  case (1 pk)
  show ?case
  proof (cases "p_xcount pk \<ge> int (p_swindow pk)")
    case True
    with 1(2) obtain p q where "pkoutput pk = Inr p" "pkgetpack p = Inr q" "room_wait q = Inr pk'"
      by (auto simp: room_wait.simps [of pk] split: sum.splits)
    with 1(1) [OF True] 1(3) pkoutput_ok pkgetpack_ok show ?thesis by blast
  next
    case False
    with 1(2,3) show ?thesis by (auto simp: room_wait.simps [of pk])
  qed
qed

lemma slot_wait_ok:
  "slot_wait x pk = Inr pk' \<Longrightarrow> pk_ok pk \<Longrightarrow> pk_ok pk' \<and> p_xcount pk' \<le> p_xcount pk \<and> p_os pk' ! x = B_NULL"
proof (induction x pk rule: slot_wait.induct)
  case (1 x pk)
  show ?case
  proof (cases "p_os pk ! x \<noteq> B_NULL")
    case True
    with 1(2) obtain p where "pkgetpack pk = Inr p" "slot_wait x p = Inr pk'"
      by (auto simp: slot_wait.simps [of x pk] split: sum.splits)
    with 1(1) [OF True] 1(3) pkgetpack_ok pkgetpack_xcount [of pk p] show ?thesis by fastforce
  next
    case False
    with 1(2,3) show ?thesis by (auto simp: slot_wait.simps [of x pk])
  qed
qed

lemma write_packet_ok:
  assumes "write_packet mal s pk = Inr pk'" "pk_ok pk"
  shows "pk_ok pk'"
proof -
  define x where "x p = next_seq (p_pscopy p)" for p :: pack
  obtain p q where w: "room_wait pk = Inr p" "slot_wait (x p) p = Inr q"
      "pkoutput (q\<lparr>p_pscopy := x p, p_xcount := p_xcount q + 1,
         p_ob := (p_ob q)[x p := out_buffer mal (p_xsize q) s],
         p_osum := (p_osum q)[x p := chksum (out_buffer mal (p_xsize q) s) (p_xsize q)],
         p_os := (p_os q)[x p := B_READY + (if length s < p_xsize q then B_SHORT else 0)]\<rparr>) = Inr pk'"
      (is "pkoutput ?q = _")
    using assms(1) by (auto simp: write_packet_def Let_def x_def split: sum.splits)
  have p: "pk_ok p" "p_xcount p < int (p_swindow p)" using room_wait_ok [OF w(1) assms(2)] by simp_all
  have q: "pk_ok q" "p_xcount q \<le> p_xcount p" "p_os q ! x p = B_NULL"
    using slot_wait_ok [OF w(2) p(1)] by simp_all
  have "p_swindow p \<le> 7" using p(1) by (simp add: pk_ok_def tx_ok_def)
  then have "tx_ok ?q"
    using q p(2) by (simp add: pk_ok_def tx_ok_def count_used_set x_def)
  then have "pk_ok ?q" using q(1) pk_ok_rx [of ?q q] by simp
  then show ?thesis using pkoutput_ok [OF w(3)] by simp
qed

lemma write_loop_ok: "write_loop mal s pk = Inr pk' \<Longrightarrow> pk_ok pk \<Longrightarrow> pk_ok pk'"
proof (induction mal s pk rule: write_loop.induct)
  case (1 mal s pk)
  from 1(2) obtain p where p: "write_packet mal s pk = Inr p" by (auto simp: write_loop.simps [of mal s pk] split: sum.splits)
  note p' = write_packet_ok [OF p 1(3)]
  show ?case
  proof (cases "drop (p_xsize p) s = []")
    case True
    with 1(2) p p' show ?thesis by (auto simp: write_loop.simps [of mal s pk])
  next
    case False
    with 1(2) p have "length (drop (p_xsize p) s) < length s" "write_loop mal (drop (p_xsize p) s) p = Inr pk'"
      by (auto simp: write_loop.simps [of mal s pk] Let_def split: if_splits)
    with 1(1) [OF p refl False] p' show ?thesis by blast
  qed
qed

lemma pkwrite_ok: "pkwrite mal s pk = Inr (n, pk') \<Longrightarrow> pk_ok pk \<Longrightarrow> pk_ok pk'"
  by (auto simp: pkwrite_def split: if_splits sum.splits dest: write_loop_ok)

section \<open>Reachable states\<close>

lemma new_pack_ok: "w \<le> 7 \<Longrightarrow> pk_ok (new_pack w psize input)"
proof -
  assume w: "w \<le> 7"
  have "owned {} (new_pack w psize input) = {}" by (auto simp: owned_def new_pack_def)
  moreover have "pending (new_pack w psize input) = {}" by (simp add: pending_def new_pack_def)
  ultimately show ?thesis
    using w by (simp add: pk_ok_def bufs_ok_def tx_ok_def new_pack_def count_used_def)
qed

lemma sync_loop_ok: "sync_loop i pk = Inr (Some pk') \<Longrightarrow> pk_ok pk \<Longrightarrow> pk_ok pk'"
proof (induction i pk rule: sync_loop.induct)
  case (2 i pk)
  then show ?case by (auto split: sum.splits if_splits dest: pkgetpack_ok)
qed simp

lemma pkreset_ok: "pk_ok pk \<Longrightarrow> pk_ok (pkreset pk)"
  by (simp add: pk_ok_def pkreset_def bufs_ok_def owned_def pending_def tx_ok_def)

lemma pkopen_ok: "pkopen w psize input = Inr (Some pk) \<Longrightarrow> w \<le> 7 \<Longrightarrow> pk_ok pk"
  unfolding pkopen_def
  by (auto split: sum.splits option.splits intro!: pkreset_ok dest!: pkoutput_ok sync_loop_ok simp: new_pack_ok)

inductive pk_step :: "pack \<Rightarrow> pack \<Rightarrow> bool" where
  reads: "pkread n pk = Inr (d, pk') \<Longrightarrow> pk_step pk pk'"
| writes: "pkwrite mal s pk = Inr (n, pk') \<Longrightarrow> pk_step pk pk'"

inductive pk_reachable :: "pack \<Rightarrow> bool" where
  opened: "pkopen w psize input = Inr (Some pk) \<Longrightarrow> 1 \<le> w \<Longrightarrow> w \<le> 7 \<Longrightarrow> pk_reachable pk"
| step: "pk_reachable pk \<Longrightarrow> pk_step pk pk' \<Longrightarrow> pk_reachable pk'"

inductive_cases pk_stepE: "pk_step pk pk'"

lemma pk_reachable_ok: "pk_reachable pk \<Longrightarrow> pk_ok pk"
  by (induction rule: pk_reachable.induct) (auto elim!: pk_stepE dest: pkopen_ok pkread_ok pkwrite_ok)

lemma flush_loop_rx: "flush_loop i pk = Inr pk' \<Longrightarrow> rx pk' = rx pk"
proof (induction i pk rule: flush_loop.induct)
  case (2 i pk)
  then show ?case by (auto split: if_splits sum.splits dest!: pkoutput_rx)
qed simp

lemma bye_loop_rx: "bye_loop i pk = Inr pk' \<Longrightarrow> rx pk' = rx pk"
proof (induction i pk rule: bye_loop.induct)
  case (2 i pk)
  then show ?case by (auto split: if_splits sum.splits dest!: pkoutput_rx)
qed simp

lemma used_slots_owned: "set (used_slots pk) \<subseteq> owned P pk" and used_slots_distinct: "distinct (used_slots pk)"
  by (auto simp: used_slots_def owned_def)

lemma reachable_accounts:
  assumes "pk_reachable pk"
  shows "p_xcount pk = int (length (filter (\<lambda>w. w \<noteq> B_NULL) (p_os pk))) \<and> p_xcount pk \<le> 7 \<and>
    inj_on (\<lambda>x. p_ib pk ! x) (set (used_slots pk)) \<and>
    (\<forall>x \<in> set (used_slots pk). p_ib pk ! x \<notin> set (p_ipool pk)) \<and>
    (\<forall>pk' frees. pkclose pk = Inr (pk', frees) \<longrightarrow> distinct frees)"
proof -
  have ok: "bufs_ok (pending pk) pk" "tx_ok pk" using pk_reachable_ok [OF assms] by (simp_all add: pk_ok_def)
  have inj: "inj_on (\<lambda>x. p_ib pk ! x) (set (used_slots pk))"
    using ok(1) inj_on_subset [OF _ used_slots_owned] unfolding bufs_ok_def by blast
  have out: "\<forall>x \<in> set (used_slots pk). p_ib pk ! x \<notin> set (p_ipool pk)"
    using ok(1) used_slots_owned unfolding bufs_ok_def by blast
  have "distinct frees" if c: "pkclose pk = Inr (pk', frees)" for pk' frees
  proof -
    obtain p q where q: "flush_loop 2 (pk\<lparr>p_state := p_state pk OR DRAINO\<rparr>) = Inr p"
        "bye_loop 2 (p\<lparr>p_state := p_state p OR DOWN\<rparr>) = Inr q"
        "frees = map (\<lambda>x. p_ib q ! x) (used_slots q) @ p_ipool q"
      using c by (auto simp: pkclose_def split: sum.splits)
    have "rx q = rx pk" using flush_loop_rx [OF q(1)] bye_loop_rx [OF q(2)] by simp
    then have "frees = map (\<lambda>x. p_ib pk ! x) (used_slots pk) @ p_ipool pk"
      using q(3) by (simp add: rx_def used_slots_def)
    with inj out ok(1) show ?thesis by (auto simp: distinct_map used_slots_distinct bufs_ok_def)
  qed
  with ok(2) inj out show ?thesis by (simp add: tx_ok_def count_used_def)
qed

end
