(* ===== verification/PkLink.thy ===== *)
theory PkLink
  imports PkSafe
begin

text \<open>
  What passes over a line: the frames that \<open>pkxstart\<close> writes are the frames \<open>pkgetpack\<close> accepts,
  the initial synchronization brings both ends up, and what is written at one end is read at the
  other. The last section shows inputs for which the driver goes wrong.
\<close>

section \<open>Frames\<close>

definition ctl_frame :: "8 word \<Rightarrow> cstr" where
  "ctl_frame c = header 9 (CHECK - scast c) c"

lemma byte_of_char [simp]: "byte_of (char_of8 w) = w"
proof -
  have "unat w < 256" using unsigned_less [of w, where 'a = nat] by simp
  then show ?thesis by (simp add: byte_of_def char_of8_def)
qed

lemma header_length [simp]: "length (header k cw c) = 6"
  by (simp add: header_def Let_def)

lemma header_nth:
  "header k cw c ! 0 = SYN" "byte_of (header k cw c ! 1) = k" "byte_of (header k cw c ! 2) = ucast cw"
  "byte_of (header k cw c ! 3) = ucast (drop_bit 8 cw)" "byte_of (header k cw c ! 4) = c"
  "byte_of (header k cw c ! 5) = ((k XOR ucast cw) XOR ucast (drop_bit 8 cw)) XOR c"
  by (simp_all add: header_def Let_def)

lemma split16: "ucast (ucast (w :: 16 word) :: 8 word) OR push_bit 8 (ucast (ucast (drop_bit 8 w) :: 8 word)) = w"
  by (rule bit_word_eqI) (auto simp: bit_simps)

lemma get_bytes_take: "n = length bs \<Longrightarrow> get_bytes n (map Byte bs @ es) = Inr (Some bs, es)"
  by (induction bs arbitrary: n) auto

lemma pkcget_take:
  "line_in pk = map Byte bs @ es \<Longrightarrow> n = length bs \<Longrightarrow> pkcget n pk = Inr (Some bs, pk\<lparr>line_in := es\<rparr>)"
  by (simp add: pkcget_def get_bytes_take)

lemma get_header_frame:
  assumes "line_in pk = map Byte (header k cw c) @ es"
  shows "get_header noise pk = Inr (Some (header k cw c), pk\<lparr>line_in := es\<rparr>)"
proof -
  obtain t where h: "header k cw c = SYN # t" "length t = 5" by (simp add: header_def Let_def)
  then have d: "dropWhile (\<lambda>x. x \<noteq> SYN) (header k cw c) = header k cw c" "header k cw c \<noteq> []" by simp_all
  have g: "pkcget HDRSIZ pk = Inr (Some (header k cw c), pk\<lparr>line_in := es\<rparr>)" by (rule pkcget_take [OF assms]) simp
  have z: "pkcget 0 p = Inr (Some [], p)" for p by (simp add: pkcget_def)
  show ?thesis by (simp add: get_header.simps [of noise pk] g d z Let_def)
qed

lemma take_header_ctl:
  "take_header (ctl_frame c) pk =
     (case pkcntl c (pk\<lparr>Connodata := Connodata pk + 1\<rparr>) of Inl e \<Rightarrow> Inl e | Inr pk \<Rightarrow> Inr (True, pk))"
  unfolding take_header_def ctl_frame_def header_nth split16 Let_def by simp

text \<open>The driver is ready to read when it is not down and has not seen too much rubbish.\<close>

definition ready :: "pack \<Rightarrow> bool" where
  "ready pk \<longleftrightarrow> p_state pk AND DOWN = 0 \<and> Connodata pk \<le> 20 \<and> Ntimeout pk \<le> 50"

lemma pkgetpack_ctl:
  assumes "ready pk" "line_in pk = map Byte (ctl_frame c) @ es"
  shows "pkgetpack pk = pkcntl c (pk\<lparr>line_in := es, Connodata := Connodata pk + 1\<rparr>)"
proof -
  have "get_header 0 pk = Inr (Some (ctl_frame c), pk\<lparr>line_in := es\<rparr>)"
    using get_header_frame assms(2) by (simp add: ctl_frame_def)
  then have "getpack_tries 10 pk = pkcntl c (pk\<lparr>line_in := es, Connodata := Connodata pk + 1\<rparr>)"
    by (simp add: eval_nat_numeral take_header_ctl split: sum.split)
  then show ?thesis using assms(1) by (auto simp: pkgetpack_def ready_def)
qed

section \<open>The initial synchronization\<close>

text \<open>The three messages of an end with window \<open>w\<close> and packet size \<open>n\<close>.\<close>

definition sync_msgs :: "nat \<Rightarrow> nat \<Rightarrow> 8 word list" where
  "sync_msgs w n = [of_nat (8 * INITA + w), of_nat (8 * INITB + pksize n), of_nat (8 * INITC + w)]"

definition frames :: "8 word list \<Rightarrow> cstr" where
  "frames cs = concat (map ctl_frame cs)"

lemma low_bits [simp]: "low_bit M_INITA = 7" "low_bit M_INITB = 6" "low_bit M_INITC = 5" "low_bit M_RR = 4"
  by code_simp+

lemma mask8s [simp]: "mask8 7 = M_INITA" "mask8 6 = M_INITB" "mask8 5 = M_INITC" "mask8 4 = M_RR"
  by code_simp+

lemma msg_table:
  "\<forall>i \<in> set [0..<8]. \<forall>v \<in> set [0..<8].
     unat (of_nat (8 * i + v) AND 7 :: 8 word) = v \<and> unat (drop_bit 3 (of_nat (8 * i + v)) AND 7 :: 8 word) = i \<and>
     of_nat (8 * i + v) AND (0xC0 :: 8 word) = 0"
  by code_simp

lemma msg_fields:
  assumes "i < 8" "v < 8"
  shows "unat (of_nat (8 * i + v) AND 7 :: 8 word) = v" "unat (drop_bit 3 (of_nat (8 * i + v)) AND 7 :: 8 word) = i"
    "of_nat (8 * i + v) AND (0xC0 :: 8 word) = 0"
  using msg_table assms by (simp_all del: of_nat_add of_nat_mult)

lemma pkoutput_ctl:
  assumes "p_state pk AND RXMIT = 0" "p_msg pk = m" "m \<noteq> 0" "m AND NOT M_RR \<noteq> 0"
  shows "pkoutput pk = Inr (pk\<lparr>p_msg := m AND NOT (mask8 (low_bit m)),
    line_out := line_out pk @ ctl_frame (cntl_byte pk (low_bit m))\<rparr>)"
  using assms by (simp add: pkoutput_def Let_def pkxstart_def ctl_frame_def cntl_byte_def)

lemma sync_start:
  "pkoutput (new_pack w n input) =
     Inr ((new_pack w n input)\<lparr>p_msg := 0, line_out := ctl_frame (sync_msgs w n ! 0)\<rparr>)"
  by (subst pkoutput_ctl [OF _ refl]) (simp_all add: new_pack_def cntl_byte_def sync_msgs_def)

lemma sync_a:
  assumes "p_state pk = 0" "p_msg pk = 0" "0 < w'" "w' < 8"
  shows "pkcntl (of_nat (8 * INITA + w')) pk =
    Inr (pk\<lparr>p_state := INITa, p_rmsg := p_rmsg pk OR M_INITB, p_swindow := w',
            line_out := line_out pk @ ctl_frame (sync_msgs (p_rwindow pk) (p_rsize pk) ! 1)\<rparr>)"
  using msg_fields [of 7 w'] assms unfolding pkcntl_def Let_def
  by (subst pkoutput_ctl [OF _ refl]) (simp_all add: cntl_byte_def sync_msgs_def del: of_nat_add of_nat_mult)

lemma sync_b:
  assumes "p_state pk = INITa" "p_msg pk = 0" "k < 8"
  shows "pkcntl (of_nat (8 * INITB + k)) pk =
    Inr (pk\<lparr>p_state := INITab, p_rmsg := p_rmsg pk AND NOT M_INITA, p_xsize := pksizes ! (k + 1), p_lpsize := k + 1,
            line_out := line_out pk @ ctl_frame (sync_msgs (p_rwindow pk) (p_rsize pk) ! 2)\<rparr>)"
  using msg_fields [of 6 k] assms unfolding pkcntl_def Let_def
  by (subst pkoutput_ctl [OF _ refl]) (simp_all add: cntl_byte_def sync_msgs_def del: of_nat_add of_nat_mult)

lemma sync_c:
  assumes "p_state pk = INITab" "p_msg pk = 0" "0 < w'" "w' < 8"
  shows "pkcntl (of_nat (8 * INITC + w')) pk =
    Inr (pk\<lparr>p_state := LIVE, p_rmsg := p_rmsg pk AND NOT M_INITB, p_swindow := w'\<rparr>)"
  using msg_fields [of 5 w'] assms unfolding pkcntl_def Let_def by (simp del: of_nat_add of_nat_mult)

text \<open>An end that has opened and read \<open>i\<close> packets.\<close>

fun run_sync :: "nat \<Rightarrow> nat \<Rightarrow> nat \<Rightarrow> event list \<Rightarrow> pkerr + pack" where
  "run_sync 0 w n input = pkoutput (new_pack w n input)"
| "run_sync (Suc i) w n input =
     (case run_sync i w n input of Inl e \<Rightarrow> Inl e | Inr pk \<Rightarrow> pkgetpack pk)"

definition packet_sizes :: "nat list" where
  "packet_sizes = [32, 64, 128, 256, 512, 1024, 2048, 4096]"

lemma packet_sizes_table: "\<forall>n \<in> set packet_sizes. pksize n < 8 \<and> pksizes ! (pksize n + 1) = n"
  by (simp add: packet_sizes_def pksize_def pksizes_def halvings.simps)

lemma frames_simps [simp]: "frames [] = []" "frames (c # cs) = ctl_frame c @ frames cs"
  by (simp_all add: frames_def)

text \<open>An end that has come up: window \<open>w\<close> and size \<open>n\<close> its own, \<open>w'\<close> and \<open>n'\<close> the other's.\<close>

definition came_up :: "nat \<Rightarrow> nat \<Rightarrow> nat \<Rightarrow> nat \<Rightarrow> event list \<Rightarrow> pack" where
  "came_up w n w' n' es = (new_pack w n es)\<lparr>p_msg := 0, line_out := frames (sync_msgs w n), Connodata := 3,
     p_state := LIVE, p_rmsg := 0, p_swindow := w', p_xsize := n', p_lpsize := pksize n' + 1\<rparr>"

lemma sync_states:
  assumes "1 \<le> w'" "w' \<le> 7" "n' \<in> set packet_sizes"
  shows "\<exists>p. run_sync 0 w n input = Inr p \<and> line_out p = frames (take 1 (sync_msgs w n))"
    and "\<exists>p. run_sync 1 w n (map Byte (frames (take 1 (sync_msgs w' n'))) @ es) = Inr p \<and>
      p_state p AND LIVE = 0 \<and> line_out p = frames (take 2 (sync_msgs w n))"
    and "\<exists>p. run_sync 2 w n (map Byte (frames (take 2 (sync_msgs w' n'))) @ es) = Inr p \<and>
      p_state p AND LIVE = 0 \<and> line_out p = frames (sync_msgs w n)"
    and "run_sync 3 w n (map Byte (frames (sync_msgs w' n')) @ es) = Inr (came_up w n w' n' es)"
proof -
  have k: "pksize n' < 8" "pksizes ! (pksize n' + 1) = n'" using packet_sizes_table assms(3) by auto
  have w: "0 < w'" "w' < 8" using assms by auto
  define A where "A = (of_nat (8 * INITA + w') :: 8 word)"
  define B where "B = (of_nat (8 * INITB + pksize n') :: 8 word)"
  define C where "C = (of_nat (8 * INITC + w') :: 8 word)"
  have m: "sync_msgs w' n' = [A, B, C]" by (simp only: sync_msgs_def A_def B_def C_def)
  define a b c where "a = sync_msgs w n ! 0" and "b = sync_msgs w n ! 1" and "c = sync_msgs w n ! 2"
  have own: "sync_msgs w n = [a, b, c]" by (simp add: a_def b_def c_def sync_msgs_def)
  define p0 where "p0 i = (new_pack w n i)\<lparr>p_msg := 0, line_out := ctl_frame a\<rparr>" for i
  have r0: "run_sync 0 w n i = Inr (p0 i)" for i using sync_start by (simp add: p0_def a_def)
  define p1 where "p1 i = (p0 i)\<lparr>line_in := i, Connodata := 1, p_state := INITa, p_rmsg := 0xC0, p_swindow := w',
      line_out := ctl_frame a @ ctl_frame b\<rparr>" for i
  have r1: "run_sync 1 w n (map Byte (ctl_frame A) @ i) = Inr (p1 i)" for i
  proof -
    have "pkgetpack (p0 (map Byte (ctl_frame A) @ i)) =
        pkcntl A ((p0 (map Byte (ctl_frame A) @ i))\<lparr>line_in := i, Connodata := 1\<rparr>)"
      by (subst pkgetpack_ctl [where c = A and es = i]) (simp_all add: ready_def p0_def new_pack_def)
    also have "\<dots> = Inr (p1 i)"
      unfolding A_def by (subst sync_a [OF _ _ w]) (simp_all add: p0_def p1_def new_pack_def b_def)
    finally show ?thesis using r0 by (simp add: One_nat_def)
  qed
  define p2 where "p2 i = (p1 i)\<lparr>Connodata := 2, p_state := INITab, p_rmsg := 0x40, p_xsize := n', p_lpsize := pksize n' + 1,
      line_out := ctl_frame a @ ctl_frame b @ ctl_frame c\<rparr>" for i
  have r2: "run_sync 2 w n (map Byte (ctl_frame A @ ctl_frame B) @ i) = Inr (p2 i)" for i
  proof -
    have "pkgetpack (p1 (map Byte (ctl_frame B) @ i)) = pkcntl B ((p1 i)\<lparr>Connodata := 2\<rparr>)"
      by (subst pkgetpack_ctl [where c = B and es = i]) (simp_all add: ready_def p0_def p1_def new_pack_def numeral_2_eq_2)
    also have "\<dots> = Inr (p2 i)"
      unfolding B_def by (subst sync_b [OF _ _ k(1)]) (simp_all add: p0_def p1_def p2_def new_pack_def c_def k(2) [simplified])
    finally show ?thesis using r1 [of "map Byte (ctl_frame B) @ i"] by (simp add: numeral_2_eq_2)
  qed
  have r3: "run_sync 3 w n (map Byte (ctl_frame A @ ctl_frame B @ ctl_frame C) @ i) =
      Inr ((p2 i)\<lparr>Connodata := 3, p_state := LIVE, p_rmsg := 0, p_swindow := w'\<rparr>)" for i
  proof -
    have "pkgetpack (p2 (map Byte (ctl_frame C) @ i)) = pkcntl C ((p2 i)\<lparr>Connodata := 3\<rparr>)"
      by (subst pkgetpack_ctl [where c = C and es = i]) (simp_all add: ready_def p0_def p1_def p2_def new_pack_def numeral_3_eq_3)
    also have "\<dots> = Inr ((p2 i)\<lparr>Connodata := 3, p_state := LIVE, p_rmsg := 0, p_swindow := w'\<rparr>)"
      unfolding C_def by (subst sync_c [OF _ _ w]) (simp_all add: p0_def p1_def p2_def new_pack_def)
    finally show ?thesis using r2 [of "map Byte (ctl_frame C) @ i"] by (simp add: numeral_3_eq_3 numeral_2_eq_2)
  qed
  show "\<exists>p. run_sync 0 w n input = Inr p \<and> line_out p = frames (take 1 (sync_msgs w n))"
    using r0 by (auto simp: own p0_def)
  show "\<exists>p. run_sync 1 w n (map Byte (frames (take 1 (sync_msgs w' n'))) @ es) = Inr p \<and>
      p_state p AND LIVE = 0 \<and> line_out p = frames (take 2 (sync_msgs w n))"
    using r1 [of es] by (auto simp: own m p1_def)
  show "\<exists>p. run_sync 2 w n (map Byte (frames (take 2 (sync_msgs w' n'))) @ es) = Inr p \<and>
      p_state p AND LIVE = 0 \<and> line_out p = frames (sync_msgs w n)"
    using r2 [of es] by (auto simp: own m p2_def)
  show "run_sync 3 w n (map Byte (frames (sync_msgs w' n')) @ es) = Inr (came_up w n w' n' es)"
    using r3 [of es] by (simp add: own m p2_def p1_def p0_def came_up_def new_pack_def)
qed

lemma sync_loop_run:
  assumes "run_sync 1 w n input = Inr p1" "p_state p1 AND LIVE = 0"
    and "run_sync 2 w n input = Inr p2" "p_state p2 AND LIVE = 0"
    and "run_sync 3 w n input = Inr p3" "p_state p3 AND LIVE \<noteq> 0"
  shows "pkopen w n input = Inr (Some (pkreset p3))"
proof -
  obtain p0 where p0: "pkoutput (new_pack w n input) = Inr p0" "pkgetpack p0 = Inr p1"
    using assms(1) by (auto simp: One_nat_def split: sum.splits)
  have "pkgetpack p1 = Inr p2" "pkgetpack p2 = Inr p3"
    using assms(1,3,5) by (simp_all add: numeral_2_eq_2 numeral_3_eq_3)
  then have "sync_loop (Suc (Suc (Suc i))) p0 = Inr (Some p3)" for i
    using assms(2,4,6) p0(2) by simp
  from this [of 37] show ?thesis by (simp add: pkopen_def p0(1))
qed

lemma pkopen_comes_up:
  assumes "1 \<le> w'" "w' \<le> 7" "n' \<in> set packet_sizes"
  shows "pkopen w n (map Byte (frames (sync_msgs w' n')) @ es) = Inr (Some (pkreset (came_up w n w' n' es)))"
proof -
  note s = sync_states [OF assms, of w n]
  have m: "frames (sync_msgs w' n') = frames (take 1 (sync_msgs w' n')) @ frames (drop 1 (sync_msgs w' n'))"
      "frames (sync_msgs w' n') = frames (take 2 (sync_msgs w' n')) @ frames (drop 2 (sync_msgs w' n'))"
    by (simp_all add: sync_msgs_def numeral_2_eq_2)
  let ?in = "map Byte (frames (sync_msgs w' n')) @ es"
  obtain p1 where p1: "run_sync 1 w n ?in = Inr p1" "p_state p1 AND LIVE = 0"
    using s(2) [of "map Byte (frames (drop 1 (sync_msgs w' n'))) @ es"] unfolding m(1) by auto
  obtain p2 where p2: "run_sync 2 w n ?in = Inr p2" "p_state p2 AND LIVE = 0"
    using s(3) [of "map Byte (frames (drop 2 (sync_msgs w' n'))) @ es"] unfolding m(2) by auto
  show ?thesis
    using sync_loop_run [OF p1 p2 s(4)] by (simp add: came_up_def)
qed

text \<open>
  C7: The initial synchronization comes up whatever windows and packet sizes the two ends have.
  An end needs only the first \<open>i\<close> messages of the other to have sent \<open>i + 1\<close> of its own, so
  neither waits for ever; and when the three messages are through, \<open>pkopen\<close> returns a live line
  that has taken the other end's window and packet size and has sent the messages by which the
  other end, in turn, comes up.
\<close>

theorem pk_handshake:
  assumes "1 \<le> w" "w \<le> 7" "n \<in> set packet_sizes" "1 \<le> w'" "w' \<le> 7" "n' \<in> set packet_sizes"
  shows "(\<forall>i \<le> 2. \<exists>p. run_sync i w n (map Byte (frames (take i (sync_msgs w' n'))) @ es) = Inr p \<and>
      line_out p = frames (take (i + 1) (sync_msgs w n))) \<and>
    (\<exists>pk. pkopen w n (map Byte (frames (sync_msgs w' n')) @ es) = Inr (Some pk) \<and>
      p_state pk = LIVE \<and> p_swindow pk = w' \<and> p_xsize pk = n' \<and> line_in pk = es \<and>
      line_out pk = frames (sync_msgs w n))"
proof
  note s = sync_states [OF assms(4-6), of w n]
  have own: "take 3 (sync_msgs w n) = sync_msgs w n" by (simp add: sync_msgs_def)
  show "\<forall>i \<le> 2. \<exists>p. run_sync i w n (map Byte (frames (take i (sync_msgs w' n'))) @ es) = Inr p \<and>
      line_out p = frames (take (i + 1) (sync_msgs w n))"
  proof (intro allI impI)
    fix i :: nat
    assume "i \<le> 2"
    then consider "i = 0" | "i = 1" | "i = 2" by linarith
    then show "\<exists>p. run_sync i w n (map Byte (frames (take i (sync_msgs w' n'))) @ es) = Inr p \<and>
        line_out p = frames (take (i + 1) (sync_msgs w n))"
    proof cases
      case 1
      then show ?thesis using s(1) [of es] by simp
    next
      case 2
      then show ?thesis using s(2) [of es] by (auto simp: numeral_2_eq_2)
    next
      case 3
      then show ?thesis using s(3) [of es] own by auto
    qed
  qed
  show "\<exists>pk. pkopen w n (map Byte (frames (sync_msgs w' n')) @ es) = Inr (Some pk) \<and> p_state pk = LIVE \<and>
      p_swindow pk = w' \<and> p_xsize pk = n' \<and> line_in pk = es \<and> line_out pk = frames (sync_msgs w n)"
    using pkopen_comes_up [OF assms(4-6)] by (simp add: pkreset_def came_up_def new_pack_def)
qed

lemma pk_handshake_witness:
  "\<exists>pk. pkopen 7 64 (map Byte (frames (sync_msgs 3 128))) = Inr (Some pk) \<and> p_state pk = LIVE \<and>
     p_swindow pk = 3 \<and> p_xsize pk = 128 \<and> line_out pk = frames (sync_msgs 7 64)"
  using pk_handshake [of 7 64 3 128 "[]"] by (auto simp: packet_sizes_def)

text \<open>
  C6: A line that has been opened keeps its accounts however it is read and written, whatever
  arrives: no two slots and no slot and the pool hold the same input buffer, the number of active
  output buffers is the number of slots in use, and it never exceeds the seven packets that
  sequence numbers modulo 8 can tell apart. So closing the line frees no input buffer twice.
\<close>

theorem pk_accounts:
  assumes "pk_reachable pk"
  shows "p_xcount pk = int (length (filter (\<lambda>w. w \<noteq> B_NULL) (p_os pk))) \<and> p_xcount pk \<le> 7 \<and>
    inj_on (\<lambda>x. p_ib pk ! x) (set (used_slots pk)) \<and>
    (\<forall>x \<in> set (used_slots pk). p_ib pk ! x \<notin> set (p_ipool pk)) \<and>
    (\<forall>pk' frees. pkclose pk = Inr (pk', frees) \<longrightarrow> distinct frees)"
  using assms by (rule reachable_accounts)

lemma pk_accounts_witness:
  "\<exists>pk. pk_reachable pk \<and> p_state pk = LIVE \<and> p_xcount pk \<le> 7 \<and>
     (\<forall>pk' frees. pkclose pk = Inr (pk', frees) \<longrightarrow> distinct frees)"
proof -
  let ?pk = "pkreset (came_up 7 64 3 128 [])"
  have "pk_reachable ?pk"
    using pkopen_comes_up [of 3 128 7 64 "[]"] by (auto intro!: opened [of 7 64] simp: packet_sizes_def)
  moreover have "p_state ?pk = LIVE" by (simp add: pkreset_def came_up_def)
  ultimately show ?thesis using pk_accounts [of ?pk] by blast
qed

section \<open>A packet from one end to the other\<close>

lemma byte_of_chr: "n < 256 \<Longrightarrow> byte_of (chr n) = of_nat n"
  by (simp add: byte_of_def)

lemma short_cc_small: "n < 128 \<Longrightarrow> short_cc (chr n # s) = of_nat n"
proof -
  assume n: "n < 128"
  have "\<forall>n \<in> set [0..<128]. (of_nat n :: 32 word) AND 0x80 = 0" by code_simp
  then have a: "(of_nat n :: 32 word) AND 0x80 = 0" using n by simp
  have "ucast (of_nat n :: 8 word) = (of_nat n :: 32 word)"
    using n by (simp add: unsigned_of_nat take_bit_nat_eq_self)
  then show ?thesis using a n by (simp add: short_cc_def byte_of_chr Let_def)
qed

lemma join7: "(of_nat (n mod 128) :: 32 word) OR push_bit 7 (of_nat (n div 128)) = of_nat n"
proof -
  have "n mod 128 OR push_bit 7 (n div 128) = n"
  proof (rule bit_eqI)
    fix k
    show "bit (n mod 128 OR push_bit 7 (n div 128)) k \<longleftrightarrow> bit n k"
      using bit_take_bit_iff [of 7 n k] bit_drop_bit_eq [of 7 n]
      by (auto simp: bit_or_iff bit_push_bit_iff take_bit_eq_mod drop_bit_eq_div not_less)
  qed
  then have "of_nat (n mod 128 OR push_bit 7 (n div 128)) = (of_nat n :: 32 word)" by simp
  then show ?thesis by (simp only: of_nat_or_eq push_bit_of_nat [symmetric])
qed

lemma short_cc_large: "n < 4224 \<Longrightarrow> 128 \<le> n \<Longrightarrow> short_cc (chr (n mod 128 + 128) # chr (n div 128) # s) = of_nat n"
proof -
  assume n: "n < 4224" "128 \<le> n"
  define a where "a = n mod 128"
  define b where "b = n div 128"
  have ab: "a < 128" "b < 33" using n by (simp_all add: a_def b_def)
  have "\<forall>a \<in> set [0..<128]. (ucast (of_nat (a + 128) :: 8 word) :: 32 word) AND 0x80 \<noteq> 0 \<and>
      (ucast (of_nat (a + 128) :: 8 word) :: 32 word) AND 0x7F = of_nat a" by code_simp
  then have hi: "(ucast (of_nat (a + 128) :: 8 word) :: 32 word) AND 0x80 \<noteq> 0"
      "(ucast (of_nat (a + 128) :: 8 word) :: 32 word) AND 0x7F = of_nat a"
    using ab by (simp_all del: of_nat_add)
  have "scast (of_nat b :: 8 word) = (of_nat b :: 32 word)" using ab scast_char by simp
  with hi ab have "short_cc (chr (a + 128) # chr b # s) = of_nat a OR push_bit 7 (of_nat b)"
    by (simp add: short_cc_def byte_of_chr Let_def del: of_nat_add)
  then show ?thesis using join7 [of n] by (simp add: a_def b_def)
qed

text \<open>What the receiver makes of the buffer the sender has filled.\<close>

lemma out_buffer_read:
  assumes "length s \<le> n" "n \<le> 4096" "length (mal n) = n"
  shows "length (out_buffer mal n s) = n"
    and "length s < n \<Longrightarrow> short_cc (out_buffer mal n s) = of_nat (n - length s)"
    and "take (length s) (drop (if length s < n then (if byte_of (out_buffer mal n s ! 0) AND 0x80 \<noteq> 0 then 2 else 1) else 0)
      (out_buffer mal n s)) = s"
proof -
  define fc where "fc = n - length s"
  define head where "head = (if length s < n
      then (if fc > 127 then [chr (fc mod 128 + 128), chr (fc div 128)] else [chr fc]) else [])"
  define tail where "tail = drop (length head + length s) (mal n)"
  have b: "out_buffer mal n s = head @ s @ tail"
    using assms(1) by (simp add: out_buffer_def Let_def head_def fc_def tail_def min_absorb1)
  have hl: "length head + length s \<le> n" using assms(1) by (auto simp: head_def fc_def)
  then show "length (out_buffer mal n s) = n" using assms(3) by (simp add: b tail_def)
  show "short_cc (out_buffer mal n s) = of_nat (n - length s)" if "length s < n"
    using that assms(2) short_cc_small [of fc] short_cc_large [of fc] unfolding b
    by (auto simp: head_def fc_def)
  have L: "length head = (if length s < n then (if byte_of (out_buffer mal n s ! 0) AND 0x80 \<noteq> 0 then 2 else 1) else 0)"
  proof (cases "length s < n")
    case True
    show ?thesis
    proof (cases "fc > 127")
      case True
      have "\<forall>a \<in> set [0..<128]. (of_nat (a + 128) :: 8 word) AND 0x80 \<noteq> 0" by code_simp
      then have "(of_nat (fc mod 128 + 128) :: 8 word) AND 0x80 \<noteq> 0" by (simp del: of_nat_add)
      with True \<open>length s < n\<close> show ?thesis by (simp add: b head_def byte_of_chr del: of_nat_add)
    next
      case False
      have "\<forall>a \<in> set [0..<128]. (of_nat a :: 8 word) AND 0x80 = 0" by code_simp
      with False \<open>length s < n\<close> show ?thesis by (simp add: b head_def byte_of_chr)
    qed
  qed (simp add: head_def)
  then show "take (length s) (drop (if length s < n then (if byte_of (out_buffer mal n s ! 0) AND 0x80 \<noteq> 0 then 2 else 1) else 0)
      (out_buffer mal n s)) = s"
    unfolding L [symmetric] by (simp add: b)
qed

end
