(* ===== verification/PkPacket.thy ===== *)
theory PkPacket
  imports PkLink
begin

text \<open>
  A data packet from one end of a line to the other: what \<open>pkwrite\<close> sends as one packet is what
  \<open>pkread\<close> returns, for every sequence number, packet size and length of the data; and inputs
  for which the driver goes wrong.
\<close>

section \<open>The sending end\<close>

definition data_cntl :: "nat \<Rightarrow> nat \<Rightarrow> bool \<Rightarrow> 8 word" where
  "data_cntl pr x short = of_nat (0x80 + pr + 8 * x) OR (if short then 0x40 else 0)"

definition data_frame :: "nat \<Rightarrow> nat \<Rightarrow> nat \<Rightarrow> bool \<Rightarrow> cstr \<Rightarrow> cstr" where
  "data_frame k pr x short buf =
     header (of_nat k) (CHECK - (chksum buf (length buf) XOR ucast (data_cntl pr x short))) (data_cntl pr x short) @ buf"

lemma data_cntl_table:
  "\<forall>pr \<in> set [0..<8]. \<forall>x \<in> set [0..<8]. \<forall>short \<in> set [True, False].
     unat (data_cntl pr x short AND 7) = pr \<and> unat (drop_bit 3 (data_cntl pr x short) AND 7) = x \<and>
     data_cntl pr x short AND 0x80 \<noteq> 0 \<and> (data_cntl pr x short AND B_SHORT \<noteq> 0 \<longleftrightarrow> short)"
  by code_simp

lemma data_cntl_fields:
  assumes "pr < 8" "x < 8"
  shows "unat (data_cntl pr x short AND 7) = pr" "unat (drop_bit 3 (data_cntl pr x short) AND 7) = x"
    "data_cntl pr x short AND 0x80 \<noteq> 0" "data_cntl pr x short AND B_SHORT \<noteq> 0 \<longleftrightarrow> short"
  using data_cntl_table assms by (cases short; simp)+

text \<open>An end that may send its next packet at once.\<close>

definition sending :: "nat \<Rightarrow> nat \<Rightarrow> pack \<Rightarrow> bool" where
  "sending n k pk \<longleftrightarrow> p_state pk = LIVE \<and> p_msg pk = 0 \<and> p_xsize pk = n \<and> p_lpsize pk = k \<and>
     p_xcount pk < int (p_swindow pk) \<and> p_nxtps pk = next_seq (p_pscopy pk) \<and>
     p_os pk ! next_seq (p_pscopy pk) = B_NULL \<and>
     length (p_os pk) = 8 \<and> length (p_ob pk) = 8 \<and> length (p_osum pk) = 8"

lemma write_packet_sends:
  assumes "sending n k pk" "length s \<le> n" "n \<le> 4096" "length (mal n) = n"
    and "x = next_seq (p_pscopy pk)" "b = out_buffer mal n s"
    and "w = B_READY + (if length s < n then B_SHORT else 0)"
  shows "write_packet mal s pk = Inr (pk\<lparr>p_pscopy := x, p_xcount := p_xcount pk + 1, p_ob := (p_ob pk)[x := b],
      p_osum := (p_osum pk)[x := chksum b n], p_os := (p_os pk)[x := w OR B_SENT],
      p_nxtps := next_seq x, Connodata := 0, p_state := LIVE,
      line_out := line_out pk @ data_frame k (p_pr pk) x (length s < n) b\<rparr>)"
proof -
  define q where "q = pk\<lparr>p_pscopy := x, p_xcount := p_xcount pk + 1, p_ob := (p_ob pk)[x := b],
      p_osum := (p_osum pk)[x := chksum b n], p_os := (p_os pk)[x := w]\<rparr>"
  note sd = assms(1) [unfolded sending_def, folded assms(5)]
  have x: "x < 8" by (simp add: assms(5))
  have w: "w AND (B_READY OR B_SENT) \<noteq> 0" "w AND B_SHORT \<noteq> 0 \<longleftrightarrow> length s < n"
    by (simp_all add: assms(7))
  have len: "length b = n" using out_buffer_read(1) [of s n mal] assms(2-4,6) by simp
  have "room_wait pk = Inr pk" "slot_wait x pk = Inr pk"
    using sd by (simp_all add: room_wait.simps [of pk] slot_wait.simps [of x pk])
  then have "write_packet mal s pk = pkoutput q"
    using sd assms(5-7) by (simp add: write_packet_def Let_def q_def)
  moreover have "pkoutput q =
      Inr (q\<lparr>p_nxtps := next_seq x, Connodata := 0, p_os := (p_os q)[x := w OR B_SENT], p_state := LIVE,
             line_out := line_out pk @ data_frame k (p_pr pk) x (length s < n) b\<rparr>)"
    using sd w len x unfolding pkoutput_def Let_def
    by (simp add: q_def pkxstart_def data_frame_def data_cntl_def)
  ultimately show ?thesis by (simp add: q_def)
qed

section \<open>The receiving end\<close>

text \<open>An end with nothing in its slots and nothing to send.\<close>

definition listening :: "nat \<Rightarrow> pack \<Rightarrow> bool" where
  "listening n pk \<longleftrightarrow> p_state pk = LIVE \<and> p_msg pk = 0 \<and> p_rsize pk = n \<and> 1 \<le> p_rwindow pk \<and> p_rwindow pk \<le> 7 \<and>
     p_pr pk < 8 \<and> p_imap pk = 0 \<and> p_rcount pk = 0 \<and> p_is pk = replicate 8 0 \<and> length (p_ib pk) = 8 \<and>
     length (p_isum pk) = 8 \<and> p_ipool pk \<noteq> [] \<and> hd (p_ipool pk) < length (p_bufs pk) \<and>
     p_os pk = replicate 8 0 \<and> p_ps pk < 8 \<and> p_nxtps pk < 8 \<and> Connodata pk \<le> 20 \<and> Ntimeout pk \<le> 50"

lemma sack_idle: "p_os pk = replicate 8 0 \<Longrightarrow> sack_loop j x pk = pk"
  by (induction j arbitrary: x) (simp_all add: Let_def next_seq_def)

lemma pksack_idle: "p_os pk = replicate 8 0 \<Longrightarrow> pksack pk = pk"
  by (simp add: pksack_def sack_idle)

text \<open>The packet in its buffer, after \<open>pkgetpack\<close>.\<close>

definition got :: "pack \<Rightarrow> nat \<Rightarrow> 8 word \<Rightarrow> 16 word \<Rightarrow> cstr \<Rightarrow> event list \<Rightarrow> pack" where
  "got pk pr c h buf es = pk\<lparr>line_in := es, Connodata := Connodata pk + 1, p_rpr := pr, p_ipool := tl (p_ipool pk),
     p_bufs := (p_bufs pk)[hd (p_ipool pk) := buf], p_imap := mask8 (p_pr pk), p_is := (p_is pk)[p_pr pk := c],
     p_isum := (p_isum pk)[p_pr pk := h], p_ib := (p_ib pk)[p_pr pk := hd (p_ipool pk)], Ntimeout := 0\<rparr>"

lemma frame_k:
  assumes "k \<in> set [1..<9]"
  shows "(of_nat k :: 8 word) \<noteq> 9" "\<not> sint (of_nat k :: 8 word) < 0" "\<not> sint (of_nat k :: 8 word) > 9"
    "unat (of_nat k :: 8 word) = k"
proof -
  have "\<forall>k \<in> set [1..<9]. (of_nat k :: 8 word) \<noteq> 9 \<and> unat (of_nat k :: 8 word) = k" by code_simp
  then show "(of_nat k :: 8 word) \<noteq> 9" "unat (of_nat k :: 8 word) = k" using assms by blast+
  show "\<not> sint (of_nat k :: 8 word) < 0" "\<not> sint (of_nat k :: 8 word) > 9"
    using assms sint_eq [of k] by auto
qed

lemma pkgetpack_data:
  assumes "listening n pk" "k \<in> set [1..<9]" "pksizes ! k = n" "length buf = n" "pr < 8" "x < 8"
    and "line_in pk = map Byte (data_frame k pr x short buf) @ es"
  shows "pkgetpack pk = Inr (got pk pr (data_cntl pr x short)
    (CHECK - (chksum buf n XOR ucast (data_cntl pr x short))) buf es)"
proof -
  let ?c = "data_cntl pr x short"
  define h where "h = CHECK - (chksum buf n XOR ucast ?c)"
  note ls = assms(1) [unfolded listening_def]
  obtain bp rest where pool: "p_ipool pk = bp # rest" using ls by (cases "p_ipool pk") auto
  have hdr: "get_header 0 pk = Inr (Some (header (of_nat k) h ?c), pk\<lparr>line_in := map Byte buf @ es\<rparr>)"
    using get_header_frame [of pk "of_nat k" h ?c "map Byte buf @ es"] assms(4,7)
    by (simp add: data_frame_def h_def)
  define p where "p = pk\<lparr>line_in := map Byte buf @ es, Connodata := Connodata pk + 1, p_rpr := pr\<rparr>"
  have get: "pkcget n (p\<lparr>p_ipool := rest\<rparr>) = Inr (Some buf, p\<lparr>p_ipool := rest, line_in := es\<rparr>)"
    using pkcget_take [of "p\<lparr>p_ipool := rest\<rparr>" buf es n] assms(4) by (simp add: p_def)
  have slot: "List.find (\<lambda>x. replicate 8 (0 :: 8 word) ! x = 0) (map (\<lambda>i. (p_pr pk + 8 - i) mod 8) [0..<7]) = Some (p_pr pk)"
    using ls by (simp add: upt_conv_Cons [of 0 7])
  have "take_header (header (of_nat k) h ?c) (pk\<lparr>line_in := map Byte buf @ es\<rparr>) = Inr (True, got pk pr ?c h buf es)"
    using frame_k [OF assms(2)] ls data_cntl_fields(1) [OF assms(5,6), of short] get slot
    unfolding take_header_def header_nth split16 Let_def
    by (simp add: assms(3) pool pksack_idle p_def pkdata_def got_def)
  then have "getpack_tries 10 pk = Inr (got pk pr ?c h buf es)"
    using hdr by (simp add: eval_nat_numeral)
  then show ?thesis using ls by (simp add: pkgetpack_def h_def)
qed

lemma window_next: "\<forall>w \<in> set [1..<8]. \<forall>r \<in> set [0..<8]. window w (next_seq r) AND mask8 (next_seq r) \<noteq> 0"
  by code_simp

lemma map_single: "mask8 r AND mask8 x = 0 \<longleftrightarrow> x \<noteq> r" if "r < 8" "x < 8"
proof -
  have "\<forall>r \<in> set [0..<8]. \<forall>x \<in> set [0..<8]. mask8 r AND mask8 x = 0 \<longleftrightarrow> x \<noteq> r" by code_simp
  with that show ?thesis by simp
qed

lemma mark_slots_single:
  "distinct xs \<Longrightarrow> \<forall>x \<in> set xs. imask AND mask8 x = 0 \<longleftrightarrow> x \<noteq> r \<Longrightarrow>
   mark_slots imask m xs st = (if r \<in> set xs then mark_slot m r st else st)"
  by (induction xs arbitrary: st) auto

lemma mark_copy_none: "p_is pk ! y = 0 \<Longrightarrow> mark_copy y pk = pk"
  using list_update_id [of "p_is pk" y] by (simp add: mark_copy_def)

lemma copy_slots_none: "\<forall>y \<in> set xs. p_is pk ! y = 0 \<Longrightarrow> copy_slots xs gap a j pk = (a, j, pk)"
  by (induction xs arbitrary: gap) (simp_all add: mark_copy_none Let_def)

lemma replicate_update_same: "(replicate n a)[i := a] = replicate n a"
  by (cases "i < n") (simp_all add: list_update_same_conv list_update_beyond not_less)

lemma mark_slot_good:
  assumes "p_is pk ! r = c" "c AND 0x80 \<noteq> 0" "unat (drop_bit 3 c AND 7) = x" "x \<noteq> r" "r < 8" "x < 8"
    and "length (p_is pk) = 8" "length (p_ib pk) = 8" "m AND mask8 x \<noteq> 0" "p_is pk ! x = 0"
    and "(chksum (p_bufs pk ! (p_ib pk ! r)) (p_rsize pk) XOR ucast c) + p_isum pk ! r = CHECK"
  shows "mark_slot m r (pk, a, b) =
    (pk\<lparr>p_ib := (p_ib pk)[r := p_ib pk ! x, x := p_ib pk ! r],
        p_is := (p_is pk)[r := 0, x := (if c AND B_SHORT \<noteq> 0 then B_MARK + B_SHORT else B_MARK)],
        p_isum := (p_isum pk)[x := ucast (of_nat (p_rsize pk) -
          (if c AND B_SHORT \<noteq> 0 then short_cc (p_bufs pk ! (p_ib pk ! r)) else 0))]\<rparr>, a, b)"
  using assms unfolding mark_slot_def Let_def by simp

lemma pkaccept_any:
  assumes "listening n pk" "k \<in> set [1..<9]" "pksizes ! k = n" "n \<le> 4096" "length buf = n" "pr < 8"
    and "x = next_seq (p_pr pk)" "line_in pk = map Byte (data_frame k pr x short buf) @ es"
    and "count = ucast (of_nat n - (if short then short_cc buf else 0))"
  shows "\<exists>ib isum. pkaccept pk = Inr (1, pk\<lparr>line_in := es, Connodata := Connodata pk + 1, p_rpr := pr,
      p_ipool := tl (p_ipool pk), p_bufs := (p_bufs pk)[hd (p_ipool pk) := buf],
      p_is := (replicate 8 0)[x := (if short then 0x70 else 0x30)], p_isum := isum, p_ib := ib, Ntimeout := 0,
      p_rcount := 1\<rparr>) \<and>
    length ib = 8 \<and> length isum = 8 \<and> ib ! x = hd (p_ipool pk) \<and> isum ! x = count"
proof -
  let ?c = "data_cntl pr x short"
  define r where "r = p_pr pk"
  define h where "h = CHECK - (chksum buf n XOR ucast ?c)"
  define g where "g = got pk pr ?c h buf es"
  note ls = assms(1) [unfolded listening_def]
  have x: "x < 8" "x \<noteq> r" "r < 8" proof -
    have "r < 8" using ls by (simp add: r_def)
    moreover have "\<forall>r \<in> set [0..<8]. next_seq r < 8 \<and> next_seq r \<noteq> r" by code_simp
    ultimately show "x < 8" "x \<noteq> r" "r < 8" using assms(7) by (simp_all add: r_def)
  qed
  have "pkgetpack pk = Inr g"
    using pkgetpack_data [OF assms(1-3,5,6) x(1) assms(8)] by (simp add: g_def h_def)
  moreover have "mask8 r \<noteq> 0" using map_single [OF x(3) x(3)] by auto
  then have "p_imap g \<noteq> 0" by (simp add: g_def got_def r_def)
  ultimately have wait: "pk_wait pk = Inr g"
    using ls by (simp add: pk_wait.simps [of pk] pk_wait.simps [of g])
  define m where "m = window (p_rwindow pk) x"
  have m: "m AND mask8 x \<noteq> 0"
    using window_next ls assms(7) by (auto simp: m_def)
  define w :: "8 word" where "w = (if short then B_MARK + B_SHORT else B_MARK)"
  define g0 where "g0 = g\<lparr>p_imap := 0\<rparr>"
  define ib where "ib = (p_ib g0)[r := p_ib g0 ! x, x := hd (p_ipool pk)]"
  define isum where "isum = (p_isum g0)[x := count]"
  have len: "length (p_is g0) = 8" "length (p_ib g0) = 8" "length (p_isum g0) = 8"
    using ls by (simp_all add: g0_def g_def got_def)
  have own: "p_is g0 ! r = ?c" "p_ib g0 ! r = hd (p_ipool pk)" "p_isum g0 ! r = h" "p_bufs g0 ! hd (p_ipool pk) = buf"
    "p_rsize g0 = n" "p_is g0 ! x = 0"
    using ls x by (simp_all add: g0_def g_def got_def r_def)
  have sum: "(chksum buf n XOR ucast ?c) + h = CHECK" by (simp add: h_def)
  have nc: "(NOT (B_COPY OR B_MARK) :: 8 word) AND (B_COPY OR B_MARK) = 0" by code_simp
  note f = data_cntl_fields [OF assms(6) x(1), of short]
  have "mark_slot m r (g0, 0, 0) = (g0\<lparr>p_ib := ib, p_is := (p_is g0)[r := 0, x := w], p_isum := isum\<rparr>, 0, 0)"
    using mark_slot_good [OF own(1) f(3,2) x(2,3,1) len(1,2) m own(6), unfolded own f(4) assms(9) [symmetric], OF sum, of 0 0]
    by (simp only: ib_def isum_def w_def own)
  moreover have "(p_is g0)[r := 0, x := w] = (replicate 8 0)[x := w]"
    using ls by (simp add: g0_def g_def got_def r_def replicate_update_same)
  moreover have "mark_slots (p_imap g) m [0..<8] (g0, 0, 0) = mark_slot m r (g0, 0, 0)"
    using map_single [OF x(3)] x(3) by (subst mark_slots_single [where r = r]) (auto simp: g_def got_def r_def)
  ultimately have ms: "mark_slots (p_imap g) m [0..<8] (g0, 0, 0) =
      (g0\<lparr>p_ib := ib, p_is := (replicate 8 0)[x := w], p_isum := isum\<rparr>, 0, 0)" by simp
  define g1 where "g1 = g0\<lparr>p_ib := ib, p_is := (replicate 8 0)[x := w], p_isum := isum\<rparr>"
  have pr1: "p_pr g1 = r" by (simp add: g1_def g0_def g_def got_def r_def)
  define xs where "xs = takeWhile (\<lambda>x. m AND mask8 x \<noteq> 0) (map (\<lambda>i. (p_pr g1 + 1 + i) mod 8) [1..<8])"
  have "map (\<lambda>i. (p_pr g1 + 1 + i) mod 8) [0..<8] = x # map (\<lambda>i. (p_pr g1 + 1 + i) mod 8) [1..<8]"
    using assms(7) by (simp add: upt_conv_Cons [of 0 8] pr1 r_def next_seq_def)
  then have xs: "takeWhile (\<lambda>x. m AND mask8 x \<noteq> 0) (map (\<lambda>i. (p_pr g1 + 1 + i) mod 8) [0..<8]) = x # xs"
    using m by (simp add: xs_def)
  have ne: "y \<noteq> x \<and> y < 8" if "y \<in> set xs" for y
  proof -
    have "y \<in> set (map (\<lambda>i. (r + 1 + i) mod 8) [1..<8])" using that by (auto simp: xs_def pr1 dest!: set_takeWhileD)
    moreover have "\<forall>r \<in> set [0..<8]. \<forall>i \<in> set [1..<8]. (r + 1 + i) mod 8 \<noteq> (r + 1) mod (8 :: nat)" by code_simp
    ultimately show ?thesis using x(3) assms(7) by (auto simp: next_seq_def r_def)
  qed
  define g2 where "g2 = g1\<lparr>p_is := (replicate 8 0)[x := w OR B_COPY]\<rparr>"
  have w: "w AND B_MARK \<noteq> 0" "w OR B_COPY = (if short then 0x70 else 0x30)" by (simp_all add: w_def)
  have mc: "mark_copy x g1 = g2" using w(1) x(1) by (simp add: mark_copy_def g1_def g2_def)
  have "p_is g2 ! y = 0" if "y \<in> set xs" for y using ne [OF that] by (simp add: g2_def)
  then have "copy_slots xs gap 1 0 g2 = (1, 0, g2)" for gap by (intro copy_slots_none) blast
  moreover have "p_is g2 ! x AND B_COPY \<noteq> 0" using x(1) w(2) by (simp add: g2_def)
  ultimately have cs: "copy_slots (x # xs) False 0 0 g1 = (1, 0, g2)" by (simp add: mc Let_def)
  have rw: "p_rwindow g = p_rwindow pk" by (simp add: g_def got_def)
  have "pkaccept pk = Inr (1, g2\<lparr>p_msg := p_msg g2, p_rcount := 1\<rparr>)"
    unfolding pkaccept_def wait sum.case rw assms(7) [symmetric] m_def [symmetric] g0_def [symmetric] ms Let_def prod.case
      g1_def [symmetric] xs cs
    by simp
  moreover have "g2\<lparr>p_msg := p_msg g2, p_rcount := 1\<rparr> = pk\<lparr>line_in := es, Connodata := Connodata pk + 1, p_rpr := pr,
      p_ipool := tl (p_ipool pk), p_bufs := (p_bufs pk)[hd (p_ipool pk) := buf],
      p_is := (replicate 8 0)[x := (if short then 0x70 else 0x30)], p_isum := isum, p_ib := ib, Ntimeout := 0,
      p_rcount := 1\<rparr>"
    using ls w(2) by (simp add: g2_def g1_def g0_def g_def got_def)
  moreover have "length ib = 8 \<and> length isum = 8 \<and> ib ! x = hd (p_ipool pk) \<and> isum ! x = count"
    using len x by (simp add: ib_def isum_def)
  ultimately show ?thesis by metis
qed

lemma pkaccept_data:
  assumes "listening n pk" "k \<in> set [1..<9]" "pksizes ! k = n" "n \<le> 4096" "length buf = n" "pr < 8"
    and "x = next_seq (p_pr pk)" "line_in pk = map Byte (data_frame k pr x short buf) @ es"
    and "short \<Longrightarrow> short_cc buf = of_nat (n - len)" "short \<longleftrightarrow> len < n" "len \<le> n"
  shows "\<exists>ib isum. pkaccept pk = Inr (1, pk\<lparr>line_in := es, Connodata := Connodata pk + 1, p_rpr := pr,
      p_ipool := tl (p_ipool pk), p_bufs := (p_bufs pk)[hd (p_ipool pk) := buf],
      p_is := (replicate 8 0)[x := (if short then 0x70 else 0x30)], p_isum := isum, p_ib := ib, Ntimeout := 0,
      p_rcount := 1\<rparr>) \<and>
    length ib = 8 \<and> length isum = 8 \<and> ib ! x = hd (p_ipool pk) \<and> isum ! x = of_nat len"
proof (rule pkaccept_any [OF assms(1-8)])
  have "of_nat n - (if short then short_cc buf else 0) = (of_nat len :: 32 word)"
    using assms(9-11) by (auto simp: of_nat_diff)
  then show "(of_nat len :: 16 word) = ucast (of_nat n - (if short then short_cc buf else 0))"
    using assms(4,11) by (simp add: unsigned_of_nat take_bit_nat_eq_self)
qed

lemma pkoutput_ack:
  assumes "p_state pk = LIVE" "p_msg pk = M_RR" "p_os pk = replicate 8 0" "p_nxtps pk < 8"
  shows "pkoutput pk = Inr (pk\<lparr>p_msg := 0, line_out := line_out pk @ ctl_frame (of_nat (8 * RR + p_pr pk))\<rparr>)"
  using assms by (simp add: pkoutput_def Let_def pkxstart_def ctl_frame_def cntl_byte_def)

lemma read_loop_one:
  assumes "x = next_seq (p_pr pk)" "p_is pk = (replicate 8 0)[x := w]" "w AND B_COPY \<noteq> 0" "w AND B_RESID = 0"
    and "p_isum pk ! x = of_nat len" "len < 32768" "0 < icount" "len \<le> icount" "length (p_isum pk) = 8"
    and "buf = p_bufs pk ! (p_ib pk ! x)"
    and "off = (if w AND B_SHORT \<noteq> 0 then (if byte_of (buf ! 0) AND 0x80 \<noteq> 0 then 2 else 1) else 0)"
    and "0 < len \<Longrightarrow> off + len \<le> length buf"
  shows "read_loop icount False pk = Inr (take len (drop off buf),
    (free_ib x (pk\<lparr>p_isum := (p_isum pk)[x := 0]\<rparr>))\<lparr>p_pr := x, p_rcount := p_rcount pk - 1, p_msg := p_msg pk OR M_RR\<rparr>)"
    (is "_ = Inr (_, ?q)")
proof -
  have x: "x < 8" "next_seq x < 8" "next_seq x \<noteq> x"
  proof -
    have "\<forall>x \<in> set [0..<8]. next_seq x \<noteq> x" by code_simp
    then show "x < 8" "next_seq x < 8" "next_seq x \<noteq> x" using assms(1) by simp_all
  qed
  have cc: "sint (p_isum pk ! x) = int len"
    using assms(5,6) by (simp add: signed_of_nat signed_take_bit_int_eq_self)
  have m: "min (int len) (int icount) = int len" using assms(8) by simp
  have slot: "p_is pk ! x = w" using x assms(2) by simp
  have "read_loop (icount - len) True ?q = Inr ([], ?q)"
    using x assms(2) by (simp add: read_loop.simps [of "icount - len"] free_ib_def Let_def)
  moreover have "min (sint (p_isum pk ! x)) (int icount) = int len" using cc m by simp
  ultimately show ?thesis
    using assms(3,4,7,8,12)
    unfolding read_loop.simps [of icount False pk] assms(1) [symmetric] Let_def slot assms(10) [symmetric]
    by (simp add: assms(5) assms(11) [symmetric] not_less)
qed

lemma pkread_data:
  assumes "listening n pk" "k \<in> set [1..<9]" "pksizes ! k = n" "n \<le> 4096" "pr < 8"
    and "x = next_seq (p_pr pk)" "length (mal n) = n" "length s \<le> n" "0 < icount" "length s \<le> icount"
    and "line_in pk = map Byte (data_frame k pr x (length s < n) (out_buffer mal n s)) @ es"
  shows "\<exists>pk'. pkread icount pk = Inr (s, pk') \<and> listening n pk' \<and> p_pr pk' = x \<and> line_in pk' = es \<and>
    line_out pk' = line_out pk @ ctl_frame (of_nat (8 * RR + x))"
proof -
  define buf where "buf = out_buffer mal n s"
  define w :: "8 word" where "w = (if length s < n then 0x70 else 0x30)"
  have w: "w AND B_COPY \<noteq> 0" "w AND B_RESID = 0" "w AND B_SHORT \<noteq> 0 \<longleftrightarrow> length s < n" by (simp_all add: w_def)
  note ob = out_buffer_read [of s n mal, OF assms(8,4,7), folded buf_def]
  note ls = assms(1) [unfolded listening_def]
  have x: "x < 8" using assms(6) by simp
  obtain ib isum where acc: "pkaccept pk = Inr (1, pk\<lparr>line_in := es, Connodata := Connodata pk + 1, p_rpr := pr,
      p_ipool := tl (p_ipool pk), p_bufs := (p_bufs pk)[hd (p_ipool pk) := buf],
      p_is := (replicate 8 0)[x := w], p_isum := isum, p_ib := ib, Ntimeout := 0, p_rcount := 1\<rparr>)"
      "length ib = 8" "length isum = 8" "ib ! x = hd (p_ipool pk)" "isum ! x = of_nat (length s)"
    using pkaccept_data [OF assms(1-4) ob(1) assms(5,6) assms(11) [folded buf_def] ob(2) refl assms(8)]
    by (auto simp: w_def)
  define a where "a = pk\<lparr>line_in := es, Connodata := 0, p_rpr := pr,
      p_ipool := tl (p_ipool pk), p_bufs := (p_bufs pk)[hd (p_ipool pk) := buf],
      p_is := (replicate 8 0)[x := w], p_isum := isum, p_ib := ib, Ntimeout := 0, p_rcount := 1\<rparr>"
  define off where "off = (if w AND B_SHORT \<noteq> 0 then (if byte_of (buf ! 0) AND 0x80 \<noteq> 0 then 2 else 1) else 0 :: nat)"
  have data: "take (length s) (drop off buf) = s" using ob(3) by (simp add: off_def w(3))
  have room: "off + length s \<le> length buf" if "0 < length s"
  proof -
    have "min (length s) (length buf - off) = length s" using arg_cong [OF data, of length] by simp
    then show ?thesis using that by linarith
  qed
  define q where "q = (free_ib x (a\<lparr>p_isum := (p_isum a)[x := 0]\<rparr>))\<lparr>p_pr := x, p_rcount := 0, p_msg := M_RR\<rparr>"
  have rd: "read_loop icount False a = Inr (s, q)"
  proof -
    have "read_loop icount False a = Inr (take (length s) (drop off buf),
        (free_ib x (a\<lparr>p_isum := (p_isum a)[x := 0]\<rparr>))\<lparr>p_pr := x, p_rcount := p_rcount a - 1, p_msg := p_msg a OR M_RR\<rparr>)"
    proof (rule read_loop_one)
      show "buf = p_bufs a ! (p_ib a ! x)" using ls acc(4) assms(6) by (simp add: a_def)
      show "off = (if w AND B_SHORT \<noteq> 0 then (if byte_of (buf ! 0) AND 0x80 \<noteq> 0 then 2 else 1) else 0)"
        by (rule off_def)
    qed (use assms w acc ls x in \<open>simp_all add: a_def room\<close>)
    then show ?thesis using ls by (simp add: data q_def a_def)
  qed
  have qs: "p_state q = LIVE" "p_msg q = M_RR" "p_os q = replicate 8 0" "p_nxtps q < 8" "p_pr q = x"
    using ls by (simp_all add: q_def a_def free_ib_def)
  have a0: "a\<lparr>Connodata := Connodata pk + 1, Connodata := 0\<rparr> = a" by (simp add: a_def)
  have "accept_loop pk = Inr (a\<lparr>Connodata := Connodata pk + 1\<rparr>)"
    using acc(1) by (simp add: accept_loop.simps [of pk] a_def)
  then have "pkread icount pk = Inr (s, q\<lparr>p_msg := 0, line_out := line_out q @ ctl_frame (of_nat (8 * RR + x))\<rparr>)"
    using rd pkoutput_ack [OF qs(1-4)] qs(5) a0 by (simp add: pkread_def del: of_nat_add of_nat_mult)
  moreover have "listening n (q\<lparr>p_msg := 0, line_out := l\<rparr>)" for l
    using ls acc x by (simp add: listening_def q_def a_def free_ib_def replicate_update_same)
  moreover have "line_in q = es" "line_out q = line_out pk" by (simp_all add: q_def a_def free_ib_def)
  ultimately show ?thesis using qs(5) by auto
qed

end
