(* ===== verification/PkSession.thy ===== *)
theory PkSession
  imports PkPacket
begin

text \<open>
  Two ends of a line in conversation: one writes packets, the other reads and acknowledges them.
  The sender runs ahead by its window and then takes one acknowledgement for every packet it
  sends, so its state is known by the last sequence number and the number of packets outstanding.
\<close>

section \<open>The sender\<close>

text \<open>Slot \<open>y\<close> holds one of the last \<open>j\<close> packets when the last one is \<open>x\<close>.\<close>

definition outstanding :: "nat \<Rightarrow> nat \<Rightarrow> nat \<Rightarrow> bool" where
  "outstanding x j y \<longleftrightarrow> (x + 8 - y) mod 8 < j"

definition outgoing :: "nat \<Rightarrow> nat \<Rightarrow> nat \<Rightarrow> nat \<Rightarrow> nat \<Rightarrow> pack \<Rightarrow> bool" where
  "outgoing w n k x j pk \<longleftrightarrow> p_state pk = LIVE \<and> p_msg pk = 0 \<and> p_xsize pk = n \<and> p_lpsize pk = k \<and>
     p_swindow pk = w \<and> p_pscopy pk = x \<and> p_nxtps pk = next_seq x \<and> p_xcount pk = int j \<and>
     p_ps pk = (x + 8 - j) mod 8 \<and> x < 8 \<and> j \<le> w \<and> 1 \<le> w \<and> w \<le> 7 \<and>
     length (p_os pk) = 8 \<and> length (p_ob pk) = 8 \<and> length (p_osum pk) = 8 \<and>
     (\<forall>y < 8. if outstanding x j y then p_os pk ! y AND B_SENT \<noteq> 0 else p_os pk ! y = B_NULL) \<and>
     Connodata pk \<le> 20 \<and> Ntimeout pk \<le> 50"

text \<open>The acknowledgements of the last \<open>j\<close> packets, the oldest first.\<close>

definition acks :: "nat \<Rightarrow> nat \<Rightarrow> cstr" where
  "acks x j = concat (map (\<lambda>i. ctl_frame (of_nat (8 * RR + (x + 8 - i) mod 8))) (rev [0..<j]))"

lemma acks_Suc: "acks x (Suc j) = ctl_frame (of_nat (8 * RR + (x + 8 - j) mod 8)) @ acks x j"
  by (simp add: acks_def)

lemma seq_table:
  "\<forall>x \<in> set [0..<8]. \<forall>j \<in> set [0..<7].
     next_seq ((x + 8 - Suc j) mod 8) = (x + 8 - j) mod 8 \<and>
     ((x + 8 - j) mod 8 + 8 - (x + 8 - Suc j) mod 8) mod 8 = 1 \<and>
     (next_seq x + 8 - Suc j) mod 8 = (x + 8 - j) mod 8 \<and>
     (\<forall>y \<in> set [0..<8]. (outstanding x j y \<longleftrightarrow> outstanding x (Suc j) y \<and> y \<noteq> (x + 8 - j) mod 8) \<and>
       (outstanding (next_seq x) (Suc j) y \<longleftrightarrow> outstanding x j y \<or> y = next_seq x))"
  by code_simp

lemma slot_table:
  "\<forall>x \<in> set [0..<8]. \<forall>j \<in> set [0..<7].
     outstanding x (Suc j) ((x + 8 - j) mod 8) \<and> \<not> outstanding x j (next_seq x)"
  by code_simp

lemma seq_facts:
  assumes "x < 8" "j < 7"
  shows "next_seq ((x + 8 - Suc j) mod 8) = (x + 8 - j) mod 8"
    and "((x + 8 - j) mod 8 + 8 - (x + 8 - Suc j) mod 8) mod 8 = 1"
    and "(next_seq x + 8 - Suc j) mod 8 = (x + 8 - j) mod 8"
    and "y < 8 \<Longrightarrow> outstanding x j y \<longleftrightarrow> outstanding x (Suc j) y \<and> y \<noteq> (x + 8 - j) mod 8"
    and "y < 8 \<Longrightarrow> outstanding (next_seq x) (Suc j) y \<longleftrightarrow> outstanding x j y \<or> y = next_seq x"
    and "outstanding x (Suc j) ((x + 8 - j) mod 8)" and "\<not> outstanding x j (next_seq x)"
proof -
  have xj: "x \<in> set [0..<8]" "j \<in> set [0..<7]" using assms by simp_all
  note t = bspec [OF bspec [OF seq_table xj(1)] xj(2)]
  show "next_seq ((x + 8 - Suc j) mod 8) = (x + 8 - j) mod 8" using t by (rule conjunct1)
  show "((x + 8 - j) mod 8 + 8 - (x + 8 - Suc j) mod 8) mod 8 = 1" using t by (elim conjE)
  show "(next_seq x + 8 - Suc j) mod 8 = (x + 8 - j) mod 8" using t by (elim conjE)
  show "outstanding x j y \<longleftrightarrow> outstanding x (Suc j) y \<and> y \<noteq> (x + 8 - j) mod 8"
    "outstanding (next_seq x) (Suc j) y \<longleftrightarrow> outstanding x j y \<or> y = next_seq x" if "y < 8"
  proof -
    have "y \<in> set [0..<8]" using that by simp
    with t have c: "(outstanding x j y \<longleftrightarrow> outstanding x (Suc j) y \<and> y \<noteq> (x + 8 - j) mod 8) \<and>
       (outstanding (next_seq x) (Suc j) y \<longleftrightarrow> outstanding x j y \<or> y = next_seq x)" by blast
    then show "outstanding x j y \<longleftrightarrow> outstanding x (Suc j) y \<and> y \<noteq> (x + 8 - j) mod 8" by (rule conjunct1)
    show "outstanding (next_seq x) (Suc j) y \<longleftrightarrow> outstanding x j y \<or> y = next_seq x" using c by (rule conjunct2)
  qed
  show "outstanding x (Suc j) ((x + 8 - j) mod 8)" "\<not> outstanding x j (next_seq x)"
    using bspec [OF bspec [OF slot_table xj(1)] xj(2)] by simp_all
qed

lemma acks_next: "x < 8 \<Longrightarrow> j \<le> 7 \<Longrightarrow> acks (next_seq x) (Suc j) = acks x j @ ctl_frame (of_nat (8 * RR + next_seq x))"
proof (induction j)
  case 0
  then show ?case by (simp add: acks_def del: of_nat_add of_nat_mult)
next
  case (Suc j)
  then show ?case using seq_facts(3) [of x j] acks_Suc [of "next_seq x" "Suc j"] acks_Suc [of x j] by simp
qed

text \<open>An acknowledgement frees the slot of the oldest packet.\<close>

lemma outgoing_ack:
  assumes "outgoing w n k x (Suc j) pk" "line_in pk = map Byte (acks x (Suc j)) @ es"
  shows "\<exists>pk'. pkgetpack (pk\<lparr>p_state := LIVE OR WAITO\<rparr>) = Inr pk' \<and> outgoing w n k x j pk' \<and>
    p_pr pk' = p_pr pk \<and> line_out pk' = line_out pk \<and> line_in pk' = map Byte (acks x j) @ es"
proof -
  note og = assms(1) [unfolded outgoing_def]
  define v where "v = (x + 8 - j) mod 8"
  have xj: "x < 8" "j < 7" using og by auto
  define u where "u = (x + 8 - Suc j) mod 8"
  note sf = seq_facts [OF xj, folded v_def u_def]
  have v: "v < 8" by (simp add: v_def)
  define p where "p = pk\<lparr>p_state := LIVE OR WAITO, line_in := map Byte (acks x j) @ es,
      Connodata := Connodata pk + 1, p_rpr := v\<rparr>"
  define q where "q = p\<lparr>Connodata := 0, p_os := (p_os p)[v := B_NULL], p_state := LIVE,
      p_xcount := p_xcount p - 1, p_ps := v\<rparr>"
  have busy: "p_os pk ! v AND B_SENT \<noteq> 0" using og sf(6) v by auto
  have sack: "pksack p = q"
  proof -
    have ps: "p_ps p = u" "p_rpr p = v" using og by (simp_all add: p_def u_def)
    have "pksack p = sack_loop (Suc 0) u p" unfolding pksack_def ps sf(2) by simp
    then show ?thesis using busy by (simp add: Let_def sf(1) q_def p_def)
  qed
  have "pkgetpack (pk\<lparr>p_state := LIVE OR WAITO\<rparr>) =
      pkcntl (of_nat (8 * RR + v)) (pk\<lparr>p_state := LIVE OR WAITO, line_in := map Byte (acks x j) @ es,
        Connodata := Connodata pk + 1\<rparr>)"
    by (subst pkgetpack_ctl [where c = "of_nat (8 * RR + v)" and es = "map Byte (acks x j) @ es"])
      (use og assms(2) in \<open>simp_all add: ready_def acks_Suc v_def del: of_nat_add of_nat_mult\<close>)
  also have "\<dots> = (if p_msg (pksack p) \<noteq> 0 then pkoutput (pksack p) else Inr (pksack p))"
    using msg_fields [of RR v] v unfolding pkcntl_def Let_def p_def
    by (simp del: of_nat_add of_nat_mult)
  also have "\<dots> = Inr q" using og unfolding sack by (simp add: q_def p_def)
  finally have "pkgetpack (pk\<lparr>p_state := LIVE OR WAITO\<rparr>) = Inr q" .
  moreover have "outgoing w n k x j q"
    using og sf(4) v by (auto simp: outgoing_def p_def q_def v_def [symmetric] nth_list_update split: if_splits)
  ultimately show ?thesis by (auto simp: p_def q_def)
qed

text \<open>A packet goes out when the window has room.\<close>

lemma outgoing_send:
  assumes "outgoing w n k x j pk" "j < w" "length s \<le> n" "n \<le> 4096" "length (mal n) = n"
  shows "\<exists>pk'. write_packet mal s pk = Inr pk' \<and> outgoing w n k (next_seq x) (Suc j) pk' \<and>
    p_pr pk' = p_pr pk \<and> line_in pk' = line_in pk \<and>
    line_out pk' = line_out pk @ data_frame k (p_pr pk) (next_seq x) (length s < n) (out_buffer mal n s)"
proof -
  note og = assms(1) [unfolded outgoing_def]
  have xj: "x < 8" "j < 7" using og assms(2) by auto
  have sd: "sending n k pk"
    using og assms(2) seq_facts(7) [OF xj] by (auto simp: sending_def)
  have px: "next_seq x = next_seq (p_pscopy pk)" using og by simp
  have "outgoing w n k (next_seq x) (Suc j) (pk\<lparr>p_pscopy := next_seq x, p_xcount := p_xcount pk + 1,
      p_ob := (p_ob pk)[next_seq x := b], p_osum := (p_osum pk)[next_seq x := c],
      p_os := (p_os pk)[next_seq x := u OR B_SENT], p_nxtps := next_seq (next_seq x), Connodata := 0,
      p_state := LIVE, line_out := l\<rparr>)" if "(u OR B_SENT) AND B_SENT \<noteq> 0" for b c u l
    using og assms(2) seq_facts(3,5) [OF xj] that by (auto simp: outgoing_def nth_list_update)
  moreover have "(u OR B_SENT) AND B_SENT \<noteq> 0" for u :: "8 word"
  proof -
    have "(u OR B_SENT) AND B_SENT = B_SENT" by (rule bit_word_eqI) (auto simp: bit_simps)
    then show ?thesis by simp
  qed
  ultimately show ?thesis
    using write_packet_sends [where b = "out_buffer mal n s", OF sd assms(3-5) px refl refl] by simp
qed

text \<open>A full window: the sender reads one acknowledgement first.\<close>

lemma outgoing_full:
  assumes "outgoing w n k x w pk" "line_in pk = map Byte (acks x w)"
  shows "\<exists>pk' j. w = Suc j \<and> room_wait pk = Inr pk' \<and> outgoing w n k x j pk' \<and>
    p_pr pk' = p_pr pk \<and> line_out pk' = line_out pk \<and> line_in pk' = map Byte (acks x j)"
proof -
  note og = assms(1) [unfolded outgoing_def]
  obtain j where j: "w = Suc j" "x < 8" "w \<le> 7" using og by (cases w) auto
  have free: "\<not> outstanding x w (next_seq x)"
  proof -
    have "\<forall>x \<in> set [0..<8]. \<forall>w \<in> set [0..<8]. \<not> outstanding x w (next_seq x)" by code_simp
    then show ?thesis using j by simp
  qed
  obtain pk' where pk': "pkgetpack (pk\<lparr>p_state := LIVE OR WAITO\<rparr>) = Inr pk'" "outgoing w n k x j pk'"
      "p_pr pk' = p_pr pk" "line_out pk' = line_out pk" "line_in pk' = map Byte (acks x j)"
    using outgoing_ack [of w n k x j pk "[]"] assms unfolding j(1) by auto
  have "p_os pk ! next_seq x = B_NULL" using og free by auto
  then have out: "pkoutput pk = Inr (pk\<lparr>p_state := LIVE OR WAITO\<rparr>)"
    using og j(1) by (simp add: pkoutput_def Let_def)
  have "room_wait pk' = Inr pk'"
    using pk'(2) j(1) by (simp add: room_wait.simps [of pk'] outgoing_def)
  then have "room_wait pk = Inr pk'"
    using og pk'(1) by (simp add: room_wait.simps [of pk] out)
  then show ?thesis using pk' j(1) by blast
qed

lemma write_packet_after_wait: "room_wait pk = Inr pk' \<Longrightarrow> room_wait pk' = Inr pk' \<Longrightarrow> write_packet mal s pk = write_packet mal s pk'"
  by (simp add: write_packet_def)

lemma outgoing_write:
  assumes "outgoing w n k x j pk" "line_in pk = map Byte (acks x j)" "length s \<le> n" "n \<le> 4096" "length (mal n) = n"
  shows "\<exists>pk' i. pkwrite mal s pk = Inr (int (length s), pk') \<and> outgoing w n k (next_seq x) (Suc i) pk' \<and> i < 7 \<and>
    line_in pk' = map Byte (acks x i) \<and> p_pr pk' = p_pr pk \<and>
    line_out pk' = line_out pk @ data_frame k (p_pr pk) (next_seq x) (length s < n) (out_buffer mal n s)"
proof -
  note og = assms(1) [unfolded outgoing_def]
  obtain p i where p: "write_packet mal s pk = write_packet mal s p" "outgoing w n k x i p" "i < w"
      "p_pr p = p_pr pk" "line_out p = line_out pk" "line_in p = map Byte (acks x i)"
  proof (cases "j = w")
    case True
    then obtain p i where p: "w = Suc i" "room_wait pk = Inr p" "outgoing w n k x i p" "p_pr p = p_pr pk"
        "line_out p = line_out pk" "line_in p = map Byte (acks x i)"
      using outgoing_full [of w n k x pk] assms(1,2) by blast
    have "room_wait p = Inr p" using p(1,3) by (simp add: room_wait.simps [of p] outgoing_def)
    then have "write_packet mal s pk = write_packet mal s p" using p(2) by (intro write_packet_after_wait)
    then show ?thesis using that p by simp
  next
    case False
    then have "j < w" using og by simp
    then show ?thesis using that assms(1,2) by blast
  qed
  obtain q where q: "write_packet mal s p = Inr q" "outgoing w n k (next_seq x) (Suc i) q" "p_pr q = p_pr p"
      "line_in q = line_in p"
      "line_out q = line_out p @ data_frame k (p_pr p) (next_seq x) (length s < n) (out_buffer mal n s)"
    using outgoing_send [where mal = mal, OF p(2,3) assms(3-5)] by blast
  have "write_loop mal s pk = Inr q"
    using q(1,2) assms(3) by (simp add: write_loop.simps [of mal s pk] p(1) outgoing_def)
  then have "pkwrite mal s pk = Inr (int (length s), q)" using og by (simp add: pkwrite_def c_not_def)
  moreover have "i < 7" using p(3) og by simp
  ultimately show ?thesis using q p by auto
qed

section \<open>The conversation\<close>

text \<open>
  Messages written at one end and read at the other, in turn; what an end has put on the line is
  appended to what the other will read.
\<close>

definition wire :: "cstr \<Rightarrow> pack \<Rightarrow> pack \<Rightarrow> pack" where
  "wire sent from to = to\<lparr>line_in := line_in to @ map Byte (drop (length sent) (line_out from))\<rparr>"

fun converse :: "(nat \<Rightarrow> cstr) \<Rightarrow> nat \<Rightarrow> cstr list \<Rightarrow> pack \<Rightarrow> pack \<Rightarrow> pkerr + (cstr list \<times> pack \<times> pack)" where
  "converse mal icount [] a b = Inr ([], a, b)"
| "converse mal icount (m # ms) a b =
     (case pkwrite mal m a of
        Inl e \<Rightarrow> Inl e
      | Inr (r, a') \<Rightarrow>
          (case pkread icount (wire (line_out a) a' b) of
             Inl e \<Rightarrow> Inl e
           | Inr (d, b') \<Rightarrow>
               (case converse mal icount ms (wire (line_out b) b' a') b' of
                  Inl e \<Rightarrow> Inl e
                | Inr (ds, a, b) \<Rightarrow> Inr (d # ds, a, b))))"

definition conversing :: "nat \<Rightarrow> nat \<Rightarrow> nat \<Rightarrow> nat \<Rightarrow> pack \<Rightarrow> pack \<Rightarrow> bool" where
  "conversing w n k x a b \<longleftrightarrow> (\<exists>j. outgoing w n k x j a \<and> line_in a = map Byte (acks x j)) \<and> p_pr a < 8 \<and>
     listening n b \<and> p_pr b = x \<and> line_in b = []"

lemma converse_one:
  assumes "conversing w n k x a b" "k \<in> set [1..<9]" "pksizes ! k = n" "n \<le> 4096" "length (mal n) = n"
    and "length m \<le> n" "0 < icount" "n \<le> icount"
  shows "\<exists>a' b'. pkwrite mal m a = Inr (int (length m), a') \<and> pkread icount (wire (line_out a) a' b) = Inr (m, b') \<and>
    conversing w n k (next_seq x) (wire (line_out b) b' a') b'"
proof -
  obtain j where j: "outgoing w n k x j a" "line_in a = map Byte (acks x j)"
    using assms(1) by (auto simp: conversing_def)
  have cv: "p_pr a < 8" "listening n b" "p_pr b = x" "line_in b = []" "x < 8"
    using assms(1) by (auto simp: conversing_def outgoing_def)
  obtain a' i where a': "pkwrite mal m a = Inr (int (length m), a')" "outgoing w n k (next_seq x) (Suc i) a'" "i < 7"
      "line_in a' = map Byte (acks x i)" "p_pr a' = p_pr a"
      "line_out a' = line_out a @ data_frame k (p_pr a) (next_seq x) (length m < n) (out_buffer mal n m)"
    using outgoing_write [where mal = mal, OF j assms(6,4,5)] by blast
  define r where "r = wire (line_out a) a' b"
  have r: "listening n r" "p_pr r = x" "line_out r = line_out b"
      "line_in r = map Byte (data_frame k (p_pr a) (next_seq (p_pr r)) (length m < n) (out_buffer mal n m)) @ []"
    using cv a'(6) by (simp_all add: r_def wire_def listening_def)
  obtain b' where b': "pkread icount r = Inr (m, b')" "listening n b'" "p_pr b' = next_seq x" "line_in b' = []"
      "line_out b' = line_out b @ ctl_frame (of_nat (8 * RR + next_seq x))"
    using pkread_data [where mal = mal and s = m, OF r(1) assms(2-4) cv(1) refl assms(5,6,7) _ r(4)] assms(6,8) r(2,3)
    by (auto simp del: of_nat_add of_nat_mult)
  have "line_in (wire (line_out b) b' a') = map Byte (acks (next_seq x) (Suc i))"
    using acks_next [of x i] cv(5) a'(3,4) b'(5) by (simp add: wire_def del: of_nat_add of_nat_mult)
  moreover have "outgoing w n k (next_seq x) (Suc i) (wire (line_out b) b' a')"
    using a'(2) by (simp add: outgoing_def wire_def)
  ultimately have "conversing w n k (next_seq x) (wire (line_out b) b' a') b'"
    using b' cv(1) a'(5) by (auto simp: conversing_def wire_def)
  then show ?thesis using a'(1) b'(1) by (auto simp: r_def)
qed

lemma converse_all:
  assumes "k \<in> set [1..<9]" "pksizes ! k = n" "n \<le> 4096" "length (mal n) = n" "0 < icount" "n \<le> icount"
  shows "conversing w n k x a b \<Longrightarrow> \<forall>m \<in> set ms. length m \<le> n \<Longrightarrow>
    \<exists>a' b'. converse mal icount ms a b = Inr (ms, a', b')"
proof (induction ms arbitrary: x a b)
  case (Cons m ms)
  have "length m \<le> n" using Cons.prems by simp
  then obtain a' b' where m: "pkwrite mal m a = Inr (int (length m), a')" "pkread icount (wire (line_out a) a' b) = Inr (m, b')"
      "conversing w n k (next_seq x) (wire (line_out b) b' a') b'"
    using converse_one [where mal = mal, OF Cons.prems(1) assms(1-4) _ assms(5,6)] by blast
  then show ?case using Cons.IH [OF m(3)] Cons.prems(2) by auto
qed simp

text \<open>Two ends that have come up on each other's messages.\<close>

lemma came_up_conversing:
  assumes "1 \<le> w'" "w' \<le> 7" "n' \<in> set packet_sizes"
  shows "conversing w' n' (pksize n' + 1) 0 (pkreset (came_up w n w' n' [])) (pkreset (came_up w' n' w n []))"
proof -
  have "\<not> outstanding 0 0 y" for y by (simp add: outstanding_def)
  then have "outgoing w' n' (pksize n' + 1) 0 0 (pkreset (came_up w n w' n' []))"
    using assms by (simp add: outgoing_def came_up_def pkreset_def new_pack_def next_seq_def)
  moreover have "listening n' (pkreset (came_up w' n' w n []))"
    using assms by (cases w') (simp_all add: listening_def came_up_def pkreset_def new_pack_def)
  ultimately show ?thesis
    by (auto simp: conversing_def acks_def came_up_def pkreset_def new_pack_def)
qed

text \<open>
  C5: A conversation delivers. Two ends open the line, each on the synchronization messages of the
  other, with whatever windows and packet sizes they have. Then every sequence of messages that
  \<open>pkwrite\<close> is given at one end, none longer than the other end's packets, is returned message by
  message by \<open>pkread\<close> at the other: no packet is lost, doubled or damaged, though sequence numbers
  go round modulo 8, the sender runs ahead by its window and short packets carry a count in
  their data. The messages may hold any bytes. The memory \<open>malloc\<close> returns is a parameter.
\<close>

theorem pk_conversation:
  assumes "1 \<le> w" "w \<le> 7" "n \<in> set packet_sizes" "1 \<le> w'" "w' \<le> 7" "n' \<in> set packet_sizes"
    and "\<forall>n. length (mal n) = n" "\<forall>m \<in> set ms. length m \<le> n'" "n' \<le> icount"
  shows "\<exists>a b a' b'. pkopen w n (map Byte (frames (sync_msgs w' n'))) = Inr (Some a) \<and>
    pkopen w' n' (map Byte (frames (sync_msgs w n))) = Inr (Some b) \<and>
    converse mal icount ms a b = Inr (ms, a', b')"
proof -
  have k: "pksize n' + 1 \<in> set [1..<9]" "pksizes ! (pksize n' + 1) = n'" "n' \<le> 4096" "0 < n'"
    using packet_sizes_table assms(6) by (auto simp: packet_sizes_def)
  have "\<exists>a' b'. converse mal icount ms (pkreset (came_up w n w' n' [])) (pkreset (came_up w' n' w n [])) = Inr (ms, a', b')"
    using converse_all [where mal = mal, OF k(1-3) _ _ assms(9) came_up_conversing [OF assms(4-6)] assms(8)] assms(7,9) k(4) by simp
  moreover have "pkopen w n (map Byte (frames (sync_msgs w' n'))) = Inr (Some (pkreset (came_up w n w' n' [])))"
    "pkopen w' n' (map Byte (frames (sync_msgs w n))) = Inr (Some (pkreset (came_up w' n' w n [])))"
    using pkopen_comes_up [OF assms(4-6), of w n "[]"] pkopen_comes_up [OF assms(1-3), of w' n' "[]"] by simp_all
  ultimately show ?thesis by blast
qed

lemma pk_conversation_witness:
  "\<exists>a b a' b'. pkopen 7 64 (map Byte (frames (sync_msgs 2 32))) = Inr (Some a) \<and>
    pkopen 2 32 (map Byte (frames (sync_msgs 7 64))) = Inr (Some b) \<and>
    converse (\<lambda>n. replicate n NUL) 1024 [''Snews'', [], replicate 32 (chr 9), ''ROK'', ''OO''] a b =
      Inr ([''Snews'', [], replicate 32 (chr 9), ''ROK'', ''OO''], a', b')"
  using pk_conversation [of 7 64 2 32 "\<lambda>n. replicate n NUL" "[''Snews'', [], replicate 32 (chr 9), ''ROK'', ''OO'']" 1024]
  by (simp add: packet_sizes_def)

end
