(* ===== verification/PkFaults.thy ===== *)
theory PkFaults
  imports PkPacket
begin

text \<open>
  Input and states for which the packet driver does not do what it means to: a packet size that
  indexes past its table, a count in a short packet that is longer than the packet, a buffer that
  an alarm loses, and the test of a line that is not live.
\<close>

section \<open>The size in a header\<close>

text \<open>The header's XOR agrees, its size is in none of the table's ten entries.\<close>

lemma size_out_of_table:
  assumes "(9 :: int) < sint k \<or> sint k < 0"
  shows "take_header (header k h c) pk = Inl PkWild"
proof -
  have "k \<noteq> 9" "k \<noteq> 0" using assms by auto
  then show ?thesis
    using assms unfolding take_header_def header_nth split16 Let_def
    by (auto simp: xor.assoc)
qed

section \<open>The count of a short packet\<close>

lemma short_cc_most: "short_cc (chr 255 # chr 127 # s) = 0x3FFF"
  by (simp add: short_cc_def byte_of_def Let_def)

text \<open>
  A packet with a good header and checksum, whose data begin with a count of 16383: the number of
  bytes left for the user is negative, and \<open>memcpy\<close> is called with it.
\<close>

lemma short_count_unchecked:
  assumes "listening n pk" "k \<in> set [1..<9]" "pksizes ! k = n" "n \<le> 4096" "pr < 8" "0 < icount"
    and "buf = chr 255 # chr 127 # s" "length buf = n"
    and "line_in pk = map Byte (data_frame k pr (next_seq (p_pr pk)) True buf) @ es"
  shows "pkread icount pk = Inl PkWild"
proof -
  define x where "x = next_seq (p_pr pk)"
  define count :: "16 word" where "count = ucast (of_nat n - 0x3FFF :: 32 word)"
  have x: "x < 8" by (simp add: x_def)
  have "count = ucast (of_nat n - (if True then short_cc buf else 0))"
    by (simp add: count_def assms(7) short_cc_most)
  then obtain ib isum where acc: "pkaccept pk = Inr (1, pk\<lparr>line_in := es, Connodata := Connodata pk + 1, p_rpr := pr,
      p_ipool := tl (p_ipool pk), p_bufs := (p_bufs pk)[hd (p_ipool pk) := buf],
      p_is := (replicate 8 0)[x := 0x70], p_isum := isum, p_ib := ib, Ntimeout := 0, p_rcount := 1\<rparr>)"
      "isum ! x = count"
    using pkaccept_any [OF assms(1-4,8,5) x_def assms(9) [folded x_def]] by auto
  have neg: "sint count < 0"
  proof -
    have "n \<in> set [32, 64, 128, 256, 512, 1024, 2048, 4096]"
      using assms(2,3) by (auto simp: pksizes_def upt_conv_Cons)
    then show ?thesis by (auto simp: count_def)
  qed
  show ?thesis
    using acc(1) neg x assms(6)
    by (simp add: pkread_def accept_loop.simps [of pk] read_loop.simps [of icount] acc(2) x_def [symmetric] min_def Let_def)
qed

section \<open>An alarm while the data are read\<close>

text \<open>The buffer taken from the pool is in no slot and not in the pool again.\<close>

lemma alarm_loses_buffer:
  assumes "listening n pk" "k \<in> set [1..<9]" "pksizes ! k = n" "pr < 8" "x < 8" "length s < n"
    and "h = CHECK - (chksum buf (length buf) XOR ucast (data_cntl pr x short))"
    and "line_in pk = map Byte s @ Alarm # es"
  shows "\<exists>pk'. take_header (header (of_nat k) h (data_cntl pr x short)) pk = Inr (False, pk') \<and>
    p_ipool pk' = tl (p_ipool pk) \<and> p_ib pk' = p_ib pk \<and> p_is pk' = p_is pk"
proof -
  note ls = assms(1) [unfolded listening_def]
  obtain bp rest where pool: "p_ipool pk = bp # rest" using ls by (cases "p_ipool pk") auto
  have get: "m > length s \<Longrightarrow> get_bytes m (map Byte s @ Alarm # es) = Inr (None, es)" for m
  proof (induction s arbitrary: m)
    case Nil
    then show ?case by (cases m) auto
  next
    case (Cons a s)
    then show ?case by (cases m) auto
  qed
  show ?thesis
    using frame_k [OF assms(2)] ls get [OF assms(6)] assms(8)
    unfolding take_header_def header_nth split16 Let_def
    by (simp add: assms(3) pool pksack_idle pkcget_def)
qed

section \<open>A line that is not live\<close>

text \<open>The test of \<open>LIVE\<close> never refuses a write: only \<open>DOWN\<close> does.\<close>

lemma pkwrite_unguarded:
  "p_state pk AND DOWN = 0 \<Longrightarrow>
   pkwrite mal s pk = (case write_loop mal s pk of Inl e \<Rightarrow> Inl e | Inr pk \<Rightarrow> Inr (int (length s), pk))"
  by (simp add: pkwrite_def c_not_def)

end
