(* ===== verification/Pack.thy ===== *)
theory Pack
  imports Prelude Complex_Main
begin

text \<open>
  The Huffman packer, \<open>cmd/pack/pack.c\<close>. The file is a list of bytes; the global arrays
  \<open>count\<close>, \<open>parent\<close>, \<open>length\<close> (here \<open>clen\<close>), \<open>bits\<close> and \<open>levcount\<close> are lists of the
  arrays' sizes, \<open>heap\<close> a list of pairs of a count and a node that is used from index 1 on, and
  \<open>n\<close> is passed along. A \<open>long\<close> that holds a bit pattern is a 64-bit word; counts cannot wrap for
  a file of less than \<open>2 ^ 61\<close> bytes and are natural numbers. An access outside an array is
  \<open>PWild\<close>. The output buffer, which the C code writes whenever it is full, is the list of the
  bytes written so far and in the buffer; read and write errors are left out.
\<close>

abbreviation END :: nat where "END \<equiv> 256"

abbreviation BUFSZ :: nat where "BUFSZ \<equiv> 8192"

datatype packres = Trivial | Deep | NoSaving | Packed cstr | PWild

section \<open>Character counts\<close>

text \<open>\<open>input\<close>, which counts every occurrence twice.\<close>

definition input :: "cstr \<Rightarrow> nat list" where
  "input s = fold (\<lambda>c count. count[ord c := count ! ord c + 2]) s (replicate (END + 1) 0)"

text \<open>The loop of \<open>packfile\<close> that puts the occurring characters in the heap, from \<open>END\<close> down.\<close>

type_synonym hnode = "nat \<times> nat"

fun fill_heap :: "nat list \<Rightarrow> nat \<Rightarrow> hnode list \<times> nat \<times> int \<times> nat \<Rightarrow> hnode list \<times> nat \<times> int \<times> nat" where
  "fill_heap count 0 st = st"
| "fill_heap count (Suc i) (h, n, diffbytes, insize) =
     fill_heap count i
       (if count ! i > 0 then (h[n + 1 := (count ! i, i)], n + 1, diffbytes + 1, insize + count ! i)
        else (h, n, diffbytes, insize))"

section \<open>The heap\<close>

text \<open>The loop of \<open>heapify\<close> with \<open>heapsubi\<close>; it is only called with \<open>i\<close> at least 1.\<close>

function sift :: "nat \<Rightarrow> hnode \<Rightarrow> nat \<Rightarrow> hnode list \<Rightarrow> hnode list" where
  "sift n v i h =
     (if 1 \<le> i \<and> i \<le> n div 2 then
        let k = (if fst (h ! (2 * i)) > fst (h ! (2 * i + 1)) \<and> 2 * i < n then 2 * i + 1 else 2 * i) in
        if fst v < fst (h ! k) then h[i := v] else sift n v k (h[i := h ! k])
      else h[i := v])"
  by pat_completeness auto
termination
  by (relation "measure (\<lambda>(n, v, i, h). n + 1 - i)") auto

declare sift.simps [simp del]

definition heapify :: "nat \<Rightarrow> nat \<Rightarrow> hnode list \<Rightarrow> hnode list" where
  "heapify n i h = sift n (h ! i) i h"

fun make_heap :: "nat \<Rightarrow> nat \<Rightarrow> hnode list \<Rightarrow> hnode list" where
  "make_heap n 0 h = h"
| "make_heap n (Suc i) h = make_heap n i (heapify n (Suc i) h)"

section \<open>The Huffman tree\<close>

text \<open>
  One turn of the loop: the two entries of the smallest counts get the new node \<open>lastnode\<close> as
  their parent, which takes their place.
\<close>

definition pop_least :: "nat \<Rightarrow> hnode list \<Rightarrow> hnode list" where
  "pop_least n h = heapify (n - 1) 1 (h[1 := h ! n])"

definition merge_least :: "nat \<Rightarrow> nat \<Rightarrow> nat \<Rightarrow> hnode list \<Rightarrow> hnode list" where
  "merge_least n inc lastnode h = heapify n 1 (h[1 := (fst (h ! 1) + inc, lastnode)])"

fun build :: "nat \<Rightarrow> hnode list \<Rightarrow> nat \<Rightarrow> nat list \<Rightarrow> nat list" where
  "build n h lastnode parent =
     (if n > 1 then
        let lastnode = lastnode + 1;
            parent = parent[snd (h ! 1) := lastnode];
            inc = fst (h ! 1);
            h = pop_least n h;
            n = n - 1;
            parent = parent[snd (h ! 1) := lastnode]
        in build n (merge_least n inc lastnode h) lastnode parent
      else parent[lastnode := 0])"

declare build.simps [simp del]

text \<open>The chain of parents of a node; \<open>None\<close> is a chain that does not end.\<close>

partial_function (option) chain :: "nat list \<Rightarrow> nat \<Rightarrow> nat \<Rightarrow> nat option" where
  "chain parent p c = (if p = 0 then Some c else chain parent (parent ! p) (c + 1))"

declare chain.simps [code]

text \<open>
  The lengths of the codes, with the count of the leaves of every level, the deepest level and
  the bits of the output. \<open>levcount\<close> has 25 entries.
\<close>

fun set_lengths :: "nat list \<Rightarrow> nat list \<Rightarrow> nat list \<Rightarrow> nat list \<times> nat list \<times> nat \<times> nat \<Rightarrow>
    (nat list \<times> nat list \<times> nat \<times> nat) option option" where
  "set_lengths count parent [] st = Some (Some st)"
| "set_lengths count parent (i # is) (clen, levcount, maxlev, bitsout) =
     (case chain parent (parent ! i) 0 of
        None \<Rightarrow> None
      | Some c \<Rightarrow>
          if c \<ge> 25 then Some None
          else set_lengths count parent is
            (clen[i := c], levcount[c := levcount ! c + 1], max maxlev c, bitsout + c * (count ! i div 2)))"

section \<open>Codes\<close>

text \<open>The codes of a level, in the order of the characters, and the loop over the levels.\<close>

fun level_codes :: "nat list \<Rightarrow> nat \<Rightarrow> 64 word \<Rightarrow> nat list \<Rightarrow> 64 word \<times> 64 word list \<Rightarrow> 64 word \<times> 64 word list" where
  "level_codes clen i inc [] st = st"
| "level_codes clen i inc (c # cs) (mk, bits) =
     level_codes clen i inc cs (if clen ! c = i then (mk + inc, bits[c := mk]) else (mk, bits))"

fun set_codes :: "nat list \<Rightarrow> nat \<Rightarrow> 64 word \<Rightarrow> 64 word \<Rightarrow> 64 word list \<Rightarrow> 64 word list" where
  "set_codes clen 0 inc mk bits = bits"
| "set_codes clen (Suc i) inc mk bits =
     (let (mk, bits) = level_codes clen (Suc i) inc [0..<END + 1] (mk, bits)
      in set_codes clen i (push_bit 1 inc) (mk AND NOT inc) bits)"

section \<open>Output\<close>

definition byte8 :: "8 word \<Rightarrow> char" where
  "byte8 w = chr (unat w)"

definition word8 :: "char \<Rightarrow> 8 word" where
  "word8 c = of_nat (ord c)"

text \<open>The four bytes of \<open>mask\<close>, in the order of \<open>maskshuff\<close>.\<close>

definition maskshuff :: "64 word \<Rightarrow> 8 word list" where
  "maskshuff mk = [ucast (drop_bit 24 mk), ucast (drop_bit 16 mk), ucast (drop_bit 8 mk), ucast mk]"

text \<open>The loop that goes to the next byte of the output while the code has bits left.\<close>

fun put_more :: "8 word list \<Rightarrow> int \<Rightarrow> cstr \<Rightarrow> (cstr \<times> int) option" where
  "put_more q left out =
     (if left < 0 then (case q of [] \<Rightarrow> None | w # q \<Rightarrow> put_more q (left + 8) (out @ [byte8 w]))
      else Some (out, left))"

declare put_more.simps [simp del]

definition put_code :: "64 word \<Rightarrow> nat \<Rightarrow> cstr \<times> int \<Rightarrow> (cstr \<times> int) option" where
  "put_code b len st =
     (let (out, bitsleft) = st;
          q = maskshuff (push_bit (nat bitsleft) b);
          out = (if bitsleft = 8 then out @ [byte8 (hd q)] else butlast out @ [byte8 (word8 (last out) OR hd q)])
      in put_more (tl q) (bitsleft - int len) out)"

fun put_text :: "nat list \<Rightarrow> 64 word list \<Rightarrow> nat list \<Rightarrow> cstr \<times> int \<Rightarrow> (cstr \<times> int) option" where
  "put_text clen bits [] st = Some st"
| "put_text clen bits (c # cs) st =
     (case put_code (bits ! c) (clen ! c) st of None \<Rightarrow> None | Some st \<Rightarrow> put_text clen bits cs st)"

text \<open>The header: the magic number, the size, the levels and the dictionary.\<close>

definition size_bytes :: "nat \<Rightarrow> cstr" where
  "size_bytes sz = map (\<lambda>k. byte8 (of_nat (sz div 256 ^ k))) [3, 2, 1, 0]"

definition dictionary :: "nat list \<Rightarrow> nat \<Rightarrow> cstr" where
  "dictionary clen maxlev =
     concat (map (\<lambda>i. map chr (filter (\<lambda>c. clen ! c = i) [0..<END])) [1..<maxlev + 1])"

definition pack_header :: "nat \<Rightarrow> nat list \<Rightarrow> nat list \<Rightarrow> nat \<Rightarrow> cstr" where
  "pack_header insize clen levcount maxlev =
     [CHR 0x1F, CHR 0x1E] @ size_bytes insize @ [byte8 (of_nat maxlev)] @
     map (\<lambda>i. byte8 (of_nat (levcount ! i))) [1..<maxlev] @ [byte8 (of_nat (levcount ! maxlev) - 2)] @
     dictionary clen maxlev"

definition pack_output :: "cstr \<Rightarrow> nat \<Rightarrow> nat list \<Rightarrow> nat list \<Rightarrow> nat \<Rightarrow> 64 word list \<Rightarrow> cstr option" where
  "pack_output s insize clen levcount maxlev bits =
     map_option fst (put_text clen bits (map ord s @ [END]) (pack_header insize clen levcount maxlev, 8))"

section \<open>The packer\<close>

definition outsize_of :: "nat \<Rightarrow> nat \<Rightarrow> int \<Rightarrow> int" where
  "outsize_of bitsout maxlev diffbytes = int ((bitsout + 7) div 8) + 6 + int maxlev + diffbytes"

text \<open>
  \<open>packfile\<close>. \<open>None\<close> is a chain of parents without end. The heap array has \<open>END + 2\<close> entries, whose
  contents before are of no account; so have \<open>parent\<close> (\<open>2 * END + 1\<close>), \<open>bits\<close> and \<open>clen\<close>.
\<close>

definition packfile :: "bool \<Rightarrow> hnode list \<Rightarrow> nat list \<Rightarrow> cstr \<Rightarrow> packres option" where
  "packfile force heap0 parent0 s =
     (let count = (input s)[END := 1];
          (h, n, diffbytes, insize2) = fill_heap count (END + 1) (heap0, 0, - 1, 0);
          parent = map (\<lambda>i. if i \<le> END then 0 else parent0 ! i) [0..<2 * END + 1]
      in
      if diffbytes = 1 then Some Trivial
      else
        let insize = insize2 div 2;
            parent = build n (make_heap n (n div 2) h) END parent
        in
        case set_lengths count parent [0..<END + 1] (replicate (END + 1) 0, replicate 25 0, 0, 0) of
          None \<Rightarrow> None
        | Some None \<Rightarrow> Some PWild
        | Some (Some (clen, levcount, maxlev, bitsout)) \<Rightarrow>
            if maxlev > 24 then Some Deep
            else if (int insize + int BUFSZ - 1) div int BUFSZ \<le> (outsize_of bitsout maxlev diffbytes + int BUFSZ - 1) div int BUFSZ \<and> \<not> force
            then Some NoSaving
            else
              let bits = set_codes clen maxlev (drop_bit maxlev (push_bit 24 1)) 0 (replicate (END + 1) 0)
              in (case pack_output s insize clen levcount maxlev bits of None \<Rightarrow> Some PWild | Some out \<Rightarrow> Some (Packed out)))"

end
