(* ===== verification/PackHeap.thy ===== *)
theory PackHeap
  imports Pack "HOL-Library.Multiset"
begin

text \<open>
  The heap of the packer as a priority queue: what the Huffman loop needs of it is the locale
  \<open>pqueue\<close>, which \<open>heapify\<close> discharges.
\<close>

section \<open>The interface\<close>

locale pqueue =
  fixes ok :: "nat \<Rightarrow> 'h \<Rightarrow> bool"
    and items :: "nat \<Rightarrow> 'h \<Rightarrow> hnode multiset"
    and least :: "'h \<Rightarrow> hnode"
    and pop :: "nat \<Rightarrow> 'h \<Rightarrow> 'h"
    and join :: "nat \<Rightarrow> nat \<Rightarrow> nat \<Rightarrow> 'h \<Rightarrow> 'h"
  assumes least_in: "ok n h \<Longrightarrow> 1 \<le> n \<Longrightarrow> least h \<in># items n h"
    and least_le: "ok n h \<Longrightarrow> x \<in># items n h \<Longrightarrow> fst (least h) \<le> fst x"
    and pop_ok: "ok n h \<Longrightarrow> 2 \<le> n \<Longrightarrow> ok (n - 1) (pop n h)"
    and pop_items: "ok n h \<Longrightarrow> 2 \<le> n \<Longrightarrow> items n h = items (n - 1) (pop n h) + {#least h#}"
    and join_ok: "ok n h \<Longrightarrow> 1 \<le> n \<Longrightarrow> ok n (join n inc z h)"
    and join_items: "ok n h \<Longrightarrow> 1 \<le> n \<Longrightarrow>
      items n (join n inc z h) + {#least h#} = items n h + {#(fst (least h) + inc, z)#}"
begin

text \<open>One turn of the Huffman loop takes the two least entries and puts their sum in.\<close>

lemma two_least:
  assumes "ok n h" "2 \<le> n" "a = least h" "g = pop n h" "b = least g"
  obtains M where "items n h = M + {#a, b#}" "ok (n - 1) (join (n - 1) (fst a) x g)"
    "items (n - 1) (join (n - 1) (fst a) x g) = M + {#(fst b + fst a, x)#}"
    "fst a \<le> fst b" "\<forall>y \<in># M. fst b \<le> fst y"
proof -
  have g: "ok (n - 1) g" "items n h = items (n - 1) g + {#a#}"
    using pop_ok [OF assms(1,2)] pop_items [OF assms(1,2)] assms(3,4) by simp_all
  have n: "1 \<le> n - 1" using assms(2) by simp
  have b: "b \<in># items (n - 1) g" using least_in [OF g(1) n] assms(5) by simp
  define M where "M = items (n - 1) g - {#b#}"
  have M: "items (n - 1) g = M + {#b#}" using b by (simp add: M_def)
  have "items (n - 1) (join (n - 1) (fst a) x g) + {#b#} = M + {#b#} + {#(fst b + fst a, x)#}"
    using join_items [OF g(1) n] assms(5) M by simp
  then have j: "items (n - 1) (join (n - 1) (fst a) x g) = M + {#(fst b + fst a, x)#}" by simp
  have "b \<in># items n h" using b g(2) by simp
  then have "fst a \<le> fst b" using least_le [OF assms(1)] assms(3) by simp
  moreover have "\<forall>y \<in># M. fst b \<le> fst y" using least_le [OF g(1)] assms(5) M by auto
  moreover have "items n h = M + {#a, b#}" using g(2) M by simp
  ultimately show ?thesis using that j join_ok [OF g(1) n] by blast
qed

end

section \<open>Sifting\<close>

definition items :: "nat \<Rightarrow> hnode list \<Rightarrow> hnode multiset" where
  "items n h = mset (map (nth h) [1..<Suc n])"

definition ordered :: "nat \<Rightarrow> nat \<Rightarrow> hnode list \<Rightarrow> bool" where
  "ordered n i h \<longleftrightarrow> (\<forall>m \<le> n. i \<le> m div 2 \<longrightarrow> fst (h ! (m div 2)) \<le> fst (h ! m))"

definition heap_ok :: "nat \<Rightarrow> hnode list \<Rightarrow> bool" where
  "heap_ok n h \<longleftrightarrow> n < length h \<and> ordered n 1 h"

lemma items_0 [simp]: "items 0 h = {#}"
  by (simp add: items_def)

lemma items_last: "1 \<le> n \<Longrightarrow> items n h = items (n - 1) h + {#h ! n#}"
  by (cases n) (simp_all add: items_def)

lemma items_beyond: "n < m \<Longrightarrow> items n (h[m := x]) = items n h"
  unfolding items_def by (rule arg_cong [of _ _ mset]) (auto simp: nth_list_update)

lemma items_swap:
  assumes "1 \<le> i" "i \<le> n" "1 \<le> k" "k \<le> n" "n < length h"
  shows "items n (h[i := h ! k, k := h ! i]) = items n h"
proof -
  define xs where "xs = map (nth h) [1..<Suc n]"
  have "map (nth (h[i := h ! k, k := h ! i])) [1..<Suc n] = xs[i - 1 := xs ! (k - 1), k - 1 := xs ! (i - 1)]"
    using assms by (intro nth_equalityI) (auto simp: xs_def nth_list_update nth_append simp del: upt_Suc)
  moreover have "i - 1 < length xs" "k - 1 < length xs" using assms by (simp_all add: xs_def del: upt_Suc)
  ultimately show ?thesis using mset_swap [of "k - 1" xs "i - 1"] unfolding items_def xs_def [symmetric] by simp
qed

definition least_child :: "nat \<Rightarrow> nat \<Rightarrow> hnode list \<Rightarrow> nat" where
  "least_child n i h = (if fst (h ! (2 * i)) > fst (h ! (2 * i + 1)) \<and> 2 * i < n then 2 * i + 1 else 2 * i)"

lemma least_child:
  assumes "1 \<le> i" "i \<le> n div 2"
  shows "i < least_child n i h" "least_child n i h \<le> n" "least_child n i h div 2 = i"
    and "m \<le> n \<Longrightarrow> m div 2 = i \<Longrightarrow> fst (h ! least_child n i h) \<le> fst (h ! m)"
proof -
  show "i < least_child n i h" "least_child n i h \<le> n" "least_child n i h div 2 = i"
    using assms by (auto simp: least_child_def)
  assume "m \<le> n" "m div 2 = i"
  then have "m = 2 * i \<or> m = 2 * i + 1" by linarith
  with \<open>m \<le> n\<close> show "fst (h ! least_child n i h) \<le> fst (h ! m)" by (auto simp: least_child_def)
qed

lemma sift_step:
  "sift n v i h = (if 1 \<le> i \<and> i \<le> n div 2 \<and> fst (h ! least_child n i h) \<le> fst v
     then sift n v (least_child n i h) (h[i := h ! least_child n i h]) else h[i := v])"
  by (simp add: sift.simps [of n v i h] least_child_def Let_def not_less)

text \<open>
  With \<open>v\<close> in its place, all edges are in order but those below \<open>i\<close>, and what is above \<open>i\<close> is no
  greater than what is below it.
\<close>

definition almost :: "nat \<Rightarrow> nat \<Rightarrow> nat \<Rightarrow> hnode list \<Rightarrow> bool" where
  "almost n r i h \<longleftrightarrow> (\<forall>m \<le> n. r \<le> m div 2 \<longrightarrow> m div 2 \<noteq> i \<longrightarrow> fst (h ! (m div 2)) \<le> fst (h ! m)) \<and>
     (\<forall>m \<le> n. m div 2 = i \<longrightarrow> r \<le> i div 2 \<longrightarrow> fst (h ! (i div 2)) \<le> fst (h ! m))"

lemma almost_swap:
  assumes "almost n r i h" "1 \<le> i" "i \<le> n div 2" "n < length h" "1 \<le> r" "r \<le> i"
    and "k = least_child n i h" "fst (h ! k) \<le> fst (h ! i)"
  shows "almost n r k (h[i := h ! k, k := h ! i])"
proof -
  note c = least_child [where h = h, OF assms(2,3), folded assms(7)]
  let ?g = "h[i := h ! k, k := h ! i]"
  have len: "i < length h" "k < length h" using assms(3,4) c by auto
  have g: "?g ! m = (if m = k then h ! i else if m = i then h ! k else h ! m)" for m
    using len by (auto simp: nth_list_update)
  have e: "r \<le> m div 2 \<Longrightarrow> m div 2 \<noteq> i \<Longrightarrow> m \<le> n \<Longrightarrow> fst (h ! (m div 2)) \<le> fst (h ! m)" for m
    using assms(1) by (simp add: almost_def)
  have up: "r \<le> i div 2 \<Longrightarrow> fst (h ! (i div 2)) \<le> fst (h ! k)"
    using assms(1) c by (simp add: almost_def)
  have "fst (?g ! (m div 2)) \<le> fst (?g ! m)" if m: "m \<le> n" "r \<le> m div 2" "m div 2 \<noteq> k" for m
  proof (cases "m div 2 = i")
    case True
    then have "m \<noteq> i" using assms(2) by auto
    then show ?thesis unfolding g using True m c(1) c(4) [OF m(1) True] assms(8) by auto
  next
    case False
    then have "m \<noteq> k" using c(3) by auto
    moreover have "i div 2 \<noteq> k" using c(1) by auto
    ultimately show ?thesis unfolding g using False m e [OF m(2) False m(1)] up by auto
  qed
  moreover have "fst (?g ! (k div 2)) \<le> fst (?g ! m)" if m: "m \<le> n" "m div 2 = k" "r \<le> k div 2" for m
  proof -
    have "m \<noteq> k" "m \<noteq> i" "m div 2 \<noteq> i" using m c(1) assms(2) by auto
    moreover have "r \<le> m div 2" using m assms(6) c(1) by simp
    ultimately show ?thesis unfolding g using m c(1,3) e [of m] by auto
  qed
  ultimately show ?thesis by (simp add: almost_def)
qed

lemma almost_done:
  assumes "almost n r i h" "1 \<le> i" "r \<le> i" "\<not> (i \<le> n div 2 \<and> fst (h ! least_child n i h) \<le> fst (h ! i))"
  shows "ordered n r h"
proof -
  have "fst (h ! i) \<le> fst (h ! m)" if m: "m \<le> n" "m div 2 = i" for m
  proof -
    have "i \<le> n div 2" using m by auto
    then show ?thesis using assms(4) least_child(4) [OF assms(2) _ m, of h] by linarith
  qed
  then show ?thesis using assms(1) by (auto simp: ordered_def almost_def)
qed

lemma sift_ok:
  "almost n r i (h[i := v]) \<Longrightarrow> 1 \<le> r \<Longrightarrow> r \<le> i \<Longrightarrow> i \<le> n \<Longrightarrow> n < length h \<Longrightarrow>
   ordered n r (sift n v i h) \<and> items n (sift n v i h) = items n (h[i := v]) \<and> length (sift n v i h) = length h"
proof (induction n v i h rule: sift.induct)
  case (1 n v i h)
  define k where "k = least_child n i h"
  have k': "least_child n i (h[i := v]) = k" if "1 \<le> i" using that by (simp add: k_def least_child_def)
  show ?case
  proof (cases "1 \<le> i \<and> i \<le> n div 2 \<and> fst (h ! k) \<le> fst v")
    case True
    then have i: "1 \<le> i" "i \<le> n div 2" "fst (h ! k) \<le> fst v" by auto
    have c: "i < k" "k \<le> n" using least_child(1,2) [OF i(1,2), of h] by (simp_all add: k_def)
    have sw: "(h[i := h ! k])[k := v] = (h[i := v])[i := h[i := v] ! k, k := h[i := v] ! i]"
      using c 1(6) by simp
    have "almost n r k ((h[i := h ! k])[k := v])"
      unfolding sw by (rule almost_swap [OF 1(2) i(1,2)]) (use 1(3-6) i c k' in auto)
    then have "ordered n r (sift n v k (h[i := h ! k])) \<and> items n (sift n v k (h[i := h ! k])) = items n ((h[i := h ! k])[k := v]) \<and>
        length (sift n v k (h[i := h ! k])) = length (h[i := h ! k])"
      using i 1(3-6) c by (intro 1(1)) (auto simp: k_def least_child_def not_less)
    moreover have "items n ((h[i := h ! k])[k := v]) = items n (h[i := v])"
      unfolding sw using i c 1(5,6) by (intro items_swap) auto
    ultimately show ?thesis using True by (simp add: sift_step [of n v i h] k_def [symmetric])
  next
    case False
    have "ordered n r (h[i := v])"
    proof (rule almost_done [OF 1(2)])
      have "h[i := v] ! k = h ! k" if "i \<le> n div 2"
        using least_child(1) [OF _ that, of h] 1(3,4) by (simp add: k_def)
      then show "\<not> (i \<le> n div 2 \<and> fst (h[i := v] ! least_child n i (h[i := v])) \<le> fst (h[i := v] ! i))"
        using False 1(3-6) k' by auto
    qed (use 1(3,4) in auto)
    then show ?thesis using False by (auto simp: sift_step [of n v i h] k_def [symmetric])
  qed
qed

lemma heapify_ok:
  assumes "ordered n (i + 1) h" "1 \<le> i" "i \<le> n" "n < length h"
  shows "ordered n i (heapify n i h)" "items n (heapify n i h) = items n h" "length (heapify n i h) = length h"
proof -
  have "almost n i i (h[i := h ! i])"
    using assms by (auto simp: almost_def ordered_def)
  then show "ordered n i (heapify n i h)" "items n (heapify n i h) = items n h" "length (heapify n i h) = length h"
    using sift_ok [of n i i h "h ! i"] assms by (simp_all add: heapify_def)
qed

lemma make_heap_ok:
  "ordered n (i + 1) h \<Longrightarrow> i \<le> n \<Longrightarrow> n < length h \<Longrightarrow>
   ordered n 1 (make_heap n i h) \<and> items n (make_heap n i h) = items n h \<and> length (make_heap n i h) = length h"
proof (induction n i h rule: make_heap.induct)
  case (2 n i h)
  then show ?case using heapify_ok [of n "Suc i" h] by simp
qed simp

section \<open>The heap is a priority queue\<close>

lemma ordered_root: "ordered n 1 h \<Longrightarrow> 1 \<le> m \<Longrightarrow> m \<le> n \<Longrightarrow> fst (h ! 1) \<le> fst (h ! m)"
proof (induction m rule: less_induct)
  case (less m)
  show ?case
  proof (cases "m = 1")
    case False
    then have "1 \<le> m div 2" "m div 2 < m" using less(3) by auto
    then have "fst (h ! 1) \<le> fst (h ! (m div 2))" "fst (h ! (m div 2)) \<le> fst (h ! m)"
      using less.IH [of "m div 2"] less.prems by (auto simp: ordered_def)
    then show ?thesis by simp
  qed simp
qed

lemma ordered_replace: "ordered n 1 h \<Longrightarrow> ordered n 2 (h[1 := x])"
  unfolding ordered_def by (auto simp: nth_list_update)

lemma items_first: "1 \<le> n \<Longrightarrow> items n h = items n (h[1 := x]) - {#x#} + {#h ! 1#}" if "1 < length h"
proof -
  assume n: "1 \<le> n"
  have e: "map (nth (h[1 := x])) [2..<Suc n] = map (nth h) [2..<Suc n]"
    by (auto simp: nth_list_update)
  have "[1..<Suc n] = 1 # [2..<Suc n]" using n by (simp add: upt_conv_Cons [of "Suc 0"] numeral_2_eq_2 del: upt_Suc)
  then have "items n g = {#g ! 1#} + mset (map (nth g) [2..<Suc n])" for g
    unfolding items_def by (simp del: mset_map upt_Suc)
  note split = this
  define R where "R = mset (map (nth h) [2..<Suc n])"
  have "items n h = {#h ! 1#} + R" unfolding R_def by (rule split)
  moreover have "items n (h[1 := x]) = {#x#} + R" using that split [of "h[1 := x]"] unfolding e R_def [symmetric] by simp
  ultimately show ?thesis by simp
qed

lemma pop_least_ok:
  assumes "heap_ok n h" "2 \<le> n"
  shows "heap_ok (n - 1) (pop_least n h)" "items n h = items (n - 1) (pop_least n h) + {#h ! 1#}"
proof -
  let ?g = "h[1 := h ! n]"
  have len: "n - 1 < length h" using assms by (auto simp: heap_ok_def)
  have "ordered (n - 1) (1 + 1) ?g"
    using ordered_replace [of n h "h ! n"] assms by (auto simp: heap_ok_def ordered_def)
  then have g: "ordered (n - 1) 1 (pop_least n h)" "items (n - 1) (pop_least n h) = items (n - 1) ?g"
      "length (pop_least n h) = length h"
    using heapify_ok [of "n - 1" 1 ?g] assms(2) len unfolding pop_least_def by simp_all
  then show "heap_ok (n - 1) (pop_least n h)" using assms len by (simp add: heap_ok_def)
  have "items n h = items (n - 1) h + {#h ! n#}" using items_last assms(2) by simp
  also have "items (n - 1) h = items (n - 1) ?g - {#h ! n#} + {#h ! 1#}"
    using items_first [of h "n - 1" "h ! n"] assms by (simp add: heap_ok_def)
  finally have "items n h = (items (n - 1) ?g - {#h ! n#} + {#h ! n#}) + {#h ! 1#}" by simp
  moreover have "h ! n \<in># items (n - 1) ?g"
    using assms by (auto simp: items_def heap_ok_def image_iff intro!: bexI [of _ 1] simp del: upt_Suc)
  ultimately show "items n h = items (n - 1) (pop_least n h) + {#h ! 1#}" using g(2) by simp
qed

lemma merge_least_ok:
  assumes "heap_ok n h" "1 \<le> n"
  shows "heap_ok n (merge_least n inc x h)"
    "items n (merge_least n inc x h) + {#h ! 1#} = items n h + {#(fst (h ! 1) + inc, x)#}"
proof -
  let ?v = "(fst (h ! 1) + inc, x)" and ?g = "h[1 := (fst (h ! 1) + inc, x)]"
  have "ordered n (1 + 1) ?g" using ordered_replace [of n h ?v] assms by (simp add: heap_ok_def numeral_2_eq_2)
  then have g: "ordered n 1 (merge_least n inc x h)" "items n (merge_least n inc x h) = items n ?g"
      "length (merge_least n inc x h) = length h"
    using heapify_ok [of n 1 ?g] assms by (simp_all add: heap_ok_def merge_least_def)
  then show "heap_ok n (merge_least n inc x h)" using assms by (simp add: heap_ok_def)
  have "items n h = items n ?g - {#?v#} + {#h ! 1#}" using items_first [of h n ?v] assms by (simp add: heap_ok_def)
  moreover have "?v \<in># items n ?g"
    using assms by (auto simp: items_def heap_ok_def image_iff intro!: bexI [of _ 1] simp del: upt_Suc)
  ultimately show "items n (merge_least n inc x h) + {#h ! 1#} = items n h + {#?v#}" using g(2) by simp
qed

interpretation pq: pqueue heap_ok items "\<lambda>h. h ! 1" pop_least merge_least
proof
  fix n h x
  show "heap_ok n h \<Longrightarrow> 1 \<le> n \<Longrightarrow> h ! 1 \<in># items n h"
    by (auto simp: items_def simp del: upt_Suc)
  show "heap_ok n h \<Longrightarrow> x \<in># items n h \<Longrightarrow> fst (h ! 1) \<le> fst x"
    using ordered_root [of n h] by (auto simp: items_def heap_ok_def simp del: upt_Suc)
qed (use pop_least_ok merge_least_ok in auto)

end
