(* ===== verification/PackTree.thy ===== *)
theory PackTree
  imports PackHeap
begin

text \<open>
  The tree that \<open>build\<close> leaves in \<open>parent\<close>: the depths of the entries it started from satisfy
  Kraft's equation, and a node of smaller weight is never above one of greater weight.
\<close>

section \<open>Entries as a set of nodes\<close>

definition entries :: "(nat \<Rightarrow> nat) \<Rightarrow> nat set \<Rightarrow> hnode multiset" where
  "entries w S = image_mset (\<lambda>x. (w x, x)) (mset_set S)"

lemma entries_insert: "finite S \<Longrightarrow> x \<notin> S \<Longrightarrow> entries w (insert x S) = entries w S + {#(w x, x)#}"
  by (simp add: entries_def)

lemma entries_cong: "(\<And>x. x \<in> S \<Longrightarrow> w x = w' x) \<Longrightarrow> entries w S = entries w' S"
  unfolding entries_def by (cases "finite S") (auto intro!: image_mset_cong)

lemma set_entries [simp]: "finite S \<Longrightarrow> set_mset (entries w S) = (\<lambda>x. (w x, x)) ` S"
  by (simp add: entries_def)

lemma entries_remove:
  assumes "entries w S = M + {#a#}" "finite S"
  shows "snd a \<in> S" "fst a = w (snd a)" "M = entries w (S - {snd a})"
proof -
  have "a \<in># entries w S" using assms(1) by simp
  then show a: "snd a \<in> S" "fst a = w (snd a)" using assms(2) by auto
  have "S = insert (snd a) (S - {snd a})" using a by auto
  then have "entries w S = entries w (S - {snd a}) + {#(w (snd a), snd a)#}"
    using entries_insert [of "S - {snd a}" "snd a" w] assms(2) by simp
  moreover have "(w (snd a), snd a) = a" using a(2) by (cases a) simp
  ultimately show "M = entries w (S - {snd a})" using assms(1) by simp
qed

section \<open>Huffman trees\<close>

text \<open>
  \<open>S\<close> are the nodes in the heap, \<open>T\<close> those and all that are made of them; \<open>w\<close> and \<open>d\<close> are
  their weights and depths in the finished tree \<open>p\<close>.
\<close>

definition huffman :: "nat list \<Rightarrow> nat set \<Rightarrow> nat set \<Rightarrow> (nat \<Rightarrow> nat) \<Rightarrow> (nat \<Rightarrow> nat) \<Rightarrow> bool" where
  "huffman p S T w d \<longleftrightarrow> finite S \<and> S \<subseteq> T \<and>
     (\<forall>x \<in> T. d x = 0 \<and> p ! x = 0 \<or>
        p ! x \<in> T \<and> x < p ! x \<and> d x = d (p ! x) + 1 \<and> (\<exists>s \<in> T. w (p ! x) = w x + w s)) \<and>
     (\<forall>x \<in> T. \<exists>r \<in> S. w r \<le> w x) \<and>
     (\<forall>u \<in> T. \<forall>v \<in> T. w u < w v \<longrightarrow> d v \<le> d u) \<and>
     (\<Sum>x \<in> S. (1 / 2 :: rat) ^ d x) = 1"

lemma huffman_chain:
  assumes "huffman p S T w d"
  shows "x \<in> T \<Longrightarrow> chain p (p ! x) c = Some (c + d x)"
proof (induction "d x" arbitrary: x c)
  case 0
  then have "p ! x = 0" using assms by (auto simp: huffman_def)
  then show ?case using 0 by (simp add: chain.simps)
next
  case (Suc k)
  then have y: "p ! x \<in> T" "x < p ! x" "d x = d (p ! x) + 1" using assms by (auto simp: huffman_def)
  then have "chain p (p ! (p ! x)) (c + 1) = Some (c + 1 + d (p ! x))" using Suc by simp
  then show ?case using y by (simp add: chain.simps [of p "p ! x"])
qed

text \<open>One merge: \<open>a\<close> and \<open>b\<close> are the least entries, \<open>c\<close> takes their place.\<close>

lemma huffman_join:
  assumes hf: "huffman p (insert c S) T w d" and S: "c \<notin> S" "a \<notin> T" "b \<notin> T" "a \<noteq> b" "finite S"
    and p: "p ! a = c" "p ! b = c" "a < c" "b < c"
    and w: "w c = wa + wb" "wa \<le> wb" "\<forall>x \<in> S. wb \<le> w x"
  shows "huffman p (insert a (insert b S)) (insert a (insert b T)) (w(a := wa, b := wb))
    (d(a := d c + 1, b := d c + 1))"
    (is "huffman p ?S ?T ?w ?d")
proof -
  have sub: "insert c S \<subseteq> T" and dec: "\<And>x. x \<in> T \<Longrightarrow> d x = 0 \<and> p ! x = 0 \<or>
        p ! x \<in> T \<and> x < p ! x \<and> d x = d (p ! x) + 1 \<and> (\<exists>s \<in> T. w (p ! x) = w x + w s)"
    and low: "\<And>x. x \<in> T \<Longrightarrow> \<exists>r \<in> insert c S. w r \<le> w x"
    and mono: "\<And>u v. u \<in> T \<Longrightarrow> v \<in> T \<Longrightarrow> w u < w v \<Longrightarrow> d v \<le> d u"
    and kraft: "(\<Sum>x \<in> insert c S. (1 / 2 :: rat) ^ d x) = 1"
    using hf unfolding huffman_def by blast+
  have c: "c \<in> T" "c \<noteq> a" "c \<noteq> b" "a \<notin> S" "b \<notin> S" using sub S by auto
  define W where "W = w(a := wa, b := wb)"
  define D where "D = d(a := d c + 1, b := d c + 1)"
  have w' [simp]: "x \<in> T \<Longrightarrow> W x = w x" "W a = wa" "W b = wb" for x using S by (auto simp: W_def)
  have d' [simp]: "x \<in> T \<Longrightarrow> D x = d x" "D a = d c + 1" "D b = d c + 1" for x using S by (auto simp: D_def)
  have least: "wb \<le> w x" if "x \<in> T" for x
    using low [OF that] w by auto
  have below: "d v \<le> d c + 1" if v: "v \<in> T" "wa < w v" for v
  proof (cases "d v = 0")
    case False
    then obtain s where s: "p ! v \<in> T" "d v = d (p ! v) + 1" "s \<in> T" "w (p ! v) = w v + w s"
      using dec [OF v(1)] by auto
    then have "w c < w (p ! v)" using v(2) least [OF s(3)] w by simp
    then show ?thesis using mono [OF c(1) s(1)] s(2) by simp
  qed simp
  have 1: "D x = 0 \<and> p ! x = 0 \<or>
        p ! x \<in> ?T \<and> x < p ! x \<and> D x = D (p ! x) + 1 \<and> (\<exists>s \<in> ?T. W (p ! x) = W x + W s)" if x: "x \<in> ?T" for x
  proof -
    consider "x = a" | "x = b" | "x \<in> T" using x by auto
    then show ?thesis
    proof cases
      case 3
      then have "D x = d x" "W x = w x" using d' w' by blast+
      show ?thesis
      proof (cases "d x = 0 \<and> p ! x = 0")
        case False
        then obtain s where s: "p ! x \<in> T" "x < p ! x" "d x = d (p ! x) + 1" "s \<in> T" "w (p ! x) = w x + w s"
          using dec [OF 3] by auto
        then have "W (p ! x) = W x + W s" using 3 by simp
        then show ?thesis using s 3 by auto
      qed (use 3 in simp)
    qed (use c S p w in auto)
  qed
  have 2: "\<exists>r \<in> ?S. W r \<le> W x" if "x \<in> ?T" for x
  proof (cases "x \<in> T")
    case True
    then have "W b \<le> W x" using least by simp
    then show ?thesis by blast
  next
    case False
    then have "x \<in> ?S" using that by auto
    then show ?thesis by blast
  qed
  have 3: "D v \<le> D u" if u: "u \<in> ?T" and v: "v \<in> ?T" and less: "W u < W v" for u v
  proof (cases "v \<in> T")
    case True
    show ?thesis
    proof (cases "u \<in> T")
      case True
      then show ?thesis using mono \<open>v \<in> T\<close> less by simp
    next
      case False
      then have "D u = d c + 1" "wa \<le> W u" using u w by auto
      then show ?thesis using below [OF True] True less by simp
    qed
  next
    case False
    then have "D v = d c + 1" "W v \<le> wb" using v w by auto
    moreover have "u \<notin> T" using least [of u] \<open>W v \<le> wb\<close> less by auto
    then have "D u = d c + 1" using u by auto
    ultimately show ?thesis by simp
  qed
  have 4: "(\<Sum>x \<in> ?S. (1 / 2 :: rat) ^ D x) = 1"
  proof -
    have eq: "(\<Sum>x \<in> S. (1 / 2 :: rat) ^ D x) = (\<Sum>x \<in> S. (1 / 2) ^ d x)"
      using sub by (intro sum.cong) auto
    have "(\<Sum>x \<in> ?S. (1 / 2 :: rat) ^ D x) = (1 / 2) ^ D a + ((1 / 2) ^ D b + (\<Sum>x \<in> S. (1 / 2) ^ D x))"
      using S c by simp
    also have "\<dots> = (1 / 2) ^ d c + (\<Sum>x \<in> S. (1 / 2) ^ d x)"
      unfolding eq d'(2,3) by (simp add: power_add)
    also have "\<dots> = 1" using kraft S by simp
    finally show ?thesis .
  qed
  have "finite ?S" "?S \<subseteq> ?T" using S(5) sub by auto
  then show ?thesis unfolding huffman_def W_def [symmetric] D_def [symmetric]
    by (intro conjI ballI impI 4) (assumption | (rule 1, assumption) | (rule 2, assumption) | (rule 3, assumption+))+
qed

section \<open>What build leaves\<close>

lemma build_huffman:
  "heap_ok n h \<Longrightarrow> items n h = entries w S \<Longrightarrow> finite S \<Longrightarrow> card S = n \<Longrightarrow> 1 \<le> n \<Longrightarrow> \<forall>x \<in> S. x \<le> lastnode \<Longrightarrow>
   lastnode \<in> S \<or> 1 < n \<Longrightarrow> lastnode + n \<le> length parent \<Longrightarrow>
   \<exists>T w' d. huffman (build n h lastnode parent) S T w' d \<and> (\<forall>x \<in> S. w' x = w x) \<and>
     T \<subseteq> S \<union> {lastnode<..} \<and> (\<forall>x. x \<notin> T \<longrightarrow> build n h lastnode parent ! x = parent ! x) \<and>
     length (build n h lastnode parent) = length parent"
proof (induction n h lastnode parent arbitrary: w S rule: build.induct)
  case (1 n h lastnode parent)
  show ?case
  proof (cases "n > 1")
    case False
    then have n: "n = 1" using 1(6) by simp
    then have S: "S = {lastnode}" using 1(5,8) False by (auto simp: card_1_singleton_iff)
    have "lastnode < length parent" using 1(9) n by simp
    then have "huffman (parent[lastnode := 0]) S S w (\<lambda>_. 0)"
      by (simp add: huffman_def S)
    then show ?thesis
      using False S by (intro exI [of _ S] exI [of _ w] exI [of _ "\<lambda>_. 0"]) (auto simp: build.simps [of n])
  next
    case True
    define a where "a = h ! 1"
    define g where "g = pop_least n h"
    define b where "b = g ! 1"
    define c where "c = lastnode + 1"
    define h' where "h' = merge_least (n - 1) (fst a) c g"
    define p where "p = (parent[snd a := c])[snd b := c]"
    have step: "build n h lastnode parent = build (n - 1) h' c p"
      using True by (simp add: build.simps [of n] Let_def a_def g_def b_def c_def h'_def p_def)
    have two: "2 \<le> n" using True by simp
    obtain M where M: "items n h = M + {#a, b#}" "heap_ok (n - 1) h'"
        "items (n - 1) h' = M + {#(fst b + fst a, c)#}" "fst a \<le> fst b" "\<forall>y \<in># M. fst b \<le> fst y"
      using pq.two_least [OF 1(2) two a_def g_def b_def, of c] unfolding h'_def by blast
    have e1: "entries w S = (M + {#a#}) + {#b#}" using M(1) 1(3) by simp
    note rb = entries_remove [OF e1 1(4)]
    have e2: "entries w (S - {snd b}) = M + {#a#}" using rb(3) by simp
    note ra = entries_remove [OF e2, simplified]
    define S' where "S' = S - {snd b} - {snd a}"
    have ab: "snd a \<in> S" "snd b \<in> S" "snd a \<noteq> snd b" "fst a = w (snd a)" "fst b = w (snd b)" "M = entries w S'"
      using ra rb 1(4) by (auto simp: S'_def)
    have S: "S = insert (snd a) (insert (snd b) S')" "snd a \<notin> S'" "snd b \<notin> S'" "finite S'"
      using ab 1(4) by (auto simp: S'_def)
    have cS: "c \<notin> S'" "\<forall>x \<in> S'. x < c" "snd a < c" "snd b < c" using 1(7) ab by (auto simp: S'_def c_def)
    define w1 where "w1 = w(c := fst b + fst a)"
    have i': "items (n - 1) h' = entries w1 (insert c S')"
    proof -
      have "entries w S' = entries w1 S'" using cS by (intro entries_cong) (auto simp: w1_def)
      then show ?thesis using M(3) ab(6) entries_insert [OF S(4) cS(1), of w1] by (simp add: w1_def)
    qed
    have card: "card (insert c S') = n - 1" using 1(5) S cS ab(3) by simp
    have n': "1 \<le> n - 1" "c + (n - 1) \<le> length p" using True 1(9) by (simp_all add: c_def p_def)
    have bound: "\<forall>x \<in> insert c S'. x \<le> c" "c \<in> insert c S' \<or> 1 < n - 1" "finite (insert c S')" using cS S by auto
    have "\<exists>T w' d. huffman (build (n - 1) h' c p) (insert c S') T w' d \<and> (\<forall>x \<in> insert c S'. w' x = w1 x) \<and>
       T \<subseteq> insert c S' \<union> {c<..} \<and> (\<forall>x. x \<notin> T \<longrightarrow> build (n - 1) h' c p ! x = p ! x) \<and>
       length (build (n - 1) h' c p) = length p"
      using 1(1) [OF True c_def refl refl refl refl refl, folded a_def g_def, folded b_def, folded p_def h'_def,
          OF M(2) i' bound(3) card n'(1) bound(1,2) n'(2)] .
    then obtain T w' d where T: "huffman (build (n - 1) h' c p) (insert c S') T w' d" "\<forall>x \<in> insert c S'. w' x = w1 x"
       "T \<subseteq> insert c S' \<union> {c<..}" "\<forall>x. x \<notin> T \<longrightarrow> build (n - 1) h' c p ! x = p ! x"
       "length (build (n - 1) h' c p) = length p" by blast
    have ends: "snd a < length parent" "snd b < length parent" using cS(3,4) 1(9) True by (simp_all add: c_def)
    have notT: "snd a \<notin> T" "snd b \<notin> T" using T(3) S cS by auto
    have pab: "build (n - 1) h' c p ! snd a = c" "build (n - 1) h' c p ! snd b = c"
      using T(4) notT ends ab(3) by (simp_all add: p_def nth_list_update)
    have "w' c = fst a + fst b" "\<forall>x \<in> S'. fst b \<le> w' x"
      using T(2) M(5) ab(6) S cS by (auto simp: w1_def)
    then have "huffman (build (n - 1) h' c p) S (insert (snd a) (insert (snd b) T)) (w'(snd a := fst a, snd b := fst b))
        (d(snd a := d c + 1, snd b := d c + 1))"
      unfolding S(1) using huffman_join [OF T(1) cS(1) notT ab(3) S(4) pab cS(3,4) _ M(4)] by blast
    moreover have "\<forall>x \<in> S. (w'(snd a := fst a, snd b := fst b)) x = w x"
      using T(2) S ab(3-5) cS by (auto simp: w1_def)
    moreover have "insert (snd a) (insert (snd b) T) \<subseteq> S \<union> {lastnode<..}"
      using T(3) S(1) by (auto simp: c_def)
    moreover have "\<forall>x. x \<notin> insert (snd a) (insert (snd b) T) \<longrightarrow> build (n - 1) h' c p ! x = parent ! x"
      using T(4) by (auto simp: p_def nth_list_update)
    moreover have "length (build (n - 1) h' c p) = length parent" using T(5) by (simp add: p_def)
    ultimately show ?thesis unfolding step by blast
  qed
qed

end
