(* ===== verification/PackCode.thy ===== *)
theory PackCode
  imports PackTree
begin

text \<open>
  What \<open>packfile\<close> computes on the way: counts, lengths of the codes and the codes themselves. The
  lengths satisfy Kraft's equation, so the number of internal nodes of every level, which is what
  \<open>unpack\<close> computes too, is the start of the codes of the level.
\<close>

section \<open>Counts\<close>

lemma length_fold_count [simp]: "length (fold (\<lambda>c count. count[ord c := f count c]) s xs) = length xs"
  by (induction s arbitrary: xs) auto

lemma input_length [simp]: "length (input s) = 257"
  by (simp add: input_def)

lemma fold_count_nth:
  "i < length xs \<Longrightarrow> fold (\<lambda>c count. count[ord c := count ! ord c + 2]) s xs ! i = xs ! i + 2 * count_list (map ord s) i"
  by (induction s arbitrary: xs) (auto simp: nth_list_update)

lemma input_nth: "i < 257 \<Longrightarrow> input s ! i = 2 * count_list (map ord s) i"
  unfolding input_def by (subst fold_count_nth) simp_all

definition counts :: "cstr \<Rightarrow> nat list" where
  "counts s = (input s)[END := 1]"

lemma counts_nth:
  "counts s ! END = 1" "i < END \<Longrightarrow> counts s ! i = 2 * count_list (map ord s) i"
  by (simp_all add: counts_def input_nth)

definition symbols :: "cstr \<Rightarrow> nat set" where
  "symbols s = {i. i < 257 \<and> 0 < counts s ! i}"

lemma symbols_eq: "symbols s = insert END (ord ` set s)"
proof -
  have "i \<in> symbols s \<longleftrightarrow> i = END \<or> i \<in> ord ` set s" for i
  proof (cases "i < END")
    case True
    then show ?thesis using count_list_0_iff [of "map ord s" i] by (auto simp: symbols_def counts_nth)
  next
    case False
    have "ord c < 256" for c :: char using ord_less .
    then show ?thesis using False by (auto simp: symbols_def counts_nth less_Suc_eq)
  qed
  then show ?thesis by blast
qed

section \<open>Filling the heap\<close>

lemma fill_heap_ok:
  "fill_heap cnt k (h, n, db, sz) = (h', n', db', sz') \<Longrightarrow> items n h = entries (nth cnt) S \<Longrightarrow> finite S \<Longrightarrow> S \<subseteq> {k..} \<Longrightarrow>
   n + k < length h \<Longrightarrow>
   length h' = length h \<and> items n' h' = entries (nth cnt) (S \<union> {i. i < k \<and> 0 < cnt ! i}) \<and>
   n' = n + card {i. i < k \<and> 0 < cnt ! i} \<and> db' = db + int (card {i. i < k \<and> 0 < cnt ! i}) \<and>
   sz' = sz + sum (nth cnt) {i. i < k \<and> 0 < cnt ! i}"
proof (induction k arbitrary: h n db sz S)
  case 0
  then show ?case by simp
next
  case (Suc k)
  let ?A = "{i. i < k \<and> 0 < cnt ! i}"
  show ?case
  proof (cases "0 < cnt ! k")
    case True
    let ?g = "h[n + 1 := (cnt ! k, k)]"
    have A: "{i. i < Suc k \<and> 0 < cnt ! i} = insert k ?A" using True by (auto simp: less_Suc_eq)
    have "k \<notin> S" using Suc.prems(4) by auto
    moreover have "items (n + 1) ?g = items n h + {#(cnt ! k, k)#}"
      using items_last [of "n + 1" ?g] items_beyond [of n "n + 1" h] Suc.prems(5) by simp
    ultimately have it: "items (n + 1) ?g = entries (nth cnt) (insert k S)"
      using Suc.prems(2,3) entries_insert [of S k "nth cnt"] by simp
    have st: "fill_heap cnt k (?g, n + 1, db + 1, sz + cnt ! k) = (h', n', db', sz')"
      using Suc.prems(1) True by simp
    have pre: "finite (insert k S)" "insert k S \<subseteq> {k..}" "n + 1 + k < length ?g"
      using Suc.prems(3-5) by auto
    have u: "insert k S \<union> ?A = S \<union> insert k ?A" "card (insert k ?A) = card ?A + 1"
      "sum (nth cnt) (insert k ?A) = cnt ! k + sum (nth cnt) ?A" by auto
    show ?thesis using Suc.IH [OF st it pre] unfolding A u by auto
  next
    case False
    then have A: "{i. i < Suc k \<and> 0 < cnt ! i} = ?A" by (auto simp: less_Suc_eq)
    have "S \<subseteq> {k..}" using Suc.prems(4) by auto
    then show ?thesis using Suc.IH [OF _ Suc.prems(2,3)] Suc.prems(1,5) False unfolding A by simp
  qed
qed

lemma finite_symbols [simp]: "finite (symbols s)"
  by (simp add: symbols_def)

lemma END_symbol [simp]: "END \<in> symbols s"
  by (simp add: symbols_eq)

lemma symbols_fill:
  assumes "fill_heap (counts s) (END + 1) (h0, 0, - 1, 0) = (h, n, db, sz)" "length h0 = 258"
  shows "length h = 258" "items n h = entries (nth (counts s)) (symbols s)" "n = card (symbols s)"
    "db = int n - 1" "sz = sum (nth (counts s)) (symbols s)"
proof -
  have sy: "{i. i < END + 1 \<and> 0 < counts s ! i} = symbols s" by (simp add: symbols_def)
  have e: "items 0 h0 = entries (nth (counts s)) {}" by (simp add: entries_def)
  have "length h = length h0 \<and> items n h = entries (nth (counts s)) ({} \<union> symbols s) \<and> n = 0 + card (symbols s) \<and>
      db = - 1 + int (card (symbols s)) \<and> sz = 0 + sum (nth (counts s)) (symbols s)"
    using fill_heap_ok [OF assms(1), of "{}"] e assms(2) unfolding sy by auto
  then show "length h = 258" "items n h = entries (nth (counts s)) (symbols s)" "n = card (symbols s)"
    "db = int n - 1" "sz = sum (nth (counts s)) (symbols s)"
    using assms(2) by auto
qed

lemma card_symbols: "card (symbols s) \<le> 257"
proof -
  have "symbols s \<subseteq> {..<257}" by (auto simp: symbols_def)
  then show ?thesis using card_mono [of "{..<257}" "symbols s"] by simp
qed

text \<open>The size in the header is the number of bytes.\<close>

lemma symbols_sum: "sum (nth (counts s)) (symbols s) div 2 = length s"
proof -
  have "sum (count_list (map ord s)) {..<END} = length (map ord s)"
  proof -
    have "set (map ord s) \<subseteq> {..<END}" using ord_less by auto
    then show ?thesis using sum_count_set [of "map ord s" "{..<END}"] by simp
  qed
  moreover have "sum (nth (counts s)) (symbols s) = sum (nth (counts s)) {..<257}"
    by (intro sum.mono_neutral_left) (auto simp: symbols_def)
  moreover have "{..<257 :: nat} = insert END {..<END}" by auto
  ultimately show ?thesis by (simp add: counts_nth flip: sum_distrib_left)
qed

section \<open>Lengths\<close>

definition lev :: "nat list \<Rightarrow> nat \<Rightarrow> nat" where
  "lev clen c = length (filter (\<lambda>i. clen ! i = c) [0..<257])"

lemma set_lengths_total:
  "\<forall>i \<in> set is. \<exists>c. chain p (p ! i) 0 = Some c \<Longrightarrow> \<exists>r. set_lengths cnt p is st = Some r"
proof (induction "is" arbitrary: st)
  case (Cons i "is")
  then show ?case by (cases st) fastforce
qed simp

lemma set_lengths_ok:
  "set_lengths cnt p is (clen, lv, mx, bo) = Some (Some (clen', lv', mx', bo')) \<Longrightarrow>
   \<forall>i \<in> set is. chain p (p ! i) 0 = Some (dep i) \<Longrightarrow> length lv = 25 \<Longrightarrow> \<forall>i \<in> set is. i < length clen \<Longrightarrow>
   (\<forall>i \<in> set is. dep i < 25 \<and> dep i \<le> mx') \<and> length clen' = length clen \<and>
   (\<forall>j < length clen. clen' ! j = (if j \<in> set is then dep j else clen ! j)) \<and>
   (\<forall>c < 25. lv' ! c = lv ! c + length (filter (\<lambda>i. dep i = c) is)) \<and>
   mx \<le> mx' \<and> (mx' = mx \<or> (\<exists>i \<in> set is. dep i = mx'))"
proof (induction "is" arbitrary: clen lv mx bo)
  case (Cons i "is")
  have c: "chain p (p ! i) 0 = Some (dep i)" using Cons.prems(2) by simp
  have d: "dep i < 25" using Cons.prems(1) c by (auto split: if_splits)
  have st: "set_lengths cnt p is (clen[i := dep i], lv[dep i := lv ! dep i + 1], max mx (dep i), bo + dep i * (cnt ! i div 2)) =
      Some (Some (clen', lv', mx', bo'))"
    using Cons.prems(1) c d by simp
  have IH: "(\<forall>i \<in> set is. dep i < 25 \<and> dep i \<le> mx') \<and> length clen' = length clen \<and>
   (\<forall>j < length clen. clen' ! j = (if j \<in> set is then dep j else clen[i := dep i] ! j)) \<and>
   (\<forall>c < 25. lv' ! c = lv[dep i := lv ! dep i + 1] ! c + length (filter (\<lambda>i. dep i = c) is)) \<and>
   max mx (dep i) \<le> mx' \<and> (mx' = max mx (dep i) \<or> (\<exists>i \<in> set is. dep i = mx'))"
    using Cons.IH [OF st] Cons.prems(2-4) by simp
  show ?case
  proof (intro conjI)
    show "\<forall>j < length clen. clen' ! j = (if j \<in> set (i # is) then dep j else clen ! j)"
      using IH Cons.prems(4) by (auto simp: nth_list_update)
    show "\<forall>c < 25. lv' ! c = lv ! c + length (filter (\<lambda>i. dep i = c) (i # is))"
      using IH Cons.prems(3) by (auto simp: nth_list_update)
    show "mx' = mx \<or> (\<exists>i \<in> set (i # is). dep i = mx')" using IH by (auto simp: max_def split: if_splits)
  qed (use IH d in auto)
qed simp

text \<open>The lengths of a code whose end symbol is at the deepest level.\<close>

definition code_ok :: "nat list \<Rightarrow> nat \<Rightarrow> bool" where
  "code_ok clen M \<longleftrightarrow> length clen = 257 \<and> 1 \<le> M \<and> M \<le> 24 \<and> (\<forall>i < 257. clen ! i \<le> M) \<and> clen ! END = M \<and>
     (\<Sum>i \<in> {i. i < 257 \<and> clen ! i \<noteq> 0}. (1 / 2 :: rat) ^ (clen ! i)) = 1"

text \<open>The tree that \<open>packfile\<close> builds.\<close>

definition tree_of :: "hnode list \<Rightarrow> nat \<Rightarrow> nat list \<Rightarrow> nat list" where
  "tree_of h n parent0 = build n (make_heap n (n div 2) h) END (map (\<lambda>i. if i \<le> END then 0 else parent0 ! i) [0..<2 * END + 1])"

lemma tree_depths:
  assumes "fill_heap (counts s) (END + 1) (h0, 0, - 1, 0) = (h, n, db, sz)" "length h0 = 258"
  obtains d where "\<And>i. i < 257 \<Longrightarrow> chain (tree_of h n parent0) (tree_of h n parent0 ! i) 0 = Some (if i \<in> symbols s then d i else 0)"
    and "\<And>v. v \<in> symbols s \<Longrightarrow> d v \<le> d END" and "(\<Sum>x \<in> symbols s. (1 / 2 :: rat) ^ d x) = 1"
proof -
  let ?S = "symbols s" and ?w = "nth (counts s)"
  define par where "par = map (\<lambda>i. if i \<le> END then 0 else parent0 ! i) [0..<2 * END + 1]"
  note f = symbols_fill [OF assms]
  have "ordered n (n div 2 + 1) h" by (auto simp: ordered_def)
  then have hp: "heap_ok n (make_heap n (n div 2) h)" "items n (make_heap n (n div 2) h) = entries ?w ?S"
    using make_heap_ok [of n "n div 2" h] f card_symbols [of s] by (simp_all add: heap_ok_def)
  have "0 < card ?S" using END_symbol [of s] finite_symbols [of s] card_gt_0_iff by blast
  then have n: "1 \<le> n" using f(3) by simp
  have "\<forall>x \<in> ?S. x \<le> END" by (auto simp: symbols_def)
  then obtain T w d where T: "huffman (tree_of h n parent0) ?S T w d" "\<forall>x \<in> ?S. w x = ?w x" "T \<subseteq> ?S \<union> {END<..}"
      "\<forall>x. x \<notin> T \<longrightarrow> tree_of h n parent0 ! x = par ! x"
    using build_huffman [OF hp finite_symbols f(3) [symmetric] n, of END par] f(3) card_symbols [of s]
    unfolding tree_of_def par_def [symmetric] by (auto simp: par_def)
  show ?thesis
  proof
    fix i :: nat
    assume i: "i < 257"
    show "chain (tree_of h n parent0) (tree_of h n parent0 ! i) 0 = Some (if i \<in> ?S then d i else 0)"
    proof (cases "i \<in> ?S")
      case True
      then have "i \<in> T" using T(1) by (auto simp: huffman_def)
      then show ?thesis using huffman_chain [OF T(1), of i 0] True by simp
    next
      case False
      then have "i \<notin> T" using T(3) i by auto
      then show ?thesis using T(4) i False by (simp add: par_def chain.simps)
    qed
  next
    fix v
    assume v: "v \<in> ?S"
    have "w END < w v \<or> v = END"
    proof (cases "v = END")
      case False
      then have "v < END" "0 < counts s ! v" using v by (auto simp: symbols_def)
      then have "1 < counts s ! v" by (simp add: counts_nth)
      then show ?thesis using T(2) v counts_nth(1) [of s] by simp
    qed simp
    moreover have "v \<in> T" "END \<in> T" using T(1) v by (auto simp: huffman_def)
    ultimately show "d v \<le> d END" using T(1) unfolding huffman_def by blast
  next
    show "(\<Sum>x \<in> ?S. (1 / 2 :: rat) ^ d x) = 1" using T(1) by (simp add: huffman_def)
  qed
qed

text \<open>With two symbols or more none is the root.\<close>

lemma kraft_pos:
  assumes "(\<Sum>x \<in> S. (1 / 2 :: rat) ^ d x) = 1" "finite S" "2 \<le> card S" "x \<in> S"
  shows "0 < d x"
proof (rule ccontr)
  assume "\<not> 0 < d x"
  then have x: "d x = 0" by simp
  have "S - {x} \<noteq> {}"
  proof
    assume "S - {x} = {}"
    then have "S = {x}" using assms(4) by auto
    then show False using assms(3) by simp
  qed
  then have "0 < (\<Sum>x \<in> S - {x}. (1 / 2 :: rat) ^ d x)" using assms(2) by (intro sum_pos) auto
  moreover have "(\<Sum>x \<in> S. (1 / 2 :: rat) ^ d x) = (1 / 2) ^ d x + (\<Sum>x \<in> S - {x}. (1 / 2) ^ d x)"
    using assms(2,4) by (simp add: sum.remove)
  ultimately show False using assms(1) x by simp
qed

lemma lengths_code:
  assumes "fill_heap (counts s) (END + 1) (h0, 0, - 1, 0) = (h, n, db, sz)" "length h0 = 258" "s \<noteq> []"
    and "set_lengths cnt (tree_of h n parent0) [0..<END + 1] (replicate (END + 1) 0, replicate 25 0, 0, 0) =
      Some (Some (clen, lv, M, bo))"
  shows "code_ok clen M" "\<forall>c < 25. lv ! c = lev clen c" "\<forall>i < 257. clen ! i \<noteq> 0 \<longleftrightarrow> i \<in> symbols s"
proof -
  obtain d where d: "\<And>i. i < 257 \<Longrightarrow> chain (tree_of h n parent0) (tree_of h n parent0 ! i) 0 = Some (if i \<in> symbols s then d i else 0)"
      "\<And>v. v \<in> symbols s \<Longrightarrow> d v \<le> d END" "(\<Sum>x \<in> symbols s. (1 / 2 :: rat) ^ d x) = 1"
    using tree_depths [OF assms(1,2)] by blast
  define dep where "dep i = (if i \<in> symbols s then d i else 0)" for i
  have "\<forall>i \<in> set [0..<END + 1]. chain (tree_of h n parent0) (tree_of h n parent0 ! i) 0 = Some (dep i)"
    using d(1) by (simp add: dep_def)
  from set_lengths_ok [OF assms(4) this]
  have L: "\<forall>i < 257. dep i < 25 \<and> dep i \<le> M" "length clen = 257" "\<forall>j < 257. clen ! j = dep j"
      "\<forall>c < 25. lv ! c = length (filter (\<lambda>i. dep i = c) [0..<257])" "M = 0 \<or> (\<exists>i < 257. dep i = M)"
    by (simp_all add: Ball_def Bex_def conj_commute)
  have card: "2 \<le> card (symbols s)"
  proof -
    obtain c where "c \<in> set s" using assms(3) by (cases s) auto
    then have "{END, ord c} \<subseteq> symbols s" by (auto simp: symbols_eq)
    moreover have "ord c \<noteq> END" by (metis less_irrefl ord_less)
    ultimately show ?thesis using card_mono [of "symbols s" "{END, ord c}"] by simp
  qed
  have pos: "x \<in> symbols s \<Longrightarrow> 0 < d x" for x by (rule kraft_pos [OF d(3) finite_symbols card])
  have sub: "x \<in> symbols s \<Longrightarrow> x < 257" for x by (simp add: symbols_def)
  show nz: "\<forall>i < 257. clen ! i \<noteq> 0 \<longleftrightarrow> i \<in> symbols s"
    using L(3) pos by (auto simp: dep_def)
  have E: "clen ! END = d END" using L(3) by (simp add: dep_def)
  have top: "M = d END"
  proof -
    have "d END \<le> M" using L(1) by (auto simp: dep_def dest: spec [of _ END])
    moreover have "M \<le> d END" using L(5) d(2) by (auto simp: dep_def split: if_splits)
    ultimately show ?thesis by simp
  qed
  have "M < 25" using L(1) top by (auto simp: dep_def dest: spec [of _ END])
  moreover have "{i. i < 257 \<and> clen ! i \<noteq> 0} = symbols s" using nz sub by auto
  moreover have "(\<Sum>i \<in> symbols s. (1 / 2 :: rat) ^ (clen ! i)) = 1"
    using d(3) L(3) sub by (simp add: dep_def)
  ultimately show "code_ok clen M"
    using L(1-3) E top pos [of END] by (auto simp: code_ok_def)
  have "filter (\<lambda>i. dep i = c) [0..<257] = filter (\<lambda>i. clen ! i = c) [0..<257]" for c
    using L(3) by (intro filter_cong) auto
  then show "\<forall>c < 25. lv ! c = lev clen c" using L(4) by (simp add: lev_def)
qed

end
