(* ===== verification/PackBits.thy ===== *)
theory PackBits
  imports PackCode
begin

text \<open>
  The codes as bits: the code of a symbol is the number of internal nodes of its level plus its
  rank among the symbols of the level, \<open>set_codes\<close> computes it and \<open>put_text\<close> writes it.
\<close>

section \<open>Internal nodes\<close>

fun rem :: "nat list \<Rightarrow> nat \<Rightarrow> int" where
  "rem clen 0 = 1"
| "rem clen (Suc i) = 2 * rem clen i - int (lev clen (Suc i))"

lemma rem_sum: "rat_of_int (rem clen i) = 2 ^ i * (1 - (\<Sum>j = 1..i. of_nat (lev clen j) * (1 / 2) ^ j))"
proof (induction i)
  case (Suc i)
  have "rat_of_int (rem clen (Suc i)) = 2 * rat_of_int (rem clen i) - of_nat (lev clen (Suc i))" by simp
  also have "\<dots> = 2 ^ Suc i * (1 - (\<Sum>j = 1..i. of_nat (lev clen j) * (1 / 2) ^ j) - of_nat (lev clen (Suc i)) * (1 / 2) ^ Suc i)"
    unfolding Suc by (simp add: power_divide algebra_simps)
  finally show ?case by (simp add: algebra_simps)
qed simp

lemma lev_card: "lev clen c = card {i. i < 257 \<and> clen ! i = c}"
proof -
  have "set (filter (\<lambda>i. clen ! i = c) [0..<257]) = {i. i < 257 \<and> clen ! i = c}" by auto
  then show ?thesis by (metis lev_def distinct_card distinct_filter distinct_upt)
qed

lemma rem_M:
  assumes "code_ok clen M"
  shows "rem clen M = 0"
proof -
  let ?S = "{i. i < 257 \<and> clen ! i \<noteq> 0}"
  have ck: "\<forall>i < 257. clen ! i \<le> M" "(\<Sum>i \<in> ?S. (1 / 2 :: rat) ^ (clen ! i)) = 1"
    using assms by (simp_all add: code_ok_def)
  have "(\<Sum>j = 1..M. of_nat (lev clen j) * (1 / 2 :: rat) ^ j) = (\<Sum>j = 1..M. \<Sum>i \<in> {i \<in> ?S. clen ! i = j}. (1 / 2) ^ (clen ! i))"
  proof (intro sum.cong refl)
    fix j
    assume j: "j \<in> {1..M}"
    then have "{i \<in> ?S. clen ! i = j} = {i. i < 257 \<and> clen ! i = j}" by auto
    then show "of_nat (lev clen j) * (1 / 2 :: rat) ^ j = (\<Sum>i \<in> {i \<in> ?S. clen ! i = j}. (1 / 2) ^ (clen ! i))"
      by (simp add: lev_card)
  qed
  also have "\<dots> = (\<Sum>i \<in> ?S. (1 / 2) ^ (clen ! i))"
    using ck(1) by (intro sum.group) (auto simp: Suc_le_eq)
  finally have "rat_of_int (rem clen M) = 0" unfolding rem_sum ck(2) by simp
  then show ?thesis by simp
qed

lemma rem_nonneg: "code_ok clen M \<Longrightarrow> i \<le> M \<Longrightarrow> 0 \<le> rem clen i"
proof (induction "M - i" arbitrary: i)
  case 0
  then show ?case using rem_M by simp
next
  case (Suc k)
  then have "0 \<le> rem clen (Suc i)" by (simp del: rem.simps)
  then show ?case by simp
qed

lemma rem_bound: "rem clen i \<le> 2 ^ i"
  by (induction i) auto

text \<open>The code of a symbol.\<close>

definition rank :: "nat list \<Rightarrow> nat \<Rightarrow> nat" where
  "rank clen c = length (filter (\<lambda>x. clen ! x = clen ! c) [0..<c])"

definition codenum :: "nat list \<Rightarrow> nat \<Rightarrow> nat" where
  "codenum clen c = nat (rem clen (clen ! c)) + rank clen c"

lemma rank_less: "c < 257 \<Longrightarrow> rank clen c < lev clen (clen ! c)"
proof -
  assume c: "c < 257"
  have "[0..<257] = [0..<c] @ c # [Suc c..<257]" using c by (intro upt_split) simp
  then show ?thesis by (simp add: rank_def lev_def)
qed

lemma codenum_less:
  assumes "code_ok clen M" "c < 257" "clen ! c = Suc i"
  shows "codenum clen c < 2 * nat (rem clen i)" "codenum clen c < 2 ^ Suc i"
proof -
  have le: "Suc i \<le> M" using assms by (auto simp: code_ok_def)
  have nn: "0 \<le> rem clen i" "0 \<le> rem clen (Suc i)" using rem_nonneg [OF assms(1)] le by (simp_all del: rem.simps)
  have "rank clen c < lev clen (Suc i)" using rank_less [OF assms(2), of clen] assms(3) by simp
  then have "int (codenum clen c) < rem clen (Suc i) + int (lev clen (Suc i))"
    using nn(2) assms(3) by (simp add: codenum_def del: rem.simps)
  then have a: "int (codenum clen c) < 2 * rem clen i" by simp
  then show "codenum clen c < 2 * nat (rem clen i)" using nn(1) by linarith
  have "2 * rem clen i \<le> 2 ^ Suc i" using rem_bound [of clen i] by simp
  then have "int (codenum clen c) < int (2 ^ Suc i)" using a by simp
  then show "codenum clen c < 2 ^ Suc i" by linarith
qed

section \<open>set_codes\<close>

lemma level_codes_ok:
  "level_codes clen i (push_bit k 1) [a..<b] (push_bit k (of_nat m), bits) = (mk', bits') \<Longrightarrow> a \<le> b \<Longrightarrow> b \<le> length bits \<Longrightarrow>
   mk' = push_bit k (of_nat (m + length (filter (\<lambda>x. clen ! x = i) [a..<b]))) \<and> length bits' = length bits \<and>
   (\<forall>c < length bits. bits' ! c = (if a \<le> c \<and> c < b \<and> clen ! c = i
      then push_bit k (of_nat (m + length (filter (\<lambda>x. clen ! x = i) [a..<c]))) else bits ! c))"
proof (induction "b - a" arbitrary: a m bits)
  case 0
  then show ?case by auto
next
  case (Suc d)
  then have ab: "a < b" by simp
  then have u: "[a..<b] = a # [Suc a..<b]" by (simp add: upt_conv_Cons)
  have fr: "a < c \<Longrightarrow> filter P [a..<c] = (if P a then [a] else []) @ filter P [Suc a..<c]" for c P
    by (simp add: upt_conv_Cons)
  have pb: "push_bit k (of_nat m) + push_bit k 1 = (push_bit k (of_nat (m + 1)) :: 64 word)"
    by (simp add: push_bit_add)
  show ?case
  proof (cases "clen ! a = i")
    case True
    have st: "level_codes clen i (push_bit k 1) [Suc a..<b] (push_bit k (of_nat (m + 1)), bits[a := push_bit k (of_nat m)]) = (mk', bits')"
      using Suc.prems(1) True pb unfolding u by simp
    note IH = Suc.hyps(1) [OF _ st]
    have IH: "mk' = push_bit k (of_nat (m + 1 + length (filter (\<lambda>x. clen ! x = i) [Suc a..<b]))) \<and> length bits' = length bits \<and>
       (\<forall>c < length bits. bits' ! c = (if Suc a \<le> c \<and> c < b \<and> clen ! c = i
          then push_bit k (of_nat (m + 1 + length (filter (\<lambda>x. clen ! x = i) [Suc a..<c]))) else bits[a := push_bit k (of_nat m)] ! c))"
      using IH Suc.hyps(2) Suc.prems(2,3) ab by (simp del: of_nat_Suc of_nat_add)
    show ?thesis
    proof (intro conjI allI impI)
      fix c
      assume c: "c < length bits"
      show "bits' ! c = (if a \<le> c \<and> c < b \<and> clen ! c = i
        then push_bit k (of_nat (m + length (filter (\<lambda>x. clen ! x = i) [a..<c]))) else bits ! c)"
      proof (cases "c = a")
        case True
        then show ?thesis using IH c \<open>clen ! a = i\<close> ab by simp
      next
        case False
        then show ?thesis using IH c fr [of c] \<open>clen ! a = i\<close> by (auto simp: Suc_le_eq)
      qed
    qed (use IH fr [OF ab] True in auto)
  next
    case False
    have st: "level_codes clen i (push_bit k 1) [Suc a..<b] (push_bit k (of_nat m), bits) = (mk', bits')"
      using Suc.prems(1) False unfolding u by simp
    have IH: "mk' = push_bit k (of_nat (m + length (filter (\<lambda>x. clen ! x = i) [Suc a..<b]))) \<and> length bits' = length bits \<and>
       (\<forall>c < length bits. bits' ! c = (if Suc a \<le> c \<and> c < b \<and> clen ! c = i
          then push_bit k (of_nat (m + length (filter (\<lambda>x. clen ! x = i) [Suc a..<c]))) else bits ! c))"
      using Suc.hyps(1) [OF _ st] Suc.hyps(2) Suc.prems(2,3) ab by (simp del: of_nat_Suc of_nat_add)
    show ?thesis
    proof (intro conjI allI impI)
      fix c
      assume c: "c < length bits"
      show "bits' ! c = (if a \<le> c \<and> c < b \<and> clen ! c = i
        then push_bit k (of_nat (m + length (filter (\<lambda>x. clen ! x = i) [a..<c]))) else bits ! c)"
        using IH c fr [of c] False by (cases "c = a") (auto simp: Suc_le_eq)
    qed (use IH fr [OF ab] False in auto)
  qed
qed

lemma and_not_below: "k < j \<Longrightarrow> (push_bit j w :: 64 word) AND NOT (push_bit k 1) = push_bit j w"
  by (rule bit_word_eqI) (auto simp: bit_simps)

lemma and_not_low: "(push_bit (Suc k) w :: 64 word) AND NOT (push_bit k 1) = push_bit (Suc k) w"
  by (rule and_not_below) simp

lemma drop_push_one: "a \<le> b \<Longrightarrow> b < 64 \<Longrightarrow> drop_bit a (push_bit b 1) = (push_bit (b - a) 1 :: 64 word)"
  by (rule bit_word_eqI) (auto simp: bit_simps)

lemma set_codes_ok:
  "code_ok clen M \<Longrightarrow> i \<le> M \<Longrightarrow> length bits = 257 \<Longrightarrow>
   bits' = set_codes clen i (push_bit (24 - i) 1) (push_bit (24 - i) (of_nat (nat (rem clen i)))) bits \<Longrightarrow>
   length bits' = 257 \<and> (\<forall>c < 257. bits' ! c = (if 1 \<le> clen ! c \<and> clen ! c \<le> i
     then push_bit (24 - clen ! c) (of_nat (codenum clen c)) else bits ! c))"
proof (induction i arbitrary: bits)
  case (Suc i)
  define k where "k = 24 - Suc i"
  have "Suc i \<le> 24" using Suc.prems(1,2) by (auto simp: code_ok_def)
  then have k: "24 - i = Suc k" by (simp add: k_def)
  obtain mk b where l: "level_codes clen (Suc i) (push_bit k 1) [0..<257] (push_bit k (of_nat (nat (rem clen (Suc i)))), bits) = (mk, b)"
    by (cases "level_codes clen (Suc i) (push_bit k 1) [0..<257] (push_bit k (of_nat (nat (rem clen (Suc i)))), bits)") auto
  have L: "mk = push_bit k (of_nat (nat (rem clen (Suc i)) + lev clen (Suc i)))" "length b = 257"
      "\<And>c. c < 257 \<Longrightarrow> b ! c = (if clen ! c = Suc i
        then push_bit k (of_nat (nat (rem clen (Suc i)) + length (filter (\<lambda>x. clen ! x = Suc i) [0..<c]))) else bits ! c)"
    using level_codes_ok [OF l] Suc.prems(3) by (simp_all add: lev_def del: rem.simps of_nat_add)
  have nn: "0 \<le> rem clen (Suc i)" "0 \<le> rem clen i" using rem_nonneg [OF Suc.prems(1)] Suc.prems(2) by (simp_all del: rem.simps)
  have two: "nat (rem clen (Suc i)) + lev clen (Suc i) = 2 * nat (rem clen i)"
    using nn by simp
  have mk: "mk = push_bit (Suc k) (of_nat (nat (rem clen i)))"
    unfolding L(1) two by (simp add: push_bit_Suc mult.commute)
  have inc: "push_bit 1 (push_bit k 1) = (push_bit (Suc k) 1 :: 64 word)" by (simp add: push_bit_push_bit)
  have "set_codes clen (Suc i) (push_bit k 1) (push_bit k (of_nat (nat (rem clen (Suc i))))) bits =
      set_codes clen i (push_bit 1 (push_bit k 1)) (mk AND NOT (push_bit k 1)) b"
    using l by (simp del: rem.simps)
  then have "bits' = set_codes clen i (push_bit (24 - i) 1) (push_bit (24 - i) (of_nat (nat (rem clen i)))) b"
    unfolding Suc.prems(4) k inc k_def [symmetric] mk and_not_low .
  then have "length bits' = 257 \<and> (\<forall>c < 257. bits' ! c = (if 1 \<le> clen ! c \<and> clen ! c \<le> i
     then push_bit (24 - clen ! c) (of_nat (codenum clen c)) else b ! c))"
    using Suc.IH [OF Suc.prems(1) _ L(2)] Suc.prems(2) by simp
  then show ?case
    using L(3) by (auto simp: codenum_def rank_def k_def simp del: rem.simps)
qed auto

lemma codes_of:
  assumes "code_ok clen M" "c < 257" "clen ! c \<noteq> 0"
  shows "set_codes clen M (drop_bit M (push_bit 24 1)) 0 (replicate (END + 1) 0) ! c =
    push_bit (24 - clen ! c) (of_nat (codenum clen c))"
proof -
  have M: "M \<le> 24" using assms(1) by (simp add: code_ok_def)
  then have "drop_bit M (push_bit 24 1) = (push_bit (24 - M) 1 :: 64 word)" by (intro drop_push_one) simp_all
  moreover have "clen ! c \<le> M" using assms by (simp add: code_ok_def)
  ultimately show ?thesis
    using set_codes_ok [OF assms(1) order_refl, of "replicate 257 0"] rem_M [OF assms(1)] assms(2,3) by simp
qed

section \<open>The stream of bits\<close>

definition bits8 :: "8 word \<Rightarrow> bool list" where
  "bits8 w = map (\<lambda>k. bit w (7 - k)) [0..<8]"

definition stream :: "cstr \<Rightarrow> bool list" where
  "stream s = concat (map (\<lambda>c. bits8 (word8 c)) s)"

definition code_bits :: "nat \<Rightarrow> nat \<Rightarrow> bool list" where
  "code_bits len v = map (\<lambda>k. bit v (len - 1 - k)) [0..<len]"

lemma bits8_length [simp]: "length (bits8 w) = 8"
  by (simp add: bits8_def)

lemma word8_byte8 [simp]: "word8 (byte8 w) = w"
proof -
  have "unat w < 256" using unsigned_less [of w, where 'a = nat] by simp
  then show ?thesis by (simp add: word8_def byte8_def)
qed

lemma byte8_word8 [simp]: "byte8 (word8 c) = c"
proof -
  have "ord c < 256" by (rule ord_less)
  then show ?thesis by (simp add: word8_def byte8_def unsigned_of_nat take_bit_nat_eq_self)
qed

lemma stream_simps [simp]:
  "stream [] = []" "stream (c # s) = bits8 (word8 c) @ stream s" "stream (s @ t) = stream s @ stream t"
  by (simp_all add: stream_def)

lemma stream_length [simp]: "length (stream s) = 8 * length s"
  by (induction s) simp_all

lemma stream_bytes: "stream (map byte8 q) = concat (map bits8 q)"
  by (simp add: stream_def o_def)

lemma bits8_or: "bits8 (a OR b) = map2 (\<or>) (bits8 a) (bits8 b)"
  by (rule nth_equalityI) (simp_all add: bits8_def bit_or_iff)

text \<open>The 32 low bits of the mask.\<close>

lemma maskshuff_bits: "concat (map bits8 (maskshuff m)) = map (\<lambda>k. bit m (31 - k)) [0..<32]"
  unfolding maskshuff_def bits8_def
  by (simp add: upt_rec bit_simps numeral_eq_Suc)

lemma bit_small: "v < 2 ^ n \<Longrightarrow> n \<le> k \<Longrightarrow> \<not> bit (v :: nat) k"
proof -
  assume v: "v < 2 ^ n" "n \<le> k"
  have "(2 :: nat) ^ n \<le> 2 ^ k" using v(2) by (simp add: power_increasing)
  then have "v div 2 ^ k = 0" using v(1) by (intro div_less) linarith
  then show ?thesis by (simp add: bit_iff_odd)
qed

lemma mask_bits:
  assumes "bl \<le> 8" "1 \<le> len" "len \<le> 24" "v < 2 ^ len"
  shows "concat (map bits8 (maskshuff (push_bit bl (push_bit (24 - len) (of_nat v))))) =
    replicate (8 - bl) False @ code_bits len v @ replicate (24 - len + bl) False" (is "?l = ?r")
proof (rule nth_equalityI)
  show "length ?l = length ?r" using assms by (simp add: maskshuff_bits code_bits_def)
  fix k
  assume "k < length ?l"
  then have k: "k < 32" by (simp add: maskshuff_bits)
  have l: "?l ! k \<longleftrightarrow> (24 - len + bl \<le> 31 - k \<and> bit v (31 - k - (24 - len + bl)))"
    using k assms(1) by (auto simp: maskshuff_bits bit_simps add.commute)
  show "?l ! k = ?r ! k"
  proof (cases "k < 8 - bl")
    case True
    then have "len \<le> 31 - k - (24 - len + bl)" using assms k by linarith
    then show ?thesis using l True bit_small [OF assms(4)] by (simp add: nth_append)
  next
    case False
    show ?thesis
    proof (cases "k < 8 - bl + len")
      case True
      define j where "j = k - (8 - bl)"
      have j: "k = 8 - bl + j" "j < len" using True False by (simp_all add: j_def)
      have "?r ! k = (code_bits len v @ replicate (24 - len + bl) False) ! j"
        unfolding j(1) using nth_append_length_plus [of "replicate (8 - bl) False" _ j] by simp
      then have "?r ! k = bit v (len - 1 - j)" using j(2) by (simp add: nth_append code_bits_def)
      moreover have "31 - k - (24 - len + bl) = len - 1 - j" "24 - len + bl \<le> 31 - k" using j assms k by linarith+
      ultimately show ?thesis using l by simp
    next
      case False
      define j where "j = k - (8 - bl + len)"
      have j: "k = 8 - bl + len + j" "j < 24 - len + bl" using False assms k by (simp_all add: j_def)
      have "?r ! k = replicate (24 - len + bl) False ! j"
        unfolding j(1) using nth_append_length_plus [of "replicate (8 - bl) False @ code_bits len v" _ j]
        by (simp add: code_bits_def)
      then have "\<not> ?r ! k" using j(2) by simp
      moreover have "\<not> 24 - len + bl \<le> 31 - k" using False assms k by linarith
      ultimately show ?thesis using l by simp
    qed
  qed
qed

lemma put_more_ok:
  "- 8 * int (length q) \<le> left \<Longrightarrow> left < 8 \<Longrightarrow>
   \<exists>m. m \<le> length q \<and> 0 \<le> left + 8 * int m \<and> left + 8 * int m < 8 \<and>
     put_more q left out = Some (out @ map byte8 (take m q), left + 8 * int m)"
proof (induction q arbitrary: left out)
  case Nil
  then show ?case by (intro exI [of _ 0]) (simp add: put_more.simps)
next
  case (Cons w q)
  show ?case
  proof (cases "left < 0")
    case True
    then obtain m where m: "m \<le> length q" "0 \<le> left + 8 + 8 * int m" "left + 8 + 8 * int m < 8"
        "put_more q (left + 8) (out @ [byte8 w]) = Some ((out @ [byte8 w]) @ map byte8 (take m q), left + 8 + 8 * int m)"
      using Cons.IH [of "left + 8" "out @ [byte8 w]"] Cons.prems by fastforce
    then show ?thesis using True by (intro exI [of _ "Suc m"]) (simp add: put_more.simps [of "w # q"])
  next
    case False
    then show ?thesis using Cons.prems by (intro exI [of _ 0]) (simp add: put_more.simps [of "w # q"])
  qed
qed

text \<open>
  The bytes written, with the bits of the last one that are still free, hold the bits \<open>P\<close>.
\<close>

definition holds :: "bool list \<Rightarrow> cstr \<times> int \<Rightarrow> bool" where
  "holds P st \<longleftrightarrow> (case st of (out, left) \<Rightarrow>
     left = 8 \<and> stream out = P \<or>
     0 \<le> left \<and> left < 8 \<and> out \<noteq> [] \<and> stream out = P @ replicate (nat left) False)"

lemma put_code_ok:
  assumes "holds P st" "1 \<le> len" "len \<le> 24" "v < 2 ^ len"
  shows "\<exists>st'. put_code (push_bit (24 - len) (of_nat v)) len st = Some st' \<and> holds (P @ code_bits len v) st' \<and> snd st' < 8"
proof -
  obtain out left where st: "st = (out, left)" by (cases st)
  define bl where "bl = nat left"
  have bl: "left = int bl" "bl \<le> 8" using assms(1) by (auto simp: st holds_def bl_def)
  define q where "q = maskshuff (push_bit bl (push_bit (24 - len) (of_nat v)))"
  obtain w t where q: "q = w # t" "length t = 3" by (simp add: q_def maskshuff_def)
  define out1 where "out1 = (if left = 8 then out @ [byte8 w] else butlast out @ [byte8 (word8 (last out) OR w)])"
  have Q: "concat (map bits8 q) = replicate (8 - bl) False @ code_bits len v @ replicate (24 - len + bl) False"
    unfolding q_def by (rule mask_bits [OF bl(2) assms(2-4)])
  obtain m where m: "m \<le> 3" "0 \<le> left - int len + 8 * int m" "left - int len + 8 * int m < 8"
      "put_more t (left - int len) out1 = Some (out1 @ map byte8 (take m t), left - int len + 8 * int m)"
    using put_more_ok [of t "left - int len" out1] q(2) assms(2,3) bl by auto
  have st1: "stream out1 = P @ drop (8 - bl) (bits8 w)"
  proof (cases "left = 8")
    case True
    then show ?thesis using assms(1) bl by (auto simp: out1_def st holds_def)
  next
    case False
    then have h: "out \<noteq> []" "stream out = P @ replicate bl False" "bl < 8"
      using assms(1) bl by (auto simp: st holds_def)
    define x where "x = bits8 (word8 (last out))"
    have sp: "stream (butlast out) @ x = P @ replicate bl False"
      using h(1,2) append_butlast_last_id [OF h(1)] stream_simps(3) [of "butlast out" "[last out]"] by (simp add: x_def)
    have lx: "length x = 8" by (simp add: x_def)
    have lP: "length P + bl = length (stream (butlast out)) + 8" using arg_cong [OF sp, of length] lx by simp
    have x: "x = take (8 - bl) x @ replicate bl False"
    proof -
      have "length P - length (stream (butlast out)) = 8 - bl" using lP h(3) by linarith
      then have "drop (8 - bl) x = drop (length P) (stream (butlast out) @ x)" using lP h(3) by simp
      also have "\<dots> = replicate bl False" unfolding sp by simp
      finally show ?thesis by (metis append_take_drop_id)
    qed
    have P: "P = stream (butlast out) @ take (8 - bl) x"
    proof -
      have "P = take (length P) (P @ replicate bl False)" by simp
      also have "\<dots> = take (length P) (stream (butlast out) @ x)" by (simp add: sp)
      also have "\<dots> = stream (butlast out) @ take (8 - bl) x"
      proof -
        have "length P - length (stream (butlast out)) = 8 - bl" using lP h(3) by linarith
        then show ?thesis using lP h(3) by simp
      qed
      finally show ?thesis .
    qed
    have w: "bits8 w = replicate (8 - bl) False @ drop (8 - bl) (bits8 w)"
    proof -
      have "take (8 - bl) (bits8 w) = take (8 - bl) (concat (map bits8 q))" by (simp add: q(1))
      also have "\<dots> = replicate (8 - bl) False" unfolding Q by simp
      finally show ?thesis by (metis append_take_drop_id)
    qed
    have "bits8 (word8 (last out) OR w) = map2 (\<or>) x (bits8 w)" by (simp add: bits8_or x_def)
    also have "\<dots> = map2 (\<or>) (take (8 - bl) x @ replicate bl False) (replicate (8 - bl) False @ drop (8 - bl) (bits8 w))"
      using x w by simp
    also have "\<dots> = take (8 - bl) x @ drop (8 - bl) (bits8 w)"
      using lx h(3) by (intro nth_equalityI) (auto simp: nth_append)
    finally show ?thesis using False P by (simp add: out1_def)
  qed
  have tk: "bits8 w @ concat (map bits8 (take m t)) = take (8 * Suc m) (concat (map bits8 q))"
  proof -
    have "concat (map bits8 (take k xs)) = take (8 * k) (concat (map bits8 xs))" for k xs
      by (induction xs arbitrary: k) (auto simp: take_Cons split: nat.splits)
    from this [of "Suc m" q] show ?thesis by (simp add: q(1))
  qed
  define left' where "left' = nat (left - int len + 8 * int m)"
  have l': "left - int len + 8 * int m = int left'" "left' < 8" "8 * Suc m - (8 - bl) = len + left'"
      "left' \<le> 24 - len + bl"
  proof -
    show l: "left - int len + 8 * int m = int left'" using m(2) by (simp add: left'_def)
    then have "int (bl + 8 * m) = int (len + left')" using bl(1) by simp
    then have n: "bl + 8 * m = len + left'" by (simp only: of_nat_eq_iff)
    show "left' < 8" using l m(3) by linarith
    have "8 * Suc m = (8 - bl) + (bl + 8 * m)" using bl(2) by simp
    then show "8 * Suc m - (8 - bl) = len + left'" unfolding n by simp
    have "len + left' \<le> bl + 24" using n m(1) by simp
    then show "left' \<le> 24 - len + bl" using assms(3) by simp
  qed
  have "stream (out1 @ map byte8 (take m t)) = P @ drop (8 - bl) (bits8 w @ concat (map bits8 (take m t)))"
    unfolding stream_simps(3) st1 stream_bytes by simp
  also have "\<dots> = P @ take (len + left') (code_bits len v @ replicate (24 - len + bl) False)"
    unfolding tk Q using l'(3) by (simp add: drop_take)
  also have "\<dots> = P @ code_bits len v @ replicate left' False"
    using l'(4) by (simp add: code_bits_def min_absorb1)
  finally have "holds (P @ code_bits len v) (out1 @ map byte8 (take m t), int left')"
    using l'(2) by (simp add: holds_def out1_def)
  moreover have "put_code (push_bit (24 - len) (of_nat v)) len st = Some (out1 @ map byte8 (take m t), int left')"
    using m(4) unfolding put_code_def st Let_def prod.case bl_def [symmetric] q_def [symmetric] q(1) list.sel
      out1_def [symmetric] l'(1) .
  ultimately show ?thesis using l'(2) by auto
qed

text \<open>The whole text.\<close>

definition codes :: "nat list \<Rightarrow> nat list \<Rightarrow> bool list" where
  "codes clen cs = concat (map (\<lambda>c. code_bits (clen ! c) (codenum clen c)) cs)"

lemma put_text_ok:
  assumes "code_ok clen M" "\<And>c. c < 257 \<Longrightarrow> clen ! c \<noteq> 0 \<Longrightarrow> bits ! c = push_bit (24 - clen ! c) (of_nat (codenum clen c))"
  shows "holds P st \<Longrightarrow> \<forall>c \<in> set cs. c < 257 \<and> clen ! c \<noteq> 0 \<Longrightarrow> cs \<noteq> [] \<Longrightarrow>
    \<exists>st'. put_text clen bits cs st = Some st' \<and> holds (P @ codes clen cs) st' \<and> snd st' < 8"
proof (induction cs arbitrary: P st)
  case (Cons c cs)
  then obtain i where c: "c < 257" "clen ! c = Suc i" by (cases "clen ! c") auto
  have "clen ! c \<le> 24" using assms(1) c(1) by (auto simp: code_ok_def intro: order_trans)
  then obtain st' where st': "put_code (bits ! c) (clen ! c) st = Some st'" "holds (P @ code_bits (clen ! c) (codenum clen c)) st'" "snd st' < 8"
    using put_code_ok [OF Cons.prems(1), of "clen ! c" "codenum clen c"] codenum_less(2) [OF assms(1) c] assms(2) [OF c(1)] c(2) by auto
  show ?case
  proof (cases "cs = []")
    case True
    then show ?thesis using st' by (simp add: codes_def)
  next
    case False
    then show ?thesis using Cons.IH [OF st'(2)] Cons.prems(2) st'(1) by (auto simp: codes_def)
  qed
qed simp

lemma put_more_appends: "put_more q left a = Some (b, l) \<Longrightarrow> \<exists>t. b = a @ t"
proof (induction q left a rule: put_more.induct)
  case (1 q left a)
  show ?case
  proof (cases "left < 0")
    case True
    then obtain w r where q: "q = w # r" "put_more r (left + 8) (a @ [byte8 w]) = Some (b, l)"
      using 1(2) by (cases q) (simp_all add: put_more.simps [of _ left])
    then show ?thesis using 1(1) [OF True] by force
  next
    case False
    then show ?thesis using 1(2) by (simp add: put_more.simps [of q left])
  qed
qed

lemma put_code_appends:
  assumes "put_code v len (hdr @ a, l) = Some (b, l')" "a \<noteq> [] \<or> l = 8"
  obtains t where "b = hdr @ t" "t \<noteq> []"
proof (cases "l = 8")
  case True
  then show ?thesis using assms(1) that by (auto simp: put_code_def Let_def dest!: put_more_appends)
next
  case False
  then have "butlast (hdr @ a) = hdr @ butlast a" using assms(2) by (simp add: butlast_append)
  then show ?thesis using False assms(1) that by (auto simp: put_code_def Let_def dest!: put_more_appends)
qed

lemma put_text_appends: "put_text clen bits cs (hdr @ a, l) = Some (b, l') \<Longrightarrow> a \<noteq> [] \<or> l = 8 \<Longrightarrow> \<exists>t. b = hdr @ t"
proof (induction cs arbitrary: a l)
  case (Cons c cs)
  then obtain b1 l1 where b1: "put_code (bits ! c) (clen ! c) (hdr @ a, l) = Some (b1, l1)" "put_text clen bits cs (b1, l1) = Some (b, l')"
    by (auto split: option.splits)
  obtain t where "b1 = hdr @ t" "t \<noteq> []" using put_code_appends [OF b1(1) Cons.prems(2)] by blast
  then show ?case using Cons.IH [of t l1] b1(2) by simp
qed auto

lemma put_text_stream:
  assumes "code_ok clen M" "\<And>c. c < 257 \<Longrightarrow> clen ! c \<noteq> 0 \<Longrightarrow> bits ! c = push_bit (24 - clen ! c) (of_nat (codenum clen c))"
    and "\<forall>c \<in> set cs. c < 257 \<and> clen ! c \<noteq> 0" "cs \<noteq> []"
  obtains out left pad where "put_text clen bits cs (hdr, 8) = Some (hdr @ out, left)" "stream out = codes clen cs @ pad"
proof -
  have "holds (stream hdr) (hdr, 8)" by (simp add: holds_def)
  then obtain st where st: "put_text clen bits cs (hdr, 8) = Some st" "holds (stream hdr @ codes clen cs) st" "snd st < 8"
    using put_text_ok [OF assms(1,2) _ assms(3,4)] by blast
  then obtain o' left where o': "st = (o', left)" "stream o' = stream hdr @ codes clen cs @ replicate (nat left) False"
    by (cases st) (auto simp: holds_def)
  have "\<exists>out. o' = hdr @ out"
    using put_text_appends [of clen bits cs hdr "[]" 8 o' left] st(1) unfolding o'(1) by simp
  then obtain out where "o' = hdr @ out" by blast
  then show ?thesis using that [of out left "replicate (nat left) False"] st(1) o' by simp
qed

end
