(* ===== verification/PackEnd.thy ===== *)
theory PackEnd
  imports PackBits
begin

text \<open>
  \<open>packfile\<close> always ends. The depth of a leaf is less than the number of leaves, so a file of at
  most 24 different characters has codes of at most 24 bits.
\<close>

section \<open>Depths and the number of leaves\<close>

lemma kraft_scaled:
  assumes "(\<Sum>x \<in> S. (1 / 2 :: rat) ^ d x) = 1" "\<forall>x \<in> S. d x \<le> M"
  shows "(\<Sum>x \<in> S. 2 ^ (M - d x)) = (2 :: nat) ^ M"
proof -
  have p: "(2 :: rat) ^ M * (1 / 2) ^ d x = 2 ^ (M - d x)" if "x \<in> S" for x
    using assms(2) that by (simp add: power_one_over power_diff)
  have "(2 :: rat) ^ M = 2 ^ M * (\<Sum>x \<in> S. (1 / 2) ^ d x)" using assms(1) by simp
  also have "\<dots> = (\<Sum>x \<in> S. 2 ^ (M - d x))" unfolding sum_distrib_left using p by (intro sum.cong) auto
  also have "\<dots> = of_nat (\<Sum>x \<in> S. 2 ^ (M - d x))" by simp
  finally have "(of_nat (2 ^ M) :: rat) = of_nat (\<Sum>x \<in> S. 2 ^ (M - d x))" by simp
  then show ?thesis using of_nat_eq_iff by metis
qed

text \<open>The deepest level has two leaves.\<close>

lemma kraft_pair:
  assumes "(\<Sum>x \<in> S. (1 / 2 :: rat) ^ d x) = 1" "finite S" "\<forall>x \<in> S. d x \<le> d a" "a \<in> S" "0 < d a"
  obtains b where "b \<in> S" "b \<noteq> a" "d b = d a"
proof -
  have "\<exists>b \<in> S - {a}. d b = d a"
  proof (rule ccontr)
    assume none: "\<not> ?thesis"
    have "(\<Sum>x \<in> S. 2 ^ (d a - d x)) = (2 :: nat) ^ d a" by (rule kraft_scaled [OF assms(1,3)])
    moreover have "(\<Sum>x \<in> S. (2 :: nat) ^ (d a - d x)) = 1 + (\<Sum>x \<in> S - {a}. 2 ^ (d a - d x))"
      using assms(2,4) by (simp add: sum.remove)
    moreover have "even (\<Sum>x \<in> S - {a}. (2 :: nat) ^ (d a - d x))"
      using none assms(3) by (intro dvd_sum) (auto simp: le_less)
    ultimately have "odd ((2 :: nat) ^ d a)" by (metis odd_one even_add)
    then show False using assms(5) by simp
  qed
  then show ?thesis using that by blast
qed

lemma kraft_card:
  "finite S \<Longrightarrow> (\<Sum>x \<in> S. (1 / 2 :: rat) ^ d x) = 1 \<Longrightarrow> x \<in> S \<Longrightarrow> d x < card S"
proof (induction "card S" arbitrary: S d x)
  case (Suc n)
  have "Max (d ` S) \<in> d ` S" using Suc.prems by (intro Max_in) auto
  then obtain a where "a \<in> S" "Max (d ` S) = d a" by auto
  then have a: "a \<in> S" "\<forall>x \<in> S. d x \<le> d a" using Suc.prems(1) Max_ge [of "d ` S"] by auto
  have "d a < card S"
  proof (cases "d a = 0")
    case True
    then show ?thesis using Suc.hyps(2) by simp
  next
    case False
    then obtain b where b: "b \<in> S" "b \<noteq> a" "d b = d a" using kraft_pair [OF Suc.prems(2,1) a(2,1)] by blast
    define e where "e = d(b := d a - 1)"
    have eq: "(\<Sum>x \<in> S. (1 / 2 :: rat) ^ d x) = (1 / 2) ^ d a + ((1 / 2) ^ d b + (\<Sum>x \<in> S - {a} - {b}. (1 / 2) ^ d x))"
      using Suc.prems(1) a(1) b by (simp add: sum.remove)
    have "(\<Sum>x \<in> S - {a}. (1 / 2 :: rat) ^ e x) = (1 / 2) ^ (d a - 1) + (\<Sum>x \<in> S - {a} - {b}. (1 / 2) ^ e x)"
      using Suc.prems(1) b by (simp add: sum.remove e_def)
    also have "(\<Sum>x \<in> S - {a} - {b}. (1 / 2 :: rat) ^ e x) = (\<Sum>x \<in> S - {a} - {b}. (1 / 2) ^ d x)"
      by (intro sum.cong) (auto simp: e_def)
    also have "(1 / 2 :: rat) ^ (d a - 1) = (1 / 2) ^ d a + (1 / 2) ^ d b" using False b(3) by (cases "d a") simp_all
    finally have "(\<Sum>x \<in> S - {a}. (1 / 2 :: rat) ^ e x) = 1" using eq Suc.prems(2) by simp
    moreover have "n = card (S - {a})" using Suc.hyps(2) a(1) Suc.prems(1) by simp
    ultimately have "e b < n" using Suc.hyps(1) [of "S - {a}" e b] Suc.prems(1) b by simp
    then show ?thesis using Suc.hyps(2) False by (simp add: e_def)
  qed
  then show ?case using a(2) Suc.prems(3) le_less_trans by blast
qed simp

section \<open>The outcome of packfile\<close>

lemma set_lengths_some:
  "\<forall>i \<in> set is. chain p (p ! i) 0 = Some (dep i) \<and> dep i < 25 \<Longrightarrow> \<exists>st'. set_lengths cnt p is st = Some (Some st')"
proof (induction "is" arbitrary: st)
  case (Cons i "is")
  have "chain p (p ! i) 0 = Some (dep i)" "dep i < 25" using Cons.prems by simp_all
  then show ?case using Cons by (cases st) simp
next
  case Nil
  then show ?case by (cases st) auto
qed

lemma card_symbols_set: "card (symbols s) = card (set s) + 1"
proof -
  have "inj_on ord (set s)" by (simp add: inj_on_def)
  moreover have "END \<notin> ord ` set s" by (metis imageE less_irrefl ord_less)
  ultimately show ?thesis by (simp add: symbols_eq card_image)
qed

lemma pack_output_some:
  assumes "code_ok clen M" "\<forall>i < 257. clen ! i \<noteq> 0 \<longleftrightarrow> i \<in> symbols s"
  shows "\<exists>out. pack_output s sz clen lv M (set_codes clen M (drop_bit M (push_bit 24 1)) 0 (replicate (END + 1) 0)) = Some out"
proof -
  have "c < 257 \<and> clen ! c \<noteq> 0" if "c \<in> set (map ord s @ [END])" for c
  proof -
    have "c \<in> symbols s" using that by (auto simp: symbols_eq)
    moreover then have "c < 257" by (simp add: symbols_def)
    ultimately show ?thesis using assms(2) by simp
  qed
  then show ?thesis
    using put_text_stream [OF assms(1) codes_of [OF assms(1)], of "map ord s @ [END]" "pack_header sz clen lv M"]
    unfolding pack_output_def by (metis option.simps(9) append_is_Nil_conv list.distinct(1))
qed

lemma packfile_outcome:
  assumes "length heap0 = 258"
  obtains r where "packfile force heap0 parent0 s = Some r" "r \<noteq> Deep" "r = Trivial \<longleftrightarrow> card (set s) = 1"
    "1 < card (set s) \<Longrightarrow> card (set s) \<le> 24 \<Longrightarrow> r = NoSaving \<and> \<not> force \<or> (\<exists>out. r = Packed out)"
proof -
  obtain h n db sz where f: "fill_heap (counts s) (END + 1) (heap0, 0, - 1, 0) = (h, n, db, sz)"
    by (cases "fill_heap (counts s) (END + 1) (heap0, 0, - 1, 0)") auto
  have db: "db = 1 \<longleftrightarrow> card (set s) = 1" using symbols_fill(3,4) [OF f assms] card_symbols_set [of s] by auto
  obtain d where d: "\<And>i. i < 257 \<Longrightarrow> chain (tree_of h n parent0) (tree_of h n parent0 ! i) 0 = Some (if i \<in> symbols s then d i else 0)"
      "(\<Sum>x \<in> symbols s. (1 / 2 :: rat) ^ d x) = 1"
    using tree_depths [OF f assms] by blast
  let ?sl = "set_lengths (counts s) (tree_of h n parent0) [0..<END + 1] (replicate (END + 1) 0, replicate 25 0, 0, 0)"
  note pf = packfile_def [of force heap0 parent0 s, unfolded counts_def [symmetric] f Let_def prod.case tree_of_def [symmetric]]
  obtain r0 where r0: "?sl = Some r0"
    using set_lengths_total [of "[0..<END + 1]" "tree_of h n parent0" "counts s" "(replicate (END + 1) 0, replicate 25 0, 0, 0)"] d(1)
    by (auto simp del: upt_Suc)
  define dep where "dep i = (if i \<in> symbols s then d i else 0)" for i
  have dep: "\<forall>i \<in> set [0..<END + 1]. chain (tree_of h n parent0) (tree_of h n parent0 ! i) 0 = Some (dep i)"
    using d(1) by (simp add: dep_def)
  have small: "\<not> M > 24" if "?sl = Some (Some (clen, lv, M, bo))" for clen lv M bo
    using set_lengths_ok [OF that dep] by (auto simp del: upt_Suc)
  show ?thesis
  proof (cases "card (set s) = 1")
    case True
    show ?thesis by (rule that [of Trivial]) (use True db pf in simp_all)
  next
    case False
    show ?thesis
    proof (cases r0)
      case None
      have "\<not> (1 < card (set s) \<and> card (set s) \<le> 24)"
      proof
        assume "1 < card (set s) \<and> card (set s) \<le> 24"
        then have "card (symbols s) \<le> 25" using card_symbols_set [of s] by simp
        then have "dep i < 25" for i using kraft_card [OF finite_symbols d(2), of i] by (auto simp: dep_def)
        then have "\<exists>st'. ?sl = Some (Some st')" using dep by (intro set_lengths_some [of _ _ dep]) blast
        then show False using r0 None by simp
      qed
      then show ?thesis using that [of PWild] pf False db r0 None by simp
    next
      case (Some st)
      obtain clen lv M bo where st: "?sl = Some (Some (clen, lv, M, bo))" using r0 Some by (cases st) auto
      show ?thesis
      proof (cases "s = []")
        case True
        then show ?thesis using that pf False db st small [OF st] by (auto split: option.splits if_splits)
      next
        case s: False
        obtain out where "pack_output s (sz div 2) clen lv M (set_codes clen M (drop_bit M (push_bit 24 1)) 0 (replicate (END + 1) 0)) = Some out"
          using pack_output_some [OF lengths_code(1,3) [OF f assms s st]] by blast
        then show ?thesis using that [of NoSaving] that [of "Packed out"] pf False db st small [OF st] by (auto split: if_splits)
      qed
    qed
  qed
qed

text \<open>
  C11: Packing a file always ends: every chain of parents of the tree ends, the refusal of a file
  with one character (and only that) is taken before the tree is built, and a file of two to 24
  different characters is packed, or refused because nothing is saved when \<open>-f\<close> is not given.
  The message \<open>Huffman tree has too many levels\<close> is never reached within the model: a code of 25
  bits makes the loop write \<open>levcount[25]\<close>, one past the array, before \<open>maxlev\<close> is tested.
\<close>

theorem pack_terminates:
  assumes "length heap0 = 258"
  shows "\<exists>r. packfile force heap0 parent0 s = Some r \<and> r \<noteq> Deep \<and> (r = Trivial \<longleftrightarrow> card (set s) = 1) \<and>
    (1 < card (set s) \<and> card (set s) \<le> 24 \<longrightarrow> r = NoSaving \<and> \<not> force \<or> (\<exists>out. r = Packed out))"
  using packfile_outcome [OF assms, of force parent0 s] by metis

theorem pack_terminates_witness:
  "\<exists>out. packfile True (replicate 258 (0, 0)) [] ''hello'' = Some (Packed out)"
  using pack_terminates [of "replicate 258 (0, 0)" True "[]" "''hello''"] by force

end
