(* ===== verification/Unpack.thy ===== *)
theory Unpack
  imports Prelude
begin

text \<open>
  The decompressor \<open>cmd/unpack/unpack.c\<close>. A packed file is a list of bytes; \<open>unp\<close> holds the
  static variables that a run over several files carries from one to the next. \<open>tree\<close> holds
  offsets into \<open>characters\<close>. \<open>Failure\<close> has what has been written to the output by then:
  the output buffer is written when it is full. An access outside an array is \<open>UWild\<close>; read and
  write errors are left out.
\<close>

abbreviation UBUFSIZ :: nat where "UBUFSIZ \<equiv> 8192"

record unp =
  inbuff :: cstr
  intnodes :: "int list"
  tree :: "nat list"
  characters :: cstr
  is_eof :: bool
  Tree :: "int list"

datatype ures = Success cstr | Failure cstr | UWild

text \<open>What of the output has been written before the end.\<close>

definition flushed_out :: "cstr \<Rightarrow> cstr" where
  "flushed_out out = take (length out div UBUFSIZ * UBUFSIZ) out"

section \<open>Decoding\<close>

datatype dstate = Going int nat cstr | AtEof cstr | OffEnd

text \<open>One turn of the inner loop of \<open>decode\<close>, for the bit \<open>b\<close>.\<close>

definition dec_bit :: "unp \<Rightarrow> nat \<Rightarrow> bool \<Rightarrow> int \<Rightarrow> nat \<Rightarrow> cstr \<Rightarrow> dstate" where
  "dec_bit u eof b i lev out =
     (let i = 2 * i + (if b then 1 else 0) in
      if lev \<ge> 25 then OffEnd
      else
        let j = i - intnodes u ! lev in
        if j \<ge> 0 then
          let p = tree u ! lev + nat j in
          if p = eof then AtEof out
          else if p \<ge> 256 then OffEnd
          else Going 0 1 (out @ [characters u ! p])
        else Going i (lev + 1) out)"

fun dec_byte :: "unp \<Rightarrow> nat \<Rightarrow> nat \<Rightarrow> 8 word \<Rightarrow> int \<Rightarrow> nat \<Rightarrow> cstr \<Rightarrow> dstate" where
  "dec_byte u eof 0 c i lev out = Going i lev out"
| "dec_byte u eof (Suc bitsleft) c i lev out =
     (case dec_bit u eof (c AND 0x80 \<noteq> 0) i lev out of
        Going i lev out \<Rightarrow> dec_byte u eof bitsleft (push_bit 1 c) i lev out
      | r \<Rightarrow> r)"

fun decode_loop :: "unp \<Rightarrow> nat \<Rightarrow> nat \<Rightarrow> cstr \<Rightarrow> int \<Rightarrow> nat \<Rightarrow> cstr \<Rightarrow> ures" where
  "decode_loop u eof origsize [] i lev out = Failure (flushed_out out)"
| "decode_loop u eof origsize (c # s) i lev out =
     (case dec_byte u eof 8 (of_nat (ord c)) i lev out of
        Going i lev out \<Rightarrow> decode_loop u eof origsize s i lev out
      | AtEof out \<Rightarrow> if origsize = length out then Success out else Failure out
      | OffEnd \<Rightarrow> UWild)"

definition unpack_decode :: "unp \<Rightarrow> nat \<Rightarrow> nat \<Rightarrow> cstr \<Rightarrow> ures" where
  "unpack_decode u eof origsize inp = decode_loop u eof origsize inp 0 1 []"

section \<open>The old format\<close>

text \<open>\<open>getch\<close> and \<open>getwdsize\<close> on the rest of the file and \<open>is_eof\<close>; \<open>None\<close> is \<open>EOF\<close>.\<close>

fun getch :: "cstr \<times> bool \<Rightarrow> char option \<times> cstr \<times> bool" where
  "getch ([], e) = (None, [], True)"
| "getch (c # s, e) = (Some c, s, e)"

definition getwdsize :: "cstr \<times> bool \<Rightarrow> nat \<times> cstr \<times> bool" where
  "getwdsize st =
     (let (c, st) = getch st; (d, st) = getch st in
      if snd st then (0, st)
      else (case (c, d) of (Some c, Some d) \<Rightarrow> (ord d * 256 + ord c, st) | _ \<Rightarrow> (0, st)))"

fun read_tree :: "nat \<Rightarrow> int list \<Rightarrow> nat \<Rightarrow> cstr \<times> bool \<Rightarrow> ures + (int list \<times> cstr \<times> bool)" where
  "read_tree 0 T t st = Inr (T, st)"
| "read_tree (Suc keysize) T t st =
     (let (i, st) = getch st in
      if i = Some (CHR 0xFF) then
        let (w, st) = getwdsize st in
        if t \<ge> 1024 then Inl UWild else read_tree keysize (T[t := int w]) (t + 1) st
      else if snd st then Inl (Failure [])
      else if t \<ge> 1024 then Inl UWild
      else read_tree keysize (T[t := (case i of Some c \<Rightarrow> int (ord c) | None \<Rightarrow> 255)]) (t + 1) st)"

datatype estate = EGo int nat cstr | EDone cstr | EWild

text \<open>The bits of a word; \<open>n\<close> counts \<open>bit\<close> down.\<close>

primrec exp_bits :: "int list \<Rightarrow> nat \<Rightarrow> 16 word \<Rightarrow> int \<Rightarrow> nat \<Rightarrow> cstr \<Rightarrow> estate" where
  "exp_bits T 0 w tp origsize out = EGo tp origsize out"
| "exp_bits T (Suc n) w tp origsize out =
     (let k = tp + (if sint w < 0 then 1 else 0) in
      if k < 0 \<or> k \<ge> 1024 then EWild
      else
        let tp = tp + T ! nat k in
        if tp < 0 \<or> tp \<ge> 1024 then EWild
        else if T ! nat tp = 0 then
          if tp + 1 \<ge> 1024 then EWild
          else
            let out = out @ [chr (nat (T ! nat (tp + 1) mod 256))] in
            if origsize = 1 then EDone out
            else exp_bits T n (push_bit 1 w) 0 (origsize - 1) out
        else exp_bits T n (push_bit 1 w) tp origsize out)"

function exp_words :: "int list \<Rightarrow> cstr \<times> bool \<Rightarrow> int \<Rightarrow> nat \<Rightarrow> cstr \<Rightarrow> ures" where
  "exp_words T st tp origsize out =
     (let (w, st') = getwdsize st in
      if w = 0 \<and> snd st' then Failure (flushed_out out)
      else if length (fst st') < length (fst st) then
        (case exp_bits T 16 (of_nat w) tp origsize out of
           EGo tp origsize out \<Rightarrow> exp_words T st' tp origsize out
         | EDone out \<Rightarrow> Success out
         | EWild \<Rightarrow> UWild)
      else UWild)"
  by pat_completeness auto
termination
  by (relation "measure (\<lambda>(T, st, tp, origsize, out). length (fst st))") auto

declare exp_words.simps [simp del]

definition expand :: "unp \<Rightarrow> cstr \<Rightarrow> ures" where
  "expand u file =
     (let (hi, st) = getwdsize (drop 2 file, is_eof u);
          (lo, st) = getwdsize st;
          origsize = hi * 256 * 256 + lo in
      if origsize = 0 \<or> snd st then Failure []
      else
        let (keysize, st) = getwdsize st in
        (case read_tree keysize (Tree u) 0 st of
           Inl r \<Rightarrow> r
         | Inr (T, st) \<Rightarrow> if snd st then Failure [] else exp_words T st 0 origsize []))"

text \<open>At the end of the file a word is 0, so the guard of the loop always holds.\<close>

lemma getwdsize_shorter:
  assumes "getwdsize st = (w, st')" "\<not> (w = 0 \<and> snd st')"
  shows "length (fst st') < length (fst st)"
proof (cases st)
  case (Pair s e)
  show ?thesis
  proof (cases s)
    case Nil
    then show ?thesis using assms Pair by (auto simp: getwdsize_def)
  next
    case (Cons c r)
    then show ?thesis using assms Pair by (cases r) (auto simp: getwdsize_def split: if_splits)
  qed
qed

section \<open>The dictionary\<close>

fun read_level :: "nat \<Rightarrow> cstr \<times> nat \<times> cstr \<Rightarrow> (cstr \<times> nat \<times> cstr) option" where
  "read_level 0 st = Some st"
| "read_level (Suc c) (inp, eof, chars) =
     (if eof \<ge> 255 then None else read_level c (tl inp, eof + 1, chars[eof := hd inp]))"

fun read_levels :: "int list \<Rightarrow> nat list \<Rightarrow> nat list \<Rightarrow> cstr \<times> nat \<times> cstr \<Rightarrow> (nat list \<times> cstr \<times> nat \<times> cstr) option" where
  "read_levels nodes [] tr st = Some (tr, st)"
| "read_levels nodes (i # is) tr (inp, eof, chars) =
     (case read_level (nat (nodes ! i)) (inp, eof, chars) of
        None \<Rightarrow> None
      | Some st \<Rightarrow> read_levels nodes is (tr[i := eof]) st)"

fun internal_nodes :: "nat \<Rightarrow> int list \<Rightarrow> int \<Rightarrow> int list" where
  "internal_nodes 0 nodes nchildren = nodes"
| "internal_nodes (Suc i) nodes nchildren =
     (let c = nodes ! Suc i; nchildren = nchildren div 2
      in internal_nodes i (nodes[Suc i := nchildren]) (nchildren + c))"

definition be_size :: "cstr \<Rightarrow> nat" where
  "be_size s = foldl (\<lambda>n c. n * 256 + ord c) 0 s"

definition getdict :: "unp \<Rightarrow> cstr \<Rightarrow> ures" where
  "getdict u file =
     (let blk = take UBUFSIZ file;
          buf = blk @ drop (length blk) ((inbuff u)[6 := CHR 0x19]) in
      if buf ! 0 \<noteq> CHR 0x1F then Failure []
      else if buf ! 1 = CHR 0x1F then expand u file
      else if buf ! 1 \<noteq> CHR 0x1E then Failure []
      else
        let origsize = be_size (take 4 (drop 2 buf));
            maxlev = ord (buf ! 6) in
        if maxlev > 24 then Failure []
        else
          let nodes = fold (\<lambda>i nodes. nodes[i := int (ord (buf ! (6 + i)))]) [1..<maxlev + 1] (intnodes u) in
          (case read_levels nodes [1..<maxlev + 1] (tree u) (drop (7 + maxlev) buf, 0, characters u) of
             None \<Rightarrow> Failure []
           | Some (tr, inp, eof, chars) \<Rightarrow>
               let chars = chars[eof := hd inp];
                   eof = eof + 1;
                   used = length buf - length (tl inp);
                   nodes = internal_nodes maxlev (nodes[maxlev := nodes ! maxlev + 2]) 0
               in if length blk < used then Failure []
                  else unpack_decode (u\<lparr>intnodes := nodes, tree := tr, characters := chars\<rparr>) eof origsize (drop used file)))"

section \<open>The command\<close>

text \<open>
  What \<open>main\<close> does with one file once both are open: the file that it has created, the standard
  output of \<open>pcat\<close>, whether the packed file is left, and whether the file counts as a failure.
\<close>

record outcome =
  target :: "cstr option"
  stdout :: cstr
  source_left :: bool
  failed :: bool

definition finish_file :: "bool \<Rightarrow> bool \<Rightarrow> cstr \<Rightarrow> outcome" where
  "finish_file pcat ok out =
     (if ok \<and> pcat
      then
        (if \<not> pcat then \<lparr>target = Some out, stdout = [], source_left = False, failed = False\<rparr>
         else \<lparr>target = None, stdout = out, source_left = True, failed = False\<rparr>)
      else
        (if \<not> pcat then \<lparr>target = None, stdout = [], source_left = True, failed = True\<rparr>
         else \<lparr>target = None, stdout = out, source_left = True, failed = True\<rparr>))"

definition unpack_file :: "bool \<Rightarrow> unp \<Rightarrow> cstr \<Rightarrow> outcome option" where
  "unpack_file pcat u file =
     (case getdict u file of
        Success out \<Rightarrow> Some (finish_file pcat True out)
      | Failure out \<Rightarrow> Some (finish_file pcat False out)
      | UWild \<Rightarrow> None)"

end
