(* ===== verification/PackRound.thy ===== *)
theory PackRound
  imports PackEnd Unpack
begin

text \<open>
  \<open>unpack\<close> undoes \<open>pack\<close>: it rebuilds the number of internal nodes of every level and the table
  of the characters from the header, and then follows the codes.
\<close>

section \<open>The tables\<close>

definition level_chars :: "nat list \<Rightarrow> nat \<Rightarrow> cstr" where
  "level_chars clen i = map chr (filter (\<lambda>c. clen ! c = i) [0..<END])"

lemma dictionary_levels: "dictionary clen M = concat (map (level_chars clen) [1..<M + 1])"
  by (simp add: dictionary_def level_chars_def [abs_def])

lemma length_level_chars:
  assumes "code_ok clen M"
  shows "length (level_chars clen i) = (if i = M then lev clen i - 1 else lev clen i)" "1 \<le> lev clen M"
proof -
  have "lev clen i = length (level_chars clen i) + (if clen ! END = i then 1 else 0)" for i
    by (simp add: lev_def level_chars_def upt_rec [of 256] upt_add_eq_append [of 0 256 1, simplified])
  then show "length (level_chars clen i) = (if i = M then lev clen i - 1 else lev clen i)" "1 \<le> lev clen M"
    using assms by (auto simp: code_ok_def)
qed

lemma lev_M: "code_ok clen M \<Longrightarrow> 2 \<le> lev clen M"
proof -
  assume ck: "code_ok clen M"
  then obtain i where M: "M = Suc i" by (cases M) (auto simp: code_ok_def)
  have "int (lev clen M) = 2 * rem clen i" using rem_M [OF ck] M by simp
  moreover have "1 \<le> lev clen M" by (rule length_level_chars(2) [OF ck])
  ultimately show ?thesis by presburger
qed

lemma level_chars_nth:
  assumes "c < END"
  shows "rank clen c < length (level_chars clen (clen ! c))" "level_chars clen (clen ! c) ! rank clen c = chr c"
proof -
  have "[0..<END] = [0..<c] @ c # [Suc c..<END]" using assms by (intro upt_split) simp
  then have "filter (\<lambda>x. clen ! x = clen ! c) [0..<END] =
      filter (\<lambda>x. clen ! x = clen ! c) [0..<c] @ c # filter (\<lambda>x. clen ! x = clen ! c) [Suc c..<END]" by simp
  then show "rank clen c < length (level_chars clen (clen ! c))" "level_chars clen (clen ! c) ! rank clen c = chr c"
    by (simp_all add: level_chars_def rank_def nth_append)
qed

text \<open>Where the characters of a level begin.\<close>

definition offset :: "nat list \<Rightarrow> nat \<Rightarrow> nat" where
  "offset clen i = length (concat (map (level_chars clen) [1..<i]))"

lemma dictionary_split:
  assumes "1 \<le> i" "i \<le> M"
  shows "\<exists>r. dictionary clen M = concat (map (level_chars clen) [1..<i]) @ level_chars clen i @ r \<and> (i = M \<longrightarrow> r = [])"
proof -
  have "[1..<M + 1] = [1..<i] @ i # [Suc i..<M + 1]"
    using assms by (intro upt_split) simp_all
  then show ?thesis unfolding dictionary_levels by auto
qed

lemma dictionary_char:
  assumes "c < END" "1 \<le> clen ! c" "clen ! c \<le> M"
  shows "offset clen (clen ! c) + rank clen c < length (dictionary clen M)"
    "dictionary clen M ! (offset clen (clen ! c) + rank clen c) = chr c"
proof -
  obtain r where "dictionary clen M = concat (map (level_chars clen) [1..<clen ! c]) @ level_chars clen (clen ! c) @ r"
    using dictionary_split [OF assms(2,3)] by blast
  then show "offset clen (clen ! c) + rank clen c < length (dictionary clen M)"
    "dictionary clen M ! (offset clen (clen ! c) + rank clen c) = chr c"
    using level_chars_nth [OF assms(1), of clen] by (simp_all add: offset_def nth_append)
qed

lemma dictionary_END:
  assumes "code_ok clen M"
  shows "offset clen M + rank clen END = length (dictionary clen M)"
proof -
  have M: "1 \<le> M" "clen ! END = M" using assms by (simp_all add: code_ok_def)
  have "rank clen END = length (level_chars clen M)" using M by (simp add: rank_def level_chars_def)
  then show ?thesis using dictionary_split [OF M(1) order_refl, of clen] by (auto simp: offset_def)
qed

lemma dictionary_length: "length (dictionary clen M) \<le> 256"
proof -
  have d: "distinct (dictionary clen k)" for k
  proof (induction k)
    case 0
    then show ?case by (simp add: dictionary_levels)
  next
    case (Suc k)
    have inj: "inj_on chr {..<256}" by (rule inj_on_inverseI [of _ ord]) simp
    have "dictionary clen (Suc k) = dictionary clen k @ level_chars clen (Suc k)" by (simp add: dictionary_levels)
    moreover have "distinct (level_chars clen (Suc k))"
      by (auto simp: level_chars_def distinct_map intro: inj_on_subset [OF inj])
    moreover have "set (dictionary clen k) \<inter> set (level_chars clen (Suc k)) = {}"
    proof -
      have "x = y" if "x < 256" "y < 256" "chr x = chr y" for x y
        using that inj by (auto dest: inj_onD)
      then show ?thesis by (fastforce simp: dictionary_levels level_chars_def)
    qed
    ultimately show ?case using Suc by simp
  qed
  have "length (dictionary clen M) = card (ord ` set (dictionary clen M))"
    using d [of M] by (simp add: card_image inj_on_def distinct_card)
  also have "\<dots> \<le> card {..<256 :: nat}" by (rule card_mono) auto
  finally show ?thesis by simp
qed

section \<open>Reading the dictionary\<close>

lemma read_level_ok:
  "c \<le> length inp \<Longrightarrow> eof + c \<le> 255 \<Longrightarrow> length chars = 256 \<Longrightarrow>
   read_level c (inp, eof, chars) = Some (drop c inp, eof + c, take eof chars @ take c inp @ drop (eof + c) chars)"
proof (induction c arbitrary: inp eof chars)
  case (Suc c)
  then obtain x r where inp: "inp = x # r" by (cases inp) auto
  have "take (Suc eof) (chars[eof := x]) = take eof chars @ [x]"
    using Suc.prems by (simp add: take_Suc_conv_app_nth)
  moreover have "drop (Suc eof + c) (chars[eof := x]) = drop (eof + Suc c) chars" by (simp add: drop_update_cancel)
  ultimately show ?case using Suc.IH [of r "eof + 1" "chars[eof := x]"] Suc.prems inp by simp
qed simp

lemma read_levels_ok:
  "\<forall>i \<in> set is. nat (nodes ! i) = length (g i) \<Longrightarrow> eof + length (concat (map g is)) \<le> 255 \<Longrightarrow> length chars = 256 \<Longrightarrow>
   distinct is \<Longrightarrow> \<forall>i \<in> set is. i < length tr \<Longrightarrow>
   \<exists>tr'. read_levels nodes is tr (concat (map g is) @ rest, eof, chars) =
     Some (tr', rest, eof + length (concat (map g is)), take eof chars @ concat (map g is) @ drop (eof + length (concat (map g is))) chars) \<and>
     length tr' = length tr \<and>
     (\<forall>j < length tr. tr' ! j = (if j \<in> set is then eof + length (concat (map g (takeWhile (\<lambda>i. i \<noteq> j) is))) else tr ! j))"
proof (induction "is" arbitrary: eof chars tr)
  case (Cons i "is")
  define c where "c = length (g i)"
  have r: "read_level (nat (nodes ! i)) (concat (map g (i # is)) @ rest, eof, chars) =
      Some (concat (map g is) @ rest, eof + c, take eof chars @ g i @ drop (eof + c) chars)"
    using read_level_ok [of c "concat (map g (i # is)) @ rest" eof chars] Cons.prems by (simp add: c_def)
  define chars' where "chars' = take eof chars @ g i @ drop (eof + c) chars"
  have l: "length chars' = 256" using Cons.prems by (simp add: chars'_def c_def)
  have t: "take (eof + c) chars' = take eof chars @ g i" using Cons.prems by (simp add: chars'_def c_def)
  have d: "drop (eof + c + n) chars' = drop (eof + c + n) chars" for n
    using Cons.prems by (simp add: chars'_def c_def add.commute)
  obtain tr' where tr': "read_levels nodes is (tr[i := eof]) (concat (map g is) @ rest, eof + c, chars') =
     Some (tr', rest, eof + c + length (concat (map g is)), take (eof + c) chars' @ concat (map g is) @ drop (eof + c + length (concat (map g is))) chars')"
     "length tr' = length tr"
     "\<forall>j < length tr. tr' ! j = (if j \<in> set is then eof + c + length (concat (map g (takeWhile (\<lambda>i. i \<noteq> j) is))) else tr[i := eof] ! j)"
    using Cons.IH [of "eof + c" chars' "tr[i := eof]"] Cons.prems l by (auto simp: c_def)
  show ?case
  proof (intro exI conjI allI impI)
    show "read_levels nodes (i # is) tr (concat (map g (i # is)) @ rest, eof, chars) =
     Some (tr', rest, eof + length (concat (map g (i # is))), take eof chars @ concat (map g (i # is)) @ drop (eof + length (concat (map g (i # is)))) chars)"
      using r tr'(1) unfolding read_levels.simps(2) r option.case chars'_def [symmetric] t d
      by (simp add: c_def add.assoc)
    fix j
    assume j: "j < length tr"
    show "tr' ! j = (if j \<in> set (i # is) then eof + length (concat (map g (takeWhile (\<lambda>i. i \<noteq> j) (i # is)))) else tr ! j)"
      using tr'(3) j Cons.prems(4) by (auto simp: c_def nth_list_update)
  qed (use tr' in simp)
qed simp

lemma internal_nodes_ok:
  "code_ok clen M \<Longrightarrow> i \<le> M \<Longrightarrow> length nodes = 25 \<Longrightarrow> \<forall>k. 1 \<le> k \<and> k \<le> i \<longrightarrow> nodes ! k = int (lev clen k) \<Longrightarrow>
   nch = (if i = M then 0 else rem clen (Suc i) + int (lev clen (Suc i))) \<Longrightarrow>
   length (internal_nodes i nodes nch) = 25 \<and> (\<forall>k < 25. internal_nodes i nodes nch ! k = (if 1 \<le> k \<and> k \<le> i then rem clen k else nodes ! k))"
proof (induction i arbitrary: nodes nch)
  case (Suc i)
  have h: "nch div 2 = rem clen (Suc i)"
  proof (cases "Suc i = M")
    case True
    then show ?thesis using Suc.prems(5) rem_M [OF Suc.prems(1)] by simp
  next
    case False
    then show ?thesis using Suc.prems(5) by simp
  qed
  have len: "Suc i < 25" using Suc.prems(1,2) by (auto simp: code_ok_def)
  have "length (internal_nodes i (nodes[Suc i := nch div 2]) (nch div 2 + nodes ! Suc i)) = 25 \<and>
      (\<forall>k < 25. internal_nodes i (nodes[Suc i := nch div 2]) (nch div 2 + nodes ! Suc i) ! k =
        (if 1 \<le> k \<and> k \<le> i then rem clen k else nodes[Suc i := nch div 2] ! k))"
    using Suc.prems(2-4) h by (intro Suc.IH [OF Suc.prems(1)]) (auto simp del: rem.simps)
  then show ?case using h len Suc.prems(3) by (auto simp: Let_def nth_list_update le_Suc_eq simp del: rem.simps)
qed simp

section \<open>Following a code\<close>

text \<open>What the decoder needs of its tables.\<close>

definition tables_ok :: "nat list \<Rightarrow> nat \<Rightarrow> unp \<Rightarrow> bool" where
  "tables_ok clen M u \<longleftrightarrow> (\<forall>k. 1 \<le> k \<and> k \<le> M \<longrightarrow> intnodes u ! k = rem clen k \<and> tree u ! k = offset clen k) \<and>
     take (length (dictionary clen M)) (characters u) = dictionary clen M"

fun dec_bits :: "unp \<Rightarrow> nat \<Rightarrow> bool list \<Rightarrow> int \<Rightarrow> nat \<Rightarrow> cstr \<Rightarrow> dstate" where
  "dec_bits u eof [] i lv out = Going i lv out"
| "dec_bits u eof (b # bs) i lv out =
     (case dec_bit u eof b i lv out of Going i lv out \<Rightarrow> dec_bits u eof bs i lv out | r \<Rightarrow> r)"

lemma dec_bits_append:
  "dec_bits u eof (as @ bs) i lv out =
     (case dec_bits u eof as i lv out of Going i lv out \<Rightarrow> dec_bits u eof bs i lv out | r \<Rightarrow> r)"
  by (induction as arbitrary: i lv out) (auto split: dstate.split)

lemma prefix_internal:
  assumes "code_ok clen M" "c < 257" "clen ! c = Suc n" "m \<le> n" "1 \<le> m"
  shows "int (codenum clen c div 2 ^ (Suc n - m)) < rem clen m"
proof -
  define v where "v = codenum clen c"
  have "int (v div 2 ^ Suc k) < rem clen (n - k)" if "k < n" for k
    using that
  proof (induction k)
    case 0
    have "v < 2 * nat (rem clen n)" using codenum_less(1) [OF assms(1-3)] by (simp add: v_def)
    then show ?case by (simp add: zdiv_int)
  next
    case (Suc k)
    have "int (v div 2 ^ Suc k) < rem clen (n - k)" using Suc by simp
    also have "rem clen (n - k) = rem clen (Suc (n - Suc k))" using Suc.prems by (simp add: Suc_diff_Suc del: rem.simps)
    also have "\<dots> \<le> 2 * rem clen (n - Suc k)" by simp
    finally have "int (v div 2 ^ Suc k) < 2 * rem clen (n - Suc k)" .
    moreover have "v div 2 ^ Suc (Suc k) = v div 2 ^ Suc k div 2" by (simp add: div_mult2_eq [symmetric] mult.commute)
    ultimately show ?case by (simp add: zdiv_int)
  qed
  from this [of "n - m"] show ?thesis using assms(4,5) by (simp add: v_def Suc_diff_le)
qed

lemma dec_prefix:
  assumes "code_ok clen M" "tables_ok clen M u" "c < 257" "clen ! c = Suc n" "m \<le> n"
  shows "dec_bits u eof (take m (code_bits (Suc n) (codenum clen c))) 0 1 out =
    Going (int (codenum clen c div 2 ^ (Suc n - m))) (m + 1) out"
  using assms(5)
proof (induction m)
  case 0
  have "codenum clen c div 2 ^ Suc n = 0" using codenum_less(2) [OF assms(1,3,4)] by simp
  then show ?case by simp
next
  case (Suc m)
  let ?v = "codenum clen c"
  have M: "Suc n \<le> M" "M \<le> 24" using assms(1,3,4) by (auto simp: code_ok_def)
  have tk: "take (Suc m) (code_bits (Suc n) ?v) = take m (code_bits (Suc n) ?v) @ [bit ?v (n - m)]"
    using Suc.prems by (simp add: code_bits_def take_Suc_conv_app_nth)
  have half: "2 * (?v div 2 ^ (Suc n - m)) + (if bit ?v (n - m) then 1 else 0) = ?v div 2 ^ (Suc n - Suc m)"
  proof -
    have "?v div 2 ^ (Suc n - m) = ?v div 2 ^ (n - m) div 2"
      using Suc.prems by (simp add: Suc_diff_le div_mult2_eq [symmetric] mult.commute)
    then show ?thesis by (simp add: bit_iff_odd)
  qed
  have i: "2 * int (?v div 2 ^ (Suc n - m)) + (if bit ?v (n - m) then 1 else 0) = int (?v div 2 ^ (Suc n - Suc m))"
    unfolding half [symmetric] by simp
  have "int (?v div 2 ^ (Suc n - Suc m)) < intnodes u ! Suc m"
    using prefix_internal [OF assms(1,3,4) Suc.prems] assms(2) M Suc.prems by (simp add: tables_ok_def del: rem.simps)
  then have "dec_bit u eof (bit ?v (n - m)) (int (?v div 2 ^ (Suc n - m))) (m + 1) out =
      Going (int (?v div 2 ^ (Suc n - Suc m))) (Suc m + 1) out"
    unfolding dec_bit_def i Let_def using M Suc.prems by simp
  then show ?case unfolding tk dec_bits_append using Suc by simp
qed

lemma dec_code:
  assumes "code_ok clen M" "tables_ok clen M u" "c < 257" "clen ! c \<noteq> 0"
  shows "dec_bits u (length (dictionary clen M)) (code_bits (clen ! c) (codenum clen c)) 0 1 out =
    (if c = END then AtEof out else Going 0 1 (out @ [chr c]))"
proof -
  obtain n where n: "clen ! c = Suc n" using assms(4) by (cases "clen ! c") auto
  let ?v = "codenum clen c" and ?e = "length (dictionary clen M)"
  have M: "Suc n \<le> M" "M \<le> 24" using assms(1,3) n by (auto simp: code_ok_def)
  have tk: "code_bits (Suc n) ?v = take n (code_bits (Suc n) ?v) @ [bit ?v 0]"
    by (simp add: code_bits_def take_map)
  have i: "2 * int (?v div 2 ^ (Suc n - n)) + (if bit ?v 0 then 1 else 0) = int ?v"
    by (simp add: bit_0) presburger
  have tab: "intnodes u ! Suc n = rem clen (Suc n)" "tree u ! Suc n = offset clen (Suc n)"
    using assms(2) M by (simp_all add: tables_ok_def del: rem.simps)
  have j: "int ?v - rem clen (Suc n) = int (rank clen c)"
    using rem_nonneg [OF assms(1) M(1)] n by (simp add: codenum_def del: rem.simps)
  have "dec_bit u ?e (bit ?v 0) (int (?v div 2 ^ (Suc n - n))) (n + 1) out =
      (if c = END then AtEof out else Going 0 1 (out @ [chr c]))"
  proof (cases "c = END")
    case True
    then have "Suc n = M" using assms(1) n by (simp add: code_ok_def)
    then have "offset clen (Suc n) + rank clen c = ?e" using dictionary_END [OF assms(1)] True by simp
    then show ?thesis unfolding dec_bit_def i Let_def using M True tab j by simp
  next
    case False
    then have c: "c < END" using assms(3) by simp
    have d: "offset clen (Suc n) + rank clen c < ?e" "dictionary clen M ! (offset clen (Suc n) + rank clen c) = chr c"
      using dictionary_char [OF c, of clen M] n M by simp_all
    have "characters u ! (offset clen (Suc n) + rank clen c) = chr c"
      using assms(2) d nth_take [OF d(1), of "characters u"] by (simp add: tables_ok_def)
    then show ?thesis unfolding dec_bit_def i Let_def using M False tab j d(1) dictionary_length [of clen M] by simp
  qed
  then have "dec_bits u ?e (take n (code_bits (Suc n) ?v) @ [bit ?v 0]) 0 1 out =
      (if c = END then AtEof out else Going 0 1 (out @ [chr c]))"
    using dec_prefix [OF assms(1-3) n order_refl, of ?e out] unfolding dec_bits_append by simp
  then show ?thesis unfolding n by (subst tk)
qed

lemma dec_codes:
  assumes "code_ok clen M" "tables_ok clen M u" "clen ! END \<noteq> 0"
  shows "\<forall>c \<in> set s. clen ! ord c \<noteq> 0 \<Longrightarrow>
    dec_bits u (length (dictionary clen M)) (codes clen (map ord s @ [END]) @ pad) 0 1 out = AtEof (out @ s)"
proof (induction s arbitrary: out)
  case Nil
  then show ?case using dec_code [OF assms(1,2), of END] assms(3) by (simp add: codes_def dec_bits_append)
next
  case (Cons c s)
  have "ord c < 257" "ord c \<noteq> END" using ord_less [of c] by (simp_all del: ord_less)
  then show ?case using dec_code [OF assms(1,2), of "ord c"] Cons by (simp add: codes_def dec_bits_append)
qed

lemma bit_push8: "bit (push_bit k (c :: 8 word)) m \<longleftrightarrow> k \<le> m \<and> m < 8 \<and> bit c (m - k)"
  by (auto simp: bit_simps)

lemma dec_byte_bits:
  "n \<le> 8 \<Longrightarrow> dec_byte u eof n c i lv out = dec_bits u eof (map (\<lambda>k. bit c (7 - k)) [0..<n]) i lv out"
proof (induction n arbitrary: c i lv out)
  case (Suc n)
  have "(0x80 :: 8 word) = 2 ^ 7" by simp
  then have top: "c AND 0x80 \<noteq> 0 \<longleftrightarrow> bit c 7" by (simp only: and_exp_eq_0_iff_not_bit not_not)
  have "map (\<lambda>k. bit (push_bit 1 c) (7 - k)) [0..<n] = map (\<lambda>k. bit c (7 - k)) [1..<Suc n]"
    using Suc.prems unfolding bit_push8 by (auto simp: map_Suc_upt [symmetric] simp del: upt_Suc)
  then show ?case using Suc top by (simp add: upt_conv_Cons [of 0 "Suc n"] del: upt_Suc split: dstate.split)
qed simp

lemma decode_loop_bits:
  "decode_loop u eof origsize s i lv out =
     (case dec_bits u eof (stream s) i lv out of
        Going i lv out \<Rightarrow> Failure (flushed_out out)
      | AtEof out \<Rightarrow> if origsize = length out then Success out else Failure out
      | OffEnd \<Rightarrow> UWild)"
proof (induction s arbitrary: i lv out)
  case (Cons c s)
  have "dec_byte u eof 8 (of_nat (ord c)) i lv out = dec_bits u eof (bits8 (word8 c)) i lv out"
    by (simp add: dec_byte_bits bits8_def word8_def)
  then show ?case
    by (cases "dec_bits u eof (bits8 (word8 c)) i lv out") (simp_all add: Cons.IH dec_bits_append)
qed simp

section \<open>Reading the header\<close>

lemma ord_byte8 [simp]: "ord (byte8 w) = unat w"
proof -
  have "unat w < 256" using unsigned_less [of w, where 'a = nat] by simp
  then show ?thesis by (simp add: byte8_def)
qed

lemma be_size_bytes: "sz < 2 ^ 32 \<Longrightarrow> be_size (size_bytes sz) = sz"
proof -
  assume sz: "sz < 2 ^ 32"
  have b: "ord (byte8 (of_nat x)) = x mod 256" for x
    by (simp add: unsigned_of_nat take_bit_eq_mod)
  have "sz div 256 ^ 3 mod 256 = sz div 256 ^ 3" using sz by (simp add: div_less_dividend less_mult_imp_div_less)
  then have "be_size (size_bytes sz) = ((sz div 256 ^ 3 * 256 + sz div 256 ^ 2 mod 256) * 256 + sz div 256 mod 256) * 256 + sz mod 256"
    by (simp add: be_size_def size_bytes_def b del: ord_byte8)
  also have "sz div 256 ^ 3 * 256 + sz div 256 ^ 2 mod 256 = sz div 256 ^ 2"
    using div_mult_mod_eq [of "sz div 256 ^ 2" 256] by (simp add: div_mult2_eq [symmetric] numeral_3_eq_3 numeral_2_eq_2)
  also have "sz div 256 ^ 2 * 256 + sz div 256 mod 256 = sz div 256"
    using div_mult_mod_eq [of "sz div 256" 256] by (simp add: div_mult2_eq [symmetric] numeral_2_eq_2)
  finally show ?thesis using div_mult_mod_eq [of sz 256] by simp
qed

lemma lev_small:
  assumes "code_ok clen M" "k \<noteq> M"
  shows "lev clen k \<le> 255" "lev clen M \<le> 257"
proof -
  let ?A = "\<lambda>k. {i. i < 257 \<and> clen ! i = k}"
  have "card (?A k) + card (?A M) = card (?A k \<union> ?A M)" using assms(2) by (intro card_Un_disjoint [symmetric]) auto
  also have "\<dots> \<le> card {..<257 :: nat}" by (rule card_mono) auto
  finally have "lev clen k + lev clen M \<le> 257" by (simp add: lev_card)
  then show "lev clen k \<le> 255" "lev clen M \<le> 257" using lev_M [OF assms(1)] by simp_all
qed

lemma fold_nodes:
  "length nodes = 25 \<Longrightarrow> n < 25 \<Longrightarrow>
   length (fold (\<lambda>i nodes. nodes[i := f i]) [1..<n + 1] nodes) = 25 \<and>
   (\<forall>k < 25. fold (\<lambda>i nodes. nodes[i := f i]) [1..<n + 1] nodes ! k = (if 1 \<le> k \<and> k \<le> n then f k else nodes ! k))"
proof (induction n)
  case (Suc n)
  have "[1..<Suc n + 1] = [1..<n + 1] @ [Suc n]" by simp
  moreover have "length (fold (\<lambda>i nodes. nodes[i := f i]) [1..<n + 1] nodes) = 25"
      "\<forall>k < 25. fold (\<lambda>i nodes. nodes[i := f i]) [1..<n + 1] nodes ! k = (if 1 \<le> k \<and> k \<le> n then f k else nodes ! k)"
    using Suc by simp_all
  ultimately show ?case by (simp del: upt_Suc add: nth_list_update le_Suc_eq) auto
qed simp

text \<open>The characters that are read with the levels: all but the last one.\<close>

definition but_last_level :: "nat list \<Rightarrow> nat \<Rightarrow> nat \<Rightarrow> cstr" where
  "but_last_level clen M i = (if i = M then butlast (level_chars clen M) else level_chars clen i)"

lemma but_last_levels:
  assumes "code_ok clen M"
  shows "dictionary clen M = concat (map (but_last_level clen M) [1..<M + 1]) @ [last (level_chars clen M)]"
    "j \<le> M \<Longrightarrow> concat (map (but_last_level clen M) [1..<j]) = concat (map (level_chars clen) [1..<j])"
proof -
  show c: "concat (map (but_last_level clen M) [1..<j]) = concat (map (level_chars clen) [1..<j])" if "j \<le> M" for j
    using that by (intro arg_cong [of _ _ concat] map_cong) (auto simp: but_last_level_def)
  have M: "1 \<le> M" using assms by (simp add: code_ok_def)
  have "level_chars clen M \<noteq> []" using length_level_chars(1) [OF assms, of M] lev_M [OF assms] by auto
  then show "dictionary clen M = concat (map (but_last_level clen M) [1..<M + 1]) @ [last (level_chars clen M)]"
    using M c [of M] by (simp add: dictionary_levels) (simp add: but_last_level_def)
qed

text \<open>The header as it comes out of the input buffer.\<close>

definition header_list :: "nat \<Rightarrow> nat list \<Rightarrow> nat \<Rightarrow> cstr" where
  "header_list insize clen M =
     [CHR 0x1F, CHR 0x1E] @ size_bytes insize @ [byte8 (of_nat M)] @
     map (\<lambda>i. byte8 (if i = M then of_nat (lev clen M) - 2 else of_nat (lev clen i))) [1..<M + 1] @ dictionary clen M"

lemma pack_header_list:
  assumes "code_ok clen M" "\<forall>c < 25. lv ! c = lev clen c"
  shows "pack_header insize clen lv M = header_list insize clen M"
proof -
  have M: "1 \<le> M" "M < 25" using assms(1) by (simp_all add: code_ok_def)
  then show ?thesis using assms(2) by (simp add: pack_header_def header_list_def)
qed

lemma header_list_length: "length (header_list insize clen M) = 7 + M + length (dictionary clen M)"
  by (simp add: header_list_def size_bytes_def)

lemma header_nodes:
  assumes "code_ok clen M" "1 \<le> k" "k \<le> M"
  shows "int (ord ((header_list insize clen M @ X) ! (6 + k))) = (if k = M then int (lev clen M) - 2 else int (lev clen k))"
proof -
  let ?f = "\<lambda>i. byte8 (if i = M then of_nat (lev clen M) - 2 else of_nat (lev clen i))"
  obtain A where A: "header_list insize clen M @ X = A @ map ?f [1..<M + 1] @ dictionary clen M @ X" "length A = 7"
    by (simp add: header_list_def size_bytes_def)
  have "6 + k = length A + (k - 1)" using A(2) assms(2) by simp
  then have "(header_list insize clen M @ X) ! (6 + k) = (map ?f [1..<M + 1] @ dictionary clen M @ X) ! (k - 1)"
    unfolding A(1) by (simp only: nth_append_length_plus)
  also have "\<dots> = map ?f [1..<M + 1] ! (k - 1)"
    using assms(2,3) by (intro nth_append_left) (simp del: upt_Suc)
  also have "\<dots> = ?f k" using assms(2,3) by (simp del: upt_Suc)
  finally have e: "ord ((header_list insize clen M @ X) ! (6 + k)) = unat (if k = M then of_nat (lev clen M) - 2 else of_nat (lev clen k) :: 8 word)"
    by simp
  show ?thesis
  proof (cases "k = M")
    case True
    have "of_nat (lev clen M) - 2 = (of_nat (lev clen M - 2) :: 8 word)" using lev_M [OF assms(1)] by (simp add: of_nat_diff)
    moreover have "lev clen M - 2 < 256" using lev_small(2) [OF assms(1), of "M + 1"] by simp
    ultimately have "unat (of_nat (lev clen M) - 2 :: 8 word) = lev clen M - 2" by (simp add: unsigned_of_nat take_bit_nat_eq_self)
    then show ?thesis unfolding e using True lev_M [OF assms(1)] by (simp only: if_True) simp
  next
    case False
    then show ?thesis unfolding e using lev_small(1) [OF assms(1) False]
      by (simp add: unsigned_of_nat take_bit_nat_eq_self)
  qed
qed

text \<open>The static variables have the sizes of the arrays.\<close>

definition unp_ok :: "unp \<Rightarrow> bool" where
  "unp_ok u \<longleftrightarrow> length (inbuff u) = UBUFSIZ \<and> length (intnodes u) = 25 \<and> length (tree u) = 25 \<and> length (characters u) = 256"

lemma takeWhile_upt: "a \<le> j \<Longrightarrow> j < b \<Longrightarrow> takeWhile (\<lambda>i. i \<noteq> j) [a..<b] = [a..<j]"
proof -
  assume "a \<le> j" "j < b"
  then have "[a..<b] = [a..<j] @ j # [Suc j..<b]" by (rule upt_split)
  moreover have "takeWhile (\<lambda>i. i \<noteq> j) ([a..<j] @ j # [Suc j..<b]) = [a..<j]" by (subst takeWhile_append2) auto
  ultimately show ?thesis by (simp only:)
qed

lemma read_dictionary:
  assumes "code_ok clen M" "length nodes = 25" "length tr = 25" "length chars = 256"
    and "\<forall>k. 1 \<le> k \<and> k \<le> M \<longrightarrow> nodes ! k = (if k = M then int (lev clen M) - 2 else int (lev clen k))"
  obtains tr' chars' where
    "read_levels nodes [1..<M + 1] tr (dictionary clen M @ X, 0, chars) =
       Some (tr', last (level_chars clen M) # X, length (dictionary clen M) - 1, chars')"
    "\<forall>k. 1 \<le> k \<and> k \<le> M \<longrightarrow> tr' ! k = offset clen k"
    "take (length (dictionary clen M)) (chars'[length (dictionary clen M) - 1 := last (level_chars clen M)]) = dictionary clen M"
proof -
  let ?g = "but_last_level clen M" and ?D = "length (dictionary clen M)"
  have M: "1 \<le> M" "M < 25" using assms(1) by (simp_all add: code_ok_def)
  define A where "A = concat (map ?g [1..<M + 1])"
  have dict: "dictionary clen M = A @ [last (level_chars clen M)]" unfolding A_def by (rule but_last_levels(1) [OF assms(1)])
  have D: "length A = ?D - 1" "1 \<le> ?D" unfolding dict by simp_all
  have n: "\<forall>i \<in> set [1..<M + 1]. nat (nodes ! i) = length (?g i)"
    using assms(5) length_level_chars(1) [OF assms(1)] lev_M [OF assms(1)] by (auto simp: but_last_level_def nat_diff_distrib)
  obtain tr' where tr': "read_levels nodes [1..<M + 1] tr (A @ last (level_chars clen M) # X, 0, chars) =
      Some (tr', last (level_chars clen M) # X, length A, A @ drop (length A) chars)"
      "\<forall>j < 25. tr' ! j = (if j \<in> set [1..<M + 1] then length (concat (map ?g (takeWhile (\<lambda>i. i \<noteq> j) [1..<M + 1]))) else tr ! j)"
  proof -
    have "0 + length (concat (map ?g [1..<M + 1])) \<le> 255" "\<forall>i \<in> set [1..<M + 1]. i < length tr"
      using dictionary_length [of clen M] D assms(3) M unfolding A_def [symmetric] by auto
    from read_levels_ok [OF n this(1) assms(4) distinct_upt this(2), of "last (level_chars clen M) # X"] that
    show ?thesis unfolding A_def [symmetric] add_0 take_0 append_Nil assms(3) by blast
  qed
  show ?thesis
  proof
    show "read_levels nodes [1..<M + 1] tr (dictionary clen M @ X, 0, chars) =
       Some (tr', last (level_chars clen M) # X, ?D - 1, A @ drop (length A) chars)"
      using tr'(1) unfolding dict by (simp del: upt_Suc)
    show "\<forall>k. 1 \<le> k \<and> k \<le> M \<longrightarrow> tr' ! k = offset clen k"
      using tr'(2) M takeWhile_upt [of 1 _ "M + 1"] but_last_levels(2) [OF assms(1)] by (auto simp: offset_def simp del: upt_Suc)
    have "length A < 256" using D dictionary_length [of clen M] by simp
    then obtain x r where "drop (length A) chars = x # r" using assms(4) by (cases "drop (length A) chars") auto
    then have "(A @ drop (length A) chars)[length A := last (level_chars clen M)] = dictionary clen M @ r"
      unfolding dict by (simp add: list_update_append)
    then show "take ?D ((A @ drop (length A) chars)[?D - 1 := last (level_chars clen M)]) = dictionary clen M"
      unfolding D(1) [symmetric] by simp
  qed
qed

lemma getdict_packed:
  assumes "code_ok clen M" "unp_ok u" "insize < 2 ^ 32"
  obtains u' where "getdict u (header_list insize clen M @ out) = unpack_decode u' (length (dictionary clen M)) insize out"
    "tables_ok clen M u'"
proof -
  let ?H = "header_list insize clen M" and ?D = "length (dictionary clen M)" and ?file = "header_list insize clen M @ out"
  have M: "1 \<le> M" "M < 25" using assms(1) by (simp_all add: code_ok_def)
  define blk where "blk = take UBUFSIZ ?file"
  have hl: "length ?H \<le> length blk"
    using header_list_length [of insize clen M] dictionary_length [of clen M] M by (simp add: blk_def)
  then obtain B where B: "blk = ?H @ B" unfolding blk_def
    using header_list_length [of insize clen M] dictionary_length [of clen M] M by (simp add: take_append)
  define buf where "buf = blk @ drop (length blk) ((inbuff u)[6 := CHR 0x19])"
  define X where "X = B @ drop (length blk) ((inbuff u)[6 := CHR 0x19])"
  have buf: "buf = ?H @ X" by (simp add: buf_def X_def B)
  define lvl where "lvl = map (\<lambda>i. byte8 (if i = M then of_nat (lev clen M) - 2 else of_nat (lev clen i))) [1..<M + 1]"
  obtain s1 s2 s3 s4 where sz: "size_bytes insize = [s1, s2, s3, s4]" by (simp add: size_bytes_def)
  have H: "?H = [CHR 0x1F, CHR 0x1E, s1, s2, s3, s4, byte8 (of_nat M)] @ lvl @ dictionary clen M"
    by (simp add: header_list_def lvl_def sz)
  have b: "buf ! 0 = CHR 0x1F" "buf ! 1 = CHR 0x1E" "take 4 (drop 2 buf) = size_bytes insize" "ord (buf ! 6) = M"
    using M by (simp_all add: buf H sz unsigned_of_nat take_bit_nat_eq_self)
  have b7: "drop (7 + M) buf = dictionary clen M @ X" 
  proof -
    have "7 + M = length ([CHR 0x1F, CHR 0x1E, s1, s2, s3, s4, byte8 (of_nat M)] @ lvl)" by (simp add: lvl_def)
    moreover have "drop (length as) ((as @ bs) @ X) = bs @ X" for as bs :: cstr by simp
    ultimately show ?thesis unfolding buf H append_assoc [symmetric] by (simp only:)
  qed
  define nodes where "nodes = fold (\<lambda>i nodes. nodes[i := int (ord (buf ! (6 + i)))]) [1..<M + 1] (intnodes u)"
  have nodes: "length nodes = 25" "\<forall>k. 1 \<le> k \<and> k \<le> M \<longrightarrow> nodes ! k = (if k = M then int (lev clen M) - 2 else int (lev clen k))"
    using fold_nodes [of "intnodes u" M "\<lambda>i. int (ord (buf ! (6 + i)))"] assms(2) M header_nodes [OF assms(1), of _ insize X]
    by (auto simp: unp_ok_def nodes_def buf)
  obtain tr chars where rd: "read_levels nodes [1..<M + 1] (tree u) (dictionary clen M @ X, 0, characters u) =
       Some (tr, last (level_chars clen M) # X, ?D - 1, chars)"
    "\<forall>k. 1 \<le> k \<and> k \<le> M \<longrightarrow> tr ! k = offset clen k"
    "take ?D (chars[?D - 1 := last (level_chars clen M)]) = dictionary clen M"
  proof -
    have "length (tree u) = 25" "length (characters u) = 256" using assms(2) by (simp_all add: unp_ok_def)
    from read_dictionary [OF assms(1) nodes(1) this nodes(2), of X] that show ?thesis by blast
  qed
  define nodes' where "nodes' = internal_nodes M (nodes[M := nodes ! M + 2]) 0"
  have n': "\<forall>k. 1 \<le> k \<and> k \<le> M \<longrightarrow> nodes' ! k = rem clen k"
    using internal_nodes_ok [OF assms(1) order_refl, of "nodes[M := nodes ! M + 2]" 0] nodes M
    by (auto simp: nodes'_def nth_list_update)
  have D: "?D - 1 + 1 = ?D" unfolding but_last_levels(1) [OF assms(1)] by simp
  have used: "length buf - length X = length ?H" by (simp add: buf)
  define u' where "u' = u\<lparr>intnodes := nodes', tree := tr, characters := chars[?D - 1 := last (level_chars clen M)]\<rparr>"
  have "getdict u ?file = unpack_decode u' ?D (be_size (size_bytes insize)) (drop (length ?H) ?file)"
    using hl M unfolding getdict_def Let_def blk_def [symmetric] buf_def [symmetric] b b7 nodes_def [symmetric] rd(1)
      option.case prod.case list.sel used nodes'_def [symmetric] D u'_def [symmetric]
    by simp
  then have "getdict u ?file = unpack_decode u' ?D insize out" using be_size_bytes [OF assms(3)] by simp
  moreover have "tables_ok clen M u'" using n' rd by (simp add: tables_ok_def u'_def)
  ultimately show ?thesis using that by blast
qed

section \<open>The round trip\<close>

lemma packfile_packed:
  assumes "packfile force heap0 parent0 s = Some (Packed out)" "s \<noteq> []" "length heap0 = 258"
  obtains clen M data pad where "code_ok clen M" "\<forall>c \<in> set s. clen ! ord c \<noteq> 0"
    "out = header_list (length s) clen M @ data" "stream data = codes clen (map ord s @ [END]) @ pad"
proof -
  obtain h n db sz where f: "fill_heap (counts s) (END + 1) (heap0, 0, - 1, 0) = (h, n, db, sz)"
    by (cases "fill_heap (counts s) (END + 1) (heap0, 0, - 1, 0)") auto
  note pf = assms(1) [unfolded packfile_def counts_def [symmetric] f Let_def prod.case tree_of_def [symmetric]]
  obtain clen lv M bo where sl: "set_lengths (counts s) (tree_of h n parent0) [0..<END + 1] (replicate (END + 1) 0, replicate 25 0, 0, 0) =
      Some (Some (clen, lv, M, bo))"
    and out: "pack_output s (sz div 2) clen lv M (set_codes clen M (drop_bit M (push_bit 24 1)) 0 (replicate (END + 1) 0)) = Some out"
    using pf by (auto split: if_splits option.splits)
  note lc = lengths_code [OF f assms(3,2) sl]
  define bits where "bits = set_codes clen M (drop_bit M (push_bit 24 1)) 0 (replicate (END + 1) 0)"
  have size: "sz div 2 = length s" using symbols_fill(5) [OF f assms(3)] symbols_sum [of s] by simp
  have used: "\<forall>c \<in> set (map ord s @ [END]). c < 257 \<and> clen ! c \<noteq> 0"
  proof -
    have "\<forall>c \<in> set (map ord s @ [END]). c \<in> symbols s" by (auto simp: symbols_eq)
    moreover have "c \<in> symbols s \<Longrightarrow> c < 257" for c by (simp add: symbols_def)
    ultimately show ?thesis using lc(3) by blast
  qed
  have bits: "c < 257 \<Longrightarrow> clen ! c \<noteq> 0 \<Longrightarrow> bits ! c = push_bit (24 - clen ! c) (of_nat (codenum clen c))" for c
    unfolding bits_def by (rule codes_of [OF lc(1)])
  obtain data left pad where t: "put_text clen bits (map ord s @ [END]) (pack_header (sz div 2) clen lv M, 8) =
      Some (pack_header (sz div 2) clen lv M @ data, left)" "stream data = codes clen (map ord s @ [END]) @ pad"
    using put_text_stream [OF lc(1) bits used] by blast
  have "out = pack_header (sz div 2) clen lv M @ data" using out t(1) by (simp add: pack_output_def bits_def)
  then have "out = header_list (length s) clen M @ data" using pack_header_list [OF lc(1,2)] size by simp
  then show ?thesis using that lc(1) used t(2) by auto
qed

text \<open>
  C10: What \<open>pack\<close> writes, \<open>pcat\<close> prints again, byte for byte: whatever file of less than 4 GB it
  packs, whatever was in the heap and in the static variables of \<open>unpack\<close> before, the
  Huffman tree of the counts has the end symbol at its deepest level, the decompressor rebuilds
  the tree from the header, the codes lead to the characters they were made for, and the end
  symbol is met exactly when all of them have been written.
\<close>

theorem pack_roundtrip:
  assumes "packfile force heap0 parent0 s = Some (Packed out)" "s \<noteq> []" "length s < 2 ^ 32"
    and "length heap0 = 258" "unp_ok u"
  shows "unpack_file True u out = Some \<lparr>target = None, stdout = s, source_left = True, failed = False\<rparr>"
proof -
  obtain clen M data pad where p: "code_ok clen M" "\<forall>c \<in> set s. clen ! ord c \<noteq> 0"
    "out = header_list (length s) clen M @ data" "stream data = codes clen (map ord s @ [END]) @ pad"
    using packfile_packed [OF assms(1,2,4)] by blast
  obtain u' where u': "getdict u out = unpack_decode u' (length (dictionary clen M)) (length s) data" "tables_ok clen M u'"
    using getdict_packed [OF p(1) assms(5,3), of data] unfolding p(3) by blast
  have "clen ! END \<noteq> 0" using p(1) by (auto simp: code_ok_def)
  then have "getdict u out = Success s"
    using dec_codes [OF p(1) u'(2) _ p(2), of pad "[]"] u'(1) p(4)
    by (simp add: unpack_decode_def decode_loop_bits)
  then show ?thesis by (simp add: unpack_file_def finish_file_def)
qed

theorem pack_roundtrip_witness:
  "\<exists>out. packfile True (replicate 258 (0, 0)) [] ''hello'' = Some (Packed out) \<and>
    unpack_file True \<lparr>inbuff = replicate 8192 (CHR 0x00), intnodes = replicate 25 0, tree = replicate 25 0,
        characters = replicate 256 (CHR 0x00), is_eof = False, Tree = []\<rparr> out =
      Some \<lparr>target = None, stdout = ''hello'', source_left = True, failed = False\<rparr>"
proof -
  obtain r where "packfile True (replicate 258 (0, 0)) [] ''hello'' = Some r" "\<exists>out. r = Packed out"
    by (rule packfile_outcome [of "replicate 258 (0, 0)" True "[]" "''hello''"]) auto
  then obtain out where "packfile True (replicate 258 (0, 0)) [] ''hello'' = Some (Packed out)" by blast
  from pack_roundtrip [OF this] this show ?thesis by (simp add: unp_ok_def)
qed


end
