(* ===== verification/Oawk.thy ===== *)
theory Oawk
  imports Prelude
begin

text \<open>
  The regular expressions of the old awk, \<open>cmd/oawk/b.c\<close>: the follow sets of the leaves of a
  parse tree, the deterministic automaton made of them, and the search with it. A leaf carries
  the index that \<open>penter\<close> gives it; the parents of a node are a list of frames. Symbols are the
  values of a signed \<open>char\<close>. The global arrays are lists: \<open>point\<close> holds the leaves, with the
  \<open>FINAL\<close> node after the last one, \<open>setvec\<close> goes with \<open>setcnt\<close>, and \<open>foll\<close> and \<open>state\<close> hold
  position lists without the count in front. Sharing and freeing of equal follow sets, and
  \<open>malloc\<close> failing, are left out.
\<close>

abbreviation HAT :: int where "HAT \<equiv> 0x7F"

abbreviation MAXLIN :: nat where "MAXLIN \<equiv> 256"

abbreviation NCHARS :: int where "NCHARS \<equiv> 128"

abbreviation NSTATES :: nat where "NSTATES \<equiv> 256"

datatype aerr = Overflo | AWild

section \<open>Trees\<close>

datatype leaf = CHARn int | DOT | CCL cstr | NCCL cstr

datatype node = Leaf leaf nat | STAR node | PLUS node | QUEST node | FINAL node | CAT node node | ORn node node

text \<open>The parent of a node, with its other child.\<close>

datatype frame = InStar | InPlus | InQuest | InFinal | InCatL node | InCatR node | InOrL node | InOrR node

text \<open>\<open>penter\<close>: the indices of the leaves, and the leaves in that order.\<close>

fun penter :: "node \<Rightarrow> leaf list \<Rightarrow> node \<times> leaf list" where
  "penter (Leaf l i) point = (Leaf l (length point), point @ [l])"
| "penter (STAR p) point = (let (p, point) = penter p point in (STAR p, point))"
| "penter (PLUS p) point = (let (p, point) = penter p point in (PLUS p, point))"
| "penter (QUEST p) point = (let (p, point) = penter p point in (QUEST p, point))"
| "penter (FINAL p) point = (let (p, point) = penter p point in (FINAL p, point))"
| "penter (CAT p q) point =
     (let (p, point) = penter p point; (q, point) = penter q point in (CAT p q, point))"
| "penter (ORn p q) point =
     (let (p, point) = penter p point; (q, point) = penter q point in (ORn p q, point))"

section \<open>Character classes\<close>

text \<open>The value of a \<open>char\<close>.\<close>

definition cv :: "char \<Rightarrow> int" where
  "cv c = (if ord c < 128 then int (ord c) else int (ord c) - 256)"

fun member :: "int \<Rightarrow> cstr \<Rightarrow> bool" where
  "member c [] = False"
| "member c (x # s) = (c = cv x \<or> member c s)"

text \<open>\<open>cclenter\<close>: ranges in a class are written out; \<open>chars\<close> has \<open>MAXLIN\<close> entries.\<close>

fun fill_range :: "nat \<Rightarrow> int \<Rightarrow> int list \<Rightarrow> aerr + int list" where
  "fill_range 0 c chars = Inr chars"
| "fill_range (Suc n) c chars =
     (if length chars \<ge> MAXLIN then Inl Overflo else fill_range n (c + 1) (chars @ [c + 1]))"

fun ccl_loop :: "int list \<Rightarrow> int list \<Rightarrow> aerr + int list" where
  "ccl_loop [] chars = Inr chars"
| "ccl_loop (c # p) chars =
     (if c = cv (CHR ''-'') \<and> chars \<noteq> [] \<and> last chars \<noteq> 0 \<and> p \<noteq> [] then
        (case fill_range (nat (hd p - last chars)) (last chars) chars of
           Inl e \<Rightarrow> Inl e
         | Inr chars \<Rightarrow> ccl_loop (tl p) chars)
      else if length chars \<ge> MAXLIN then Inl Overflo
      else ccl_loop p (chars @ [c]))"

definition cclenter :: "cstr \<Rightarrow> aerr + int list" where
  "cclenter p =
     (case ccl_loop (map cv p) [] of
        Inl e \<Rightarrow> Inl e
      | Inr chars \<Rightarrow> if length chars \<ge> MAXLIN then Inl AWild else Inr chars)"

section \<open>Follow sets\<close>

type_synonym sv = "bool list \<times> nat"

definition put :: "nat \<Rightarrow> sv \<Rightarrow> sv" where
  "put i st = (let (setvec, setcnt) = st in if \<not> setvec ! i then (setvec[i := True], setcnt + 1) else (setvec, setcnt))"

fun first :: "node \<Rightarrow> sv \<Rightarrow> bool \<times> sv" where
  "first (Leaf l i) st = (l \<noteq> CCL [], put i st)"
| "first (FINAL p) st = first p st"
| "first (PLUS p) st = first p st"
| "first (STAR p) st = (False, snd (first p st))"
| "first (QUEST p) st = (False, snd (first p st))"
| "first (CAT p q) st = (let (b, st) = first p st in if b then (True, st) else first q st)"
| "first (ORn p q) st = (let (b, st) = first q st; (b', st) = first p st in (b' \<and> b, st))"

fun follow :: "nat \<Rightarrow> node \<Rightarrow> frame list \<Rightarrow> sv \<Rightarrow> sv" where
  "follow line v [] st = st"
| "follow line v (InStar # ctx) st = follow line (STAR v) ctx (snd (first v st))"
| "follow line v (InPlus # ctx) st = follow line (PLUS v) ctx (snd (first v st))"
| "follow line v (InQuest # ctx) st = follow line (QUEST v) ctx st"
| "follow line v (InOrL q # ctx) st = follow line (ORn v q) ctx st"
| "follow line v (InOrR p # ctx) st = follow line (ORn p v) ctx st"
| "follow line v (InCatL q # ctx) st =
     (let (b, st) = first q st in if \<not> b then follow line (CAT v q) ctx st else st)"
| "follow line v (InCatR p # ctx) st = follow line (CAT p v) ctx st"
| "follow line v (InFinal # ctx) st = put line st"

text \<open>\<open>notin\<close> gives the index of the set that is there already.\<close>

definition notin :: "nat list list \<Rightarrow> sv \<Rightarrow> nat option" where
  "notin sets st =
     List.find (\<lambda>i. length (sets ! i) = snd st \<and> (\<forall>j \<in> set (sets ! i). fst st ! j)) [0..<length sets]"

definition remember :: "nat \<Rightarrow> sv \<Rightarrow> nat list" where
  "remember line st = filter (\<lambda>i. fst st ! i) [1..<line + 1]"

fun cfoll :: "nat \<Rightarrow> node \<Rightarrow> frame list \<Rightarrow> nat list list \<Rightarrow> nat list list" where
  "cfoll line (Leaf l i) ctx foll =
     (let st = follow line (Leaf l i) ctx (True # replicate line False, 0)
      in foll @ [(case notin foll st of None \<Rightarrow> remember line st | Some prev \<Rightarrow> foll ! prev)])"
| "cfoll line (STAR p) ctx foll = cfoll line p (InStar # ctx) foll"
| "cfoll line (PLUS p) ctx foll = cfoll line p (InPlus # ctx) foll"
| "cfoll line (QUEST p) ctx foll = cfoll line p (InQuest # ctx) foll"
| "cfoll line (FINAL p) ctx foll = cfoll line p (InFinal # ctx) foll"
| "cfoll line (CAT p q) ctx foll = cfoll line q (InCatR p # ctx) (cfoll line p (InCatL q # ctx) foll)"
| "cfoll line (ORn p q) ctx foll = cfoll line q (InOrR p # ctx) (cfoll line p (InOrL q # ctx) foll)"

section \<open>The automaton\<close>

text \<open>
  A state is final or has a list of transitions; for every other symbol it goes to state 0.
\<close>

datatype fstate = Accept | Trans "(int \<times> nat) list"

record fa =
  start :: nat
  tab :: "fstate list"

text \<open>The symbols a leaf puts in the table.\<close>

definition syms :: "leaf \<Rightarrow> int list" where
  "syms l = (case l of
      CHARn k \<Rightarrow> [k]
    | DOT \<Rightarrow> filter (\<lambda>k. k \<noteq> HAT) [1..NCHARS - 1]
    | CCL p \<Rightarrow> filter (\<lambda>k. k \<noteq> HAT) (map cv p)
    | NCCL p \<Rightarrow> filter (\<lambda>k. k \<noteq> HAT \<and> \<not> member k p) [1..NCHARS - 1])"

text \<open>\<open>isyms\<close> and \<open>symbol\<close> have \<open>NCHARS\<close> entries and mark what is in \<open>ssyms\<close>.\<close>

fun add_syms :: "int list \<Rightarrow> int list \<Rightarrow> int list option" where
  "add_syms [] ssyms = Some ssyms"
| "add_syms (k # ks) ssyms =
     (if k < 0 \<or> k \<ge> NCHARS then None
      else add_syms ks (if k \<in> set ssyms then ssyms else ssyms @ [k]))"

definition pos_syms :: "leaf list \<Rightarrow> nat \<Rightarrow> int list \<Rightarrow> int list option" where
  "pos_syms point pos ssyms = (if pos = length point then Some ssyms else add_syms (syms (point ! pos)) ssyms)"

text \<open>The positions and symbols of state 0.\<close>

fun init_scan :: "leaf list \<Rightarrow> nat list \<Rightarrow> int list \<Rightarrow> int list option" where
  "init_scan point [] ssyms = Some ssyms"
| "init_scan point (pos # ps) ssyms =
     (case pos_syms point pos ssyms of None \<Rightarrow> None | Some ssyms \<Rightarrow> init_scan point ps ssyms)"

text \<open>Those of another state are added to them; \<open>index\<close> marks the positions that have been added.\<close>

fun state_scan :: "leaf list \<Rightarrow> nat list \<Rightarrow> nat list \<Rightarrow> bool list \<times> nat list \<times> int list \<Rightarrow>
    (bool list \<times> nat list \<times> int list) option" where
  "state_scan point init [] st = Some st"
| "state_scan point init (pos # ps) (index, sposns, ssyms) =
     (let (index, sposns) = (if pos \<notin> set init \<and> \<not> index ! pos then (index[pos := True], sposns @ [pos]) else (index, sposns))
      in (case pos_syms point pos ssyms of
            None \<Rightarrow> None
          | Some ssyms \<Rightarrow> state_scan point init ps (index, sposns, ssyms)))"

definition takes :: "leaf \<Rightarrow> int \<Rightarrow> bool" where
  "takes l c = (case l of CHARn k \<Rightarrow> c = k | DOT \<Rightarrow> True | CCL p \<Rightarrow> member c p | NCCL p \<Rightarrow> \<not> member c p)"

fun put_new :: "nat list \<Rightarrow> nat list \<Rightarrow> sv \<Rightarrow> sv" where
  "put_new init [] st = st"
| "put_new init (k # ks) st = put_new init ks (if k \<notin> set init then put k st else st)"

fun nextstate :: "leaf list \<Rightarrow> nat list list \<Rightarrow> nat list \<Rightarrow> int \<Rightarrow> nat list \<Rightarrow> sv \<Rightarrow> sv" where
  "nextstate point foll init c [] st = st"
| "nextstate point foll init c (pos # ps) st =
     nextstate point foll init c ps
       (if pos \<noteq> length point \<and> takes (point ! pos) c then put_new init (foll ! pos) st else st)"

text \<open>
  The transitions of a state. \<open>state\<close> has \<open>NSTATES\<close> entries, and \<open>n\<close>, the last state, is compared
  with their number before it is incremented.
\<close>

fun trans_loop :: "leaf list \<Rightarrow> nat list list \<Rightarrow> nat list \<Rightarrow> nat list \<Rightarrow> int list \<Rightarrow> nat list list \<times> (int \<times> nat) list \<Rightarrow>
    aerr + (nat list list \<times> (int \<times> nat) list)" where
  "trans_loop point foll init sposns [] st = Inr st"
| "trans_loop point foll init sposns (c # cs) (state, trs) =
     (let line = length point;
          sv = nextstate point foll init c sposns (replicate (line + 1) False, 0)
      in (case notin state sv of
            None \<Rightarrow>
              (let n = length state - 1 in
               if n \<ge> NSTATES then Inl Overflo
               else if n + 1 \<ge> NSTATES then Inl AWild
               else trans_loop point foll init sposns cs (state @ [remember line sv], trs @ [(c, n + 1)]))
          | Some prev \<Rightarrow>
              trans_loop point foll init sposns cs (state, if prev \<noteq> 0 then trs @ [(c, prev)] else trs)))"

definition is_final :: "nat \<Rightarrow> nat list \<Rightarrow> bool" where
  "is_final line st = ((length st # st) ! length st = line)"

text \<open>One turn of the loop over the states.\<close>

definition make_state :: "leaf list \<Rightarrow> nat list list \<Rightarrow> int list \<Rightarrow> nat \<Rightarrow> nat list list \<times> fstate list \<times> bool list \<Rightarrow>
    aerr + (nat list list \<times> fstate list \<times> bool list)" where
  "make_state point foll isyms s st =
     (let (state, wh, index) = st; init = foll ! 0 in
      if is_final (length point) (state ! s) then Inr (state, wh @ [Accept], index)
      else
        (case state_scan point init (state ! s) (index, init, isyms) of
           None \<Rightarrow> Inl AWild
         | Some (index, sposns, ssyms) \<Rightarrow>
             (case trans_loop point foll init sposns ssyms (state, []) of
                Inl e \<Rightarrow> Inl e
              | Inr (state, trs) \<Rightarrow>
                  Inr (state, wh @ [Trans trs],
                    if ssyms = [] then index else fold (\<lambda>pos index. index[pos := False]) sposns index))))"

text \<open>There are never more than \<open>NSTATES\<close> states, so \<open>s\<close> runs below that.\<close>

fun states_loop :: "leaf list \<Rightarrow> nat list list \<Rightarrow> int list \<Rightarrow> nat list \<Rightarrow> nat list list \<times> fstate list \<times> bool list \<Rightarrow>
    aerr + (nat list list \<times> fstate list \<times> bool list)" where
  "states_loop point foll isyms [] st = Inr st"
| "states_loop point foll isyms (s # ss) st =
     (if s < length (fst st)
      then (case make_state point foll isyms s st of Inl e \<Rightarrow> Inl e | Inr st \<Rightarrow> states_loop point foll isyms ss st)
      else Inr st)"

text \<open>The state after a \<open>^\<close>, when state 0 has a transition for it.\<close>

definition hat_start :: "fstate \<Rightarrow> nat" where
  "hat_start w = (case w of Accept \<Rightarrow> 0 | Trans tr \<Rightarrow> (case List.find (\<lambda>t. fst t = HAT) (rev tr) of None \<Rightarrow> 0 | Some t \<Rightarrow> snd t))"

definition cgotofn :: "leaf list \<Rightarrow> nat list list \<Rightarrow> aerr + fa" where
  "cgotofn point foll =
     (case init_scan point (foll ! 0) [] of
        None \<Rightarrow> Inl AWild
      | Some isyms \<Rightarrow>
          (case states_loop point foll isyms [0..<NSTATES] ([foll ! 0], [], replicate (length point + 1) False) of
             Inl e \<Rightarrow> Inl e
           | Inr (state, wh, index) \<Rightarrow> Inr \<lparr>start = hat_start (wh ! 0), tab = wh\<rparr>))"

text \<open>\<open>point\<close> and \<open>foll\<close> have \<open>MAXLIN\<close> entries, one of which is for the \<open>FINAL\<close> node.\<close>

definition makedfa :: "node \<Rightarrow> aerr + fa" where
  "makedfa p =
     (let (p1, point) = penter (FINAL (CAT (STAR (Leaf DOT 0)) p)) [] in
      if length point \<ge> MAXLIN then Inl AWild
      else cgotofn point (cfoll (length point) p1 [] []))"

section \<open>Searching\<close>

definition final :: "fa \<Rightarrow> nat \<Rightarrow> bool" where
  "final d q = (tab d ! q = Accept)"

definition goto :: "fa \<Rightarrow> nat \<Rightarrow> int \<Rightarrow> nat" where
  "goto d q c = (case tab d ! q of Accept \<Rightarrow> 0
     | Trans tr \<Rightarrow> (case List.find (\<lambda>t. fst t = c) (rev tr) of None \<Rightarrow> 0 | Some t \<Rightarrow> snd t))"

text \<open>The string ends with its terminator; \<open>None\<close> reads past that.\<close>

fun run :: "fa \<Rightarrow> nat \<Rightarrow> int list \<Rightarrow> bool option" where
  "run d q [] = None"
| "run d q (c # p) =
     (let q = goto d q c in if final d q then Some True else if c \<noteq> 0 then run d q p else Some False)"

definition adv :: "fa \<Rightarrow> nat \<Rightarrow> int list \<Rightarrow> bool option" where
  "adv d q p = (if final d q then Some True else run d q p)"

fun seek :: "fa \<Rightarrow> int \<times> nat \<Rightarrow> int list \<Rightarrow> bool option" where
  "seek d t [] = None"
| "seek d t (x # p) =
     (if fst t = x then adv d (snd t) p else if x \<noteq> 0 then seek d t p else Some False)"

definition match :: "fa \<Rightarrow> cstr \<Rightarrow> bool option" where
  "match d s =
     (let p = map cv s @ [0] in
      (case tab d ! start d of Trans [t] \<Rightarrow> seek d t p | _ \<Rightarrow> adv d (start d) p))"

end
