(* ===== verification/OawkLang.thy ===== *)
theory OawkLang
  imports Oawk
begin

text \<open>
  The language of a parse tree, and why the follow sets of its leaves are right: the words that
  may follow a leaf are those that start with a leaf of its follow set and go on from there.
\<close>

section \<open>Languages\<close>

definition conc :: "int list set \<Rightarrow> int list set \<Rightarrow> int list set" where
  "conc A B = {u @ v | u v. u \<in> A \<and> v \<in> B}"

inductive_set star :: "int list set \<Rightarrow> int list set" for A where
  star_Nil: "[] \<in> star A"
| star_step: "u \<in> A \<Longrightarrow> v \<in> star A \<Longrightarrow> u @ v \<in> star A"

text \<open>An empty class stands for the empty word, as in \<open>first\<close>.\<close>

fun lang :: "node \<Rightarrow> int list set" where
  "lang (Leaf l i) = {[c] | c. c \<in> set (syms l)} \<union> (if l = CCL [] then {[]} else {})"
| "lang (STAR p) = star (lang p)"
| "lang (PLUS p) = conc (lang p) (star (lang p))"
| "lang (QUEST p) = insert [] (lang p)"
| "lang (FINAL p) = lang p"
| "lang (CAT p q) = conc (lang p) (lang q)"
| "lang (ORn p q) = lang p \<union> lang q"

lemma in_conc: "w \<in> conc A B \<longleftrightarrow> (\<exists>u v. w = u @ v \<and> u \<in> A \<and> v \<in> B)"
  by (auto simp: conc_def)

lemma Nil_conc [simp]: "[] \<in> conc A B \<longleftrightarrow> [] \<in> A \<and> [] \<in> B"
  by (simp add: in_conc)

lemma conc_assoc: "conc (conc A B) C = conc A (conc B C)"
proof -
  have "w \<in> conc (conc A B) C \<longleftrightarrow> w \<in> conc A (conc B C)" for w
  proof
    assume "w \<in> conc (conc A B) C"
    then show "w \<in> conc A (conc B C)" unfolding in_conc by (metis append_assoc)
  next
    assume "w \<in> conc A (conc B C)"
    then show "w \<in> conc (conc A B) C" unfolding in_conc by (metis append_assoc)
  qed
  then show ?thesis by blast
qed

lemma conc_Un: "conc (A \<union> B) C = conc A C \<union> conc B C"
  by (auto simp: conc_def)

lemma conc_Nil [simp]: "conc {[]} A = A" "conc A {[]} = A"
  by (auto simp: conc_def)

lemma conc_empty [simp]: "conc {} A = {}"
  by (simp add: conc_def)

text \<open>What is left of the words of a language after their first symbol.\<close>

definition after :: "int \<Rightarrow> int list set \<Rightarrow> int list set" where
  "after c A = {w. c # w \<in> A}"

lemma after_Un: "after c (A \<union> B) = after c A \<union> after c B"
  by (auto simp: after_def)

lemma after_conc: "after c (conc A B) = conc (after c A) B \<union> (if [] \<in> A then after c B else {})"
proof -
  have "c # w \<in> conc A B \<longleftrightarrow> (\<exists>u v. w = u @ v \<and> c # u \<in> A \<and> v \<in> B) \<or> [] \<in> A \<and> c # w \<in> B" for w
    unfolding in_conc Cons_eq_append_conv by blast
  then have "w \<in> after c (conc A B) \<longleftrightarrow> w \<in> conc (after c A) B \<union> (if [] \<in> A then after c B else {})" for w
    by (simp add: after_def in_conc)
  then show ?thesis by blast
qed

lemma star_Cons: "c # w \<in> star A \<longleftrightarrow> (\<exists>u v. w = u @ v \<and> c # u \<in> A \<and> v \<in> star A)"
proof
  assume "c # w \<in> star A"
  then show "\<exists>u v. w = u @ v \<and> c # u \<in> A \<and> v \<in> star A"
  proof (induction "c # w" rule: star.induct)
    case (star_step u v)
    then show ?case by (cases u) auto
  qed
next
  assume "\<exists>u v. w = u @ v \<and> c # u \<in> A \<and> v \<in> star A"
  then show "c # w \<in> star A" using star_step [of "c # _" A] by force
qed

lemma after_star: "after c (star A) = conc (after c A) (star A)"
  unfolding after_def star_Cons conc_def by blast

lemma after_plus: "after c (conc A (star A)) = conc (after c A) (star A)"
  by (auto simp: after_conc after_star)

section \<open>What follows a node\<close>

text \<open>The words between the end of a node and the end of the pattern.\<close>

fun klang :: "node \<Rightarrow> frame list \<Rightarrow> int list set" where
  "klang v [] = {}"
| "klang v (InStar # ctx) = conc (star (lang v)) (klang (STAR v) ctx)"
| "klang v (InPlus # ctx) = conc (star (lang v)) (klang (PLUS v) ctx)"
| "klang v (InQuest # ctx) = klang (QUEST v) ctx"
| "klang v (InOrL q # ctx) = klang (ORn v q) ctx"
| "klang v (InOrR p # ctx) = klang (ORn p v) ctx"
| "klang v (InCatL q # ctx) = conc (lang q) (klang (CAT v q) ctx)"
| "klang v (InCatR p # ctx) = klang (CAT p v) ctx"
| "klang v (InFinal # ctx) = {[]}"

text \<open>\<open>FINAL\<close> is only the root.\<close>

fun pattern :: "node \<Rightarrow> bool" where
  "pattern (Leaf l i) \<longleftrightarrow> True"
| "pattern (STAR p) \<longleftrightarrow> pattern p"
| "pattern (PLUS p) \<longleftrightarrow> pattern p"
| "pattern (QUEST p) \<longleftrightarrow> pattern p"
| "pattern (FINAL p) \<longleftrightarrow> False"
| "pattern (CAT p q) \<longleftrightarrow> pattern p \<and> pattern q"
| "pattern (ORn p q) \<longleftrightarrow> pattern p \<and> pattern q"

fun frame_ok :: "frame \<Rightarrow> bool" where
  "frame_ok (InCatL q) \<longleftrightarrow> pattern q"
| "frame_ok (InCatR p) \<longleftrightarrow> pattern p"
| "frame_ok (InOrL q) \<longleftrightarrow> pattern q"
| "frame_ok (InOrR p) \<longleftrightarrow> pattern p"
| "frame_ok _ \<longleftrightarrow> True"

fun null :: "node \<Rightarrow> bool" where
  "null (Leaf l i) \<longleftrightarrow> l = CCL []"
| "null (STAR p) \<longleftrightarrow> True"
| "null (PLUS p) \<longleftrightarrow> null p"
| "null (QUEST p) \<longleftrightarrow> True"
| "null (FINAL p) \<longleftrightarrow> null p"
| "null (CAT p q) \<longleftrightarrow> null p \<and> null q"
| "null (ORn p q) \<longleftrightarrow> null p \<or> null q"

lemma null_lang: "null v \<longleftrightarrow> [] \<in> lang v"
  by (induction v) (auto intro: star_Nil)

text \<open>The leaves that may come first in a node, and next after it, each with its parents.\<close>

type_synonym occ = "nat \<times> leaf \<times> frame list"

fun firsts :: "node \<Rightarrow> frame list \<Rightarrow> occ list" where
  "firsts (Leaf l i) ctx = [(i, l, ctx)]"
| "firsts (STAR p) ctx = firsts p (InStar # ctx)"
| "firsts (PLUS p) ctx = firsts p (InPlus # ctx)"
| "firsts (QUEST p) ctx = firsts p (InQuest # ctx)"
| "firsts (FINAL p) ctx = firsts p (InFinal # ctx)"
| "firsts (CAT p q) ctx = firsts p (InCatL q # ctx) @ (if null p then firsts q (InCatR p # ctx) else [])"
| "firsts (ORn p q) ctx = firsts p (InOrL q # ctx) @ firsts q (InOrR p # ctx)"

fun follows :: "node \<Rightarrow> frame list \<Rightarrow> occ list" where
  "follows v [] = []"
| "follows v (InStar # ctx) = firsts v (InStar # ctx) @ follows (STAR v) ctx"
| "follows v (InPlus # ctx) = firsts v (InPlus # ctx) @ follows (PLUS v) ctx"
| "follows v (InQuest # ctx) = follows (QUEST v) ctx"
| "follows v (InOrL q # ctx) = follows (ORn v q) ctx"
| "follows v (InOrR p # ctx) = follows (ORn p v) ctx"
| "follows v (InCatL q # ctx) = firsts q (InCatR v # ctx) @ (if null q then follows (CAT v q) ctx else [])"
| "follows v (InCatR p # ctx) = follows (CAT p v) ctx"
| "follows v (InFinal # ctx) = []"

fun ends :: "node \<Rightarrow> frame list \<Rightarrow> bool" where
  "ends v [] \<longleftrightarrow> False"
| "ends v (InStar # ctx) \<longleftrightarrow> ends (STAR v) ctx"
| "ends v (InPlus # ctx) \<longleftrightarrow> ends (PLUS v) ctx"
| "ends v (InQuest # ctx) \<longleftrightarrow> ends (QUEST v) ctx"
| "ends v (InOrL q # ctx) \<longleftrightarrow> ends (ORn v q) ctx"
| "ends v (InOrR p # ctx) \<longleftrightarrow> ends (ORn p v) ctx"
| "ends v (InCatL q # ctx) \<longleftrightarrow> null q \<and> ends (CAT v q) ctx"
| "ends v (InCatR p # ctx) \<longleftrightarrow> ends (CAT p v) ctx"
| "ends v (InFinal # ctx) \<longleftrightarrow> True"

lemma ends_klang: "ends v ctx \<longleftrightarrow> [] \<in> klang v ctx"
  by (induction v ctx rule: ends.induct) (auto simp: null_lang intro: star_Nil)

text \<open>The words that go on from one of some leaves with the symbol \<open>c\<close>.\<close>

definition goes :: "int \<Rightarrow> occ list \<Rightarrow> int list set" where
  "goes c os = (\<Union>(i, l, k) \<in> set os. if c \<in> set (syms l) then klang (Leaf l i) k else {})"

lemma goes_append [simp]: "goes c (os @ os') = goes c os \<union> goes c os'"
  by (simp add: goes_def)

lemma goes_Nil [simp]: "goes c [] = {}"
  by (simp add: goes_def)

lemma firsts_lang:
  "pattern v \<Longrightarrow> conc (after c (lang v)) (klang v ctx) = goes c (firsts v ctx)"
proof (induction v arbitrary: ctx)
  case (Leaf l i)
  have "after c (lang (Leaf l i)) = (if c \<in> set (syms l) then {[]} else {})" by (auto simp: after_def)
  then show ?case by (simp add: goes_def)
next
  case (STAR v)
  then show ?case using STAR.IH [of "InStar # ctx"] by (simp add: after_star conc_assoc)
next
  case (PLUS v)
  then show ?case using PLUS.IH [of "InPlus # ctx"] by (simp add: after_plus conc_assoc)
next
  case (QUEST v)
  have "after c (lang (QUEST v)) = after c (lang v)" by (auto simp: after_def)
  then show ?case using QUEST.IH [of "InQuest # ctx"] QUEST.prems by simp
next
  case (CAT p q)
  have "conc (after c (lang (CAT p q))) (klang (CAT p q) ctx) =
      conc (after c (lang p)) (conc (lang q) (klang (CAT p q) ctx)) \<union>
      (if [] \<in> lang p then conc (after c (lang q)) (klang (CAT p q) ctx) else {})"
    by (simp add: after_conc conc_Un conc_assoc)
  then show ?case using CAT.IH(1) [of "InCatL q # ctx"] CAT.IH(2) [of "InCatR p # ctx"] CAT.prems by (simp add: null_lang)
next
  case (ORn p q)
  then show ?case using ORn.IH(1) [of "InOrL q # ctx"] ORn.IH(2) [of "InOrR p # ctx"] by (simp add: after_Un conc_Un)
qed simp

lemma follows_lang:
  "pattern v \<Longrightarrow> list_all frame_ok ctx \<Longrightarrow> after c (klang v ctx) = goes c (follows v ctx)"
proof (induction v ctx rule: follows.induct)
  case (2 v ctx)
  then show ?case using firsts_lang [of v c "InStar # ctx"]
    by (auto simp: after_conc after_star conc_assoc star_Nil)
next
  case (3 v ctx)
  then show ?case using firsts_lang [of v c "InPlus # ctx"]
    by (auto simp: after_conc after_star conc_assoc star_Nil)
next
  case (7 v q ctx)
  then show ?case using firsts_lang [of q c "InCatR v # ctx"] by (simp add: after_conc null_lang)
qed (auto simp: after_def)

end
