(* ===== verification/OawkFoll.thy ===== *)
theory OawkFoll
  imports OawkLang
begin

text \<open>
  The follow sets that \<open>cfoll\<close> computes are those of the leaves of the pattern.
\<close>

section \<open>Set vectors\<close>

definition marks :: "nat \<Rightarrow> sv \<Rightarrow> nat set" where
  "marks line st = {i. 1 \<le> i \<and> i \<le> line \<and> fst st ! i}"

definition sv_ok :: "nat \<Rightarrow> sv \<Rightarrow> bool" where
  "sv_ok line st \<longleftrightarrow> length (fst st) = line + 1 \<and> snd st = card (marks line st)"

lemma finite_marks [simp]: "finite (marks line st)"
  by (simp add: marks_def)

lemma put_ok:
  assumes "sv_ok line st" "i \<le> line" "1 \<le> i \<or> fst st ! 0"
  shows "sv_ok line (put i st)" "marks line (put i st) = marks line st \<union> ({i} - {0})" "fst (put i st) ! 0 = fst st ! 0"
proof -
  obtain v n where st: "st = (v, n)" by (cases st)
  have l: "length v = line + 1" "n = card (marks line st)" using assms(1) by (simp_all add: sv_ok_def st)
  show "fst (put i st) ! 0 = fst st ! 0" using assms(3) l(1) by (cases "i = 0") (auto simp: put_def st)
  have m: "marks line (put i st) = marks line st \<union> ({i} - {0})"
    using assms(2,3) l(1) by (auto simp: put_def st marks_def nth_list_update)
  then show "marks line (put i st) = marks line st \<union> ({i} - {0})" .
  show "sv_ok line (put i st)"
  proof (cases "v ! i")
    case True
    then have "put i st = st" by (simp add: put_def st)
    then show ?thesis using assms(1) by simp
  next
    case False
    then have "i \<noteq> 0" "i \<notin> marks line st" using assms(3) by (auto simp: st marks_def intro: Suc_leI gr0I)
    then have "card (marks line (put i st)) = n + 1" unfolding m l(2) by simp
    then show ?thesis using False l(1) by (simp add: sv_ok_def put_def st)
  qed
qed

lemma set_remember [simp]: "set (remember line st) = marks line st"
  by (auto simp: remember_def marks_def)

text \<open>Position lists as the code keeps them.\<close>

definition pos_list :: "nat \<Rightarrow> nat list \<Rightarrow> bool" where
  "pos_list line xs \<longleftrightarrow> sorted xs \<and> distinct xs \<and> set xs \<subseteq> {1..line}"

lemma pos_list_remember [simp]: "pos_list line (remember line st)"
  by (auto simp: pos_list_def remember_def sorted_wrt_filter simp del: upt_Suc)

lemma notin_Some:
  assumes "notin sets st = Some prev" "sv_ok line st" "\<forall>xs \<in> set sets. pos_list line xs"
  shows "prev < length sets" "sets ! prev = remember line st"
proof -
  have p: "prev < length sets" "length (sets ! prev) = snd st" "\<forall>j \<in> set (sets ! prev). fst st ! j"
    using assms(1) by (auto simp: notin_def find_Some_iff)
  have pl: "pos_list line (sets ! prev)" using p(1) assms(3) by simp
  then have "set (sets ! prev) \<subseteq> marks line st" using p(3) by (auto simp: pos_list_def marks_def)
  moreover have "card (set (sets ! prev)) = card (marks line st)"
    using p(2) pl assms(2) by (simp add: pos_list_def sv_ok_def distinct_card)
  ultimately have "set (sets ! prev) = set (remember line st)" by (simp add: card_subset_eq)
  moreover have "pos_list line (remember line st)" by simp
  ultimately show "sets ! prev = remember line st"
    using pl unfolding pos_list_def by (intro sorted_distinct_set_unique) auto
  show "prev < length sets" by (rule p(1))
qed

section \<open>First and follow\<close>

lemma firsts_ctx: "map fst (firsts v ctx) = map fst (firsts v ctx')"
proof (induction v arbitrary: ctx ctx')
  case (CAT p q)
  then show ?case by (simp del: map_map) (metis CAT.IH)
next
  case (ORn p q)
  then show ?case by (simp del: map_map) (metis ORn.IH)
qed simp_all

lemma firsts_ind: "fst ` set (firsts v ctx) = fst ` set (firsts v ctx')"
  using firsts_ctx [of v ctx ctx'] by (metis list.set_map)

lemma first_ok:
  "sv_ok line st \<Longrightarrow> fst st ! 0 \<Longrightarrow> \<forall>i \<in> fst ` set (firsts v ctx). i \<le> line \<Longrightarrow> first v st = (b, st') \<Longrightarrow>
   b = (\<not> null v) \<and> sv_ok line st' \<and> fst st' ! 0 \<and> marks line st' = marks line st \<union> (fst ` set (firsts v ctx) - {0})"
proof (induction v arbitrary: st b st' ctx)
  case (Leaf l i)
  then show ?case using put_ok [of line st i] by auto
next
  case (CAT p q)
  obtain b1 st1 where 1: "first p st = (b1, st1)" by (cases "first p st")
  have h1: "b1 = (\<not> null p) \<and> sv_ok line st1 \<and> fst st1 ! 0 \<and> marks line st1 = marks line st \<union> (fst ` set (firsts p (InCatL q # ctx)) - {0})"
    using CAT.prems(3) by (intro CAT.IH(1) [OF CAT.prems(1,2) _ 1]) auto
  show ?case
  proof (cases "null p")
    case True
    obtain b2 st2 where 2: "first q st1 = (b2, st2)" by (cases "first q st1")
    have "b2 = (\<not> null q) \<and> sv_ok line st2 \<and> fst st2 ! 0 \<and> marks line st2 = marks line st1 \<union> (fst ` set (firsts q (InCatR p # ctx)) - {0})"
      using CAT.prems(3) True h1 by (intro CAT.IH(2) [OF _ _ _ 2]) auto
    then show ?thesis using h1 CAT.prems(4) 1 2 True by auto
  next
    case False
    then show ?thesis using h1 CAT.prems(4) 1 by auto
  qed
next
  case (ORn p q)
  obtain b1 st1 where 1: "first q st = (b1, st1)" by (cases "first q st")
  obtain b2 st2 where 2: "first p st1 = (b2, st2)" by (cases "first p st1")
  have h1: "b1 = (\<not> null q) \<and> sv_ok line st1 \<and> fst st1 ! 0 \<and> marks line st1 = marks line st \<union> (fst ` set (firsts q (InOrR p # ctx)) - {0})"
    using ORn.prems(3) by (intro ORn.IH(2) [OF ORn.prems(1,2) _ 1]) auto
  have "b2 = (\<not> null p) \<and> sv_ok line st2 \<and> fst st2 ! 0 \<and> marks line st2 = marks line st1 \<union> (fst ` set (firsts p (InOrL q # ctx)) - {0})"
    using ORn.prems(3) h1 by (intro ORn.IH(1) [OF _ _ _ 2]) auto
  then show ?case using h1 ORn.prems(4) 1 2 by auto
next
  case (STAR p)
  have "first p st = (fst (first p st), st')" "b = False" using STAR.prems(4) by auto
  then show ?case using STAR.IH [of st "InStar # ctx" "fst (first p st)" st'] STAR.prems(1-3) by simp
next
  case (PLUS p)
  show ?case using PLUS.IH [of st "InPlus # ctx" b st'] PLUS.prems by simp
next
  case (QUEST p)
  have "first p st = (fst (first p st), st')" "b = False" using QUEST.prems(4) by auto
  then show ?case using QUEST.IH [of st "InQuest # ctx" "fst (first p st)" st'] QUEST.prems(1-3) by simp
next
  case (FINAL p)
  show ?case using FINAL.IH [of st "InFinal # ctx" b st'] FINAL.prems by simp
qed

definition reach :: "nat \<Rightarrow> node \<Rightarrow> frame list \<Rightarrow> nat set" where
  "reach line v ctx = (fst ` set (follows v ctx) - {0}) \<union> (if ends v ctx then {line} else {})"

lemma follow_ok:
  "sv_ok line st \<Longrightarrow> fst st ! 0 \<Longrightarrow> 1 \<le> line \<Longrightarrow> \<forall>i \<in> fst ` set (follows v ctx). i \<le> line \<Longrightarrow>
   sv_ok line (follow line v ctx st) \<and> marks line (follow line v ctx st) = marks line st \<union> reach line v ctx"
proof (induction line v ctx st rule: follow.induct)
  case (2 line v ctx st)
  have "sv_ok line (snd (first v st)) \<and> fst (snd (first v st)) ! 0 \<and>
      marks line (snd (first v st)) = marks line st \<union> (fst ` set (firsts v (InStar # ctx)) - {0})"
    using first_ok [of line st v "InStar # ctx" "fst (first v st)" "snd (first v st)"] 2(2,3,5) by simp
  then show ?case using 2 by (auto simp: reach_def)
next
  case (3 line v ctx st)
  have "sv_ok line (snd (first v st)) \<and> fst (snd (first v st)) ! 0 \<and>
      marks line (snd (first v st)) = marks line st \<union> (fst ` set (firsts v (InPlus # ctx)) - {0})"
    using first_ok [of line st v "InPlus # ctx" "fst (first v st)" "snd (first v st)"] 3(2,3,5) by simp
  then show ?case using 3 by (auto simp: reach_def)
next
  case (7 line v q ctx st)
  obtain b st' where f: "first q st = (b, st')" by (cases "first q st")
  have b: "b = (\<not> null q)" "sv_ok line st'" "fst st' ! 0"
      "marks line st' = marks line st \<union> (fst ` set (firsts q (InCatR v # ctx)) - {0})"
    using first_ok [OF 7(2,3) _ f, of "InCatR v # ctx"] 7(5) by auto
  show ?case
  proof (cases "null q")
    case True
    then have "sv_ok line (follow line (CAT v q) ctx st') \<and>
        marks line (follow line (CAT v q) ctx st') = marks line st' \<union> reach line (CAT v q) ctx"
      using 7(1) [OF f [symmetric] refl] b 7(4,5) by auto
    then show ?thesis using f b True by (auto simp: reach_def)
  next
    case False
    then show ?thesis using f b by (auto simp: reach_def)
  qed
next
  case (9 line v ctx st)
  then show ?case using put_ok [of line st line] by (auto simp: reach_def)
qed (auto simp: reach_def)

section \<open>All leaves\<close>

fun occs :: "node \<Rightarrow> frame list \<Rightarrow> occ list" where
  "occs (Leaf l i) ctx = [(i, l, ctx)]"
| "occs (STAR p) ctx = occs p (InStar # ctx)"
| "occs (PLUS p) ctx = occs p (InPlus # ctx)"
| "occs (QUEST p) ctx = occs p (InQuest # ctx)"
| "occs (FINAL p) ctx = occs p (InFinal # ctx)"
| "occs (CAT p q) ctx = occs p (InCatL q # ctx) @ occs q (InCatR p # ctx)"
| "occs (ORn p q) ctx = occs p (InOrL q # ctx) @ occs q (InOrR p # ctx)"

lemma firsts_occs: "set (firsts v ctx) \<subseteq> set (occs v ctx)"
  by (induction v arbitrary: ctx) fastforce+

lemma firsts_nonempty: "firsts v ctx \<noteq> []"
  by (induction v arbitrary: ctx) auto

lemma follows_occs:
  "(i, l, k) \<in> set (occs v ctx) \<Longrightarrow> set (follows (Leaf l i) k) \<subseteq> set (occs v ctx) \<union> set (follows v ctx)"
proof (induction v arbitrary: ctx)
  case (STAR p)
  then show ?case using firsts_occs [of p "InStar # ctx"] by fastforce
next
  case (PLUS p)
  then show ?case using firsts_occs [of p "InPlus # ctx"] by fastforce
next
  case (QUEST p)
  then show ?case using QUEST.IH [of "InQuest # ctx"] by simp
next
  case (FINAL p)
  then show ?case using FINAL.IH [of "InFinal # ctx"] by auto
next
  case (CAT p q)
  then show ?case using firsts_occs [of q "InCatR p # ctx"] by (fastforce split: if_splits)
next
  case (ORn p q)
  then show ?case by fastforce
qed auto

lemma occs_frames:
  "(i, l, k) \<in> set (occs v ctx) \<Longrightarrow> pattern v \<Longrightarrow> list_all frame_ok ctx \<Longrightarrow> list_all frame_ok k"
  by (induction v arbitrary: ctx) fastforce+

text \<open>What \<open>cfoll\<close> leaves for each of them.\<close>

definition foll_of :: "nat \<Rightarrow> occ \<Rightarrow> nat list" where
  "foll_of line occ = (case occ of (i, l, k) \<Rightarrow> remember line (follow line (Leaf l i) k (True # replicate line False, 0)))"

lemma sv_ok_init: "sv_ok line (b # replicate line False, 0)" "marks line (b # replicate line False, 0) = {}"
proof -
  show m: "marks line (b # replicate line False, 0) = {}" by (auto simp: marks_def nth_Cons split: nat.splits)
  then show "sv_ok line (b # replicate line False, 0)" by (simp add: sv_ok_def)
qed

lemma foll_of_set:
  assumes "1 \<le> line" "\<forall>j \<in> fst ` set (follows (Leaf l i) k). j \<le> line"
  shows "set (foll_of line (i, l, k)) = reach line (Leaf l i) k"
    "sv_ok line (follow line (Leaf l i) k (True # replicate line False, 0))"
  using follow_ok [OF sv_ok_init(1) _ assms, of True] by (simp_all add: foll_of_def sv_ok_init(2))

lemma cfoll_occs:
  "\<forall>xs \<in> set foll. pos_list line xs \<Longrightarrow> 1 \<le> line \<Longrightarrow>
   \<forall>(i, l, k) \<in> set (occs v ctx). \<forall>j \<in> fst ` set (follows (Leaf l i) k). j \<le> line \<Longrightarrow>
   cfoll line v ctx foll = foll @ map (foll_of line) (occs v ctx)"
proof (induction v arbitrary: ctx foll)
  case (Leaf l i)
  let ?st = "follow line (Leaf l i) ctx (True # replicate line False, 0)"
  have "sv_ok line ?st" using foll_of_set(2) [of line l i ctx] Leaf.prems by simp
  then have "notin foll ?st = Some prev \<Longrightarrow> foll ! prev = remember line ?st" for prev
    using notin_Some [of foll ?st prev line] Leaf.prems(1) by simp
  then show ?case by (simp add: foll_of_def Let_def split: option.split)
next
  case (CAT p q)
  have "\<forall>xs \<in> set (foll @ map (foll_of line) (occs p (InCatL q # ctx))). pos_list line xs"
    using CAT.prems(1) by (auto simp: foll_of_def split: prod.splits)
  then show ?case using CAT.IH(1) [of foll "InCatL q # ctx"] CAT.prems
      CAT.IH(2) [of "foll @ map (foll_of line) (occs p (InCatL q # ctx))" "InCatR p # ctx"] by (simp add: ball_Un)
next
  case (ORn p q)
  have "\<forall>xs \<in> set (foll @ map (foll_of line) (occs p (InOrL q # ctx))). pos_list line xs"
    using ORn.prems(1) by (auto simp: foll_of_def split: prod.splits)
  then show ?case using ORn.IH(1) [of foll "InOrL q # ctx"] ORn.prems
      ORn.IH(2) [of "foll @ map (foll_of line) (occs p (InOrL q # ctx))" "InOrR p # ctx"] by (simp add: ball_Un)
next
  case (STAR p)
  show ?case using STAR.IH [of foll "InStar # ctx"] STAR.prems by simp
next
  case (PLUS p)
  show ?case using PLUS.IH [of foll "InPlus # ctx"] PLUS.prems by simp
next
  case (QUEST p)
  show ?case using QUEST.IH [of foll "InQuest # ctx"] QUEST.prems by simp
next
  case (FINAL p)
  show ?case using FINAL.IH [of foll "InFinal # ctx"] FINAL.prems by simp
qed

section \<open>Numbering\<close>

lemma upt_app: "a \<le> b \<Longrightarrow> b \<le> c \<Longrightarrow> [a..<c] = [a..<b] @ [b..<c]"
  using upt_add_eq_append [of a b "c - b"] by simp

lemma penter_occs:
  "penter p point = (p', point') \<Longrightarrow>
   point' = point @ map (fst \<circ> snd) (occs p' ctx) \<and> map fst (occs p' ctx) = [length point..<length point'] \<and>
   lang p' = lang p \<and> pattern p' = pattern p"
proof (induction p arbitrary: point p' point' ctx)
  case (CAT p q)
  obtain p1 pt1 where 1: "penter p point = (p1, pt1)" by (cases "penter p point")
  obtain q1 pt2 where 2: "penter q pt1 = (q1, pt2)" by (cases "penter q pt1")
  have r: "p' = CAT p1 q1" "point' = pt2" using CAT.prems 1 2 by simp_all
  have "length point \<le> length pt1" using CAT.IH(1) [OF 1, of "[]"] by (metis le_add1 length_append)
  moreover have "length pt1 \<le> length pt2" using CAT.IH(2) [OF 2, of "[]"] by (metis le_add1 length_append)
  ultimately have "[length point..<length pt2] = [length point..<length pt1] @ [length pt1..<length pt2]"
    by (rule upt_app)
  then show ?case unfolding r using CAT.IH(1) [OF 1, of "InCatL q1 # ctx"] CAT.IH(2) [OF 2, of "InCatR p1 # ctx"] by simp
next
  case (ORn p q)
  obtain p1 pt1 where 1: "penter p point = (p1, pt1)" by (cases "penter p point")
  obtain q1 pt2 where 2: "penter q pt1 = (q1, pt2)" by (cases "penter q pt1")
  have r: "p' = ORn p1 q1" "point' = pt2" using ORn.prems 1 2 by simp_all
  have "length point \<le> length pt1" using ORn.IH(1) [OF 1, of "[]"] by (metis le_add1 length_append)
  moreover have "length pt1 \<le> length pt2" using ORn.IH(2) [OF 2, of "[]"] by (metis le_add1 length_append)
  ultimately have "[length point..<length pt2] = [length point..<length pt1] @ [length pt1..<length pt2]"
    by (rule upt_app)
  then show ?case unfolding r using ORn.IH(1) [OF 1, of "InOrL q1 # ctx"] ORn.IH(2) [OF 2, of "InOrR p1 # ctx"] by simp
next
  case (STAR p)
  then show ?case using STAR.IH [of point "fst (penter p point)" point' "InStar # ctx"] by (auto split: prod.splits)
next
  case (PLUS p)
  then show ?case using PLUS.IH [of point "fst (penter p point)" point' "InPlus # ctx"] by (auto split: prod.splits)
next
  case (QUEST p)
  then show ?case using QUEST.IH [of point "fst (penter p point)" point' "InQuest # ctx"] by (auto split: prod.splits)
next
  case (FINAL p)
  then show ?case using FINAL.IH [of point "fst (penter p point)" point' "InFinal # ctx"] by (auto split: prod.splits)
qed auto

end
