(* ===== verification/OawkDfa.thy ===== *)
theory OawkDfa
  imports OawkFoll
begin

text \<open>
  The subset construction of \<open>cgotofn\<close>. State \<open>q\<close> stands for its positions and those of state 0,
  which are always active because every pattern starts with \<open>.*\<close>.
\<close>

section \<open>The follow sets of a numbered pattern\<close>

definition glushkov :: "leaf list \<Rightarrow> nat list list \<Rightarrow> int list set \<Rightarrow> (nat \<Rightarrow> int list set) \<Rightarrow> bool" where
  "glushkov point foll L cont \<longleftrightarrow> 1 \<le> length point \<and> length foll = length point \<and>
     (\<forall>xs \<in> set foll. pos_list (length point) xs) \<and> foll ! 0 \<noteq> [] \<and>
     (\<forall>c w. c # w \<in> L \<longleftrightarrow> (\<exists>j \<in> set (foll ! 0). j < length point \<and> c \<in> set (syms (point ! j)) \<and> w \<in> cont j)) \<and>
     ([] \<in> L \<longleftrightarrow> length point \<in> set (foll ! 0)) \<and>
     (\<forall>i. 1 \<le> i \<and> i < length point \<longrightarrow>
        (\<forall>c w. c # w \<in> cont i \<longleftrightarrow> (\<exists>j \<in> set (foll ! i). j < length point \<and> c \<in> set (syms (point ! j)) \<and> w \<in> cont j)) \<and>
        ([] \<in> cont i \<longleftrightarrow> length point \<in> set (foll ! i)))"

fun first_leaves :: "node \<Rightarrow> leaf list" where
  "first_leaves (Leaf l i) = [l]"
| "first_leaves (STAR p) = first_leaves p"
| "first_leaves (PLUS p) = first_leaves p"
| "first_leaves (QUEST p) = first_leaves p"
| "first_leaves (FINAL p) = first_leaves p"
| "first_leaves (CAT p q) = first_leaves p @ (if null p then first_leaves q else [])"
| "first_leaves (ORn p q) = first_leaves p @ first_leaves q"

fun last_leaves :: "node \<Rightarrow> leaf list" where
  "last_leaves (Leaf l i) = [l]"
| "last_leaves (STAR p) = last_leaves p"
| "last_leaves (PLUS p) = last_leaves p"
| "last_leaves (QUEST p) = last_leaves p"
| "last_leaves (FINAL p) = last_leaves p"
| "last_leaves (CAT p q) = (if null q then last_leaves p else []) @ last_leaves q"
| "last_leaves (ORn p q) = last_leaves p @ last_leaves q"

fun leaves :: "node \<Rightarrow> leaf list" where
  "leaves (Leaf l i) = [l]"
| "leaves (STAR p) = leaves p"
| "leaves (PLUS p) = leaves p"
| "leaves (QUEST p) = leaves p"
| "leaves (FINAL p) = leaves p"
| "leaves (CAT p q) = leaves p @ leaves q"
| "leaves (ORn p q) = leaves p @ leaves q"

text \<open>A leaf that takes the terminator, such as \<open>$\<close>, only at the end.\<close>

definition dollar :: "leaf \<Rightarrow> bool" where
  "dollar l \<longleftrightarrow> 0 \<in> set (syms l)"

fun dollar_last :: "node \<Rightarrow> bool" where
  "dollar_last (Leaf l i) \<longleftrightarrow> True"
| "dollar_last (STAR p) \<longleftrightarrow> \<not> list_ex dollar (leaves p)"
| "dollar_last (PLUS p) \<longleftrightarrow> \<not> list_ex dollar (leaves p)"
| "dollar_last (QUEST p) \<longleftrightarrow> dollar_last p"
| "dollar_last (FINAL p) \<longleftrightarrow> dollar_last p"
| "dollar_last (CAT p q) \<longleftrightarrow> \<not> list_ex dollar (leaves p) \<and> dollar_last q"
| "dollar_last (ORn p q) \<longleftrightarrow> dollar_last p \<and> dollar_last q"

lemma penter_same:
  "penter p point = (p', point') \<Longrightarrow> null p' = null p \<and> first_leaves p' = first_leaves p \<and> last_leaves p' = last_leaves p \<and>
   leaves p' = leaves p \<and> dollar_last p' = dollar_last p"
proof (induction p arbitrary: point p' point')
  case (CAT p q)
  obtain p1 pt1 where 1: "penter p point = (p1, pt1)" by (cases "penter p point")
  obtain q1 pt2 where 2: "penter q pt1 = (q1, pt2)" by (cases "penter q pt1")
  show ?case using CAT.IH(1) [OF 1] CAT.IH(2) [OF 2] CAT.prems 1 2 by auto
next
  case (ORn p q)
  obtain p1 pt1 where 1: "penter p point = (p1, pt1)" by (cases "penter p point")
  obtain q1 pt2 where 2: "penter q pt1 = (q1, pt2)" by (cases "penter q pt1")
  show ?case using ORn.IH(1) [OF 1] ORn.IH(2) [OF 2] ORn.prems 1 2 by auto
qed (auto split: prod.splits)

lemma firsts_leaves: "(i, l, k) \<in> set (firsts v ctx) \<Longrightarrow> l \<in> set (first_leaves v)"
  by (induction v arbitrary: ctx) (auto split: if_splits)

lemma occs_leaves: "(i, l, k) \<in> set (occs v ctx) \<Longrightarrow> l \<in> set (leaves v)"
  by (induction v arbitrary: ctx) auto

lemma ends_last:
  "(i, l, k) \<in> set (occs v ctx) \<Longrightarrow> ends (Leaf l i) k \<Longrightarrow> pattern v \<Longrightarrow> l \<in> set (last_leaves v) \<and> ends v ctx"
proof (induction v arbitrary: ctx)
  case (CAT p q)
  then show ?case using CAT.IH(1) [of "InCatL q # ctx"] CAT.IH(2) [of "InCatR p # ctx"] by auto
next
  case (ORn p q)
  then show ?case using ORn.IH(1) [of "InOrL q # ctx"] ORn.IH(2) [of "InOrR p # ctx"] by auto
next
  case (STAR p)
  then show ?case using STAR.IH [of "InStar # ctx"] by simp
next
  case (PLUS p)
  then show ?case using PLUS.IH [of "InPlus # ctx"] by simp
next
  case (QUEST p)
  then show ?case using QUEST.IH [of "InQuest # ctx"] by simp
qed auto

lemma dollar_ends:
  "(i, l, k) \<in> set (occs v ctx) \<Longrightarrow> dollar l \<Longrightarrow> dollar_last v \<Longrightarrow> pattern v \<Longrightarrow> ends v ctx \<Longrightarrow> ends (Leaf l i) k"
proof (induction v arbitrary: ctx)
  case (CAT p q)
  then show ?case using CAT.IH(2) [of "InCatR p # ctx"] occs_leaves [of i l k p "InCatL q # ctx"]
    by (auto simp: list_ex_iff)
next
  case (ORn p q)
  then show ?case using ORn.IH(1) [of "InOrL q # ctx"] ORn.IH(2) [of "InOrR p # ctx"] by auto
next
  case (STAR p)
  then show ?case using occs_leaves [of i l k p "InStar # ctx"] by (auto simp: list_ex_iff)
next
  case (PLUS p)
  then show ?case using occs_leaves [of i l k p "InPlus # ctx"] by (auto simp: list_ex_iff)
next
  case (QUEST p)
  then show ?case using QUEST.IH [of "InQuest # ctx"] by simp
qed auto

text \<open>What \<open>makedfa\<close> hands to \<open>cgotofn\<close>.\<close>

lemma cfoll_glushkov:
  assumes "penter (FINAL (CAT (STAR (Leaf DOT 0)) p)) [] = (p1, point)" "pattern p"
  defines "foll \<equiv> cfoll (length point) p1 [] []"
  obtains cont where "glushkov point foll (lang p) cont"
    "\<forall>j \<in> set (foll ! 0). j < length point \<longrightarrow> point ! j \<in> set (first_leaves p)"
    "\<forall>j. 1 \<le> j \<and> j < length point \<longrightarrow> point ! j \<in> set (leaves p) \<and>
      (length point \<in> set (foll ! j) \<longrightarrow> point ! j \<in> set (last_leaves p)) \<and>
      (dollar_last p \<and> dollar (point ! j) \<longrightarrow> length point \<in> set (foll ! j))"
proof -
  let ?line = "length point" and ?D = "STAR (Leaf DOT 0)"
  obtain p' where pe: "penter p [DOT] = (p', point)" and p1: "p1 = FINAL (CAT ?D p')"
    using assms(1) by (auto split: prod.splits)
  define ctx where "ctx = [InCatR ?D, InFinal]"
  define O' where "O' = occs p' ctx"
  have num: "point = DOT # map (fst \<circ> snd) O'" "map fst O' = [1..<?line]" "lang p' = lang p" "pattern p'"
    using penter_occs [OF pe, of ctx] assms(2) by (auto simp: O'_def)
  note same = penter_same [OF pe]
  have line: "?line = length O' + 1" using num(1) by (metis One_nat_def add.right_neutral add_Suc_right length_map list.size(4))
  define oc where "oc = (0, DOT, [InStar, InCatL p', InFinal]) # O'"
  have roccs: "occs p1 [] = oc" by (simp add: p1 oc_def O'_def ctx_def)
  have nth: "oc ! j = (j, point ! j, snd (snd (oc ! j)))" if "j < ?line" for j
  proof (cases j)
    case 0
    then show ?thesis using num(1) by (simp add: oc_def)
  next
    case (Suc m)
    then have m: "m < length O'" using that line by simp
    have "fst (O' ! m) = [1..<?line] ! m" using m num(2) by (metis nth_map)
    also have "\<dots> = Suc m" using m line by (simp del: upt_Suc)
    finally have "fst (O' ! m) = Suc m" .
    moreover have "point ! Suc m = fst (snd (O' ! m))" using m num(1) by (metis comp_apply nth_Cons_Suc nth_map)
    ultimately show ?thesis using Suc by (simp add: oc_def prod_eq_iff)
  qed
  have mem: "(j, l, k) \<in> set O' \<Longrightarrow> 1 \<le> j \<and> j < ?line \<and> oc ! j = (j, l, k)" for j l k
  proof -
    assume a: "(j, l, k) \<in> set O'"
    then obtain m where m: "m < length O'" "O' ! m = (j, l, k)" by (auto simp: in_set_conv_nth)
    have "oc ! Suc m = (j, l, k)" "Suc m < ?line" using m line by (simp_all add: oc_def)
    then show ?thesis using nth [of "Suc m"] by auto
  qed
  define cont where "cont j = klang (Leaf (point ! j) j) (snd (snd (oc ! j)))" for j
  have f0: "follows (Leaf DOT 0) [InStar, InCatL p', InFinal] = (0, DOT, [InStar, InCatL p', InFinal]) # firsts p' ctx"
    by (simp add: ctx_def)
  have fO: "set (firsts p' ctx) \<subseteq> set O'" unfolding O'_def by (rule firsts_occs)
  have follO: "(j, l, k) \<in> set O' \<Longrightarrow> set (follows (Leaf l j) k) \<subseteq> set O'" for j l k
    using follows_occs [of j l k p' ctx] by (simp add: O'_def ctx_def)
  have le: "\<forall>(i, l, k) \<in> set oc. \<forall>j \<in> fst ` set (follows (Leaf l i) k). j \<le> ?line"
  proof -
    have "\<forall>j \<in> fst ` set (follows (Leaf DOT 0) [InStar, InCatL p', InFinal]). j \<le> ?line"
      unfolding f0 using fO mem by fastforce
    moreover have "\<forall>(i, l, k) \<in> set O'. \<forall>j \<in> fst ` set (follows (Leaf l i) k). j \<le> ?line"
      using follO mem by fastforce
    ultimately show ?thesis by (simp add: oc_def)
  qed
  have foll: "foll = map (foll_of ?line) oc"
    using cfoll_occs [of "[]" ?line p1 "[]"] le line unfolding foll_def roccs by simp
  have set_foll: "set (foll ! j) = reach ?line (Leaf l i) k" if "j < ?line" "oc ! j = (i, l, k)" for j i l k
  proof -
    have j: "j < length oc" using that(1) line by (simp add: oc_def)
    then have "(i, l, k) \<in> set oc" using that(2) by (metis nth_mem)
    then have "\<forall>j \<in> fst ` set (follows (Leaf l i) k). j \<le> ?line" using le by fastforce
    then show ?thesis using foll_of_set(1) [of ?line l i k] that(2) j line by (simp add: foll)
  qed
  have len: "length foll = ?line" using line by (simp add: foll oc_def)
  have O_ok: "list_all frame_ok k" if "(j, l, k) \<in> set O'" for j l k
    using occs_frames [of j l k p' ctx] that num(4) by (simp add: O'_def ctx_def)
  have goes_O: "w \<in> goes c os \<longleftrightarrow> (\<exists>j \<in> fst ` set os - {0}. j < ?line \<and> c \<in> set (syms (point ! j)) \<and> w \<in> cont j)"
    if os: "set os \<subseteq> set O'" for w c os
  proof -
    have e: "1 \<le> j \<and> j < ?line \<and> point ! j = l \<and> cont j = klang (Leaf l j) k" if "(j, l, k) \<in> set os" for j l k
    proof -
      have m: "1 \<le> j" "j < ?line" "oc ! j = (j, l, k)" using mem os that by blast+
      then show ?thesis using nth [of j] by (simp add: cont_def)
    qed
    show ?thesis
    proof
      assume "w \<in> goes c os"
      then obtain j l k where j: "(j, l, k) \<in> set os" "c \<in> set (syms l)" "w \<in> klang (Leaf l j) k"
        by (auto simp: goes_def split: if_splits)
      then show "\<exists>j \<in> fst ` set os - {0}. j < ?line \<and> c \<in> set (syms (point ! j)) \<and> w \<in> cont j"
        using e [OF j(1)] by (intro bexI [of _ j]) force+
    next
      assume "\<exists>j \<in> fst ` set os - {0}. j < ?line \<and> c \<in> set (syms (point ! j)) \<and> w \<in> cont j"
      then obtain ob where "ob \<in> set os" "c \<in> set (syms (point ! fst ob))" "w \<in> cont (fst ob)" by blast
      then obtain j l k where j: "(j, l, k) \<in> set os" "c \<in> set (syms (point ! j))" "w \<in> cont j" by (metis prod.collapse)
      then have "c \<in> set (syms l)" "w \<in> klang (Leaf l j) k" using e [OF j(1)] by auto
      then show "w \<in> goes c os" using j(1) by (force simp: goes_def)
    qed
  qed
  have le_line: "j \<in> fst ` set os - {0} \<Longrightarrow> j < ?line" if "set os \<subseteq> set O'" for j os
    using that mem by fastforce
  have set0: "set (foll ! 0) = (fst ` set (firsts p' ctx) - {0}) \<union> (if null p' then {?line} else {})"
    using set_foll [of 0 0 DOT "[InStar, InCatL p', InFinal]"] line f0 by (auto simp: oc_def reach_def)
  have L0: "c # w \<in> lang p \<longleftrightarrow> w \<in> goes c (firsts p' ctx)" for c w
    using firsts_lang [OF num(4), of c ctx] num(3) by (auto simp: ctx_def after_def)
  have gl: "glushkov point foll (lang p) cont"
    unfolding glushkov_def
  proof (intro conjI allI impI)
    show "1 \<le> ?line" "length foll = ?line" using line len by simp_all
    show "\<forall>xs \<in> set foll. pos_list ?line xs" by (auto simp: foll foll_of_def split: prod.splits)
    obtain o1 where o1: "o1 \<in> set (firsts p' ctx)" using firsts_nonempty [of p' ctx] by (meson last_in_set)
    then have "(fst o1, fst (snd o1), snd (snd o1)) \<in> set O'" using fO by auto
    then have "fst o1 \<noteq> 0" using mem by fastforce
    then have "fst o1 \<in> set (foll ! 0)" unfolding set0 using o1 by blast
    then show "foll ! 0 \<noteq> []" by auto
    fix c w
    show "c # w \<in> lang p \<longleftrightarrow> (\<exists>j \<in> set (foll ! 0). j < ?line \<and> c \<in> set (syms (point ! j)) \<and> w \<in> cont j)"
      unfolding L0 goes_O [OF fO] set0 by auto
    show "[] \<in> lang p \<longleftrightarrow> ?line \<in> set (foll ! 0)"
      unfolding set0 null_lang num(3) using le_line [OF fO] by auto
    fix i
    assume i: "1 \<le> i \<and> i < ?line"
    obtain k where k: "oc ! i = (i, point ! i, k)" using nth i by metis
    have iO: "(i, point ! i, k) \<in> set O'"
      using k i line by (cases i) (auto simp: oc_def in_set_conv_nth)
    have cont_i: "cont i = klang (Leaf (point ! i) i) k" using k by (simp add: cont_def)
    have s: "set (foll ! i) = reach ?line (Leaf (point ! i) i) k" using set_foll [OF _ k] i by simp
    fix c w
    have "c # w \<in> cont i \<longleftrightarrow> w \<in> goes c (follows (Leaf (point ! i) i) k)"
      using follows_lang [of "Leaf (point ! i) i" k c] O_ok [OF iO] by (auto simp: cont_i after_def)
    then show "c # w \<in> cont i \<longleftrightarrow> (\<exists>j \<in> set (foll ! i). j < ?line \<and> c \<in> set (syms (point ! j)) \<and> w \<in> cont j)"
      unfolding goes_O [OF follO [OF iO]] s reach_def by auto
    show "[] \<in> cont i \<longleftrightarrow> ?line \<in> set (foll ! i)"
      unfolding cont_i ends_klang [symmetric] s reach_def using le_line [OF follO [OF iO]] by auto
  qed
  moreover have "\<forall>j \<in> set (foll ! 0). j < ?line \<longrightarrow> point ! j \<in> set (first_leaves p)"
  proof (intro ballI impI)
    fix j
    assume j: "j \<in> set (foll ! 0)" "j < ?line"
    then obtain l k where o1: "(j, l, k) \<in> set (firsts p' ctx)" unfolding set0 by (auto split: if_splits)
    then have "oc ! j = (j, l, k)" using fO mem by blast
    then show "point ! j \<in> set (first_leaves p)" using nth [OF j(2)] firsts_leaves [OF o1] same by simp
  qed
  moreover have "\<forall>j. 1 \<le> j \<and> j < ?line \<longrightarrow> point ! j \<in> set (leaves p) \<and>
      (?line \<in> set (foll ! j) \<longrightarrow> point ! j \<in> set (last_leaves p)) \<and>
      (dollar_last p \<and> dollar (point ! j) \<longrightarrow> ?line \<in> set (foll ! j))"
  proof (intro allI impI)
    fix j
    assume j: "1 \<le> j \<and> j < ?line"
    obtain k where k: "oc ! j = (j, point ! j, k)" using nth j by metis
    have jO: "(j, point ! j, k) \<in> set (occs p' ctx)"
      using k j line by (cases j) (auto simp: oc_def O'_def in_set_conv_nth)
    have s: "set (foll ! j) = reach ?line (Leaf (point ! j) j) k" using set_foll [OF _ k] j by simp
    have e: "?line \<in> set (foll ! j) \<longleftrightarrow> ends (Leaf (point ! j) j) k"
      unfolding s reach_def using le_line [OF follO [OF jO [folded O'_def]]] by auto
    have "ends p' ctx" by (simp add: ctx_def)
    then show "point ! j \<in> set (leaves p) \<and> (?line \<in> set (foll ! j) \<longrightarrow> point ! j \<in> set (last_leaves p)) \<and>
      (dollar_last p \<and> dollar (point ! j) \<longrightarrow> ?line \<in> set (foll ! j))"
      unfolding e using occs_leaves [OF jO] ends_last [OF jO _ num(4)] dollar_ends [OF jO _ _ num(4)] same by simp
  qed
  ultimately show ?thesis using that by blast
qed

end
