(* ===== verification/OawkRun.thy ===== *)
theory OawkRun
  imports OawkDfa
begin

text \<open>
  The table of states that \<open>cgotofn\<close> makes, and the search with it.
\<close>

section \<open>Steps on sets of positions\<close>

definition takes_step :: "leaf list \<Rightarrow> nat list list \<Rightarrow> (leaf \<Rightarrow> bool) \<Rightarrow> nat set \<Rightarrow> nat set" where
  "takes_step point foll P A = (\<Union>j \<in> {j \<in> A. j < length point \<and> P (point ! j)}. set (foll ! j))"

abbreviation exact :: "int \<Rightarrow> leaf \<Rightarrow> bool" where
  "exact c l \<equiv> c \<in> set (syms l)"

definition listed :: "leaf list \<Rightarrow> nat set \<Rightarrow> int set" where
  "listed point A = (\<Union>j \<in> {j \<in> A. j < length point}. set (syms (point ! j)))"

lemma member_iff: "member c s \<longleftrightarrow> c \<in> cv ` set s"
  by (induction s) auto

text \<open>Away from \<open>^\<close> and \<open>$\<close> a leaf takes the symbols it lists and no others.\<close>

lemma exact_takes: "exact c l \<Longrightarrow> takes l c"
  by (cases l) (auto simp: takes_def syms_def member_iff)

lemma takes_exact: "takes l c \<Longrightarrow> 0 < c \<Longrightarrow> c < HAT \<Longrightarrow> exact c l"
  by (cases l) (auto simp: takes_def syms_def member_iff)

lemma takes_step_mono: "(\<And>l. P l \<Longrightarrow> Q l) \<Longrightarrow> A \<subseteq> B \<Longrightarrow> takes_step point foll P A \<subseteq> takes_step point foll Q B"
  by (auto simp: takes_step_def)

section \<open>Scanning a state\<close>

definition sy_ok :: "int list \<Rightarrow> bool" where
  "sy_ok ks \<longleftrightarrow> distinct ks \<and> (\<forall>k \<in> set ks. 0 \<le> k \<and> k < NCHARS)"

lemma add_syms_ok:
  "add_syms ks ssyms = Some ssyms' \<Longrightarrow> set ssyms' = set ssyms \<union> set ks \<and> (sy_ok ssyms \<longrightarrow> sy_ok ssyms')"
proof (induction ks arbitrary: ssyms)
  case (Cons k ks)
  define s1 where "s1 = (if k \<in> set ssyms then ssyms else ssyms @ [k])"
  have r: "0 \<le> k" "k < NCHARS" "add_syms ks s1 = Some ssyms'"
    using Cons.prems by (auto simp: s1_def split: if_splits)
  have "set s1 = insert k (set ssyms)" "sy_ok ssyms \<longrightarrow> sy_ok s1" using r(1,2) by (auto simp: s1_def sy_ok_def)
  then show ?case using Cons.IH [OF r(3)] by auto
qed simp

lemma pos_syms_ok:
  "pos_syms point pos ssyms = Some ssyms' \<Longrightarrow> pos \<le> length point \<Longrightarrow>
   set ssyms' = set ssyms \<union> listed point {pos} \<and> (sy_ok ssyms \<longrightarrow> sy_ok ssyms')"
  unfolding pos_syms_def listed_def by (auto split: if_splits dest: add_syms_ok)

lemma listed_insert: "listed point (insert p A) = listed point {p} \<union> listed point A"
  by (auto simp: listed_def)

lemma init_scan_ok:
  "init_scan point ps ssyms = Some ssyms' \<Longrightarrow> \<forall>p \<in> set ps. p \<le> length point \<Longrightarrow>
   set ssyms' = set ssyms \<union> listed point (set ps) \<and> (sy_ok ssyms \<longrightarrow> sy_ok ssyms')"
proof (induction ps arbitrary: ssyms)
  case Nil
  then show ?case by (simp add: listed_def)
next
  case (Cons p ps)
  then obtain s1 where s1: "pos_syms point p ssyms = Some s1" "init_scan point ps s1 = Some ssyms'"
    by (auto split: option.splits)
  have "set s1 = set ssyms \<union> listed point {p} \<and> (sy_ok ssyms \<longrightarrow> sy_ok s1)"
    using pos_syms_ok [OF s1(1)] Cons.prems(2) by simp
  moreover have "set ssyms' = set s1 \<union> listed point (set ps) \<and> (sy_ok s1 \<longrightarrow> sy_ok ssyms')"
    using Cons.IH [OF s1(2)] Cons.prems(2) by simp
  ultimately show ?case using listed_insert [of point p "set ps"] by auto
qed

lemma state_scan_ok:
  "state_scan point init ps (index, sposns, ssyms) = Some (index', sposns', ssyms') \<Longrightarrow>
   \<forall>p \<in> set ps. p \<le> length point \<Longrightarrow> length index = length point + 1 \<Longrightarrow> distinct ps \<Longrightarrow>
   set sposns' = set sposns \<union> {p \<in> set ps. p \<notin> set init \<and> \<not> index ! p} \<and>
   set ssyms' = set ssyms \<union> listed point (set ps) \<and> (sy_ok ssyms \<longrightarrow> sy_ok ssyms') \<and>
   length index' = length index \<and> (\<forall>p < length index. index' ! p \<longleftrightarrow> index ! p \<or> p \<in> set ps \<and> p \<notin> set init)"
proof (induction ps arbitrary: index sposns ssyms)
  case Nil
  then show ?case by (simp add: listed_def)
next
  case (Cons p ps)
  define new where "new = (p \<notin> set init \<and> \<not> index ! p)"
  define i1 where "i1 = (if new then index[p := True] else index)"
  define sp1 where "sp1 = (if new then sposns @ [p] else sposns)"
  obtain s1 where s1: "pos_syms point p ssyms = Some s1" "state_scan point init ps (i1, sp1, s1) = Some (index', sposns', ssyms')"
    using Cons.prems(1) by (auto simp: i1_def sp1_def new_def split: option.splits if_splits)
  have p: "p < length index" "p \<notin> set ps" using Cons.prems(2-4) by auto
  have i1: "length i1 = length index" "\<forall>q < length index. i1 ! q \<longleftrightarrow> index ! q \<or> q = p \<and> p \<notin> set init"
    using p(1) by (auto simp: i1_def new_def nth_list_update)
  have h: "set s1 = set ssyms \<union> listed point {p} \<and> (sy_ok ssyms \<longrightarrow> sy_ok s1)"
    using pos_syms_ok [OF s1(1)] Cons.prems(2) by simp
  have IH: "set sposns' = set sp1 \<union> {p \<in> set ps. p \<notin> set init \<and> \<not> i1 ! p} \<and>
     set ssyms' = set s1 \<union> listed point (set ps) \<and> (sy_ok s1 \<longrightarrow> sy_ok ssyms') \<and>
     length index' = length i1 \<and> (\<forall>p < length i1. index' ! p \<longleftrightarrow> i1 ! p \<or> p \<in> set ps \<and> p \<notin> set init)"
    using Cons.IH [OF s1(2)] Cons.prems(2-4) i1(1) by simp
  have "{q \<in> set ps. q \<notin> set init \<and> \<not> i1 ! q} = {q \<in> set ps. q \<notin> set init \<and> \<not> index ! q}"
    using i1(2) p Cons.prems(2,3) by (auto simp: less_Suc_eq_le)
  moreover have "set sp1 = set sposns \<union> {q \<in> {p}. q \<notin> set init \<and> \<not> index ! q}" by (auto simp: sp1_def new_def)
  ultimately have "set sposns' = set sposns \<union> {q \<in> set (p # ps). q \<notin> set init \<and> \<not> index ! q}" using IH by auto
  moreover have "set ssyms' = set ssyms \<union> listed point (set (p # ps))" using IH h listed_insert [of point p "set ps"] by auto
  moreover have "\<forall>q < length index. index' ! q \<longleftrightarrow> index ! q \<or> q \<in> set (p # ps) \<and> q \<notin> set init"
    using IH i1 by auto
  ultimately show ?case using IH h i1(1) by simp
qed

section \<open>The next states\<close>

lemma put_new_ok:
  "sv_ok line st \<Longrightarrow> \<forall>k \<in> set ks. 1 \<le> k \<and> k \<le> line \<Longrightarrow>
   sv_ok line (put_new init ks st) \<and> marks line (put_new init ks st) = marks line st \<union> (set ks - set init)"
proof (induction ks arbitrary: st)
  case (Cons k ks)
  have "sv_ok line (put k st) \<and> marks line (put k st) = marks line st \<union> {k}"
    using put_ok [of line st k] Cons.prems by auto
  then show ?case using Cons.IH [of "if k \<notin> set init then put k st else st"] Cons.prems by auto
qed simp

lemma nextstate_ok:
  "sv_ok (length point) st \<Longrightarrow> length foll = length point \<Longrightarrow> \<forall>xs \<in> set foll. pos_list (length point) xs \<Longrightarrow>
   \<forall>p \<in> set ps. p \<le> length point \<Longrightarrow>
   sv_ok (length point) (nextstate point foll init c ps st) \<and>
   marks (length point) (nextstate point foll init c ps st) =
     marks (length point) st \<union> (takes_step point foll (\<lambda>l. takes l c) (set ps) - set init)"
proof (induction ps arbitrary: st)
  case Nil
  then show ?case by (simp add: takes_step_def)
next
  case (Cons p ps)
  define st1 where "st1 = (if p \<noteq> length point \<and> takes (point ! p) c then put_new init (foll ! p) st else st)"
  have "sv_ok (length point) st1 \<and>
      marks (length point) st1 = marks (length point) st \<union> (takes_step point foll (\<lambda>l. takes l c) {p} - set init)"
  proof (cases "p \<noteq> length point \<and> takes (point ! p) c")
    case True
    then have "foll ! p \<in> set foll" using Cons.prems(2,4) by (simp add: le_less)
    then have "\<forall>k \<in> set (foll ! p). 1 \<le> k \<and> k \<le> length point" using Cons.prems(3) unfolding pos_list_def by fastforce
    moreover have "takes_step point foll (\<lambda>l. takes l c) {p} = set (foll ! p)"
      using True Cons.prems(4) by (auto simp: takes_step_def)
    ultimately show ?thesis using put_new_ok [OF Cons.prems(1)] True by (simp add: st1_def)
  next
    case False
    then show ?thesis using Cons.prems(1) by (auto simp: st1_def takes_step_def)
  qed
  moreover have "takes_step point foll (\<lambda>l. takes l c) (set (p # ps)) =
      takes_step point foll (\<lambda>l. takes l c) {p} \<union> takes_step point foll (\<lambda>l. takes l c) (set ps)"
    by (auto simp: takes_step_def)
  ultimately show ?case using Cons.IH [of st1] Cons.prems(2-4) by (auto simp: st1_def)
qed

text \<open>A table of states: the positions of state 0 are in no other.\<close>

definition table_ok :: "leaf list \<Rightarrow> nat list list \<Rightarrow> nat list list \<Rightarrow> bool" where
  "table_ok point foll state \<longleftrightarrow> state \<noteq> [] \<and> state ! 0 = foll ! 0 \<and> length state \<le> NSTATES \<and>
     (\<forall>xs \<in> set state. pos_list (length point) xs) \<and> (\<forall>xs \<in> set (tl state). set xs \<inter> set (foll ! 0) = {})"

lemma trans_loop_ok:
  "trans_loop point foll init sposns cs (state, trs) = Inr (state', trs') \<Longrightarrow> table_ok point foll state \<Longrightarrow>
   init = foll ! 0 \<Longrightarrow> init \<noteq> [] \<Longrightarrow> length foll = length point \<Longrightarrow> \<forall>xs \<in> set foll. pos_list (length point) xs \<Longrightarrow>
   \<forall>p \<in> set sposns. p \<le> length point \<Longrightarrow>
   table_ok point foll state' \<and> (\<exists>ext. state' = state @ ext) \<and> (\<exists>new. trs' = trs @ new \<and> map fst new = cs \<and>
     (\<forall>(c, q) \<in> set new. q < length state' \<and>
        set (state' ! q) = takes_step point foll (\<lambda>l. takes l c) (set sposns) - set init))"
proof (induction cs arbitrary: state trs)
  case (Cons c cs)
  let ?line = "length point"
  define sv where "sv = nextstate point foll init c sposns (replicate (?line + 1) False, 0)"
  define N where "N = takes_step point foll (\<lambda>l. takes l c) (set sposns) - set init"
  have sv: "sv_ok ?line sv" "marks ?line sv = N"
    using nextstate_ok [OF sv_ok_init(1) [of ?line False] Cons.prems(5-7)] sv_ok_init(2) [of ?line False]
    by (simp_all add: sv_def N_def)
  have tail: "table_ok point foll state' \<and> (\<exists>ext. state' = state @ ext) \<and> (\<exists>new. trs' = trs @ new \<and> map fst new = c # cs \<and>
     (\<forall>(c, q) \<in> set new. q < length state' \<and> set (state' ! q) = takes_step point foll (\<lambda>l. takes l c) (set sposns) - set init))"
    if st1: "table_ok point foll (state @ e)" "trans_loop point foll init sposns cs (state @ e, trs @ [(c, q)]) = Inr (state', trs')"
      and q: "q < length (state @ e)" "set ((state @ e) ! q) = N" for e q
  proof -
    obtain ext new where h: "table_ok point foll state'" "state' = state @ e @ ext" "trs' = trs @ (c, q) # new" "map fst new = cs"
        "\<forall>(c, q) \<in> set new. q < length state' \<and> set (state' ! q) = takes_step point foll (\<lambda>l. takes l c) (set sposns) - set init"
      using Cons.IH [OF st1(2,1) Cons.prems(3-7)] by auto
    have "state' ! q = (state @ e) ! q" unfolding h(2) append_assoc [symmetric] using q(1) by (rule nth_append_left)
    then show ?thesis using h q by (intro conjI exI [of _ "e @ ext"] exI [of _ "(c, q) # new"]) (auto simp: N_def)
  qed
  show ?case
  proof (cases "notin state sv")
    case None
    let ?n = "length state - 1"
    have n: "?n + 1 < NSTATES" and
      st1: "trans_loop point foll init sposns cs (state @ [remember ?line sv], trs @ [(c, ?n + 1)]) = Inr (state', trs')"
      using Cons.prems(1) None unfolding trans_loop.simps Let_def sv_def [symmetric] by (auto split: if_splits)
    have ne: "state \<noteq> []" using Cons.prems(2) by (simp add: table_ok_def)
    have "table_ok point foll (state @ [remember ?line sv])"
      using Cons.prems(2,3) n sv(2) by (auto simp: table_ok_def nth_append N_def)
    then show ?thesis using tail [OF _ st1] sv(2) ne by (simp add: nth_append)
  next
    case (Some prev)
    have prev: "prev < length state" "state ! prev = remember ?line sv"
      using notin_Some [OF Some sv(1)] Cons.prems(2) by (simp_all add: table_ok_def)
    have "prev \<noteq> 0"
    proof
      assume "prev = 0"
      then have "init = remember ?line sv" using prev(2) Cons.prems(2,3) by (simp add: table_ok_def)
      then have "set init = N" by (simp only: set_remember sv(2))
      moreover have "set init \<inter> N = {}" by (auto simp: N_def)
      ultimately have "set init = {}" by (metis Int_absorb)
      then show False using Cons.prems(4) by simp
    qed
    then have "trans_loop point foll init sposns cs (state @ [], trs @ [(c, prev)]) = Inr (state', trs')"
      using Cons.prems(1) Some unfolding trans_loop.simps Let_def sv_def [symmetric] by simp
    then show ?thesis using tail [of "[]" prev] prev sv(2) Cons.prems(2) by simp
  qed
qed simp

section \<open>All states\<close>

text \<open>The positions that are active in a state, and what its entry in the table must be.\<close>

definition active :: "nat list list \<Rightarrow> nat list list \<Rightarrow> nat \<Rightarrow> nat set" where
  "active foll state q = set (state ! q) \<union> set (foll ! 0)"

definition entry_ok :: "leaf list \<Rightarrow> nat list list \<Rightarrow> nat list list \<Rightarrow> nat \<Rightarrow> fstate \<Rightarrow> bool" where
  "entry_ok point foll state q w \<longleftrightarrow> (case w of
      Accept \<Rightarrow> length point \<in> active foll state q
    | Trans trs \<Rightarrow> length point \<notin> active foll state q \<and>
        sy_ok (map fst trs) \<and> set (map fst trs) = listed point (active foll state q) \<and>
        (\<forall>(c, q') \<in> set trs. q' < length state \<and>
           takes_step point foll (exact c) (active foll state q) \<subseteq> active foll state q' \<and>
           active foll state q' \<subseteq> takes_step point foll (\<lambda>l. takes l c) (active foll state q) \<union> set (foll ! 0)))"

definition loop_ok :: "leaf list \<Rightarrow> nat list list \<Rightarrow> nat list list \<times> fstate list \<times> bool list \<Rightarrow> bool" where
  "loop_ok point foll st \<longleftrightarrow> (case st of (state, wh, index) \<Rightarrow>
     table_ok point foll state \<and> length wh \<le> length state \<and>
     (length point \<in> set (foll ! 0) \<longrightarrow> length state = 1) \<and>
     (\<forall>q < length wh. entry_ok point foll state q (wh ! q)) \<and>
     length index = length point + 1 \<and>
     (\<forall>p < length point. index ! p \<longrightarrow> syms (point ! p) = []))"

lemma is_final_iff: "pos_list line xs \<Longrightarrow> 1 \<le> line \<Longrightarrow> is_final line xs \<longleftrightarrow> line \<in> set xs"
proof -
  assume a: "pos_list line xs" "1 \<le> line"
  show ?thesis
  proof (cases xs rule: rev_cases)
    case Nil
    then show ?thesis using a(2) by (simp add: is_final_def)
  next
    case (snoc ys y)
    then have "sorted (ys @ [y])" "\<forall>x \<in> set (ys @ [y]). x \<le> line" using a(1) by (auto simp: pos_list_def)
    then have "line \<in> set (ys @ [y]) \<longleftrightarrow> y = line" by (fastforce simp: sorted_append)
    moreover have "is_final line (ys @ [y]) \<longleftrightarrow> y = line" by (simp add: is_final_def nth_append)
    ultimately show ?thesis using snoc by simp
  qed
qed

lemma entry_ok_extend: "entry_ok point foll state q w \<Longrightarrow> q < length state \<Longrightarrow> entry_ok point foll (state @ ext) q w"
proof -
  assume e: "entry_ok point foll state q w" and q: "q < length state"
  have a: "q < length state \<Longrightarrow> active foll (state @ ext) q = active foll state q" for q
    by (simp add: active_def nth_append)
  show ?thesis
  proof (cases w)
    case Accept
    then show ?thesis using e a [OF q] by (simp add: entry_ok_def)
  next
    case (Trans trs)
    then show ?thesis using e unfolding entry_ok_def a [OF q] by (fastforce simp: a)
  qed
qed

lemma fold_clear:
  "length (fold (\<lambda>pos index. index[pos := False]) ps index) = length index \<and>
   (\<forall>p < length index. fold (\<lambda>pos index. index[pos := False]) ps index ! p \<longleftrightarrow> index ! p \<and> p \<notin> set ps)"
proof (induction ps arbitrary: index)
  case (Cons a ps)
  have "index[a := False] ! p \<longleftrightarrow> index ! p \<and> p \<noteq> a" if "p < length index" for p
    using that by (cases "p = a") auto
  then show ?case using Cons.IH [of "index[a := False]"] by auto
qed simp

lemma make_state_ok:
  assumes "make_state point foll isyms (length wh) (state, wh, index) = Inr st'"
    and lo: "loop_ok point foll (state, wh, index)" and s: "length wh < length state"
    and gl: "glushkov point foll L cont" and isy: "set isyms = listed point (set (foll ! 0))" "sy_ok isyms"
  shows "loop_ok point foll st'" "length (fst (snd st')) = length wh + 1"
proof -
  let ?line = "length point" and ?init = "set (foll ! 0)" and ?q = "length wh"
  have g: "1 \<le> ?line" "length foll = ?line" "\<forall>xs \<in> set foll. pos_list ?line xs" "foll ! 0 \<noteq> []"
    using gl by (simp_all add: glushkov_def)
  have tb: "table_ok point foll state" "length index = ?line + 1" "\<forall>p < ?line. index ! p \<longrightarrow> syms (point ! p) = []"
      "?line \<in> ?init \<longrightarrow> length state = 1" "\<forall>q < length wh. entry_ok point foll state q (wh ! q)"
    using lo by (simp_all add: loop_ok_def)
  have pl: "pos_list ?line (state ! ?q)" "pos_list ?line (foll ! 0)" 
  proof -
    show "pos_list ?line (state ! ?q)" using tb(1) s by (simp add: table_ok_def)
    have "foll ! 0 \<in> set foll" using g(1,2) by (intro nth_mem) linarith
    then show "pos_list ?line (foll ! 0)" using g(3) by blast
  qed
  have fin: "is_final ?line (state ! ?q) \<longleftrightarrow> ?line \<in> active foll state ?q"
  proof -
    have "?line \<in> ?init \<Longrightarrow> state ! ?q = foll ! 0" using tb(1,4) s by (auto simp: table_ok_def)
    then show ?thesis using is_final_iff [OF pl(1) g(1)] by (auto simp: active_def)
  qed
  have "loop_ok point foll st' \<and> length (fst (snd st')) = ?q + 1"
  proof (cases "is_final ?line (state ! ?q)")
    case True
    then have st': "st' = (state, wh @ [Accept], index)" using assms(1) by (simp add: make_state_def Let_def)
    have "\<forall>q < length (wh @ [Accept]). entry_ok point foll state q ((wh @ [Accept]) ! q)"
      using tb(5) True fin by (auto simp: nth_append less_Suc_eq entry_ok_def)
    then show ?thesis using lo s st' by (simp add: loop_ok_def)
  next
    case False
    obtain index1 sposns ssyms state1 trs where
      sc: "state_scan point (foll ! 0) (state ! ?q) (index, foll ! 0, isyms) = Some (index1, sposns, ssyms)"
      and tl: "trans_loop point foll (foll ! 0) sposns ssyms (state, []) = Inr (state1, trs)"
      and st': "st' = (state1, wh @ [Trans trs], if ssyms = [] then index1 else fold (\<lambda>pos index. index[pos := False]) sposns index1)"
      using assms(1) False by (auto simp: make_state_def Let_def split: option.splits sum.splits prod.splits)
    have le: "\<forall>p \<in> set (state ! ?q). p \<le> ?line" "distinct (state ! ?q)" using pl(1) by (auto simp: pos_list_def)
    note sco = state_scan_ok [OF sc le(1) tb(2) le(2)]
    have sp: "set sposns = ?init \<union> {p \<in> set (state ! ?q). p \<notin> ?init \<and> \<not> index ! p}" using sco by simp
    have ss: "set ssyms = listed point (active foll state ?q)" "sy_ok ssyms"
      using sco isy by (auto simp: active_def listed_def)
    have sple: "\<forall>p \<in> set sposns. p \<le> ?line" using sp le(1) pl(2) by (auto simp: pos_list_def)
    obtain ext where t1: "table_ok point foll state1" "state1 = state @ ext" "map fst trs = ssyms"
        "\<forall>(c, q) \<in> set trs. q < length state1 \<and> set (state1 ! q) = takes_step point foll (\<lambda>l. takes l c) (set sposns) - ?init"
      using trans_loop_ok [OF tl tb(1) refl g(4,2,3) sple] by auto
    have act: "active foll state1 q = active foll state q" if "q < length state" for q
      using that by (simp add: active_def t1(2) nth_append)
    have spA: "set sposns \<subseteq> active foll state ?q" using sp by (auto simp: active_def)
    have low: "takes_step point foll (exact c) (active foll state ?q) \<subseteq> takes_step point foll (\<lambda>l. takes l c) (set sposns)" for c
      using sp tb(3) by (auto simp: takes_step_def active_def exact_takes)
    have entry: "entry_ok point foll state1 ?q (Trans trs)"
      unfolding entry_ok_def fstate.case act [OF s] t1(3)
    proof (intro conjI)
      show "?line \<notin> active foll state ?q" using False fin by simp
      show "sy_ok ssyms" "set ssyms = listed point (active foll state ?q)" by (rule ss(2), rule ss(1))
      show "\<forall>(c, q') \<in> set trs. q' < length state1 \<and>
           takes_step point foll (exact c) (active foll state ?q) \<subseteq> active foll state1 q' \<and>
           active foll state1 q' \<subseteq> takes_step point foll (\<lambda>l. takes l c) (active foll state ?q) \<union> ?init"
      proof (intro ballI, clarify)
        fix c q'
        assume "(c, q') \<in> set trs"
        then have q': "q' < length state1" "set (state1 ! q') = takes_step point foll (\<lambda>l. takes l c) (set sposns) - ?init"
          using t1(4) by auto
        have "active foll state1 q' = takes_step point foll (\<lambda>l. takes l c) (set sposns) \<union> ?init"
          unfolding active_def q'(2) by auto
        moreover have "takes_step point foll (\<lambda>l. takes l c) (set sposns) \<subseteq> takes_step point foll (\<lambda>l. takes l c) (active foll state ?q)"
          using spA by (intro takes_step_mono) auto
        ultimately show "q' < length state1 \<and>
           takes_step point foll (exact c) (active foll state ?q) \<subseteq> active foll state1 q' \<and>
           active foll state1 q' \<subseteq> takes_step point foll (\<lambda>l. takes l c) (active foll state ?q) \<union> ?init"
          using low [of c] q'(1) by auto
      qed
    qed
    have "\<forall>q < length (wh @ [Trans trs]). entry_ok point foll state1 q ((wh @ [Trans trs]) ! q)"
      using tb(5) entry s entry_ok_extend [of point foll state _ _ ext] t1(2) by (auto simp: nth_append less_Suc_eq)
    moreover have "?line \<notin> ?init" using False fin by (simp add: active_def)
    moreover have "let index' = (if ssyms = [] then index1 else fold (\<lambda>pos index. index[pos := False]) sposns index1)
        in length index' = ?line + 1 \<and> (\<forall>p < ?line. index' ! p \<longrightarrow> syms (point ! p) = [])"
    proof (cases "ssyms = []")
      case True
      have "syms (point ! p) = []" if p: "p < ?line" "index1 ! p" for p
      proof (cases "index ! p")
        case False
        then have "p \<in> active foll state ?q" using sco p tb(2) by (auto simp: active_def)
        then show ?thesis using ss(1) True p(1) by (auto simp: listed_def)
      qed (use tb(3) p(1) in blast)
      then show ?thesis using True sco tb(2) by simp
    next
      case ne: False
      have "syms (point ! p) = []" if p: "p < ?line" "index1 ! p" "p \<notin> set sposns" for p
        using p sp sco tb(2,3) by auto
      moreover have "length index1 = ?line + 1" using sco tb(2) by simp
      ultimately show ?thesis using ne fold_clear [of sposns index1] unfolding Let_def by auto
    qed
    ultimately show ?thesis using st' t1(1,2) s by (auto simp: loop_ok_def Let_def)
  qed
  then show "loop_ok point foll st'" "length (fst (snd st')) = length wh + 1" by simp_all
qed

lemma states_loop_ok:
  "states_loop point foll isyms [k..<NSTATES] (state, wh, index) = Inr st' \<Longrightarrow> k = length wh \<Longrightarrow> k \<le> NSTATES \<Longrightarrow>
   loop_ok point foll (state, wh, index) \<Longrightarrow> glushkov point foll L cont \<Longrightarrow>
   set isyms = listed point (set (foll ! 0)) \<Longrightarrow> sy_ok isyms \<Longrightarrow>
   loop_ok point foll st' \<and> length (fst (snd st')) = length (fst st')"
proof (induction "NSTATES - k" arbitrary: k state wh index)
  case 0
  then have "length state = length wh" by (auto simp: loop_ok_def table_ok_def)
  moreover have "st' = (state, wh, index)" using 0 by simp
  ultimately show ?case using 0(5) by simp
next
  case (Suc m)
  then have up: "[k..<NSTATES] = k # [Suc k..<NSTATES]" by (intro upt_conv_Cons) simp
  show ?case
  proof (cases "k < length state")
    case True
    obtain s1 where s1: "make_state point foll isyms k (state, wh, index) = Inr s1"
        "states_loop point foll isyms [Suc k..<NSTATES] s1 = Inr st'"
      using Suc.prems(1) True unfolding up by (auto split: sum.splits)
    obtain state1 wh1 index1 where e: "s1 = (state1, wh1, index1)" by (cases s1)
    have "loop_ok point foll s1" "length (fst (snd s1)) = length wh + 1"
      using make_state_ok [OF s1(1) [unfolded Suc.prems(2)] Suc.prems(4) True [unfolded Suc.prems(2)] Suc.prems(5-7)] .
    then show ?thesis using Suc.hyps(1) [of "Suc k" state1 wh1 index1] Suc.hyps(2) Suc.prems s1(2) e by simp
  next
    case False
    then have "st' = (state, wh, index)" using Suc.prems(1) unfolding up by simp
    moreover have "length wh \<le> length state" using Suc.prems(4) by (simp add: loop_ok_def)
    ultimately show ?thesis using Suc.prems(2,4) False by simp
  qed
qed

section \<open>The search\<close>

text \<open>The words that go on from a set of active positions to the end of the pattern.\<close>

definition rest :: "leaf list \<Rightarrow> (nat \<Rightarrow> int list set) \<Rightarrow> nat set \<Rightarrow> int list set" where
  "rest point cont A = {w. w = [] \<and> length point \<in> A \<or>
     (\<exists>c u j. w = c # u \<and> j \<in> A \<and> j < length point \<and> exact c (point ! j) \<and> u \<in> cont j)}"

text \<open>A set of positions covers the input read so far.\<close>

definition covers :: "leaf list \<Rightarrow> (nat \<Rightarrow> int list set) \<Rightarrow> int list set \<Rightarrow> nat set \<Rightarrow> int list \<Rightarrow> bool" where
  "covers point cont L A x \<longleftrightarrow> (\<forall>w. w \<in> rest point cont A \<longleftrightarrow> (\<exists>y u. x = y @ u \<and> u @ w \<in> L))"

definition hits :: "int list set \<Rightarrow> int list \<Rightarrow> bool" where
  "hits L x \<longleftrightarrow> (\<exists>y u z. x = y @ u @ z \<and> u \<in> L)"

lemma rest_init: "glushkov point foll L cont \<Longrightarrow> rest point cont (set (foll ! 0)) = L"
proof -
  assume gl: "glushkov point foll L cont"
  have "w \<in> rest point cont (set (foll ! 0)) \<longleftrightarrow> w \<in> L" for w
    using gl by (cases w) (auto simp: rest_def glushkov_def)
  then show ?thesis by blast
qed

lemma rest_step:
  assumes gl: "glushkov point foll L cont" and A: "A \<subseteq> {1..length point}"
  shows "w \<in> rest point cont (takes_step point foll (exact c) A) \<longleftrightarrow> c # w \<in> rest point cont A"
proof -
  have "w \<in> cont j \<longleftrightarrow> w \<in> rest point cont (set (foll ! j))" if j: "j \<in> A" "j < length point" for j
  proof -
    have "1 \<le> j \<and> j < length point" using A j by auto
    then have "(\<forall>c w. c # w \<in> cont j \<longleftrightarrow> (\<exists>i \<in> set (foll ! j). i < length point \<and> exact c (point ! i) \<and> w \<in> cont i)) \<and>
        ([] \<in> cont j \<longleftrightarrow> length point \<in> set (foll ! j))"
      using gl unfolding glushkov_def by blast
    then show ?thesis by (cases w) (auto simp: rest_def)
  qed
  then have e: "j \<in> A \<and> j < length point \<and> exact c (point ! j) \<and> w \<in> cont j \<longleftrightarrow>
      j \<in> A \<and> j < length point \<and> exact c (point ! j) \<and> w \<in> rest point cont (set (foll ! j))" for j by blast
  have "c # w \<in> rest point cont A \<longleftrightarrow> (\<exists>j. j \<in> A \<and> j < length point \<and> exact c (point ! j) \<and> w \<in> cont j)"
    by (simp add: rest_def)
  also have "\<dots> \<longleftrightarrow> (\<exists>j \<in> A. j < length point \<and> exact c (point ! j) \<and> w \<in> rest point cont (set (foll ! j)))"
    unfolding e by blast
  also have "\<dots> \<longleftrightarrow> w \<in> rest point cont (takes_step point foll (exact c) A)"
    by (cases w) (auto simp: rest_def takes_step_def)
  finally show ?thesis ..
qed

lemma rest_Un: "rest point cont (A \<union> B) = rest point cont A \<union> rest point cont B"
  by (auto simp: rest_def)

lemma covers_init: "glushkov point foll L cont \<Longrightarrow> covers point cont L (set (foll ! 0)) []"
  by (simp add: covers_def rest_init)

lemma covers_step:
  assumes gl: "glushkov point foll L cont" and A: "A \<subseteq> {1..length point}"
    and c: "covers point cont L A x"
  shows "covers point cont L (takes_step point foll (exact c) A \<union> set (foll ! 0)) (x @ [c])"
  unfolding covers_def
proof
  fix w
  have "w \<in> rest point cont (takes_step point foll (exact c) A \<union> set (foll ! 0)) \<longleftrightarrow> c # w \<in> rest point cont A \<or> w \<in> L"
    unfolding rest_Un rest_init [OF gl] by (simp add: rest_step [OF gl A])
  also have "\<dots> \<longleftrightarrow> (\<exists>y u. x = y @ u \<and> u @ c # w \<in> L) \<or> w \<in> L" using c by (simp add: covers_def)
  also have "\<dots> \<longleftrightarrow> (\<exists>y u. x @ [c] = y @ u \<and> u @ w \<in> L)"
  proof
    assume "(\<exists>y u. x = y @ u \<and> u @ c # w \<in> L) \<or> w \<in> L"
    then show "\<exists>y u. x @ [c] = y @ u \<and> u @ w \<in> L"
    proof
      assume "\<exists>y u. x = y @ u \<and> u @ c # w \<in> L"
      then obtain y u where "x = y @ u" "u @ c # w \<in> L" by blast
      then show ?thesis by (intro exI [of _ y] exI [of _ "u @ [c]"]) simp
    qed (intro exI [of _ "x @ [c]"] exI [of _ "[]"], simp)
  next
    assume "\<exists>y u. x @ [c] = y @ u \<and> u @ w \<in> L"
    then obtain y u where h: "x @ [c] = y @ u" "u @ w \<in> L" by blast
    show "(\<exists>y u. x = y @ u \<and> u @ c # w \<in> L) \<or> w \<in> L"
    proof (cases u rule: rev_cases)
      case (snoc v d)
      then have "x = y @ v" "d = c" using h(1) by simp_all
      then show ?thesis using h(2) snoc by auto
    qed (use h in simp)
  qed
  finally show "w \<in> rest point cont (takes_step point foll (exact c) A \<union> set (foll ! 0)) \<longleftrightarrow>
      (\<exists>y u. x @ [c] = y @ u \<and> u @ w \<in> L)" .
qed

lemma covers_final: "covers point cont L A x \<Longrightarrow> length point \<in> A \<longleftrightarrow> (\<exists>y u. x = y @ u \<and> u \<in> L)"
proof -
  assume "covers point cont L A x"
  then have "[] \<in> rest point cont A \<longleftrightarrow> (\<exists>y u. x = y @ u \<and> u @ [] \<in> L)" by (simp add: covers_def)
  then show ?thesis by (simp add: rest_def)
qed

lemma hits_snoc: "hits L (x @ [c]) \<longleftrightarrow> hits L x \<or> (\<exists>y u. x @ [c] = y @ u \<and> u \<in> L)"
proof
  assume "hits L (x @ [c])"
  then obtain y u z where h: "x @ [c] = y @ u @ z" "u \<in> L" by (auto simp: hits_def)
  show "hits L x \<or> (\<exists>y u. x @ [c] = y @ u \<and> u \<in> L)"
  proof (cases z rule: rev_cases)
    case Nil
    then show ?thesis using h by auto
  next
    case (snoc z' d)
    then have "x = y @ u @ z'" using h(1) by simp
    then show ?thesis using h(2) by (auto simp: hits_def)
  qed
next
  assume "hits L x \<or> (\<exists>y u. x @ [c] = y @ u \<and> u \<in> L)"
  then show "hits L (x @ [c])"
  proof
    assume "hits L x"
    then obtain y u z where "x = y @ u @ z" "u \<in> L" by (auto simp: hits_def)
    then show ?thesis unfolding hits_def by (intro exI [of _ y] exI [of _ u] exI [of _ "z @ [c]"]) simp
  next
    assume "\<exists>y u. x @ [c] = y @ u \<and> u \<in> L"
    then obtain y u where "x @ [c] = y @ u" "u \<in> L" by blast
    then show ?thesis unfolding hits_def by (intro exI [of _ y] exI [of _ u] exI [of _ "[]"]) simp
  qed
qed

lemma hits_append: "hits L x \<Longrightarrow> hits L (x @ y)"
  by (induction y rule: rev_induct) (simp_all add: hits_snoc append_assoc [symmetric] del: append_assoc)

end
