(* ===== verification/OawkMatch.thy ===== *)
theory OawkMatch
  imports OawkRun
begin

text \<open>
  The search decides whether the subject has a word of the pattern. \<open>^\<close> is a symbol in front of
  the subject and \<open>$\<close> is its terminator.
\<close>

section \<open>The finished automaton\<close>

definition fa_ok :: "leaf list \<Rightarrow> nat list list \<Rightarrow> nat list list \<Rightarrow> fa \<Rightarrow> bool" where
  "fa_ok point foll state d \<longleftrightarrow> table_ok point foll state \<and> length (tab d) = length state \<and>
     (\<forall>q < length state. entry_ok point foll state q (tab d ! q)) \<and> start d = goto d 0 HAT"

lemma hat_start_goto: "tab d = wh \<Longrightarrow> hat_start (wh ! 0) = goto d 0 HAT"
  by (simp add: hat_start_def goto_def split: fstate.split)

lemma cgotofn_ok:
  assumes "cgotofn point foll = Inr d" "glushkov point foll L cont"
  obtains state where "fa_ok point foll state d"
proof -
  have g: "1 \<le> length point" "length foll = length point" "\<forall>xs \<in> set foll. pos_list (length point) xs"
    using assms(2) by (simp_all add: glushkov_def)
  have "foll ! 0 \<in> set foll" using g(1,2) by (intro nth_mem) linarith
  then have pl: "pos_list (length point) (foll ! 0)" using g(3) by blast
  obtain isyms state wh index where i: "init_scan point (foll ! 0) [] = Some isyms"
      "states_loop point foll isyms [0..<NSTATES] ([foll ! 0], [], replicate (length point + 1) False) = Inr (state, wh, index)"
      "d = \<lparr>start = hat_start (wh ! 0), tab = wh\<rparr>"
    using assms(1) by (auto simp: cgotofn_def split: option.splits sum.splits prod.splits)
  have "\<forall>p \<in> set (foll ! 0). p \<le> length point" using pl by (auto simp: pos_list_def)
  then have isy: "set isyms = listed point (set (foll ! 0))" "sy_ok isyms"
    using init_scan_ok [OF i(1)] by (simp_all add: sy_ok_def)
  have idx: "\<not> (replicate (length point + 1) False) ! p" if "p < length point" for p
    using that by (simp del: replicate_Suc)
  have "loop_ok point foll ([foll ! 0], [], replicate (length point + 1) False)"
    using pl idx unfolding loop_ok_def table_ok_def by simp
  then have "loop_ok point foll (state, wh, index) \<and> length wh = length state"
    using states_loop_ok [OF i(2) _ _ _ assms(2) isy] by simp
  then have "fa_ok point foll state d" using i(3) hat_start_goto [of d wh] by (simp add: loop_ok_def fa_ok_def)
  then show ?thesis by (rule that)
qed

section \<open>One step\<close>

lemma find_in: "List.find P xs = Some t \<Longrightarrow> t \<in> set xs \<and> P t"
  by (induction xs) (auto split: if_splits)

lemma goto_ok:
  assumes fa: "fa_ok point foll state d" and q: "q < length state" "\<not> final d q"
  shows "goto d q c < length state"
    "takes_step point foll (exact c) (active foll state q) \<subseteq> active foll state (goto d q c)"
    "set (foll ! 0) \<subseteq> active foll state (goto d q c)"
    "active foll state (goto d q c) \<subseteq>
       (if c \<in> listed point (active foll state q) then takes_step point foll (\<lambda>l. takes l c) (active foll state q) else {}) \<union> set (foll ! 0)"
    "c \<notin> listed point (active foll state q) \<Longrightarrow> goto d q c = 0"
    "c \<in> listed point (active foll state q) \<Longrightarrow> 0 \<le> c \<and> c < NCHARS"
proof -
  obtain trs where trs: "tab d ! q = Trans trs" using q(2) by (cases "tab d ! q") (auto simp: final_def)
  have "entry_ok point foll state q (Trans trs)" using fa q(1) trs unfolding fa_ok_def by metis
  then have e: "sy_ok (map fst trs)" "set (map fst trs) = listed point (active foll state q)"
      "\<forall>(c, q') \<in> set trs. q' < length state \<and>
           takes_step point foll (exact c) (active foll state q) \<subseteq> active foll state q' \<and>
           active foll state q' \<subseteq> takes_step point foll (\<lambda>l. takes l c) (active foll state q) \<union> set (foll ! 0)"
    unfolding entry_ok_def by simp_all
  have tb: "table_ok point foll state" using fa by (simp add: fa_ok_def)
  then have a0: "0 < length state" "active foll state 0 = set (foll ! 0)" by (auto simp: table_ok_def active_def)
  show i: "set (foll ! 0) \<subseteq> active foll state (goto d q c)" by (simp add: active_def)
  have "goto d q c < length state \<and>
     takes_step point foll (exact c) (active foll state q) \<subseteq> active foll state (goto d q c) \<and>
     active foll state (goto d q c) \<subseteq>
       (if c \<in> listed point (active foll state q) then takes_step point foll (\<lambda>l. takes l c) (active foll state q) else {}) \<union> set (foll ! 0) \<and>
     (c \<notin> listed point (active foll state q) \<longrightarrow> goto d q c = 0) \<and>
     (c \<in> listed point (active foll state q) \<longrightarrow> 0 \<le> c \<and> c < NCHARS)"
  proof (cases "List.find (\<lambda>t. fst t = c) (rev trs)")
    case None
    then have nl: "c \<notin> listed point (active foll state q)" unfolding e(2) [symmetric] by (auto simp: find_None_iff)
    then have "takes_step point foll (exact c) (active foll state q) = {}" by (auto simp: takes_step_def listed_def)
    then show ?thesis using None trs nl a0 by (simp add: goto_def)
  next
    case (Some t)
    then have t: "t \<in> set trs" "fst t = c" using find_in [OF Some] by simp_all
    then have l: "c \<in> listed point (active foll state q)" unfolding e(2) [symmetric] by force
    have "goto d q c = snd t" using Some trs by (simp add: goto_def)
    moreover have "0 \<le> c \<and> c < NCHARS" using e(1) t by (auto simp: sy_ok_def)
    ultimately show ?thesis using e(3) t l by (cases t) auto
  qed
  then show "goto d q c < length state"
    "takes_step point foll (exact c) (active foll state q) \<subseteq> active foll state (goto d q c)"
    "active foll state (goto d q c) \<subseteq>
       (if c \<in> listed point (active foll state q) then takes_step point foll (\<lambda>l. takes l c) (active foll state q) else {}) \<union> set (foll ! 0)"
    "c \<notin> listed point (active foll state q) \<Longrightarrow> goto d q c = 0"
    "c \<in> listed point (active foll state q) \<Longrightarrow> 0 \<le> c \<and> c < NCHARS"
    by blast+
qed

lemma final_iff: "fa_ok point foll state d \<Longrightarrow> q < length state \<Longrightarrow> final d q \<longleftrightarrow> length point \<in> active foll state q"
  unfolding fa_ok_def final_def entry_ok_def by (cases "tab d ! q") fastforce+

lemma listed_range: "c \<in> listed point A \<Longrightarrow> \<exists>j \<in> A. j < length point \<and> exact c (point ! j)"
  by (auto simp: listed_def)

lemma active_bound:
  assumes "fa_ok point foll state d" "glushkov point foll L cont" "q < length state"
  shows "active foll state q \<subseteq> {1..length point}"
proof -
  have g: "1 \<le> length point" "length foll = length point" "\<forall>xs \<in> set foll. pos_list (length point) xs"
    using assms(2) by (simp_all add: glushkov_def)
  have "foll ! 0 \<in> set foll" using g(1,2) by (intro nth_mem) linarith
  moreover have "state ! q \<in> set state" using assms(3) by simp
  ultimately show ?thesis using g(3) assms(1) unfolding fa_ok_def table_ok_def pos_list_def active_def by blast
qed

text \<open>A step on which all active leaves take what they list keeps the cover.\<close>

lemma goto_covers:
  assumes fa: "fa_ok point foll state d" and gl: "glushkov point foll L cont" and q: "q < length state" "\<not> final d q"
    and cv: "covers point cont L (active foll state q) x"
    and ex: "\<forall>j \<in> active foll state q. j < length point \<and> takes (point ! j) c \<and> c \<in> listed point (active foll state q) \<longrightarrow> exact c (point ! j)"
  shows "covers point cont L (active foll state (goto d q c)) (x @ [c])"
proof -
  have "c \<in> listed point (active foll state q) \<Longrightarrow>
      takes_step point foll (\<lambda>l. takes l c) (active foll state q) \<subseteq> takes_step point foll (exact c) (active foll state q)"
    using ex by (auto simp: takes_step_def)
  then have "active foll state (goto d q c) = takes_step point foll (exact c) (active foll state q) \<union> set (foll ! 0)"
    using goto_ok [OF fa q, of c] by (auto split: if_splits)
  then show ?thesis using covers_step [OF gl active_bound [OF fa gl q(1)] cv, of c] by simp
qed

lemma plain_exact:
  assumes "fa_ok point foll state d" "q < length state" "\<not> final d q" "c \<noteq> 0" "c \<noteq> HAT" "takes l c"
    and "c \<in> listed point (active foll state q)"
  shows "exact c l"
proof -
  have "0 \<le> c \<and> c < NCHARS" by (rule goto_ok(6) [OF assms(1-3,7)])
  then show ?thesis using assms(4,5) by (intro takes_exact [OF assms(6)]) simp_all
qed

section \<open>The whole search\<close>

text \<open>
  The end of the subject: no leaf that takes the terminator without listing it is last when some
  leaf lists it, and those that list it are last.
\<close>

definition end_ok :: "leaf list \<Rightarrow> nat list list \<Rightarrow> bool" where
  "end_ok point foll \<longleftrightarrow> (\<forall>i. 1 \<le> i \<and> i < length point \<and> dollar (point ! i) \<longrightarrow> length point \<in> set (foll ! i) \<and>
     (\<forall>j. 1 \<le> j \<and> j < length point \<and> takes (point ! j) 0 \<and> length point \<in> set (foll ! j) \<longrightarrow> dollar (point ! j)))"

lemma goto_end:
  assumes fa: "fa_ok point foll state d" and gl: "glushkov point foll L cont" and q: "q < length state" "\<not> final d q"
    and cv: "covers point cont L (active foll state q) x" and en: "end_ok point foll" and nh: "\<not> hits L x"
  shows "final d (goto d q 0) \<longleftrightarrow> hits L (x @ [0])"
proof -
  let ?A = "active foll state q" and ?line = "length point"
  let ?B = "takes_step point foll (exact 0) ?A \<union> set (foll ! 0)"
  have A: "?A \<subseteq> {1..?line}" by (rule active_bound [OF fa gl q(1)])
  have "covers point cont L ?B (x @ [0])" by (rule covers_step [OF gl A cv])
  then have "?line \<in> ?B \<longleftrightarrow> hits L (x @ [0])" using covers_final [of point cont L ?B "x @ [0]"] nh by (simp add: hits_snoc)
  moreover have "?line \<in> active foll state (goto d q 0) \<longleftrightarrow> ?line \<in> ?B"
  proof
    assume "?line \<in> active foll state (goto d q 0)"
    then have "?line \<in> (if 0 \<in> listed point ?A then takes_step point foll (\<lambda>l. takes l 0) ?A else {}) \<union> set (foll ! 0)"
      using goto_ok(4) [OF fa q] by blast
    moreover have "?line \<in> takes_step point foll (exact 0) ?A"
      if h: "0 \<in> listed point ?A" "?line \<in> takes_step point foll (\<lambda>l. takes l 0) ?A"
    proof -
      obtain i where i: "i \<in> ?A" "i < ?line" "dollar (point ! i)" using h(1) by (auto simp: listed_def dollar_def)
      obtain j where j: "j \<in> ?A" "j < ?line" "takes (point ! j) 0" "?line \<in> set (foll ! j)"
        using h(2) by (auto simp: takes_step_def)
      have "1 \<le> i" "1 \<le> j" using A i(1) j(1) by auto
      then have "dollar (point ! j)" using en i(2,3) j(2-4) unfolding end_ok_def by blast
      then show ?thesis using j by (auto simp: takes_step_def dollar_def)
    qed
    ultimately show "?line \<in> ?B" by (auto split: if_splits)
  next
    assume "?line \<in> ?B"
    then show "?line \<in> active foll state (goto d q 0)" using goto_ok(2,3) [OF fa q] by blast
  qed
  ultimately show ?thesis using final_iff [OF fa goto_ok(1) [OF fa q]] by simp
qed

lemma run_ok:
  assumes fa: "fa_ok point foll state d" and gl: "glushkov point foll L cont" and en: "end_ok point foll"
  shows "q < length state \<Longrightarrow> \<not> final d q \<Longrightarrow> covers point cont L (active foll state q) x \<Longrightarrow> \<not> hits L x \<Longrightarrow>
    0 \<notin> set cs \<Longrightarrow> HAT \<notin> set cs \<Longrightarrow> run d q (cs @ [0]) = Some (hits L (x @ cs @ [0]))"
proof (induction cs arbitrary: q x)
  case Nil
  then show ?case using goto_end [OF fa gl Nil(1-3) en Nil(4)] by (simp add: Let_def)
next
  case (Cons c cs)
  let ?q = "goto d q c"
  have c: "c \<noteq> 0" "c \<noteq> HAT" using Cons.prems(5,6) by auto
  have cv: "covers point cont L (active foll state ?q) (x @ [c])"
    using plain_exact [OF fa Cons.prems(1,2) c] by (intro goto_covers [OF fa gl Cons.prems(1-3)]) blast
  have q: "?q < length state" by (rule goto_ok(1) [OF fa Cons.prems(1,2)])
  have f: "final d ?q \<longleftrightarrow> hits L (x @ [c])"
    unfolding final_iff [OF fa q] covers_final [OF cv] using Cons.prems(4) by (simp add: hits_snoc)
  show ?case
  proof (cases "final d ?q")
    case True
    then have "hits L (x @ [c])" using f by simp
    then have "hits L ((x @ [c]) @ cs @ [0])" by (rule hits_append)
    then show ?thesis using True by (simp add: Let_def)
  next
    case False
    then have "run d ?q (cs @ [0]) = Some (hits L ((x @ [c]) @ cs @ [0]))"
      using Cons.prems(5,6) f False by (intro Cons.IH [OF q False cv]) simp_all
    then show ?thesis using False c by (simp add: Let_def)
  qed
qed

text \<open>The fast test for the first symbol changes nothing.\<close>

lemma seek_run:
  assumes fa: "fa_ok point foll state d" and gl: "glushkov point foll L cont" and en: "end_ok point foll"
    and t: "tab d ! start d = Trans [t]" and st: "start d < length state"
  shows "HAT \<notin> set p \<Longrightarrow> last p = 0 \<Longrightarrow> p \<noteq> [] \<Longrightarrow> 0 \<notin> set (butlast p) \<Longrightarrow> seek d t p = run d (start d) p"
proof -
  have tb: "table_ok point foll state" using fa by (simp add: fa_ok_def)
  then have z: "0 < length state" "active foll state 0 = set (foll ! 0)" by (auto simp: table_ok_def active_def)
  have nf: "\<not> final d (start d)" using t by (simp add: final_def)
  then have nline: "length point \<notin> set (foll ! 0)" using final_iff [OF fa st] by (auto simp: active_def)
  then have nf0: "\<not> final d 0" using final_iff [OF fa z(1)] z(2) by simp
  have ls: "listed point (active foll state (start d)) = {fst t}"
    using fa st t unfolding fa_ok_def entry_ok_def by fastforce
  have l0: "listed point (active foll state 0) \<subseteq> {fst t}"
    using ls unfolding z(2) by (auto simp: listed_def active_def)
  have s0: "start d = 0" if "fst t \<noteq> HAT"
  proof -
    have "HAT \<notin> listed point (active foll state 0)" using l0 that by auto
    then have "goto d 0 HAT = 0" by (rule goto_ok(5) [OF fa z(1) nf0])
    then show ?thesis using fa by (simp add: fa_ok_def)
  qed
  have g: "goto d q x = 0" if "q = start d \<or> q = 0" "x \<noteq> fst t" for q x
  proof -
    have "x \<notin> listed point (active foll state q)" using that ls l0 by auto
    then show ?thesis using that(1) goto_ok(5) [OF fa st nf, of x] goto_ok(5) [OF fa z(1) nf0, of x] by auto
  qed
  have gt: "goto d (start d) (fst t) = snd t" using t by (simp add: goto_def)
  have "final d (snd t)" if t0: "fst t = 0"
  proof -
    obtain j where j: "j \<in> active foll state (start d)" "j < length point" "dollar (point ! j)"
      using listed_range [of 0 point "active foll state (start d)"] ls t0 by (auto simp: dollar_def)
    then have "1 \<le> j" using active_bound [OF fa gl st] by auto
    then have "length point \<in> set (foll ! j)" using en j by (auto simp: end_ok_def)
    then have "length point \<in> takes_step point foll (exact 0) (active foll state (start d))"
      using j by (auto simp: takes_step_def dollar_def)
    then have "length point \<in> active foll state (snd t)" using goto_ok(2) [OF fa st nf, of 0] gt t0 by auto
    then show ?thesis using final_iff [OF fa] goto_ok(1) [OF fa st nf, of 0] gt t0 by simp
  qed
  then have hit: "adv d (snd t) p = (if final d (snd t) then Some True else if fst t \<noteq> 0 then run d (snd t) p else Some False)" for p
    by (auto simp: adv_def)
  have "HAT \<notin> set p \<Longrightarrow> last p = 0 \<Longrightarrow> p \<noteq> [] \<Longrightarrow> 0 \<notin> set (butlast p) \<Longrightarrow> q = start d \<or> q = 0 \<Longrightarrow> seek d t p = run d q p" for p q
  proof (induction p arbitrary: q)
    case (Cons x p)
    show ?case
    proof (cases "fst t = x")
      case True
      then have "q = start d" using s0 Cons.prems(1,5) by auto
      then show ?thesis using True hit [of p] gt by (auto simp: Let_def)
    next
      case False
      then have q: "goto d q x = 0" using g Cons.prems(5) by auto
      show ?thesis
      proof (cases "x = 0")
        case True
        then have "p = []" using Cons.prems(3,4) by (cases p) auto
        then show ?thesis using True False q nf0 by (simp add: Let_def)
      next
        case x: False
        then have "p \<noteq> []" using Cons.prems(2) by auto
        then have "seek d t p = run d 0 p" using Cons.prems by (intro Cons.IH) auto
        then show ?thesis using x False q nf0 by (simp add: Let_def)
      qed
    qed
  qed simp
  then show "HAT \<notin> set p \<Longrightarrow> last p = 0 \<Longrightarrow> p \<noteq> [] \<Longrightarrow> 0 \<notin> set (butlast p) \<Longrightarrow> seek d t p = run d (start d) p" by blast
qed

section \<open>Which patterns match\<close>

text \<open>
  Leaves that take every symbol (\<open>.\<close> and negated classes) also take \<open>^\<close> and \<open>$\<close> when another
  leaf has put these in the table. The search is exact if that cannot happen: if \<open>$\<close> stands only
  at ends of the pattern, if no such leaf is last when there is a \<open>$\<close>, and if none is first when \<open>^\<close>
  is.
\<close>

definition anchors_ok :: "node \<Rightarrow> bool" where
  "anchors_ok p \<longleftrightarrow> dollar_last p \<and>
     (list_ex dollar (leaves p) \<longrightarrow> list_all (\<lambda>l. takes l 0 \<longrightarrow> dollar l) (last_leaves p)) \<and>
     (list_ex (exact HAT) (first_leaves p) \<longrightarrow> list_all (\<lambda>l. takes l HAT \<longrightarrow> exact HAT l) (first_leaves p))"

lemma subject_symbols:
  "CHR 0x00 \<notin> set s \<Longrightarrow> 0 \<notin> set (map cv s)" "CHR 0x7F \<notin> set s \<Longrightarrow> HAT \<notin> set (map cv s)"
proof -
  have o: "ord c < 256" for c :: char by (rule ord_less)
  have "cv c = 0 \<Longrightarrow> c = CHR 0x00" for c :: char
  proof -
    assume "cv c = 0"
    then have "ord c = 0" using o [of c] by (auto simp: cv_def simp del: ord_less split: if_splits)
    moreover have "ord (CHR 0x00) = 0" by (simp add: ord_def)
    ultimately show ?thesis by (metis ord_inject)
  qed
  then show "CHR 0x00 \<notin> set s \<Longrightarrow> 0 \<notin> set (map cv s)" by force
  have "cv c = HAT \<Longrightarrow> c = CHR 0x7F" for c :: char
  proof -
    assume "cv c = HAT"
    then have "ord c = 127" using o [of c] by (auto simp: cv_def simp del: ord_less split: if_splits)
    moreover have "ord (CHR 0x7F) = 127" by (simp add: ord_def)
    ultimately show ?thesis by (metis ord_inject)
  qed
  then show "CHR 0x7F \<notin> set s \<Longrightarrow> HAT \<notin> set (map cv s)" by force
qed

lemma match_hits:
  assumes fa: "fa_ok point foll state d" and gl: "glushkov point foll L cont" and en: "end_ok point foll"
    and hat: "\<forall>j \<in> set (foll ! 0). j < length point \<and> takes (point ! j) HAT \<and> HAT \<in> listed point (set (foll ! 0)) \<longrightarrow> exact HAT (point ! j)"
    and s: "0 \<notin> set (map cv s)" "HAT \<notin> set (map cv s)"
  shows "match d s = Some (hits L (HAT # map cv s @ [0]))"
proof -
  have tb: "table_ok point foll state" using fa by (simp add: fa_ok_def)
  then have z: "0 < length state" "active foll state 0 = set (foll ! 0)" by (auto simp: table_ok_def active_def)
  have st: "start d = goto d 0 HAT" using fa by (simp add: fa_ok_def)
  show ?thesis
  proof (cases "final d 0")
    case True
    then have "[] \<in> L" using final_iff [OF fa z(1)] z(2) gl by (simp add: glushkov_def)
    then have "hits L (HAT # map cv s @ [0])" unfolding hits_def
      by (intro exI [of _ "[]"] exI [of _ "HAT # map cv s @ [0]"]) simp
    moreover have "start d = 0" "tab d ! 0 = Accept" using st True by (simp_all add: goto_def final_def)
    ultimately show ?thesis using True by (simp add: match_def adv_def Let_def)
  next
    case False
    have nh: "\<not> hits L []" using final_iff [OF fa z(1)] z(2) False gl by (simp add: hits_def glushkov_def)
    have q: "start d < length state" unfolding st by (rule goto_ok(1) [OF fa z(1) False])
    have "covers point cont L (active foll state 0) []" unfolding z(2) by (rule covers_init [OF gl])
    then have cv: "covers point cont L (active foll state (start d)) [HAT]"
      unfolding st using goto_covers [OF fa gl z(1) False, of "[]" HAT] hat unfolding z(2) by simp
    have f: "final d (start d) \<longleftrightarrow> hits L [HAT]"
      unfolding final_iff [OF fa q] covers_final [OF cv] using hits_snoc [of L "[]" HAT] nh by simp
    show ?thesis
    proof (cases "final d (start d)")
      case True
      then have "hits L ([HAT] @ map cv s @ [0])" using f by (intro hits_append) simp
      then show ?thesis using True by (simp add: match_def adv_def final_def Let_def)
    next
      case nf: False
      then have r: "run d (start d) (map cv s @ [0]) = Some (hits L ([HAT] @ map cv s @ [0]))"
        using f by (intro run_ok [OF fa gl en q nf cv _ s]) simp
      show ?thesis
      proof (cases "\<exists>t. tab d ! start d = Trans [t]")
        case True
        then obtain t where t: "tab d ! start d = Trans [t]" by blast
        have "seek d t (map cv s @ [0]) = run d (start d) (map cv s @ [0])"
          using s by (intro seek_run [OF fa gl en t q]) simp_all
        then show ?thesis using r t by (simp add: match_def Let_def)
      next
        case False
        then have "match d s = adv d (start d) (map cv s @ [0])"
          by (simp add: match_def Let_def split: fstate.split list.split)
        then show ?thesis using r nf by (simp add: adv_def)
      qed
    qed
  qed
qed

text \<open>
  C16: The automaton that \<open>makedfa\<close> builds of a pattern, and the search that \<open>match\<close> makes with it,
  decide whether the subject, with a \<open>^\<close> in front and the terminator behind, has a word of the
  pattern in it. The answer always comes, and nothing behind the terminator is read, for every
  pattern whose anchors are at its ends and every subject without the byte \<open>0177\<close> that stands for
  \<open>^\<close>; the follow sets, the table of states with the positions of state 0 left out, the default
  transition and the fast test for the first symbol all play their part.
\<close>

theorem oawk_match:
  assumes "makedfa p = Inr d" "pattern p" "anchors_ok p" "CHR 0x00 \<notin> set s" "CHR 0x7F \<notin> set s"
  shows "match d s = Some (\<exists>y u z. HAT # map cv s @ [0] = y @ u @ z \<and> u \<in> lang p)"
proof -
  obtain p1 point where pe: "penter (FINAL (CAT (STAR (Leaf DOT 0)) p)) [] = (p1, point)"
    by (cases "penter (FINAL (CAT (STAR (Leaf DOT 0)) p)) []")
  define foll where "foll = cfoll (length point) p1 [] []"
  have cg: "cgotofn point foll = Inr d"
    using assms(1) by (auto simp: makedfa_def pe foll_def simp del: penter.simps split: if_splits)
  obtain cont where gl: "glushkov point foll (lang p) cont"
    and fl: "\<forall>j \<in> set (foll ! 0). j < length point \<longrightarrow> point ! j \<in> set (first_leaves p)"
    and al: "\<forall>j. 1 \<le> j \<and> j < length point \<longrightarrow> point ! j \<in> set (leaves p) \<and>
      (length point \<in> set (foll ! j) \<longrightarrow> point ! j \<in> set (last_leaves p)) \<and>
      (dollar_last p \<and> dollar (point ! j) \<longrightarrow> length point \<in> set (foll ! j))"
    unfolding foll_def by (rule cfoll_glushkov [OF pe assms(2)]) blast
  obtain state where fa: "fa_ok point foll state d" using cgotofn_ok [OF cg gl] by blast
  have en: "end_ok point foll"
    using al assms(3) unfolding end_ok_def anchors_ok_def list_ex_iff list_all_iff by blast
  have hat: "\<forall>j \<in> set (foll ! 0). j < length point \<and> takes (point ! j) HAT \<and> HAT \<in> listed point (set (foll ! 0)) \<longrightarrow> exact HAT (point ! j)"
    using fl assms(3) listed_range [of HAT point "set (foll ! 0)"] unfolding anchors_ok_def list_ex_iff list_all_iff by blast
  show ?thesis using match_hits [OF fa gl en hat subject_symbols(1) [OF assms(4)] subject_symbols(2) [OF assms(5)]]
    by (simp add: hits_def)
qed

text \<open>The pattern \<open>^ab*$\<close>, matched against \<open>abb\<close>.\<close>

definition pat_abs :: node where
  "pat_abs = CAT (Leaf (CHARn HAT) 0) (CAT (Leaf (CHARn 97) 0) (CAT (STAR (Leaf (CHARn 98) 0)) (Leaf (CHARn 0) 0)))"

lemma pat_abs_ok: "pattern pat_abs \<and> anchors_ok pat_abs"
  by code_simp

lemma makedfa_abs: "\<exists>d. makedfa pat_abs = Inr d"
proof -
  have "(case makedfa pat_abs of Inl e \<Rightarrow> False | Inr d \<Rightarrow> True)" by code_simp
  then show ?thesis by (cases "makedfa pat_abs") auto
qed

theorem oawk_match_witness:
  "\<exists>d. makedfa pat_abs = Inr d \<and>
    match d ''abb'' = Some (\<exists>y u z. HAT # map cv ''abb'' @ [0] = y @ u @ z \<and> u \<in> lang pat_abs)"
proof -
  obtain d where "makedfa pat_abs = Inr d" using makedfa_abs by blast
  then show ?thesis using oawk_match [of pat_abs d "''abb''"] pat_abs_ok by simp
qed

text \<open>The pattern \<open>$a\<close>, whose only first symbol is the terminator.\<close>

definition dollar_a :: node where
  "dollar_a = CAT (Leaf (CHARn 0) 0) (Leaf (CHARn 97) 0)"

definition dollar_a_fa :: fa where
  "dollar_a_fa = \<lparr>start = 0, tab = [Trans [(0, 1)], Trans [(0, 1), (97, 2)], Accept]\<rparr>"

text \<open>
  C38: A pattern that has something behind its only first symbol \<open>$\<close> makes the search read past
  the end of every subject: the fast test for the first symbol steps over the terminator when it
  is that symbol, and the loop after it starts behind it.
\<close>

theorem oawk_overread:
  assumes "CHR 0x00 \<notin> set s"
  shows "makedfa dollar_a = Inr dollar_a_fa \<and> match dollar_a_fa s = None"
proof
  show "makedfa dollar_a = Inr dollar_a_fa" by code_simp
  have "0 \<notin> set xs \<Longrightarrow> seek dollar_a_fa (0, 1) (xs @ [0]) = None" for xs
    by (induction xs) (simp_all add: adv_def final_def dollar_a_fa_def)
  then show "match dollar_a_fa s = None"
    using subject_symbols(1) [OF assms] by (simp add: match_def dollar_a_fa_def)
qed

theorem oawk_overread_witness:
  "makedfa dollar_a = Inr dollar_a_fa \<and> match dollar_a_fa ''banana'' = None"
  by (rule oawk_overread) simp

text \<open>The pattern \<open>a$b|a.\<close>.\<close>

definition dollar_or_dot :: node where
  "dollar_or_dot = ORn (CAT (Leaf (CHARn 97) 0) (CAT (Leaf (CHARn 0) 0) (Leaf (CHARn 98) 0))) (CAT (Leaf (CHARn 97) 0) (Leaf DOT 0))"


end
