(* ===== verification/Spec2Isabelle.thy ===== *)
theory Spec2Isabelle
  imports Gmatch ShCache ShName DcType SccsDate SccsApply SccsDelta Codec PkSession PkFaults PackRound OawkMatch
begin

text \<open>
  A verification development for the core of a System V userland.

  \<^bold>\<open>The program.\<close> The sources are the commands of a System V system in C: \<open>src/cmd\<close>, a BSD
  compatibility set in \<open>src/ucbcmd\<close>, and libraries in \<open>src/lib\<close>. The commands share no state;
  each is a process over byte strings. The parts with an algorithmic core of their own are the
  Bourne shell (\<open>cmd/sh\<close>), SCCS (\<open>cmd/sccs\<close>, commands over two libraries), the BNU
  communication commands (\<open>cmd/bnu\<close>), the desk calculator (\<open>cmd/dc\<close>), the Huffman packer
  (\<open>cmd/pack\<close>, \<open>cmd/unpack\<close>) and the regular expressions of the old awk (\<open>cmd/oawk\<close>). Inside
  SCCS the parts call each other: \<open>get\<close> reads the delta table, decides with it which deltas are
  applied and extracts a version from the weave; \<open>delta\<close> gets the predecessor, compares it with
  the new file and edits the weave; binary files pass through an encoder on their way in and a
  decoder on their way out.

  \<^bold>\<open>Theories.\<close> Below \<open>Prelude\<close> (C strings, \<open>strcmp\<close>, character classes, decimal printing, the
  collections \<open>cstr_simps\<close> and \<open>digit_simps\<close>) there is one group of theories for each part.

  \<^item> The shell. \<open>Gmatch\<close> is \<open>gmatch.c\<close>. \<open>ShHash\<close> is the hash table of \<open>hash.c\<close> and \<open>ShCache\<close> the
    command cache on it (\<open>hashserv.c\<close>, the path walk of \<open>service.c\<close>, \<open>cf\<close> of \<open>string.c\<close>, \<open>syslook\<close>
    of \<open>name.c\<close>). \<open>ShName\<close> holds the tree of variables and functions of \<open>name.c\<close> and the numbers
    of \<open>print.c\<close>; a change of \<open>PATH\<close> or \<open>CDPATH\<close> empties the cache. The state of the cache and the
    state of the variables are records whose fields are the globals of these files.
  \<^item> SCCS, \<open>cmd/sccs\<close>. \<open>SccsText\<close>: strings and SIDs. \<open>SccsDate\<close>: \<open>date_ab\<close>, \<open>date_ba\<close>, \<open>cmpdate\<close>,
    \<open>parse_date\<close>. \<open>SccsTable\<close>: \<open>dodelt\<close> with the lines it reads and writes. \<open>SccsSid\<close>: \<open>sidtoser\<close>,
    \<open>getser\<close>, \<open>newsid\<close>, \<open>dolist\<close>. \<open>SccsStream\<close>: \<open>getline\<close>, \<open>putline\<close>, \<open>flushline\<close>, \<open>newstats\<close>,
    \<open>flushto\<close>, \<open>sinit\<close>, \<open>permiss\<close>. \<open>SccsWeave\<close>: \<open>setup\<close>, \<open>readmod\<close> with its queue, the loop of \<open>get\<close>.
    \<open>SccsApply\<close>: the lists of \<open>doie\<close> and what \<open>setup\<close> makes of them. \<open>SccsDelta\<close>: the reading of
    the difference and the editing of the weave by \<open>delta.c\<close>. \<open>struct packet\<close> is a record that
    each theory extends by the fields it needs (\<open>packet\<close>, \<open>spacket\<close>, \<open>wpacket\<close>); open files are
    lists of the bytes to come, the x-file is the list of the bytes written. \<open>Codec\<close> holds
    \<open>encode.c\<close> and, as it is the same cutting of bytes into groups of six bits, \<open>uuencode.c\<close> and
    \<open>uudecode.c\<close> of BNU.
  \<^item> The packet protocol of BNU, \<open>pk0.c\<close>, \<open>pk1.c\<close>, \<open>pk.h\<close> and \<open>pkdefs.c\<close>. \<open>Pk\<close> is the model;
    \<open>struct pack\<close> is the record \<open>pack\<close>, with the two directions of the line as lists. \<open>PkSafe\<close>: the
    step relation \<open>pk_step\<close>, whose steps are the calls of a client, and the invariant of its
    reachable states. \<open>PkLink\<close>: frames and the handshake. \<open>PkPacket\<close>: one packet. \<open>PkSession\<close>: a
    conversation of two ends. \<open>PkFaults\<close>: inputs for which the driver goes wrong.
  \<^item> The desk calculator, \<open>cmd/dc/dc.c\<close>. \<open>DcArith\<close>: numbers in base 100, sums, products, the stack
    and the conditionals. \<open>DcDiv\<close>: long division. \<open>DcCmd\<close>: the commands \<open>/\<close>, \<open>%\<close>, \<open>*\<close>, \<open>v\<close>, \<open>^\<close>, and
    the scales of the first three. \<open>DcRoot\<close>: roots and powers. \<open>DcIO\<close>: reading numbers (\<open>readin\<close>)
    and printing them in base ten (\<open>print\<close>, \<open>tenot\<close>). \<open>DcType\<close>: all commands as one function \<open>exec\<close>
    and the well-formed stacks that it keeps. A block (\<open>struct blk\<close>) is the list of its digits.
  \<^item> The packer. \<open>Pack\<close> is \<open>pack.c\<close>, \<open>Unpack\<close> is \<open>unpack.c\<close>. \<open>PackHeap\<close>: the heap. \<open>PackTree\<close>: the
    Huffman tree. \<open>PackCode\<close> and \<open>PackBits\<close>: lengths, codes, and the codes as bits. \<open>PackEnd\<close>:
    termination. \<open>PackRound\<close>: unpacking what was packed.
  \<^item> The old awk, \<open>cmd/oawk/b.c\<close>. \<open>Oawk\<close> is the model. \<open>OawkLang\<close>: the language of a pattern.
    \<open>OawkFoll\<close>: the follow sets. \<open>OawkDfa\<close> and \<open>OawkRun\<close>: the subset construction and the run of the
    automaton. \<open>OawkMatch\<close>: the search.

  \<^bold>\<open>Interfaces.\<close> \<open>name_store\<close> (in \<open>ShHash\<close>) is what the shell expects of a store of names: what a
  lookup finds after an entry, and what an entry leaves alone. The hash table interprets it as \<open>ct\<close>
  and the tree of variables as \<open>nt\<close>. \<open>sixbit\<close> (in \<open>Codec\<close>) is what the two encoders need of
  their character codes; \<open>sccs\<close> and \<open>uu\<close> interpret it. \<open>pqueue\<close> (in \<open>PackHeap\<close>) is what the
  Huffman loop needs of the heap; \<open>pq\<close> interprets it on the array that \<open>heapify\<close> maintains.

  \<^bold>\<open>What is shown.\<close> Round trips: getting a version after \<open>delta\<close>, messages over a line, binary files
  through either encoder, pack and unpack, the numbers that \<open>dc\<close> prints and reads, the checksum,
  the delta table, dates, the environment. Refinements: \<open>readmod\<close> and the editing of \<open>delta\<close> against the meaning of a weave
  (\<open>wrun\<close>). Equivalences: \<open>gmatch\<close> against the language of its tokens, the automaton of awk against
  the language of its pattern, \<open>cmpdate\<close> against converted times. Invariants: the shell's
  variables, its hash table, the buffers and windows of the packet driver. Arithmetic: division
  and comparisons of \<open>dc\<close> are those of the rationals, cut off at the scale; its square root ends and
  is the root. Types: every command of \<open>dc\<close> keeps a stack of numbers. Errors: inputs for which the code does what it
  does not mean to, each computed on the model.

  Across parts, \<open>binary_check_in\<close> below composes the encoder, \<open>delta\<close>, \<open>get\<close> and the decoder.

  \<^bold>\<open>Errors and memory.\<close> A call that does not return (\<open>fatal\<close>, \<open>fmterr\<close>, \<open>pkfail\<close>, \<open>failed\<close>) is a value
  of a sum type. An access outside an array, or through a null pointer, is a value too: \<open>Wild\<close>,
  \<open>PkWild\<close>, \<open>PWild\<close>, \<open>UWild\<close> or \<open>None\<close>. A theorem whose conclusion is a result excludes them.

  \<^bold>\<open>Bounds.\<close> \<open>BUFSIZ\<close> of the C library is 8192 in \<open>delta\<close>; the packer's arrays have 256 symbols and
  codes of at most 24 levels; the automaton of awk has at most 256 states and 256 leaves
  (\<open>NSTATES\<close>, \<open>MAXLIN\<close>); the stack of \<open>dc\<close> has 100 entries (\<open>STKSZ\<close>). Loops are total functions with a measure
  and use no fuel, with three exceptions. The loop over the states of \<open>cgotofn\<close> is a recursion over
  the numbers below \<open>NSTATES\<close>, which is enough because the table has no more entries. The walk of
  \<open>pack\<close> along the parents of a node is a \<open>partial_function\<close>, and \<open>pack_terminates\<close> shows that it
  ends. The loops of \<open>sqrt\<close> and \<open>exp\<close> are \<open>partial_function\<close>s as well; \<open>sqrt_cmd_exact\<close> and
  \<open>exec_well\<close> show that they return. Integers are words where a wrap-around is visible (checksums, sequence numbers, packed
  bits, hashes, flags) and \<open>nat\<close> or \<open>int\<close> where the range lemmas or the files' sizes exclude it.

  \<^bold>\<open>Not modelled.\<close> System calls, failures of reads and writes, and \<open>malloc\<close> failing are left out
  everywhere. Of the modelled parts: printing and execution in \<open>hashserv.c\<close> and \<open>name.c\<close>; in \<open>dc\<close>
  registers, arrays, macros, strings and output in other bases than ten; in SCCS the header of a new delta (\<open>mkdelt\<close>), keyword
  expansion, messages and file names; file names and statistics of the packer. Whole parts: the
  shell's parser and interpreter and its job control, which are built around \<open>fork\<close>, signals and
  terminals; the other SCCS commands; BNU's devices, dialling and spool directories; awk's grammar
  (a yacc file) and interpreter; the text utilities, filters around the C library; the BSD
  commands and the administration libraries, wrappers around system calls and prompts. The time
  zone compiler (\<open>cmd/zic\<close>), the regular expressions of \<open>cmd/grep\<close> and the newer awk (\<open>cmd/awk\<close>) are
  copies of other projects' code.
\<close>

section \<open>Binary files under SCCS\<close>

text \<open>A text is cut into lines in one way only.\<close>

lemma lines_unique:
  "concat ls = concat ls' \<Longrightarrow> \<forall>l \<in> set ls. is_line l \<Longrightarrow> \<forall>l \<in> set ls'. is_line l \<Longrightarrow> ls = ls'"
proof (induction ls arbitrary: ls')
  case Nil
  then show ?case by (cases ls') (auto simp: is_line_def)
next
  case (Cons l ls)
  from Cons.prems(1,2) obtain l' r where ls': "ls' = l' # r" by (cases ls') (auto simp: is_line_def)
  have "cut_line (l @ concat ls) = cut_line (l' @ concat r)" using Cons.prems(1) ls' by simp
  then have "l = l'" "concat ls = concat r"
    using cut_line_line [of l "concat ls"] cut_line_line [of l' "concat r"] Cons.prems(2,3) ls' by simp_all
  then have "ls = r" using Cons.IH [of r] Cons.prems(2,3) ls' by simp
  with \<open>l = l'\<close> ls' show ?case by simp
qed

lemma lines_length: "\<forall>l \<in> set ls. l \<noteq> [] \<Longrightarrow> length ls \<le> length (concat ls)"
proof (induction ls)
  case (Cons l ls)
  then show ?case by (cases l) auto
qed simp

text \<open>
  C2: A binary file goes through SCCS unchanged: when the new text that \<open>delta\<close> checks in is the
  encoded form of the file, whatever it differs in from the text of the version gotten before, then
  getting the new delta from the weave that \<open>delta\<close> has written, and decoding the lines, yields every
  byte of the file.
\<close>

theorem binary_check_in:
  assumes "at_body A M w pkt" "p_upd pkt" "Xcreate pkt" "p_wrttn pkt" "last (p_line pkt) = Prelude.NL" "p_glnno pkt = 0"
    and "\<forall>x \<in> set w. item_ok x" "version A M w = Inr old" "M < m" "A m" "hunks_ok hs old"
    and "length old < 10 ^ 10" "length (apply_hunks hs old) < 10 ^ 10"
    and "length buf = 80" "concat (apply_hunks hs old) = encode s buf" "\<forall>l \<in> set (apply_hunks hs old). is_line l"
  shows "\<exists>pkt' W. edit_body m (print_diff 0 0 hs old) pkt = Inr (pkt', inserted_by hs, deleted_by hs) \<and>
    Xiop pkt' = Xiop pkt @ print_weave W \<and>
    (\<forall>q. at_body A m W q \<longrightarrow> (\<exists>ls. get_lines q = Inr ls \<and> decode_lines ls = Inr s))"
proof -
  obtain ls where ls: "encode s buf = concat ls" "\<forall>l \<in> set ls. is_line l" "decode_lines ls = Inr s"
    using encode_lines [of buf s] assms(14) by auto
  have eq: "apply_hunks hs old = ls"
    by (rule lines_unique [OF _ assms(16) ls(2)]) (simp only: assms(15) ls(1))
  obtain pkt' W where W: "edit_body m (print_diff 0 0 hs old) pkt = Inr (pkt', inserted_by hs, deleted_by hs)"
      "Xiop pkt' = Xiop pkt @ print_weave W" "version A m W = Inr (apply_hunks hs old)" "\<forall>x \<in> set W. item_ok x"
    using edit_body_spec [OF assms(1-13)] by blast
  have "get_lines q = Inr ls" if "at_body A m W q" for q
    using get_lines_wrun [OF at_body_winv [OF that] _ W(4)] that W(3)
    by (simp add: at_body_def version_def eq)
  then show ?thesis using W(1,2) ls(3) by blast
qed

lemma binary_check_in_witness:
  "\<exists>ls pkt' W. encode ''A'' (replicate 80 NUL) = concat ls \<and>
    edit_body 2 (print_diff 0 0 [(0, 2, ls)] [''one'' @ [Prelude.NL], ''two'' @ [Prelude.NL]]) pkt_2 =
      Inr (pkt', int (length ls), 2) \<and>
    (\<forall>q. at_body (\<lambda>n. True) 2 W q \<longrightarrow> (\<exists>ls. get_lines q = Inr ls \<and> decode_lines ls = Inr ''A''))"
proof -
  let ?old = "[''one'' @ [Prelude.NL], ''two'' @ [Prelude.NL]]"
  obtain ls where ls: "encode ''A'' (replicate 80 NUL) = concat ls"
      "\<forall>l \<in> set ls. is_line l \<and> deref l \<noteq> CTLCHAR \<and> NUL \<notin> set l"
    using encode_lines [of "replicate 80 NUL" "''A''"] by auto
  have "length (encode ''A'' (replicate 80 NUL)) = 8"
    by (simp add: encode.simps [of "''A''"] encode.simps [of "[]"] fr_def e_groups.simps e_outdec_def Let_def)
  then have n: "length ls \<le> 8"
    using lines_length [of ls] ls by (auto simp: is_line_def)
  let ?hs = "[(0, 2, ls)]"
  have h: "hunks_ok ?hs ?old" "apply_hunks ?hs ?old = ls" "inserted_by ?hs = length ls" "deleted_by ?hs = 2"
    using ls(2) by (simp_all add: inserted_by_def deleted_by_def)
  have a: "length (apply_hunks ?hs ?old) < 10 ^ 10" "concat (apply_hunks ?hs ?old) = encode ''A'' (replicate 80 NUL)"
      "\<forall>l \<in> set (apply_hunks ?hs ?old). is_line l"
    unfolding h(2) using n ls by simp_all
  from binary_check_in [OF weave_2_facts(1) pkt_2_facts(1-5) weave_2_facts(2,3) _ _ h(1) pkt_2_facts(7) a(1) _ a(2,3), of 2]
  obtain pkt' W where "edit_body 2 (print_diff 0 0 ?hs ?old) pkt_2 = Inr (pkt', inserted_by ?hs, deleted_by ?hs)"
      "\<forall>q. at_body (\<lambda>n. True) 2 W q \<longrightarrow> (\<exists>ls. get_lines q = Inr ls \<and> decode_lines ls = Inr ''A'')"
    by auto
  then show ?thesis using ls(1) unfolding h(3,4) by blast
qed

end
